(* ===== verification/PgPrelude.thy ===== *)
theory PgPrelude
  imports Main "HOL-Library.Word" "HOL-Library.Signed_Division"
begin

text \<open>
  Shared vocabulary of the development: the machine integer types of the C++ sources, the
  result type of functions that can leave through \<open>ereport(kError, ...)\<close>, the effect of
  \<open>std::vector::resize\<close> and of \<open>memcpy\<close> on byte arrays, the identity of a relation
  file, decimal strings, and the generic facts on lists and words that the component theories use. Facts used by many proofs are collected in
  \<open>pg_simps\<close> (rewriting) and \<open>pg_len\<close> (lengths).
\<close>

unbundle bit_operations_syntax

named_theorems pg_simps \<open>rewrite rules of the modelled data and operations\<close>
named_theorems pg_len \<open>length facts of the modelled arrays\<close>

subsection \<open>Types\<close>

type_synonym u8 = "8 word"
type_synonym u16 = "16 word"
type_synonym u32 = "32 word"
type_synonym u64 = "64 word"

type_synonym TransactionId = u32
type_synonym BlockNumber = u32
type_synonym Oid = u32

text \<open>
  \<open>ereport(LogLevel::kError, msg)\<close> does not return: control leaves the function with the
  message. A function that can do so returns a \<open>result\<close>; the left summand is the
  message.
\<close>

datatype pg_error = Ereport string

type_synonym 'a result = "pg_error + 'a"

subsection \<open>Arrays\<close>

text \<open>\<open>v.resize(n, x)\<close> of \<open>std::vector\<close>.\<close>

definition vec_resize :: "nat \<Rightarrow> 'a \<Rightarrow> 'a list \<Rightarrow> 'a list" where
  "vec_resize n x xs = take n xs @ replicate (n - length xs) x"

text \<open>
  \<open>while (!v.empty() && v.back() == z) v.pop_back();\<close>
\<close>

definition trim_back :: "'a \<Rightarrow> 'a list \<Rightarrow> 'a list" where
  "trim_back z xs = rev (dropWhile (\<lambda>x. x = z) (rev xs))"

text \<open>
  \<open>memcpy(a + off, src, len)\<close> on a byte array \<open>a\<close>; the callers stay inside the array.
\<close>

definition arr_write :: "'a list \<Rightarrow> nat \<Rightarrow> 'a list \<Rightarrow> 'a list" where
  "arr_write a off src = take off a @ src @ drop (off + length src) a"

definition arr_read :: "'a list \<Rightarrow> nat \<Rightarrow> nat \<Rightarrow> 'a list" where
  "arr_read a off len = take len (drop off a)"

text \<open>\<open>v.erase(v.begin() + i)\<close>.\<close>

definition vec_erase :: "nat \<Rightarrow> 'a list \<Rightarrow> 'a list" where
  "vec_erase i xs = take i xs @ drop (Suc i) xs"

text \<open>\<open>std::set::insert\<close>; the list holds the elements in ascending order.\<close>

definition set_insert :: "'a::linorder \<Rightarrow> 'a list \<Rightarrow> 'a list" where
  "set_insert x xs = (if x \<in> set xs then xs else insort x xs)"

text \<open>\<open>m[k] = v\<close> on a \<open>std::map\<close>; the list holds the pairs in ascending key order.\<close>

fun omap_set :: "'k::linorder \<Rightarrow> 'v \<Rightarrow> ('k \<times> 'v) list \<Rightarrow> ('k \<times> 'v) list" where
  "omap_set k v [] = [(k, v)]"
| "omap_set k v ((k', v') # m) =
    (if k < k' then (k, v) # (k', v') # m
     else if k = k' then (k, v) # m
     else (k', v') # omap_set k v m)"

text \<open>The bytes of a \<open>uint32_t\<close> in memory, least significant first.\<close>

definition u32_bytes :: "u32 \<Rightarrow> u8 list" where
  "u32_bytes w = [ucast w, ucast (drop_bit 8 w), ucast (drop_bit 16 w), ucast (drop_bit 24 w)]"

definition bytes_u32 :: "u8 list \<Rightarrow> u32" where
  "bytes_u32 bs = ucast (bs ! 0) OR push_bit 8 (ucast (bs ! 1)) OR push_bit 16 (ucast (bs ! 2)) OR
     push_bit 24 (ucast (bs ! 3))"

subsection \<open>Relation files\<close>

datatype RelFileNode = RelFileNode (spc_node: Oid) (db_node: Oid) (rel_node: Oid)

definition kInvalidBlockNumber :: BlockNumber where "kInvalidBlockNumber = 0xFFFFFFFF"

subsection \<open>Decimal output\<close>

text \<open>\<open>snprintf("%u", n)\<close> and \<open>std::to_string\<close> of a non-negative number.\<close>

fun dec_string :: "nat \<Rightarrow> string" where
  "dec_string n =
    (if n < 10 then [char_of (48 + n)] else dec_string (n div 10) @ [char_of (48 + n mod 10)])"

declare dec_string.simps [simp del]

text \<open>Decimal digits, and the number that a string of them denotes.\<close>

definition is_digit :: "char \<Rightarrow> bool" where
  "is_digit c \<longleftrightarrow> 48 \<le> (of_char c :: nat) \<and> (of_char c :: nat) \<le> 57"

definition dec_number :: "string \<Rightarrow> nat" where
  "dec_number ds = foldl (\<lambda>acc c. 10 * acc + (of_char c - 48)) 0 ds"

subsection \<open>Facts on arrays\<close>

lemma length_vec_resize [simp, pg_len]: "length (vec_resize n x xs) = n"
  by (simp add: vec_resize_def)

lemma nth_vec_resize:
  "i < n \<Longrightarrow> vec_resize n x xs ! i = (if i < length xs then xs ! i else x)"
  by (auto simp: vec_resize_def nth_append)

lemma length_arr_write [simp, pg_len]:
  "off + length src \<le> length a \<Longrightarrow> length (arr_write a off src) = length a"
  by (simp add: arr_write_def)

lemma length_arr_read [pg_len]:
  "off + len \<le> length a \<Longrightarrow> length (arr_read a off len) = len"
  by (simp add: arr_read_def)

lemma nth_arr_write:
  assumes "off + length src \<le> length a" "i < length a"
  shows "arr_write a off src ! i =
    (if off \<le> i \<and> i < off + length src then src ! (i - off) else a ! i)"
  using assms by (auto simp: arr_write_def nth_append min_def)

lemma nth_arr_read: "off + len \<le> length a \<Longrightarrow> i < len \<Longrightarrow> arr_read a off len ! i = a ! (off + i)"
  by (simp add: arr_read_def)

lemma arr_read_write_same:
  "off + length src \<le> length a \<Longrightarrow> n = length src \<Longrightarrow> arr_read (arr_write a off src) off n = src"
  by (simp add: arr_read_def arr_write_def)

lemma arr_read_write_other:
  assumes "off + length src \<le> length a" "off' + n \<le> length a"
    and "off' + n \<le> off \<or> off + length src \<le> off'"
  shows "arr_read (arr_write a off src) off' n = arr_read a off' n"
proof (rule nth_equalityI)
  show "length (arr_read (arr_write a off src) off' n) = length (arr_read a off' n)"
    using assms by (simp add: length_arr_read)
next
  fix i
  assume "i < length (arr_read (arr_write a off src) off' n)"
  then have i: "i < n" using assms by (simp add: length_arr_read)
  then show "arr_read (arr_write a off src) off' n ! i = arr_read a off' n ! i"
    using assms by (auto simp: nth_arr_read nth_arr_write)
qed

lemma length_takeWhile_less: "\<exists>x \<in> set xs. \<not> P x \<Longrightarrow> length (takeWhile P xs) < length xs"
  by (induction xs) auto

lemma trim_back_Nil [simp]: "trim_back z [] = []"
  by (simp add: trim_back_def)

lemma trim_back_snoc [simp]:
  "trim_back z (xs @ [x]) = (if x = z then trim_back z xs else xs @ [x])"
  by (simp add: trim_back_def)

lemma trim_back_append: "\<exists>k. xs = trim_back z xs @ replicate k z"
proof (induction xs rule: rev_induct)
  case Nil
  show ?case by simp
next
  case (snoc x xs)
  then obtain k where k: "xs = trim_back z xs @ replicate k z" by blast
  show ?case
  proof (cases "x = z")
    case True
    have "xs @ [x] = (trim_back z xs @ replicate k z) @ [z]"
      by (simp only: k [symmetric] True)
    also have "\<dots> = trim_back z (xs @ [x]) @ replicate (Suc k) z"
      using True by (simp add: replicate_append_same)
    finally show ?thesis by blast
  next
    case False
    then have "xs @ [x] = trim_back z (xs @ [x]) @ replicate 0 z" by simp
    then show ?thesis by blast
  qed
qed

lemma trim_back_last: "trim_back z xs \<noteq> [] \<Longrightarrow> last (trim_back z xs) \<noteq> z"
  by (induction xs rule: rev_induct) auto

lemma length_trim_back [pg_len]: "length (trim_back z xs) \<le> length xs"
  by (induction xs rule: rev_induct) auto

lemma nth_append_replicate:
  "i < length (ys @ replicate k z) \<Longrightarrow>
    (if i < length ys then ys ! i else z) = (ys @ replicate k z) ! i"
  by (auto simp: nth_append)

lemma nth_trim_back:
  assumes "i < length xs"
  shows "(if i < length (trim_back z xs) then trim_back z xs ! i else z) = xs ! i"
  using trim_back_append [of xs z] nth_append_replicate [of i "trim_back z xs"] assms by metis

lemma set_set_insert [simp]: "set (set_insert x xs) = insert x (set xs)"
  by (auto simp: set_insert_def set_insort_key)

lemma sorted_set_insert: "sorted xs \<Longrightarrow> distinct xs \<Longrightarrow> sorted (set_insert x xs) \<and> distinct (set_insert x xs)"
  by (simp add: set_insert_def sorted_insort distinct_insort)

lemma map_of_omap_set [simp]: "map_of (omap_set k v m) = (map_of m)(k \<mapsto> v)"
  by (induction k v m rule: omap_set.induct) (auto simp: fun_eq_iff)

lemma keys_omap_set: "fst ` set (omap_set k v m) = insert k (fst ` set m)"
  by (induction k v m rule: omap_set.induct) auto

lemma sorted_omap_set:
  "sorted_wrt (<) (map fst m) \<Longrightarrow> sorted_wrt (<) (map fst (omap_set k v m))"
proof (induction k v m rule: omap_set.induct)
  case (2 k v k' v' m)
  then show ?case using keys_omap_set [of k v m] by fastforce
qed simp

lemma foldl_max_le_iff: "(m :: 'a::linorder) \<le> foldl max a xs \<longleftrightarrow> m \<le> a \<or> (\<exists>x \<in> set xs. m \<le> x)"
  by (induction xs arbitrary: a) (auto simp: le_max_iff_disj)

lemma foldl_max_in: "foldl max (a :: 'a::linorder) xs \<in> insert a (set xs)"
proof (induction xs arbitrary: a)
  case (Cons x xs)
  then show ?case using Cons [of "max a x"] by (auto simp: max_def split: if_splits)
qed simp

lemma map_of_map_snd: "map_of (map (\<lambda>(k, v). (k, f v)) xs) k = map_option f (map_of xs k)"
  by (induction xs) auto

subsection \<open>Facts on decimal strings\<close>

lemma digit_char: "d < 10 \<Longrightarrow> of_char (char_of (48 + d) :: char) = (48 + d :: nat)"
  by (simp add: of_char_of)

lemma dec_string_digits: "c \<in> set (dec_string n) \<Longrightarrow> is_digit c"
proof (induction n rule: dec_string.induct)
  case (1 n)
  then show ?case
    using digit_char [of n] digit_char [of "n mod 10"]
    by (subst (asm) dec_string.simps) (auto simp: is_digit_def split: if_splits)
qed

lemma dec_number_snoc: "dec_number (ds @ [c]) = 10 * dec_number ds + (of_char c - 48)"
  by (simp add: dec_number_def)

lemma dec_number_dec_string: "dec_number (dec_string n) = n"
proof (induction n rule: dec_string.induct)
  case (1 n)
  show ?case
  proof (cases "n < 10")
    case True
    then show ?thesis using digit_char [of n] by (simp add: dec_string.simps [of n] dec_number_def)
  next
    case False
    then show ?thesis using 1 digit_char [of "n mod 10"]
      by (subst dec_string.simps) (simp add: dec_number_snoc)
  qed
qed

lemma dec_string_nonempty: "dec_string n \<noteq> []"
  by (subst dec_string.simps) simp

lemma dec_string_inject [simp]: "dec_string m = dec_string n \<longleftrightarrow> m = n"
proof
  assume "dec_string m = dec_string n"
  from arg_cong [OF this, of dec_number] show "m = n" unfolding dec_number_dec_string .
qed simp

subsection \<open>Facts on words\<close>

lemma word_and_mask_eq_0: "(w AND push_bit n 1 = (0 :: 'a::len word)) \<longleftrightarrow> \<not> (bit w n \<and> n < LENGTH('a))"
proof -
  have "w AND push_bit n 1 = (if bit w n then push_bit n 1 else 0)"
    by (rule bit_eqI) (auto simp: bit_simps)
  moreover have "(push_bit n 1 = (0 :: 'a word)) \<longleftrightarrow> \<not> n < LENGTH('a)"
    by (auto simp: bit_eq_iff [where ?'a = "'a word"] bit_simps)
  ultimately show ?thesis by auto
qed

lemma word_eq_0_bits: "(w = (0 :: 'a::len word)) \<longleftrightarrow> (\<forall>n < LENGTH('a). \<not> bit w n)"
  by (auto simp: bit_eq_iff)

lemma length_u32_bytes [simp, pg_len]: "length (u32_bytes w) = 4"
  by (simp add: u32_bytes_def)

lemma bytes_u32_bytes [simp]: "bytes_u32 (u32_bytes w @ xs) = w"
proof (rule bit_word_eqI)
  fix n assume "n < LENGTH(32)"
  then consider "n < 8" | "8 \<le> n" "n < 16" | "16 \<le> n" "n < 24" | "24 \<le> n" "n < 32" by fastforce
  then show "bit (bytes_u32 (u32_bytes w @ xs)) n = bit w n"
    by cases (auto simp: bytes_u32_def u32_bytes_def bit_simps)
qed

lemma bytes_u32_bytes_Nil [simp]: "bytes_u32 (u32_bytes w) = w"
  using bytes_u32_bytes [of w "[]"] by simp

end
