(* ===== verification/BitmapSets.thy ===== *)
theory BitmapSets
  imports PgPrelude
begin

text \<open>
  \<open>src/common/containers/bitmapset.cpp\<close>: sets of non-negative integers packed into 64-bit
  words. The class state is the record \<open>Bitmapset\<close>; the member functions and the
  \<open>bms_*\<close> pointer functions (a null pointer is \<open>None\<close>) follow in source order. The
  abstraction \<open>members\<close> reads a word vector as a set of naturals; every operation is shown
  to be the set operation it stands for, and the trimmed-vector invariant that
  lines 3 to 7 of the source state is kept by every operation.

  A C++ \<open>int\<close> argument is an \<^typ>\<open>int\<close>; the one place where the source could
  overflow is \<open>prevbit + 1\<close> in \<open>NextMember\<close> at \<open>INT_MAX\<close>, which is undefined
  behaviour there and is not an input of the model's theorems that start from a member or
  from -1.
\<close>

subsection \<open>Compiler built-ins\<close>

definition popcount :: "u64 \<Rightarrow> nat" where
  "popcount w = length (filter (bit w) [0..<64])"

text \<open>\<open>__builtin_ctzll\<close> and \<open>__builtin_clzll\<close>, which the source calls on non-zero words.\<close>

definition ctz :: "u64 \<Rightarrow> nat" where
  "ctz w = length (takeWhile (\<lambda>i. \<not> bit w i) [0..<64])"

definition clz :: "u64 \<Rightarrow> nat" where
  "clz w = length (takeWhile (\<lambda>i. \<not> bit w (63 - i)) [0..<64])"

subsection \<open>The class\<close>

record Bitmapset =
  words :: "u64 list"

definition bms_new :: Bitmapset where
  "bms_new = \<lparr>words = []\<rparr>"

definition WordIndex :: "int \<Rightarrow> int" where
  "WordIndex x = x sdiv 64"

definition BitIndex :: "int \<Rightarrow> int" where
  "BitIndex x = x smod 64"

definition BitMask :: "int \<Rightarrow> u64" where
  "BitMask x = push_bit (nat (BitIndex x)) 1"

definition EnsureCapacity :: "int \<Rightarrow> Bitmapset \<Rightarrow> Bitmapset" where
  "EnsureCapacity x s =
    (if x < 0 then s
     else let needed = WordIndex x + 1 in
       if int (length (words s)) < needed
       then s\<lparr>words := vec_resize (nat needed) 0 (words s)\<rparr> else s)"

definition IsEmpty :: "Bitmapset \<Rightarrow> bool" where
  "IsEmpty s = list_all (\<lambda>w. w = 0) (words s)"

definition NumMembers :: "Bitmapset \<Rightarrow> int" where
  "NumMembers s = int (sum_list (map popcount (words s)))"

fun min_loop :: "nat \<Rightarrow> u64 list \<Rightarrow> int" where
  "min_loop i [] = -1"
| "min_loop i (w # ws) = (if w \<noteq> 0 then int i * 64 + int (ctz w) else min_loop (Suc i) ws)"

definition MinMember :: "Bitmapset \<Rightarrow> int" where
  "MinMember s = min_loop 0 (words s)"

fun max_loop :: "u64 list \<Rightarrow> nat \<Rightarrow> int" where
  "max_loop ws 0 = -1"
| "max_loop ws (Suc i) =
    (let w = ws ! i in if w \<noteq> 0 then int i * 64 + (63 - int (clz w)) else max_loop ws i)"

definition MaxMember :: "Bitmapset \<Rightarrow> int" where
  "MaxMember s = max_loop (words s) (length (words s))"

definition AddMember :: "int \<Rightarrow> Bitmapset \<Rightarrow> Bitmapset" where
  "AddMember x s =
    (if x < 0 then s
     else let s' = EnsureCapacity x s; idx = nat (WordIndex x) in
       s'\<lparr>words := (words s')[idx := (words s' ! idx) OR BitMask x]\<rparr>)"

definition DelMember :: "int \<Rightarrow> Bitmapset \<Rightarrow> Bitmapset" where
  "DelMember x s =
    (if x < 0 then s
     else let idx = WordIndex x in
       if idx < int (length (words s))
       then s\<lparr>words := trim_back 0
              ((words s)[nat idx := (words s ! nat idx) AND NOT (BitMask x)])\<rparr>
       else s)"

definition IsMember :: "int \<Rightarrow> Bitmapset \<Rightarrow> bool" where
  "IsMember x s =
    (if x < 0 then False
     else let idx = WordIndex x in
       if idx \<ge> int (length (words s)) then False
       else (words s ! nat idx) AND BitMask x \<noteq> 0)"

text \<open>\<open>i < v.size() ? v[i] : 0\<close>\<close>

definition word_at :: "u64 list \<Rightarrow> nat \<Rightarrow> u64" where
  "word_at ws i = (if i < length ws then ws ! i else 0)"

definition Equals :: "Bitmapset \<Rightarrow> Bitmapset \<Rightarrow> bool" where
  "Equals s t =
    (let n = max (length (words s)) (length (words t))
     in list_all (\<lambda>i. word_at (words s) i = word_at (words t) i) [0..<n])"

definition Overlap :: "Bitmapset \<Rightarrow> Bitmapset \<Rightarrow> bool" where
  "Overlap s t =
    (let n = min (length (words s)) (length (words t))
     in list_ex (\<lambda>i. (words s ! i) AND (words t ! i) \<noteq> 0) [0..<n])"

definition IsSubset :: "Bitmapset \<Rightarrow> Bitmapset \<Rightarrow> bool" where
  "IsSubset s t =
    list_all (\<lambda>i. (words s ! i) AND NOT (word_at (words t) i) = 0) [0..<length (words s)]"

definition NonemptyDifference :: "Bitmapset \<Rightarrow> Bitmapset \<Rightarrow> bool" where
  "NonemptyDifference s t =
    list_ex (\<lambda>i. (words s ! i) AND NOT (word_at (words t) i) \<noteq> 0) [0..<length (words s)]"

definition Bms_Union :: "Bitmapset \<Rightarrow> Bitmapset \<Rightarrow> Bitmapset" where
  "Bms_Union s t =
    (let nb = length (words t);
         r = (if length (words s) < nb then vec_resize nb 0 (words s) else words s)
     in \<lparr>words = map (\<lambda>i. if i < nb then (r ! i) OR (words t ! i) else r ! i) [0..<length r]\<rparr>)"

definition Bms_Intersect :: "Bitmapset \<Rightarrow> Bitmapset \<Rightarrow> Bitmapset" where
  "Bms_Intersect s t =
    (let n = min (length (words s)) (length (words t))
     in \<lparr>words = trim_back 0 (map (\<lambda>i. (words s ! i) AND (words t ! i)) [0..<n])\<rparr>)"

definition Bms_Difference :: "Bitmapset \<Rightarrow> Bitmapset \<Rightarrow> Bitmapset" where
  "Bms_Difference s t =
    (let n = min (length (words s)) (length (words t))
     in \<lparr>words = trim_back 0 (map (\<lambda>i. if i < n then (words s ! i) AND NOT (words t ! i)
                                      else words s ! i) [0..<length (words s)])\<rparr>)"

definition MakeSingleton :: "int \<Rightarrow> Bitmapset" where
  "MakeSingleton x = AddMember x bms_new"

function next_loop :: "u64 list \<Rightarrow> nat \<Rightarrow> u64 \<Rightarrow> int" where
  "next_loop ws idx w =
    (if w \<noteq> 0 then int idx * 64 + int (ctz w)
     else if Suc idx \<ge> length ws then -2
     else next_loop ws (Suc idx) (ws ! Suc idx))"
  by pat_completeness auto
termination
  by (relation "measure (\<lambda>(ws, idx, w). length ws - idx)") auto

definition NextMember :: "int \<Rightarrow> Bitmapset \<Rightarrow> int" where
  "NextMember prevbit s =
    (let start = (if prevbit + 1 < 0 then 0 else prevbit + 1);
         idx = WordIndex start; b = BitIndex start
     in if idx \<ge> int (length (words s)) then -2
        else next_loop (words s) (nat idx) ((words s ! nat idx) AND push_bit (nat b) (NOT 0)))"

subsection \<open>The pointer functions\<close>

type_synonym bms_ptr = "Bitmapset option"

definition bms_make_singleton :: "int \<Rightarrow> bms_ptr" where
  "bms_make_singleton x = Some (MakeSingleton x)"

definition bms_add_member :: "bms_ptr \<Rightarrow> int \<Rightarrow> bms_ptr" where
  "bms_add_member a x =
    Some (AddMember x (case a of None \<Rightarrow> bms_new | Some s \<Rightarrow> s))"

definition bms_del_member :: "bms_ptr \<Rightarrow> int \<Rightarrow> bms_ptr" where
  "bms_del_member a x = (case a of None \<Rightarrow> None | Some s \<Rightarrow> Some (DelMember x s))"

definition bms_is_member :: "int \<Rightarrow> bms_ptr \<Rightarrow> bool" where
  "bms_is_member x a = (case a of None \<Rightarrow> False | Some s \<Rightarrow> IsMember x s)"

definition bms_is_empty :: "bms_ptr \<Rightarrow> bool" where
  "bms_is_empty a = (case a of None \<Rightarrow> True | Some s \<Rightarrow> IsEmpty s)"

definition bms_num_members :: "bms_ptr \<Rightarrow> int" where
  "bms_num_members a = (case a of None \<Rightarrow> 0 | Some s \<Rightarrow> NumMembers s)"

definition bms_copy :: "bms_ptr \<Rightarrow> bms_ptr" where
  "bms_copy a = (case a of None \<Rightarrow> None | Some s \<Rightarrow> Some s)"

fun bms_union :: "bms_ptr \<Rightarrow> bms_ptr \<Rightarrow> bms_ptr" where
  "bms_union None None = None"
| "bms_union None (Some t) = Some t"
| "bms_union (Some s) None = Some s"
| "bms_union (Some s) (Some t) = Some (Bms_Union s t)"

fun bms_intersect :: "bms_ptr \<Rightarrow> bms_ptr \<Rightarrow> bms_ptr" where
  "bms_intersect (Some s) (Some t) = Some (Bms_Intersect s t)"
| "bms_intersect _ _ = None"

fun bms_difference :: "bms_ptr \<Rightarrow> bms_ptr \<Rightarrow> bms_ptr" where
  "bms_difference None _ = None"
| "bms_difference (Some s) None = Some s"
| "bms_difference (Some s) (Some t) = Some (Bms_Difference s t)"

text \<open>
  The source first compares the pointers; equal non-null pointers name the same object, for
  which \<open>Equals\<close> answers true as well, so that test needs no case of its own.
\<close>

fun bms_equal :: "bms_ptr \<Rightarrow> bms_ptr \<Rightarrow> bool" where
  "bms_equal None None = True"
| "bms_equal None (Some t) = IsEmpty t"
| "bms_equal (Some s) None = IsEmpty s"
| "bms_equal (Some s) (Some t) = Equals s t"

fun bms_overlap :: "bms_ptr \<Rightarrow> bms_ptr \<Rightarrow> bool" where
  "bms_overlap (Some s) (Some t) = Overlap s t"
| "bms_overlap _ _ = False"

fun bms_is_subset :: "bms_ptr \<Rightarrow> bms_ptr \<Rightarrow> bool" where
  "bms_is_subset None _ = True"
| "bms_is_subset (Some s) None = IsEmpty s"
| "bms_is_subset (Some s) (Some t) = IsSubset s t"

fun bms_nonempty_difference :: "bms_ptr \<Rightarrow> bms_ptr \<Rightarrow> bool" where
  "bms_nonempty_difference None _ = False"
| "bms_nonempty_difference (Some s) None = (\<not> IsEmpty s)"
| "bms_nonempty_difference (Some s) (Some t) = NonemptyDifference s t"

definition bms_next_member :: "bms_ptr \<Rightarrow> int \<Rightarrow> int" where
  "bms_next_member a prevbit = (case a of None \<Rightarrow> -2 | Some s \<Rightarrow> NextMember prevbit s)"

definition bms_minimum_member :: "bms_ptr \<Rightarrow> int" where
  "bms_minimum_member a = (case a of None \<Rightarrow> -1 | Some s \<Rightarrow> MinMember s)"

subsection \<open>Abstraction and invariant\<close>

definition members :: "Bitmapset \<Rightarrow> nat set" where
  "members s = {x. bit (word_at (words s) (x div 64)) (x mod 64)}"

definition trimmed :: "Bitmapset \<Rightarrow> bool" where
  "trimmed s = (words s = [] \<or> last (words s) \<noteq> 0)"

definition ptr_members :: "bms_ptr \<Rightarrow> nat set" where
  "ptr_members a = (case a of None \<Rightarrow> {} | Some s \<Rightarrow> members s)"

definition ptr_trimmed :: "bms_ptr \<Rightarrow> bool" where
  "ptr_trimmed a = (case a of None \<Rightarrow> True | Some s \<Rightarrow> trimmed s)"

subsection \<open>Words as bit sets\<close>

lemma members_iff: "x \<in> members s \<longleftrightarrow> bit (word_at (words s) (x div 64)) (x mod 64)"
  by (simp add: members_def)

lemma WordIndex_nonneg: "0 \<le> x \<Longrightarrow> WordIndex x = int (nat x div 64)"
  by (cases "x = 0") (simp_all add: WordIndex_def signed_divide_int_def zdiv_int)

lemma BitIndex_nonneg: "0 \<le> x \<Longrightarrow> BitIndex x = int (nat x mod 64)"
  by (cases "x = 0")
    (simp_all add: BitIndex_def signed_modulo_int_def signed_divide_int_def zmod_int
      minus_div_mult_eq_mod)

lemma nat_WordIndex: "0 \<le> x \<Longrightarrow> nat (WordIndex x) = nat x div 64"
  by (simp add: WordIndex_nonneg)

lemma nat_BitIndex: "0 \<le> x \<Longrightarrow> nat (BitIndex x) = nat x mod 64"
  by (simp add: BitIndex_nonneg)

lemmas index_simps = WordIndex_nonneg BitIndex_nonneg nat_WordIndex nat_BitIndex

lemma bit_BitMask: "0 \<le> x \<Longrightarrow> bit (BitMask x) n \<longleftrightarrow> n = nat x mod 64"
  by (auto simp: BitMask_def index_simps bit_simps)

lemma and_BitMask_eq_0: "0 \<le> x \<Longrightarrow> w AND BitMask x = 0 \<longleftrightarrow> \<not> bit w (nat x mod 64)"
  using mod_less_divisor [of 64 "nat x"]
  by (auto simp: word_eq_0_bits bit_and_iff bit_BitMask simp del: mod_less_divisor)

lemma word_at_cong_members:
  "(\<forall>i. word_at (words s) i = word_at (words t) i) \<longleftrightarrow> members s = members t"
proof
  assume "members s = members t"
  then have eq: "bit (word_at (words s) (x div 64)) (x mod 64) =
      bit (word_at (words t) (x div 64)) (x mod 64)" for x
    by (metis members_iff)
  show "\<forall>i. word_at (words s) i = word_at (words t) i"
  proof (intro allI bit_word_eqI)
    fix i n :: nat
    assume "n < LENGTH(64)"
    then have n: "(64 * i + n) div 64 = i" "(64 * i + n) mod 64 = n" by simp_all
    show "bit (word_at (words s) i) n = bit (word_at (words t) i) n"
      using eq [of "64 * i + n"] unfolding n .
  qed
qed (simp add: members_def)

lemma word_at_beyond: "length ws \<le> i \<Longrightarrow> word_at ws i = 0"
  by (simp add: word_at_def)

lemma word_at_trim_back: "word_at (trim_back 0 ws) i = word_at ws i"
proof (cases "i < length ws")
  case True
  then show ?thesis using nth_trim_back [OF True, of 0] by (simp add: word_at_def)
next
  case False
  then show ?thesis using length_trim_back [of 0 ws] by (simp add: word_at_def)
qed

lemma word_at_map:
  "word_at (map f [0..<n]) i = (if i < n then f i else 0)"
  by (simp add: word_at_def)

lemma word_at_resize:
  "length ws \<le> n \<Longrightarrow> word_at (vec_resize n 0 ws) i = word_at ws i"
  by (auto simp: word_at_def nth_vec_resize)

lemma word_at_update:
  "i < length ws \<Longrightarrow> word_at (ws[i := w]) j = (if j = i then w else word_at ws j)"
  by (auto simp: word_at_def)

lemma IsEmpty_word_at: "IsEmpty s \<longleftrightarrow> (\<forall>i. word_at (words s) i = 0)"
  by (force simp: IsEmpty_def word_at_def list_all_length)

subsection \<open>The operations as set operations\<close>

lemma members_new [simp]: "members bms_new = {}"
  by (simp add: members_def bms_new_def word_at_def)

lemma IsEmpty_iff: "IsEmpty s \<longleftrightarrow> members s = {}"
  using word_at_cong_members [of s bms_new]
  by (simp add: IsEmpty_word_at) (simp add: bms_new_def word_at_def)

lemma IsMember_iff: "IsMember x s \<longleftrightarrow> 0 \<le> x \<and> nat x \<in> members s"
proof (cases "0 \<le> x")
  case True
  then show ?thesis
    by (auto simp: IsMember_def members_iff index_simps word_at_def and_BitMask_eq_0)
next
  case False
  then show ?thesis by (simp add: IsMember_def)
qed

lemma EnsureCapacity_words:
  assumes "0 \<le> x"
  shows "word_at (words (EnsureCapacity x s)) i = word_at (words s) i"
    and "nat x div 64 < length (words (EnsureCapacity x s))"
  using assms by (auto simp: EnsureCapacity_def index_simps Let_def word_at_resize)

lemma members_AddMember:
  "members (AddMember x s) = (if 0 \<le> x then insert (nat x) (members s) else members s)"
proof (cases "0 \<le> x")
  case True
  let ?c = "EnsureCapacity x s"
  let ?i = "nat x div 64"
  have len: "?i < length (words ?c)" by (rule EnsureCapacity_words(2) [OF True])
  then have eq: "words ?c ! ?i = word_at (words s) ?i"
    using EnsureCapacity_words(1) [OF True, of s ?i] by (simp add: word_at_def)
  have "word_at (words (AddMember x s)) j =
      (if j = ?i then word_at (words s) ?i OR BitMask x else word_at (words s) j)" for j
    using True len eq
    by (simp add: AddMember_def index_simps Let_def word_at_update EnsureCapacity_words(1))
  then have "y \<in> members (AddMember x s) \<longleftrightarrow> y = nat x \<or> y \<in> members s" for y
    using True by (auto simp: members_iff bit_or_iff bit_BitMask)
      (metis div_mod_decomp)
  then show ?thesis using True by auto
qed (simp add: AddMember_def)

lemma members_DelMember:
  "members (DelMember x s) = (if 0 \<le> x then members s - {nat x} else members s)"
proof (cases "0 \<le> x")
  case True
  let ?i = "nat x div 64"
  have "word_at (words (DelMember x s)) j =
      (if j = ?i then word_at (words s) ?i AND NOT (BitMask x) else word_at (words s) j)" for j
    using True by (cases "?i < length (words s)")
      (simp_all add: DelMember_def index_simps word_at_trim_back word_at_update word_at_beyond
        word_at_def [of "words s" ?i])
  then have "y \<in> members (DelMember x s) \<longleftrightarrow> y \<noteq> nat x \<and> y \<in> members s" for y
    using True by (auto simp: members_iff bit_and_iff bit_not_iff bit_BitMask)
      (metis div_mod_decomp)
  then show ?thesis using True by auto
qed (simp add: DelMember_def)

lemma word_at_Union:
  "word_at (words (Bms_Union s t)) i = word_at (words s) i OR word_at (words t) i"
  by (auto simp: Bms_Union_def Let_def word_at_map nth_vec_resize) (auto simp: word_at_def)

lemma word_at_Intersect:
  "word_at (words (Bms_Intersect s t)) i = word_at (words s) i AND word_at (words t) i"
  by (auto simp: Bms_Intersect_def Let_def word_at_trim_back word_at_map) (auto simp: word_at_def)

lemma word_at_Difference:
  "word_at (words (Bms_Difference s t)) i = word_at (words s) i AND NOT (word_at (words t) i)"
  by (auto simp: Bms_Difference_def Let_def word_at_trim_back word_at_map) (auto simp: word_at_def)

lemma members_Union: "members (Bms_Union s t) = members s \<union> members t"
  by (auto simp: members_iff word_at_Union bit_or_iff)

lemma members_Intersect: "members (Bms_Intersect s t) = members s \<inter> members t"
  by (auto simp: members_iff word_at_Intersect bit_and_iff)

lemma members_Difference: "members (Bms_Difference s t) = members s - members t"
  by (auto simp: members_iff word_at_Difference bit_and_iff bit_not_iff)

lemma Equals_iff: "Equals s t \<longleftrightarrow> members s = members t"
proof -
  have "Equals s t \<longleftrightarrow> (\<forall>i. word_at (words s) i = word_at (words t) i)"
    by (auto simp: Equals_def Let_def list_all_iff)
      (metis atLeastLessThan_iff linorder_not_le max.bounded_iff word_at_beyond zero_le)
  then show ?thesis by (simp add: word_at_cong_members)
qed

lemma IsSubset_word_at:
  "IsSubset s t \<longleftrightarrow> IsEmpty (Bms_Difference s t)"
proof -
  have "IsSubset s t \<longleftrightarrow> (\<forall>i. word_at (words s) i AND NOT (word_at (words t) i) = 0)"
    by (auto simp: IsSubset_def list_all_iff) (auto simp: word_at_def split: if_splits)
  then show ?thesis by (simp add: IsEmpty_word_at word_at_Difference)
qed

lemma IsSubset_iff: "IsSubset s t \<longleftrightarrow> members s \<subseteq> members t"
  by (auto simp: IsSubset_word_at IsEmpty_iff members_Difference)

lemma NonemptyDifference_iff: "NonemptyDifference s t \<longleftrightarrow> \<not> members s \<subseteq> members t"
proof -
  have "NonemptyDifference s t \<longleftrightarrow> \<not> IsSubset s t"
    by (simp add: NonemptyDifference_def IsSubset_def list_ex_iff list_all_iff)
  then show ?thesis by (simp add: IsSubset_iff)
qed

lemma Overlap_iff: "Overlap s t \<longleftrightarrow> members s \<inter> members t \<noteq> {}"
proof -
  have "\<not> Overlap s t \<longleftrightarrow> (\<forall>i. word_at (words s) i AND word_at (words t) i = 0)"
    by (auto simp: Overlap_def Let_def list_ex_iff) (auto simp: word_at_def split: if_splits)
  also have "\<dots> \<longleftrightarrow> IsEmpty (Bms_Intersect s t)"
    by (simp add: IsEmpty_word_at word_at_Intersect)
  finally show ?thesis by (auto simp: IsEmpty_iff members_Intersect)
qed

subsection \<open>Counting and searching\<close>

lemma finite_members [simp]: "finite (members s)"
proof -
  have "members s \<subseteq> {..<64 * length (words s)}"
    by (auto simp: members_iff word_at_def split: if_splits)
  then show ?thesis using finite_subset by blast
qed

lemma members_less: "x \<in> members s \<Longrightarrow> x < 64 * length (words s)"
  by (auto simp: members_iff word_at_def split: if_splits)

lemma nonzero_bit: "w \<noteq> (0::u64) \<Longrightarrow> \<exists>i < 64. bit w i"
  using word_eq_0_bits [of w] by auto

lemma ctz_props:
  assumes "w \<noteq> 0"
  shows "ctz w < 64" "bit w (ctz w)" "j < ctz w \<Longrightarrow> \<not> bit w j"
proof -
  let ?P = "\<lambda>i. \<not> bit w i"
  have ex: "\<exists>i \<in> set [0..<64]. \<not> ?P i" using nonzero_bit [OF assms] by force
  then have len: "length (takeWhile ?P [0..<64]) < length [0..<64::nat]"
    by (rule length_takeWhile_less)
  then show lt: "ctz w < 64" by (simp add: ctz_def)
  have "\<not> ?P ([0..<64] ! length (takeWhile ?P [0..<64]))"
    using len by (rule nth_length_takeWhile)
  with lt show "bit w (ctz w)" by (simp add: ctz_def)
  assume j: "j < ctz w"
  then have "takeWhile ?P [0..<64] ! j = [0..<64] ! j"
    by (simp add: ctz_def takeWhile_nth)
  moreover have "takeWhile ?P [0..<64] ! j \<in> set (takeWhile ?P [0..<64])"
    using j by (simp add: ctz_def)
  ultimately show "\<not> bit w j" using j lt by (metis (no_types, lifting) add_0 less_trans nth_upt set_takeWhileD)
qed

lemma clz_props:
  assumes "w \<noteq> 0"
  shows "clz w < 64" "bit w (63 - clz w)" "j < 64 \<Longrightarrow> 63 - clz w < j \<Longrightarrow> \<not> bit w j"
proof -
  let ?P = "\<lambda>i. \<not> bit w (63 - i)"
  obtain i where i: "i < 64" "bit w i" using nonzero_bit [OF assms] by blast
  then have "\<not> ?P (63 - i)" by simp
  moreover have "63 - i \<in> set [0..<64]" using i by simp
  ultimately have ex: "\<exists>k \<in> set [0..<64]. \<not> ?P k" by blast
  then have len: "length (takeWhile ?P [0..<64]) < length [0..<64::nat]"
    by (rule length_takeWhile_less)
  then show lt: "clz w < 64" by (simp add: clz_def)
  have "\<not> ?P ([0..<64] ! length (takeWhile ?P [0..<64]))"
    using len by (rule nth_length_takeWhile)
  with lt show "bit w (63 - clz w)" by (simp add: clz_def)
  assume j: "j < 64" "63 - clz w < j"
  then have k: "63 - j < clz w" by arith
  then have "takeWhile ?P [0..<64] ! (63 - j) = [0..<64] ! (63 - j)"
    by (simp add: clz_def takeWhile_nth)
  moreover have "takeWhile ?P [0..<64] ! (63 - j) \<in> set (takeWhile ?P [0..<64])"
    using k by (simp add: clz_def)
  moreover have "[0..<64] ! (63 - j) = 63 - j" using j by simp
  ultimately have "?P (63 - j)" by (metis (no_types, lifting) set_takeWhileD)
  moreover have "63 - (63 - j) = j" using j by simp
  ultimately show "\<not> bit w j" by simp
qed

lemma members_Cons:
  "members \<lparr>words = w # ws\<rparr> = {x. x < 64 \<and> bit w x} \<union> (\<lambda>x. x + 64) ` members \<lparr>words = ws\<rparr>"
proof -
  have "x \<in> members \<lparr>words = w # ws\<rparr> \<longleftrightarrow>
      (if x < 64 then bit w x else x - 64 \<in> members \<lparr>words = ws\<rparr>)" for x
  proof (cases "x < 64")
    case False
    then have "x div 64 = Suc ((x - 64) div 64)" "x mod 64 = (x - 64) mod 64"
      by (simp_all add: le_div_geq le_mod_geq)
    with False show ?thesis by (simp add: members_iff word_at_def)
  qed (simp add: members_iff word_at_def)
  moreover have "x \<in> (\<lambda>x. x + 64) ` A \<longleftrightarrow> 64 \<le> x \<and> x - 64 \<in> A" for x :: nat and A
    by (auto simp: image_iff) (metis le_add_diff_inverse2)
  ultimately show ?thesis by (auto split: if_splits)
qed

lemma card_word_bits: "card {x. x < 64 \<and> bit (w::u64) x} = popcount w"
proof -
  have "{x. x < 64 \<and> bit w x} = set (filter (bit w) [0..<64])" by auto
  moreover have "distinct (filter (bit w) [0..<64])" by simp
  ultimately show ?thesis by (metis distinct_card popcount_def)
qed

lemma card_members: "int (card (members s)) = NumMembers s"
proof -
  have "card (members \<lparr>words = ws\<rparr>) = sum_list (map popcount ws)" for ws
  proof (induction ws)
    case Nil
    show ?case using members_new by (simp add: bms_new_def)
  next
    case (Cons w ws)
    have "card (members \<lparr>words = w # ws\<rparr>) =
        card {x. x < 64 \<and> bit w x} + card ((\<lambda>x. x + 64) ` members \<lparr>words = ws\<rparr>)"
      unfolding members_Cons by (rule card_Un_disjoint) auto
    also have "card ((\<lambda>x. x + 64) ` members \<lparr>words = ws\<rparr>) = card (members \<lparr>words = ws\<rparr>)"
      by (rule card_image) (simp add: inj_on_def)
    finally show ?case by (simp add: card_word_bits Cons.IH)
  qed
  then show ?thesis by (cases s) (simp add: NumMembers_def)
qed

text \<open>The search loops return the least (greatest) element of the set they scan.\<close>

definition least_or :: "int \<Rightarrow> nat set \<Rightarrow> int" where
  "least_or d A = (if A = {} then d else int (LEAST x. x \<in> A))"

lemma least_orI: "x \<in> A \<Longrightarrow> (\<And>y. y \<in> A \<Longrightarrow> x \<le> y) \<Longrightarrow> least_or d A = int x"
  unfolding least_or_def using Least_equality [of "\<lambda>x. x \<in> A" x] by auto

lemma least_or_empty [simp]: "least_or d {} = d"
  by (simp add: least_or_def)

lemma min_loop_spec:
  "min_loop i ws = least_or (-1) ((\<lambda>x. x + 64 * i) ` members \<lparr>words = ws\<rparr>)"
proof (induction i ws rule: min_loop.induct)
  case (1 i)
  show ?case using members_new by (simp add: bms_new_def)
next
  case (2 i w ws)
  show ?case
  proof (cases "w = 0")
    case True
    then have "(\<lambda>x. x + 64 * i) ` members \<lparr>words = w # ws\<rparr> =
        (\<lambda>x. x + 64 * Suc i) ` members \<lparr>words = ws\<rparr>"
      by (auto simp: members_Cons image_image algebra_simps)
    with 2 True show ?thesis by simp
  next
    case False
    have "least_or (-1) ((\<lambda>x. x + 64 * i) ` members \<lparr>words = w # ws\<rparr>) = int (ctz w + 64 * i)"
      using ctz_props [OF False]
      by (intro least_orI) (auto simp: members_Cons not_less [symmetric])
    with False show ?thesis by simp
  qed
qed

lemma MinMember_spec: "MinMember s = least_or (-1) (members s)"
  by (cases s) (simp add: MinMember_def min_loop_spec)

lemma max_loop_spec:
  assumes "i \<le> length ws" and "\<And>j. i \<le> j \<Longrightarrow> word_at ws j = 0"
  shows "max_loop ws i = (if members \<lparr>words = ws\<rparr> = {} then -1 else int (Max (members \<lparr>words = ws\<rparr>)))"
  using assms
proof (induction ws i rule: max_loop.induct)
  case (1 ws)
  then have "members \<lparr>words = ws\<rparr> = {}" by (simp add: members_def)
  then show ?case by simp
next
  case (2 ws i)
  have wi: "word_at ws i = ws ! i" using 2(2) by (simp add: word_at_def)
  show ?case
  proof (cases "ws ! i = 0")
    case True
    then have "word_at ws j = 0" if "i \<le> j" for j
      using that 2(3) wi by (cases "i = j") auto
    with 2 True show ?thesis by simp
  next
    case False
    note c = clz_props [OF False]
    define k where "k = 63 - clz (ws ! i)"
    let ?m = "64 * i + k"
    have k: "k < 64" "bit (ws ! i) k" "\<And>j. j < 64 \<Longrightarrow> k < j \<Longrightarrow> \<not> bit (ws ! i) j"
      using c by (simp_all add: k_def)
    have m: "?m \<in> members \<lparr>words = ws\<rparr>"
      using k by (simp add: members_iff wi)
    have "y \<le> ?m" if y: "y \<in> members \<lparr>words = ws\<rparr>" for y
    proof -
      have b: "bit (word_at ws (y div 64)) (y mod 64)" using y by (simp add: members_iff)
      then have "\<not> Suc i \<le> y div 64" using 2(3) by force
      moreover have "y mod 64 \<le> k" if "y div 64 = i"
        using b k(3) [of "y mod 64"] wi that by (auto simp: not_less [symmetric])
      ultimately show ?thesis
        using div_mult_mod_eq [of y 64] by (cases "y div 64 = i") auto
    qed
    then have "Max (members \<lparr>words = ws\<rparr>) = ?m" using m by (intro Max_eqI) auto
    moreover have "int i * 64 + (63 - int (clz (ws ! i))) = int ?m"
      using c(1) by (simp add: k_def)
    ultimately show ?thesis using False m by (auto simp: Let_def)
  qed
qed

lemma MaxMember_spec:
  "MaxMember s = (if members s = {} then -1 else int (Max (members s)))"
  using max_loop_spec [of "length (words s)" "words s"]
  by (cases s) (simp add: MaxMember_def word_at_def)

declare next_loop.simps [simp del]

lemma next_loop_spec:
  assumes "idx < length ws"
  shows "next_loop ws idx w =
    least_or (-2) ({x. x div 64 = idx \<and> bit w (x mod 64)} \<union> {x \<in> members \<lparr>words = ws\<rparr>. idx < x div 64})"
  using assms
proof (induction ws idx w rule: next_loop.induct)
  case (1 ws idx w)
  let ?A = "{x. x div 64 = idx \<and> bit w (x mod 64)} \<union> {x \<in> members \<lparr>words = ws\<rparr>. idx < x div 64}"
  show ?case
  proof (cases "w = 0")
    case False
    note c = ctz_props [OF False]
    have "least_or (-2) ?A = int (64 * idx + ctz w)"
    proof (rule least_orI)
      show "64 * idx + ctz w \<in> ?A" using c by simp
    next
      fix y assume y: "y \<in> ?A"
      show "64 * idx + ctz w \<le> y"
      proof (cases "y div 64 = idx")
        case True
        then have "\<not> y mod 64 < ctz w" using y c(3) by auto
        then show ?thesis using True div_mult_mod_eq [of y 64] by simp
      next
        case F: False
        then have "idx < y div 64" using y by auto
        then show ?thesis using c(1) div_mult_mod_eq [of y 64] by auto
      qed
    qed
    with False show ?thesis by (simp add: next_loop.simps [of ws idx w])
  next
    case w0: True
    show ?thesis
    proof (cases "Suc idx \<ge> length ws")
      case True
      have "?A = {}"
        using True w0 by (auto simp: members_iff word_at_def split: if_splits)
      then have "least_or (-2) ?A = -2" by (simp only: least_or_empty)
      moreover have "next_loop ws idx w = -2"
        using w0 True by (simp add: next_loop.simps [of ws idx 0])
      ultimately show ?thesis by simp
    next
      case False
      have "?A = {x. x div 64 = Suc idx \<and> bit (ws ! Suc idx) (x mod 64)} \<union>
          {x \<in> members \<lparr>words = ws\<rparr>. Suc idx < x div 64}"
        using w0 False
        by (auto simp: members_iff word_at_def split: if_splits) (metis Suc_lessI)
      moreover have "next_loop ws idx w = next_loop ws (Suc idx) (ws ! Suc idx)"
        using w0 False by (simp add: next_loop.simps [of ws idx 0])
      ultimately show ?thesis using 1 w0 False by simp
    qed
  qed
qed

lemma le_digits: "b < (64::nat) \<Longrightarrow> d < 64 \<Longrightarrow> 64 * c + d \<le> 64 * a + b \<longleftrightarrow> c < a \<or> c = a \<and> d \<le> b"
  by arith

lemma le_div_mod_64:
  "(y::nat) \<le> x \<longleftrightarrow> y div 64 < x div 64 \<or> (y div 64 = x div 64 \<and> y mod 64 \<le> x mod 64)"
  using le_digits [of "x mod 64" "y mod 64" "y div 64" "x div 64"] by simp

lemma NextMember_spec: "NextMember p s = least_or (-2) {x \<in> members s. p < int x}"
proof -
  define st where "st = nat (p + 1)"
  have start: "(if p + 1 < 0 then 0 else p + 1) = int st" by (simp add: st_def)
  have gt: "p < int x \<longleftrightarrow> st \<le> x" for x unfolding st_def by arith
  have N: "NextMember p s = (if length (words s) \<le> st div 64 then -2
      else next_loop (words s) (st div 64) ((words s ! (st div 64)) AND push_bit (st mod 64) (NOT 0)))"
    unfolding NextMember_def start by (simp add: Let_def index_simps)
  have le: "st \<le> x \<longleftrightarrow> st div 64 < x div 64 \<or> (st div 64 = x div 64 \<and> st mod 64 \<le> x mod 64)" for x
    by (rule le_div_mod_64)
  show ?thesis
  proof (cases "length (words s) \<le> st div 64")
    case True
    then have "{x \<in> members s. p < int x} = {}"
      by (auto simp: gt le members_iff word_at_def split: if_splits)
    then have "least_or (-2) {x \<in> members s. p < int x} = -2" by (simp only: least_or_empty)
    with True N show ?thesis by simp
  next
    case False
    have "bit ((words s ! (st div 64)) AND push_bit (st mod 64) (NOT 0)) (x mod 64) \<longleftrightarrow>
        bit (words s ! (st div 64)) (x mod 64) \<and> st mod 64 \<le> x mod 64" for x
      by (auto simp: bit_simps)
    then have "{x. x div 64 = st div 64 \<and>
          bit ((words s ! (st div 64)) AND push_bit (st mod 64) (NOT 0)) (x mod 64)} \<union>
        {x \<in> members \<lparr>words = words s\<rparr>. st div 64 < x div 64} = {x \<in> members s. p < int x}"
      using False by (auto simp: gt le members_iff word_at_def)
    with False N show ?thesis by (simp add: next_loop_spec)
  qed
qed

lemma least_or_cases:
  assumes "finite A"
  shows "A = {} \<and> least_or d A = d \<or> A \<noteq> {} \<and> least_or d A = int (Min A)"
proof (cases "A = {}")
  case False
  then have "least_or d A = int (Min A)"
    using assms by (intro least_orI) auto
  with False show ?thesis by simp
qed simp

lemma NextMember_bounds:
  assumes "NextMember p s \<noteq> -2"
  shows "p < NextMember p s" "NextMember p s < 64 * int (length (words s))"
    "0 \<le> NextMember p s"
proof -
  let ?A = "{x \<in> members s. p < int x}"
  have "?A \<noteq> {}" and eq: "NextMember p s = int (Min ?A)"
    using assms least_or_cases [of ?A "-2"] by (auto simp: NextMember_spec)
  then have "Min ?A \<in> ?A" by (intro Min_in) auto
  then show "p < NextMember p s" "NextMember p s < 64 * int (length (words s))"
    "0 \<le> NextMember p s"
    using eq members_less [of "Min ?A" s] by auto
qed

function ToString_loop :: "Bitmapset \<Rightarrow> bool \<Rightarrow> int \<Rightarrow> string" where
  "ToString_loop s first prev =
    (let m = NextMember prev s in
     if m = -2 then []
     else (if first then '''' else '','') @ dec_string (nat m) @ ToString_loop s False m)"
  by pat_completeness auto
termination
  by (relation "measure (\<lambda>(s, first, prev). nat (64 * int (length (words s)) - prev))")
    (use NextMember_bounds in force)+

definition ToString :: "Bitmapset \<Rightarrow> string" where
  "ToString s = ''{'' @ ToString_loop s True (-1) @ ''}''"

declare ToString_loop.simps [simp del]

fun join_commas :: "string list \<Rightarrow> string" where
  "join_commas [] = ''''"
| "join_commas [x] = x"
| "join_commas (x # y # zs) = x @ '','' @ join_commas (y # zs)"

lemma join_commas_Cons: "join_commas (x # xs) = x @ concat (map (\<lambda>y. CHR '','' # y) xs)"
  by (induction xs arbitrary: x) auto

lemma members_above_step:
  assumes "{x \<in> members s. p < int x} \<noteq> {}"
  defines "m \<equiv> Min {x \<in> members s. p < int x}"
  shows "sorted_list_of_set {x \<in> members s. p < int x} =
      m # sorted_list_of_set {x \<in> members s. int m < int x}"
proof -
  let ?A = "{x \<in> members s. p < int x}"
  have m: "m \<in> ?A" "\<And>x. x \<in> ?A \<Longrightarrow> m \<le> x"
    using assms(1) Min_in [of ?A] unfolding m_def by (simp_all del: Min_in)
  have "?A - {m} = {x \<in> members s. int m < int x}"
    using m by fastforce
  moreover have "sorted_list_of_set ?A = Min ?A # sorted_list_of_set (?A - {Min ?A})"
    using assms(1) by (intro sorted_list_of_set_nonempty) auto
  ultimately show ?thesis by (simp add: m_def)
qed

lemma ToString_loop_spec:
  "ToString_loop s first p =
    (let ds = map dec_string (sorted_list_of_set {x \<in> members s. p < int x})
     in if first then join_commas ds else concat (map (\<lambda>y. CHR '','' # y) ds))"
proof (induction s first p rule: ToString_loop.induct)
  case (1 s first p)
  let ?A = "{x \<in> members s. p < int x}"
  show ?case
  proof (cases "?A = {}")
    case True
    then have "NextMember p s = -2" unfolding NextMember_spec True by simp
    with True show ?thesis by (simp add: ToString_loop.simps [of s first p] Let_def del: Collect_empty_eq)
  next
    case False
    have m: "NextMember p s = int (Min ?A)"
      using False least_or_cases [of ?A "-2"] unfolding NextMember_spec by auto
    have IH: "ToString_loop s False (int (Min ?A)) =
        concat (map (\<lambda>y. CHR '','' # y) (map dec_string
          (sorted_list_of_set {x \<in> members s. int (Min ?A) < int x})))"
      using 1 [OF refl] m by simp
    have "ToString_loop s first p = (if first then '''' else '','') @ dec_string (Min ?A) @
        ToString_loop s False (int (Min ?A))"
      using m by (simp add: ToString_loop.simps [of s first p] Let_def)
    with IH members_above_step [OF False] show ?thesis
      by (simp add: Let_def join_commas_Cons)
  qed
qed

subsection \<open>The trimmed invariant\<close>

lemma trimmed_new: "trimmed bms_new"
  by (simp add: trimmed_def bms_new_def)

lemma trimmed_trim_back: "trimmed \<lparr>words = trim_back 0 ws\<rparr>"
  using trim_back_last [of 0 ws] by (auto simp: trimmed_def)

lemma trimmed_iff:
  "trimmed s \<longleftrightarrow> words s = [] \<or> word_at (words s) (length (words s) - 1) \<noteq> 0"
  by (cases "words s = []") (auto simp: trimmed_def word_at_def last_conv_nth)

lemma or_eq_0: "(a::u64) OR b = 0 \<longleftrightarrow> a = 0 \<and> b = 0"
  by (auto simp: word_eq_0_bits bit_or_iff)

lemma BitMask_nonzero: "0 \<le> x \<Longrightarrow> BitMask x \<noteq> 0"
  using bit_BitMask [of x "nat x mod 64"] by auto

lemma trimmed_AddMember: "trimmed s \<Longrightarrow> trimmed (AddMember x s)"
proof (cases "0 \<le> x")
  case True
  assume t: "trimmed s"
  let ?i = "nat x div 64"
  show ?thesis
  proof (cases "?i < length (words s)")
    case i: True
    then have "EnsureCapacity x s = s" using True by (simp add: EnsureCapacity_def index_simps Let_def)
    then have "words (AddMember x s) = (words s)[?i := (words s ! ?i) OR BitMask x]"
      using True by (simp add: AddMember_def index_simps Let_def)
    then show ?thesis
      using t i by (auto simp: trimmed_iff word_at_update or_eq_0 BitMask_nonzero [OF True])
  next
    case False
    then have "words (EnsureCapacity x s) = vec_resize (Suc ?i) 0 (words s)"
      using True by (simp add: EnsureCapacity_def index_simps Let_def nat_add_distrib)
    then have "words (AddMember x s) =
        (vec_resize (Suc ?i) 0 (words s))[?i := (vec_resize (Suc ?i) 0 (words s) ! ?i) OR BitMask x]"
      using True by (simp add: AddMember_def index_simps Let_def)
    then show ?thesis
      by (auto simp: trimmed_iff word_at_update or_eq_0 BitMask_nonzero [OF True])
  qed
qed (simp add: AddMember_def)

lemma trimmed_DelMember: "trimmed s \<Longrightarrow> trimmed (DelMember x s)"
  using trimmed_trim_back by (auto simp: DelMember_def Let_def trimmed_def)

lemma length_Union: "length (words (Bms_Union s t)) = max (length (words s)) (length (words t))"
  by (auto simp: Bms_Union_def Let_def)

lemma trimmed_Union: "trimmed s \<Longrightarrow> trimmed t \<Longrightarrow> trimmed (Bms_Union s t)"
  unfolding trimmed_iff word_at_Union length_Union or_eq_0 length_0_conv [symmetric]
  by (auto simp: max_def split: if_splits)

lemma trimmed_Intersect: "trimmed (Bms_Intersect s t)"
  by (simp add: Bms_Intersect_def Let_def trimmed_trim_back)

lemma trimmed_Difference: "trimmed (Bms_Difference s t)"
  by (simp add: Bms_Difference_def Let_def trimmed_trim_back)

lemma trimmed_length:
  assumes "trimmed s" "members s \<subseteq> members t"
  shows "length (words s) \<le> length (words t)"
proof (rule ccontr)
  assume "\<not> ?thesis"
  then have l: "length (words t) \<le> length (words s) - 1" "words s \<noteq> []" by auto
  then have "word_at (words s) (length (words s) - 1) \<noteq> 0" using assms(1) by (simp add: trimmed_iff)
  moreover have "word_at (words (Bms_Difference s t)) (length (words s) - 1) = 0"
    using assms(2) IsEmpty_word_at [of "Bms_Difference s t"]
    by (simp add: IsEmpty_iff members_Difference Diff_eq_empty_iff)
  ultimately show False using l by (simp add: word_at_Difference word_at_beyond)
qed

lemma trimmed_canonical:
  assumes "trimmed s" "trimmed t" "members s = members t"
  shows "words s = words t"
proof (rule nth_equalityI)
  show len: "length (words s) = length (words t)"
    using trimmed_length [of s t] trimmed_length [of t s] assms by simp
  fix i assume "i < length (words s)"
  then show "words s ! i = words t ! i"
    using assms(3) [unfolded word_at_cong_members [symmetric], rule_format, of i] len
    by (simp add: word_at_def)
qed

subsection \<open>The interface\<close>

text \<open>
  What a client of the bitmapset functions relies on: each operation is the set operation on
  the abstraction, and negative members are ignored. The class functions and the pointer
  functions both provide it.
\<close>

locale int_set_adt =
  fixes empty :: "'s"
    and add :: "int \<Rightarrow> 's \<Rightarrow> 's"
    and del :: "int \<Rightarrow> 's \<Rightarrow> 's"
    and isin :: "int \<Rightarrow> 's \<Rightarrow> bool"
    and un :: "'s \<Rightarrow> 's \<Rightarrow> 's"
    and inter :: "'s \<Rightarrow> 's \<Rightarrow> 's"
    and minus :: "'s \<Rightarrow> 's \<Rightarrow> 's"
    and eqv :: "'s \<Rightarrow> 's \<Rightarrow> bool"
    and subs :: "'s \<Rightarrow> 's \<Rightarrow> bool"
    and absf :: "'s \<Rightarrow> nat set"
    and invar :: "'s \<Rightarrow> bool"
  assumes abs_empty: "absf empty = {}"
    and abs_add: "absf (add x s) = (if 0 \<le> x then insert (nat x) (absf s) else absf s)"
    and abs_del: "absf (del x s) = (if 0 \<le> x then absf s - {nat x} else absf s)"
    and isin: "isin x s \<longleftrightarrow> 0 \<le> x \<and> nat x \<in> absf s"
    and abs_un: "absf (un s t) = absf s \<union> absf t"
    and abs_inter: "absf (inter s t) = absf s \<inter> absf t"
    and abs_minus: "absf (minus s t) = absf s - absf t"
    and eqv: "eqv s t \<longleftrightarrow> absf s = absf t"
    and subs: "subs s t \<longleftrightarrow> absf s \<subseteq> absf t"
    and invar_empty: "invar empty"
    and invar_add: "invar s \<Longrightarrow> invar (add x s)"
    and invar_del: "invar s \<Longrightarrow> invar (del x s)"
    and invar_un: "invar s \<Longrightarrow> invar t \<Longrightarrow> invar (un s t)"
    and invar_inter: "invar s \<Longrightarrow> invar t \<Longrightarrow> invar (inter s t)"
    and invar_minus: "invar s \<Longrightarrow> invar t \<Longrightarrow> invar (minus s t)"
begin

lemma isin_add: "isin y (add x s) \<longleftrightarrow> isin y s \<or> (y = x \<and> 0 \<le> x)"
  by (auto simp: isin abs_add)

lemma isin_del: "isin y (del x s) \<longleftrightarrow> isin y s \<and> y \<noteq> x"
  by (auto simp: isin abs_del)

lemma abs_fold_add: "absf (fold add xs s) = absf s \<union> nat ` {x \<in> set xs. 0 \<le> x}"
  by (induction xs arbitrary: s) (auto simp: abs_add)

lemma eqv_un_commute: "eqv (un s t) (un t s)"
  by (auto simp: eqv abs_un)

lemma eqv_minus_un: "eqv (minus s (un t u)) (inter (minus s t) (minus s u))"
  by (auto simp: eqv abs_un abs_minus abs_inter)

lemma subs_antisym: "eqv s t \<longleftrightarrow> subs s t \<and> subs t s"
  by (auto simp: eqv subs)

lemma subs_inter_greatest: "subs u (inter s t) \<longleftrightarrow> subs u s \<and> subs u t"
  by (auto simp: subs abs_inter)

end

interpretation bms_class: int_set_adt bms_new AddMember DelMember IsMember
  Bms_Union Bms_Intersect Bms_Difference Equals IsSubset members trimmed
  by unfold_locales
    (simp_all add: members_AddMember members_DelMember IsMember_iff members_Union
      members_Intersect members_Difference Equals_iff IsSubset_iff trimmed_new
      trimmed_AddMember trimmed_DelMember trimmed_Union trimmed_Intersect trimmed_Difference)

lemmas ptr_simps = ptr_members_def ptr_trimmed_def bms_add_member_def bms_del_member_def
  bms_is_member_def bms_is_empty_def bms_num_members_def bms_next_member_def
  bms_minimum_member_def bms_make_singleton_def bms_copy_def

lemma ptr_members_union: "ptr_members (bms_union a b) = ptr_members a \<union> ptr_members b"
  by (cases a; cases b) (simp_all add: ptr_simps members_Union)

lemma ptr_members_intersect: "ptr_members (bms_intersect a b) = ptr_members a \<inter> ptr_members b"
  by (cases a; cases b) (simp_all add: ptr_simps members_Intersect)

lemma ptr_members_difference: "ptr_members (bms_difference a b) = ptr_members a - ptr_members b"
  by (cases a; cases b) (simp_all add: ptr_simps members_Difference)

lemma bms_equal_iff: "bms_equal a b \<longleftrightarrow> ptr_members a = ptr_members b"
  by (cases a; cases b) (auto simp: ptr_simps Equals_iff IsEmpty_iff)

lemma bms_is_subset_iff: "bms_is_subset a b \<longleftrightarrow> ptr_members a \<subseteq> ptr_members b"
  by (cases a; cases b) (auto simp: ptr_simps IsSubset_iff IsEmpty_iff)

lemma ptr_trimmed_ops:
  "ptr_trimmed a \<Longrightarrow> ptr_trimmed b \<Longrightarrow> ptr_trimmed (bms_union a b)"
  "ptr_trimmed a \<Longrightarrow> ptr_trimmed b \<Longrightarrow> ptr_trimmed (bms_intersect a b)"
  "ptr_trimmed a \<Longrightarrow> ptr_trimmed b \<Longrightarrow> ptr_trimmed (bms_difference a b)"
  by (cases a; cases b;
      simp add: ptr_simps trimmed_Union trimmed_Intersect trimmed_Difference trimmed_new)+

interpretation bms_pointer: int_set_adt None "\<lambda>x a. bms_add_member a x" "\<lambda>x a. bms_del_member a x"
  bms_is_member bms_union bms_intersect bms_difference bms_equal bms_is_subset
  ptr_members ptr_trimmed
  by unfold_locales
    (simp_all add: ptr_members_union ptr_members_intersect ptr_members_difference bms_equal_iff
      bms_is_subset_iff ptr_trimmed_ops,
     auto simp: ptr_simps members_AddMember members_DelMember IsMember_iff trimmed_AddMember
      trimmed_DelMember trimmed_new split: option.splits if_splits)

subsection \<open>Histories\<close>

text \<open>The sets a program can build with the class functions.\<close>

inductive built :: "Bitmapset \<Rightarrow> bool" where
  built_new: "built bms_new"
| built_add: "built s \<Longrightarrow> built (AddMember x s)"
| built_del: "built s \<Longrightarrow> built (DelMember x s)"
| built_union: "built s \<Longrightarrow> built t \<Longrightarrow> built (Bms_Union s t)"
| built_intersect: "built s \<Longrightarrow> built t \<Longrightarrow> built (Bms_Intersect s t)"
| built_difference: "built s \<Longrightarrow> built t \<Longrightarrow> built (Bms_Difference s t)"

lemma built_trimmed: "built s \<Longrightarrow> trimmed s"
  by (induction rule: built.induct)
    (simp_all add: trimmed_new trimmed_AddMember trimmed_DelMember trimmed_Union
      trimmed_Intersect trimmed_Difference)

subsection \<open>Properties\<close>

text \<open>C23: on possibly null bitmapset pointers, union, intersection and difference compute the
  set operations; equality, subset, overlap, non-empty difference, emptiness and the member
  count answer the corresponding question on sets, a null pointer being the empty set.\<close>

theorem bms_pointer_ops_are_set_ops:
  "ptr_members (bms_union a b) = ptr_members a \<union> ptr_members b \<and>
   ptr_members (bms_intersect a b) = ptr_members a \<inter> ptr_members b \<and>
   ptr_members (bms_difference a b) = ptr_members a - ptr_members b \<and>
   bms_equal a b = (ptr_members a = ptr_members b) \<and>
   bms_is_subset a b = (ptr_members a \<subseteq> ptr_members b) \<and>
   bms_overlap a b = (ptr_members a \<inter> ptr_members b \<noteq> {}) \<and>
   bms_nonempty_difference a b = (ptr_members a - ptr_members b \<noteq> {}) \<and>
   bms_is_empty a = (ptr_members a = {}) \<and>
   bms_num_members a = int (card (ptr_members a))"
proof (intro conjI)
  show "bms_overlap a b = (ptr_members a \<inter> ptr_members b \<noteq> {})"
    by (cases a; cases b) (simp_all add: ptr_simps Overlap_iff)
  show "bms_nonempty_difference a b = (ptr_members a - ptr_members b \<noteq> {})"
    by (cases a; cases b) (simp_all add: ptr_simps NonemptyDifference_iff IsEmpty_iff)
  show "bms_is_empty a = (ptr_members a = {})"
    by (cases a) (simp_all add: ptr_simps IsEmpty_iff)
  show "bms_num_members a = int (card (ptr_members a))"
    by (cases a) (simp_all add: ptr_simps card_members)
qed (simp_all add: bms_pointer.abs_un bms_pointer.abs_inter bms_pointer.abs_minus
      bms_pointer.eqv bms_pointer.subs)

text \<open>the word vectors of bitmapsets built with the class functions are canonical: they
  have no trailing zero word, so two such sets have the same members exactly when their word
  vectors are equal.\<close>

theorem built_words_canonical:
  assumes "built s" "built t"
  shows "trimmed s \<and> trimmed t \<and> (members s = members t \<longleftrightarrow> words s = words t)"
proof -
  have "trimmed s" "trimmed t" using assms by (simp_all add: built_trimmed)
  moreover have "words s = words t \<Longrightarrow> members s = members t" by (simp add: members_def)
  ultimately show ?thesis using trimmed_canonical by blast
qed

lemma built_words_canonical_witness:
  "built (DelMember 100 (AddMember 100 (AddMember 3 bms_new))) \<and> built (AddMember 3 bms_new) \<and>
   (members (DelMember 100 (AddMember 100 (AddMember 3 bms_new))) = members (AddMember 3 bms_new) \<longleftrightarrow>
    words (DelMember 100 (AddMember 100 (AddMember 3 bms_new))) = words (AddMember 3 bms_new))"
proof -
  have "built (DelMember 100 (AddMember 100 (AddMember 3 bms_new)))" "built (AddMember 3 bms_new)"
    by (intro built.intros)+
  then show ?thesis using built_words_canonical by blast
qed

text \<open>\<open>NextMember(prevbit)\<close> returns the least member above \<open>prevbit\<close> and -2 when
  there is none, \<open>MinMember\<close> and \<open>MaxMember\<close> the extreme members or -1, and
  \<open>ToString\<close>, which iterates with \<open>NextMember\<close>, terminates and prints all members in
  ascending order.\<close>

theorem bms_iteration:
  "NextMember p s = (if \<exists>x \<in> members s. p < int x
      then int (LEAST x. x \<in> members s \<and> p < int x) else -2) \<and>
   MinMember s = (if members s = {} then -1 else int (Min (members s))) \<and>
   MaxMember s = (if members s = {} then -1 else int (Max (members s))) \<and>
   ToString s = ''{'' @ join_commas (map dec_string (sorted_list_of_set (members s))) @ ''}''"
proof (intro conjI)
  show "NextMember p s = (if \<exists>x \<in> members s. p < int x
      then int (LEAST x. x \<in> members s \<and> p < int x) else -2)"
    by (auto simp: NextMember_spec least_or_def)
  show "MinMember s = (if members s = {} then -1 else int (Min (members s)))"
    using least_or_cases [of "members s" "-1"] by (auto simp: MinMember_spec)
  show "MaxMember s = (if members s = {} then -1 else int (Max (members s)))"
    by (rule MaxMember_spec)
  have "{x \<in> members s. - 1 < int x} = members s" by auto
  then show "ToString s = ''{'' @ join_commas (map dec_string (sorted_list_of_set (members s))) @ ''}''"
    by (simp add: ToString_def ToString_loop_spec Let_def)
qed

end
