(* ===== verification/LockManager.thy ===== *)
theory LockManager
  imports PgPrelude
begin

text \<open>
  The heavyweight lock manager (\<open>src/transaction/lock.cpp\<close>): the conflict matrix, the
  vector of locks held by the backend and the row lock strengths. The vector refines a finite
  map from the pair of a lock tag and a mode to the session flag. The modes are ordered by the
  numbers of the enumeration, as the code compares them.
\<close>

subsection \<open>Modes\<close>

datatype LockMode = kNoLock | kAccessShareLock | kRowShareLock | kRowExclusiveLock
  | kShareUpdateExclusiveLock | kShareLock | kShareRowExclusiveLock | kExclusiveLock
  | kAccessExclusiveLock

fun mode_num :: "LockMode \<Rightarrow> nat" where
  "mode_num kNoLock = 0"
| "mode_num kAccessShareLock = 1"
| "mode_num kRowShareLock = 2"
| "mode_num kRowExclusiveLock = 3"
| "mode_num kShareUpdateExclusiveLock = 4"
| "mode_num kShareLock = 5"
| "mode_num kShareRowExclusiveLock = 6"
| "mode_num kExclusiveLock = 7"
| "mode_num kAccessExclusiveLock = 8"

lemma mode_num_inj [simp]: "mode_num a = mode_num b \<longleftrightarrow> a = b"
  by (cases a; cases b) simp_all

instantiation LockMode :: linorder
begin

definition less_eq_LockMode :: "LockMode \<Rightarrow> LockMode \<Rightarrow> bool" where
  "less_eq_LockMode a b = (mode_num a \<le> mode_num b)"

definition less_LockMode :: "LockMode \<Rightarrow> LockMode \<Rightarrow> bool" where
  "less_LockMode a b = (mode_num a < mode_num b)"

instance
  by standard (auto simp: less_eq_LockMode_def less_LockMode_def)

end

definition kNumLockModes :: nat where "kNumLockModes = 8"

definition kConflictMatrix :: "bool list list" where
  "kConflictMatrix =
   [[False, False, False, False, False, False, False, False, False],
    [False, False, False, False, False, False, False, False, True],
    [False, False, False, False, False, False, False, True, True],
    [False, False, False, False, False, True, True, True, True],
    [False, False, False, False, True, True, True, True, True],
    [False, False, False, True, True, False, True, True, True],
    [False, False, False, True, True, True, True, True, True],
    [False, False, True, True, True, True, True, True, True],
    [True, True, True, True, True, True, True, True, True]]"

definition LockConflicts :: "LockMode \<Rightarrow> LockMode \<Rightarrow> bool" where
  "LockConflicts mode1 mode2 =
    (let m1 = mode_num mode1; m2 = mode_num mode2
     in if m1 > kNumLockModes \<or> m2 > kNumLockModes then True else kConflictMatrix ! m1 ! m2)"

subsection \<open>Held locks\<close>

record LockTag =
  relid :: Oid
  locktag_type :: int

record HeldLock =
  hl_tag :: LockTag
  hl_mode :: LockMode
  session_lock :: bool

type_synonym HeldLocks = "HeldLock list"

fun find_loop :: "LockTag \<Rightarrow> LockMode \<Rightarrow> HeldLocks \<Rightarrow> int \<Rightarrow> int" where
  "find_loop tag mode [] i = -1"
| "find_loop tag mode (l # ls) i =
    (if hl_tag l = tag \<and> hl_mode l = mode then i else find_loop tag mode ls (i + 1))"

definition FindHeldLock :: "LockTag \<Rightarrow> LockMode \<Rightarrow> HeldLocks \<Rightarrow> int" where
  "FindHeldLock tag mode locks = find_loop tag mode locks 0"

definition LockAcquire :: "LockTag \<Rightarrow> LockMode \<Rightarrow> bool \<Rightarrow> HeldLocks \<Rightarrow> bool \<times> HeldLocks" where
  "LockAcquire tag lockmode session locks =
    (if lockmode = kNoLock then (True, locks)
     else if FindHeldLock tag lockmode locks \<ge> 0 then (True, locks)
     else (True, locks @ [\<lparr>hl_tag = tag, hl_mode = lockmode, session_lock = session\<rparr>]))"

definition LockRelease :: "LockTag \<Rightarrow> LockMode \<Rightarrow> HeldLocks \<Rightarrow> bool \<times> HeldLocks" where
  "LockRelease tag lockmode locks =
    (let idx = FindHeldLock tag lockmode locks
     in if idx < 0 then (False, locks) else (True, vec_erase (nat idx) locks))"

definition LockReleaseAll :: "bool \<Rightarrow> HeldLocks \<Rightarrow> HeldLocks" where
  "LockReleaseAll session locks =
    (if session then []
     else foldl (\<lambda>remaining lock. if session_lock lock then remaining @ [lock] else remaining) [] locks)"

fun LockHeld :: "LockTag \<Rightarrow> LockMode \<Rightarrow> HeldLocks \<Rightarrow> bool" where
  "LockHeld tag lockmode [] = False"
| "LockHeld tag lockmode (lock # locks) =
    (if hl_tag lock = tag
     then if mode_num (hl_mode lock) \<ge> mode_num lockmode then True else LockHeld tag lockmode locks
     else LockHeld tag lockmode locks)"

definition LockModeHeld :: "LockTag \<Rightarrow> HeldLocks \<Rightarrow> LockMode" where
  "LockModeHeld tag locks = foldl (\<lambda>strongest lock.
     if hl_tag lock = tag
     then if mode_num (hl_mode lock) > mode_num strongest then hl_mode lock else strongest
     else strongest) kNoLock locks"

definition InitializeLockManager :: "HeldLocks \<Rightarrow> HeldLocks" where
  "InitializeLockManager locks = []"

definition ResetLockManager :: "HeldLocks \<Rightarrow> HeldLocks" where
  "ResetLockManager locks = []"

definition GetLockCount :: "HeldLocks \<Rightarrow> int" where
  "GetLockCount locks = int (length locks)"

subsection \<open>Row locks\<close>

datatype RowLockStrength = kForKeyShare | kForShare | kForNoKeyUpdate | kForUpdate

fun strength_num :: "RowLockStrength \<Rightarrow> int" where
  "strength_num kForKeyShare = 0"
| "strength_num kForShare = 1"
| "strength_num kForNoKeyUpdate = 2"
| "strength_num kForUpdate = 3"

fun RowLockStrengthToLockMode :: "RowLockStrength \<Rightarrow> LockMode" where
  "RowLockStrengthToLockMode kForUpdate = kRowExclusiveLock"
| "RowLockStrengthToLockMode kForNoKeyUpdate = kRowExclusiveLock"
| "RowLockStrengthToLockMode kForShare = kRowShareLock"
| "RowLockStrengthToLockMode kForKeyShare = kRowShareLock"

definition RowLockStrengthConflicts :: "RowLockStrength \<Rightarrow> RowLockStrength \<Rightarrow> bool" where
  "RowLockStrengthConflicts a b =
    (let s1 = strength_num a; s2 = strength_num b
     in if s1 = 3 \<or> s2 = 3 then True
        else if s1 = 2 \<or> s2 = 2 then True
        else False)"

subsection \<open>The held locks as a map\<close>

abbreviation lock_key :: "HeldLock \<Rightarrow> LockTag \<times> LockMode" where
  "lock_key l \<equiv> (hl_tag l, hl_mode l)"

definition lock_map :: "HeldLocks \<Rightarrow> LockTag \<times> LockMode \<rightharpoonup> bool" where
  "lock_map locks = map_of (map (\<lambda>l. (lock_key l, session_lock l)) locks)"

definition locks_wf :: "HeldLocks \<Rightarrow> bool" where
  "locks_wf locks \<longleftrightarrow> distinct (map lock_key locks) \<and> (\<forall>l \<in> set locks. hl_mode l \<noteq> kNoLock)"

lemma dom_lock_map: "dom (lock_map locks) = lock_key ` set locks"
  by (auto simp: lock_map_def dom_map_of_conv_image_fst image_image)

lemma FindHeldLock_props:
  "FindHeldLock t m locks = (if (t, m) \<in> lock_key ` set locks
    then int (length (takeWhile (\<lambda>l. lock_key l \<noteq> (t, m)) locks)) else -1)"
proof -
  have "find_loop t m locks i = (if (t, m) \<in> lock_key ` set locks
    then i + int (length (takeWhile (\<lambda>l. lock_key l \<noteq> (t, m)) locks)) else -1)" for i
    by (induction locks arbitrary: i) auto
  then show ?thesis by (simp add: FindHeldLock_def)
qed

lemma vec_erase_takeWhile:
  "\<exists>x \<in> set xs. \<not> P x \<Longrightarrow> vec_erase (length (takeWhile P xs)) xs = takeWhile P xs @ tl (dropWhile P xs)"
  by (induction xs) (auto simp: vec_erase_def)

lemma lock_map_erase:
  assumes "distinct (map lock_key locks)" "(t, m) \<in> lock_key ` set locks"
  shows "lock_map (vec_erase (length (takeWhile (\<lambda>l. lock_key l \<noteq> (t, m)) locks)) locks) =
      (lock_map locks)((t, m) := None) \<and>
    set (vec_erase (length (takeWhile (\<lambda>l. lock_key l \<noteq> (t, m)) locks)) locks) \<subseteq> set locks \<and>
    distinct (map lock_key (vec_erase (length (takeWhile (\<lambda>l. lock_key l \<noteq> (t, m)) locks)) locks))"
  using assms
proof (induction locks)
  case Nil
  then show ?case by simp
next
  case (Cons l ls)
  show ?case
  proof (cases "lock_key l = (t, m)")
    case True
    then have "(t, m) \<notin> dom (lock_map ls)" using Cons.prems by (simp add: dom_lock_map)
    then have "lock_map ls (t, m) = None" by blast
    then have "lock_map ls = (lock_map (l # ls))((t, m) := None)"
      using True by (auto simp: lock_map_def fun_eq_iff)
    then show ?thesis using True Cons.prems by (auto simp: vec_erase_def)
  next
    case False
    let ?k = "length (takeWhile (\<lambda>l. lock_key l \<noteq> (t, m)) ls)"
    have e: "vec_erase (length (takeWhile (\<lambda>l. lock_key l \<noteq> (t, m)) (l # ls))) (l # ls) = l # vec_erase ?k ls"
      using False by (auto simp: vec_erase_def)
    have ih: "lock_map (vec_erase ?k ls) = (lock_map ls)((t, m) := None)"
      "set (vec_erase ?k ls) \<subseteq> set ls" "distinct (map lock_key (vec_erase ?k ls))"
      using Cons False by auto
    have "lock_map (l # vec_erase ?k ls) = (lock_map (l # ls))((t, m) := None)"
      using ih(1) False by (auto simp: lock_map_def fun_eq_iff)
    moreover have "distinct (map lock_key (l # vec_erase ?k ls))"
      using Cons.prems(1) ih(2,3) by auto
    ultimately show ?thesis using ih(2) unfolding e by auto
  qed
qed

lemma LockAcquire_map:
  assumes "locks_wf locks" "m \<noteq> kNoLock" "LockAcquire t m b locks = (r, locks')"
  shows "r \<and> locks_wf locks' \<and> lock_map locks' =
    (if (t, m) \<in> dom (lock_map locks) then lock_map locks else (lock_map locks)((t, m) \<mapsto> b))"
proof (cases "(t, m) \<in> lock_key ` set locks")
  case True
  then show ?thesis using assms by (auto simp: LockAcquire_def FindHeldLock_props dom_lock_map)
next
  case False
  then have l: "locks' = locks @ [\<lparr>hl_tag = t, hl_mode = m, session_lock = b\<rparr>]" "r"
    using assms by (auto simp: LockAcquire_def FindHeldLock_props)
  have "lock_map locks (t, m) = None" using False dom_lock_map [of locks] by blast
  then have "lock_map locks' = (lock_map locks)((t, m) \<mapsto> b)"
    by (auto simp: l lock_map_def map_add_def fun_eq_iff split: option.splits)
  moreover have "locks_wf locks'" using assms False by (auto simp: l locks_wf_def)
  ultimately show ?thesis using False l by (simp add: dom_lock_map)
qed

lemma LockRelease_map:
  assumes "locks_wf locks" "LockRelease t m locks = (r, locks')"
  shows "r = ((t, m) \<in> dom (lock_map locks)) \<and> locks_wf locks' \<and>
    lock_map locks' = (lock_map locks)((t, m) := None)"
proof (cases "(t, m) \<in> lock_key ` set locks")
  case True
  then show ?thesis
    using assms lock_map_erase [of locks t m]
    by (auto simp: LockRelease_def FindHeldLock_props dom_lock_map locks_wf_def)
next
  case False
  then have "lock_map locks (t, m) = None" using dom_lock_map [of locks] by blast
  then show ?thesis using False assms
    by (auto simp: LockRelease_def FindHeldLock_props dom_lock_map fun_eq_iff)
qed

lemma LockReleaseAll_filter: "LockReleaseAll b locks = (if b then [] else filter session_lock locks)"
proof -
  have "foldl (\<lambda>remaining lock. if session_lock lock then remaining @ [lock] else remaining) acc locks =
      acc @ filter session_lock locks" for acc
    by (induction locks arbitrary: acc) auto
  then show ?thesis by (simp add: LockReleaseAll_def)
qed

lemma LockReleaseAll_map:
  assumes "locks_wf locks"
  shows "locks_wf (LockReleaseAll b locks) \<and> lock_map (LockReleaseAll b locks) =
    (if b then Map.empty else lock_map locks |` {k. lock_map locks k = Some True})"
proof -
  have "distinct (map lock_key locks) \<Longrightarrow>
    lock_map (filter session_lock locks) k = (if lock_map locks k = Some True then Some True else None)" for k
  proof (induction locks)
    case Nil
    then show ?case by (simp add: lock_map_def)
  next
    case (Cons l ls)
    have "lock_key l \<notin> dom (lock_map ls)" using Cons.prems by (simp add: dom_lock_map)
    then show ?case using Cons by (auto simp: lock_map_def)
  qed
  then have "lock_map (filter session_lock locks) = lock_map locks |` {k. lock_map locks k = Some True}"
    using assms by (auto simp: locks_wf_def restrict_map_def fun_eq_iff)
  moreover have "distinct (map lock_key (filter session_lock locks))"
    using assms by (simp add: locks_wf_def distinct_map_filter)
  ultimately show ?thesis
    using assms by (auto simp: LockReleaseAll_filter locks_wf_def lock_map_def)
qed

subsection \<open>The interface\<close>

text \<open>
  What the rest of the system relies on: a table of locks with a session flag. A transaction
  acquires locks and releases them together at its end; session locks survive it.
\<close>

locale lock_table =
  fixes acquire :: "'k \<Rightarrow> bool \<Rightarrow> 's \<Rightarrow> bool \<times> 's"
    and release :: "'k \<Rightarrow> 's \<Rightarrow> bool \<times> 's"
    and release_all :: "bool \<Rightarrow> 's \<Rightarrow> 's"
    and table :: "'s \<Rightarrow> 'k \<rightharpoonup> bool"
    and inv :: "'s \<Rightarrow> bool"
    and lockable :: "'k \<Rightarrow> bool"
  assumes acquire_law: "inv s \<Longrightarrow> lockable k \<Longrightarrow> acquire k b s = (r, s') \<Longrightarrow>
      r \<and> inv s' \<and> table s' = (if k \<in> dom (table s) then table s else (table s)(k \<mapsto> b))"
    and release_law: "inv s \<Longrightarrow> release k s = (r, s') \<Longrightarrow>
      r = (k \<in> dom (table s)) \<and> inv s' \<and> table s' = (table s)(k := None)"
    and release_all_law: "inv s \<Longrightarrow> inv (release_all b s) \<and>
      table (release_all b s) = (if b then Map.empty else table s |` {k. table s k = Some True})"
begin

lemma acquire_release:
  assumes "inv s" "lockable k" "k \<notin> dom (table s)"
  shows "table (snd (release k (snd (acquire k b s)))) = table s"
proof -
  obtain r s' where a: "acquire k b s = (r, s')" by force
  obtain r' s'' where c: "release k s' = (r', s'')" by force
  have "inv s'" "table s' = (table s)(k \<mapsto> b)" using acquire_law [OF assms(1,2) a] assms(3) by auto
  moreover have "table s k = None" using assms(3) by blast
  ultimately show ?thesis using release_law [OF _ c] by (auto simp: a c fun_eq_iff)
qed

lemma acquires_inv:
  assumes "inv s" "\<forall>k \<in> set ks. lockable k"
  shows "inv (fold (\<lambda>k s. snd (acquire k False s)) ks s) \<and>
    table (fold (\<lambda>k s. snd (acquire k False s)) ks s) =
      (\<lambda>k. if k \<in> dom (table s) then table s k else if k \<in> set ks then Some False else None)"
  using assms
proof (induction ks arbitrary: s)
  case Nil
  then show ?case by (auto simp: fun_eq_iff dom_def)
next
  case (Cons k ks)
  obtain r s' where a: "acquire k False s = (r, s')" by force
  have s': "inv s'" "table s' = (if k \<in> dom (table s) then table s else (table s)(k \<mapsto> False))"
    using acquire_law [OF _ _ a] Cons.prems by auto
  show ?case using Cons.IH [OF s'(1)] Cons.prems(2) by (auto simp: a s'(2) fun_eq_iff)
qed

lemma transaction_end:
  assumes "inv s" "\<forall>k \<in> set ks. lockable k" "\<forall>k \<in> ran (table s). k"
  shows "table (release_all False (fold (\<lambda>k s. snd (acquire k False s)) ks s)) = table s"
proof -
  let ?s = "fold (\<lambda>k s. snd (acquire k False s)) ks s"
  have n: "table s k \<noteq> Some False" for k using assms(3) by (auto simp: ran_def)
  have "table (release_all False ?s) = table ?s |` {k. table ?s k = Some True}"
    using acquires_inv [OF assms(1,2)] release_all_law [of ?s False] by simp
  moreover have "(if table ?s k = Some True then table ?s k else None) = table s k" for k
    using acquires_inv [OF assms(1,2)] n [of k] by (cases "table s k") (auto simp: dom_def)
  ultimately show ?thesis by (simp add: restrict_map_def fun_eq_iff)
qed

end

interpretation held_locks: lock_table "\<lambda>(t, m). LockAcquire t m" "\<lambda>(t, m). LockRelease t m"
  LockReleaseAll lock_map locks_wf "\<lambda>(t, m). m \<noteq> kNoLock"
proof (unfold_locales, goal_cases)
  case (1 s k b r s')
  then show ?case using LockAcquire_map [of s "snd k" "fst k" b r s'] by (simp add: case_prod_beta)
next
  case (2 s k r s')
  then show ?case using LockRelease_map [of s "fst k" "snd k" r s'] by (simp add: case_prod_beta)
next
  case (3 s b)
  then show ?case by (rule LockReleaseAll_map)
qed

subsection \<open>Lock strength\<close>

lemma LockHeld_ex: "LockHeld t m locks \<longleftrightarrow> (\<exists>l \<in> set locks. hl_tag l = t \<and> m \<le> hl_mode l)"
  by (induction locks) (auto simp: less_eq_LockMode_def)

lemma LockModeHeld_fold:
  "LockModeHeld t locks = foldl max kNoLock (map hl_mode (filter (\<lambda>l. hl_tag l = t) locks))"
proof -
  have "foldl (\<lambda>strongest lock. if hl_tag lock = t
     then if mode_num (hl_mode lock) > mode_num strongest then hl_mode lock else strongest
     else strongest) acc locks = foldl max acc (map hl_mode (filter (\<lambda>l. hl_tag l = t) locks))" for acc
    by (induction locks arbitrary: acc) (auto simp: max_def less_eq_LockMode_def)
  then show ?thesis by (simp add: LockModeHeld_def)
qed

lemma not_le_kNoLock: "m \<le> kNoLock \<longleftrightarrow> m = kNoLock"
  by (cases m) (simp_all add: less_eq_LockMode_def)

lemma kNoLock_le: "kNoLock \<le> m"
  by (simp add: less_eq_LockMode_def)

definition all_modes :: "LockMode list" where
  "all_modes = [kNoLock, kAccessShareLock, kRowShareLock, kRowExclusiveLock,
     kShareUpdateExclusiveLock, kShareLock, kShareRowExclusiveLock, kExclusiveLock,
     kAccessExclusiveLock]"

lemma all_modes: "(\<forall>m. P m) \<longleftrightarrow> (\<forall>m \<in> set all_modes. P m)"
  by (auto simp: all_modes_def) (metis LockMode.exhaust)

subsection \<open>Properties\<close>

text \<open>C21: the held-lock vector implements a map from (tag, mode) to the session flag: no entry
  occurs twice and none has mode \<open>kNoLock\<close>; acquiring adds an absent entry and never fails,
  releasing removes the entry and tells whether it was there, and releasing all keeps exactly
  the session locks, or nothing when session locks are included.\<close>

theorem lock_table_refines_map:
  assumes "locks_wf locks"
  shows "(m \<noteq> kNoLock \<longrightarrow> (\<exists>locks'. LockAcquire t m b locks = (True, locks') \<and> locks_wf locks' \<and>
      lock_map locks' =
        (if (t, m) \<in> dom (lock_map locks) then lock_map locks else (lock_map locks)((t, m) \<mapsto> b)))) \<and>
    LockAcquire t kNoLock b locks = (True, locks) \<and>
    (\<exists>locks'. LockRelease t m locks = ((t, m) \<in> dom (lock_map locks), locks') \<and> locks_wf locks' \<and>
      lock_map locks' = (lock_map locks)((t, m) := None)) \<and>
    locks_wf (LockReleaseAll b locks) \<and>
    lock_map (LockReleaseAll b locks) =
      (if b then Map.empty else lock_map locks |` {k. lock_map locks k = Some True})"
proof -
  obtain r1 l1 where a: "LockAcquire t m b locks = (r1, l1)" by force
  obtain r2 l2 where r: "LockRelease t m locks = (r2, l2)" by force
  show ?thesis
    using held_locks.acquire_law [of locks "(t, m)" b r1 l1] held_locks.release_law [of locks "(t, m)" r2 l2]
      held_locks.release_all_law [of locks b] assms a r
    by (auto simp: LockAcquire_def [of t kNoLock])
qed

lemma lock_table_refines_map_witness:
  "locks_wf [\<lparr>hl_tag = \<lparr>relid = 16384, locktag_type = 1\<rparr>, hl_mode = kShareLock, session_lock = True\<rparr>] \<and>
   lock_map (LockReleaseAll False
     [\<lparr>hl_tag = \<lparr>relid = 16384, locktag_type = 1\<rparr>, hl_mode = kShareLock, session_lock = True\<rparr>])
     (\<lparr>relid = 16384, locktag_type = 1\<rparr>, kShareLock) = Some True"
proof -
  let ?ls = "[\<lparr>hl_tag = \<lparr>relid = 16384, locktag_type = 1\<rparr>, hl_mode = kShareLock, session_lock = True\<rparr>]"
  have "locks_wf ?ls" by (simp add: locks_wf_def)
  then show ?thesis
    using lock_table_refines_map [of ?ls kShareLock "\<lparr>relid = 16384, locktag_type = 1\<rparr>" False]
    by (simp add: restrict_map_def lock_map_def)
qed

text \<open>a transaction that starts with session locks only and acquires any locks on its way
  leaves the lock table as it found it when it releases all its locks.\<close>

theorem transaction_releases_its_locks:
  assumes "locks_wf locks" "\<forall>(t, m) \<in> set ks. m \<noteq> kNoLock" "\<forall>l \<in> set locks. session_lock l"
  shows "lock_map (LockReleaseAll False (fold (\<lambda>(t, m) ls. snd (LockAcquire t m False ls)) ks locks)) =
    lock_map locks"
proof -
  have "\<forall>b \<in> ran (lock_map locks). b"
    using assms(3) by (auto simp: lock_map_def ran_def dest!: map_of_SomeD)
  moreover have "(\<lambda>(t, m) ls. snd (LockAcquire t m False ls)) =
      (\<lambda>k ls. snd ((case k of (t, m) \<Rightarrow> LockAcquire t m) False ls))"
    by (auto simp: fun_eq_iff)
  ultimately show ?thesis
    using held_locks.transaction_end [of locks ks] assms(1,2) by simp
qed

lemma transaction_releases_its_locks_witness:
  "lock_map (LockReleaseAll False
     (fold (\<lambda>(t, m) ls. snd (LockAcquire t m False ls))
       [(\<lparr>relid = 7, locktag_type = 1\<rparr>, kRowExclusiveLock), (\<lparr>relid = 8, locktag_type = 1\<rparr>, kAccessShareLock)]
       [\<lparr>hl_tag = \<lparr>relid = 7, locktag_type = 1\<rparr>, hl_mode = kShareLock, session_lock = True\<rparr>])) =
   lock_map [\<lparr>hl_tag = \<lparr>relid = 7, locktag_type = 1\<rparr>, hl_mode = kShareLock, session_lock = True\<rparr>]"
  by (rule transaction_releases_its_locks) (simp_all add: locks_wf_def)

text \<open>\<open>LockModeHeld\<close> is the strongest mode held on an object, \<open>LockHeld\<close> asks
  whether it reaches the given mode, and the conflict matrix is symmetric on proper modes;
  a mode conflicts with everything a smaller mode conflicts with, except that
  \<open>kShareLock\<close> does not cover \<open>kRowExclusiveLock\<close> and
  \<open>kShareUpdateExclusiveLock\<close>, so that \<open>LockHeld\<close> answers true for these two modes
  when only \<open>kShareLock\<close> is held.\<close>

theorem lock_strength:
  "(m \<noteq> kNoLock \<longrightarrow> LockHeld t m locks = (m \<le> LockModeHeld t locks)) \<and>
   (LockModeHeld t locks = kNoLock \<or> (\<exists>l \<in> set locks. hl_tag l = t \<and> hl_mode l = LockModeHeld t locks)) \<and>
   (\<forall>a b. a \<noteq> kNoLock \<and> b \<noteq> kNoLock \<longrightarrow> LockConflicts a b = LockConflicts b a) \<and>
   (\<forall>a b. a < b \<longrightarrow>
     ((\<forall>c. LockConflicts a c \<longrightarrow> LockConflicts b c) \<longleftrightarrow>
      \<not> (b = kShareLock \<and> (a = kRowExclusiveLock \<or> a = kShareUpdateExclusiveLock))))"
proof (intro conjI)
  show "m \<noteq> kNoLock \<longrightarrow> LockHeld t m locks = (m \<le> LockModeHeld t locks)"
    by (auto simp: LockHeld_ex LockModeHeld_fold foldl_max_le_iff not_le_kNoLock)
  show "LockModeHeld t locks = kNoLock \<or>
      (\<exists>l \<in> set locks. hl_tag l = t \<and> hl_mode l = LockModeHeld t locks)"
    using foldl_max_in [of kNoLock "map hl_mode (filter (\<lambda>l. hl_tag l = t) locks)"]
    unfolding LockModeHeld_fold by fastforce
  show "\<forall>a b. a \<noteq> kNoLock \<and> b \<noteq> kNoLock \<longrightarrow> LockConflicts a b = LockConflicts b a"
    unfolding all_modes by code_simp
  show "\<forall>a b. a < b \<longrightarrow> ((\<forall>c. LockConflicts a c \<longrightarrow> LockConflicts b c) \<longleftrightarrow>
      \<not> (b = kShareLock \<and> (a = kRowExclusiveLock \<or> a = kShareUpdateExclusiveLock)))"
    unfolding all_modes by code_simp
qed

lemma lock_strength_witness:
  "LockHeld \<lparr>relid = 7, locktag_type = 1\<rparr> kShareUpdateExclusiveLock
     [\<lparr>hl_tag = \<lparr>relid = 7, locktag_type = 1\<rparr>, hl_mode = kShareLock, session_lock = False\<rparr>] \<and>
   \<not> (\<forall>c. LockConflicts kShareUpdateExclusiveLock c \<longrightarrow> LockConflicts kShareLock c)"
proof -
  have "kShareUpdateExclusiveLock < kShareLock" by (simp add: less_LockMode_def)
  moreover have "LockModeHeld \<lparr>relid = 7, locktag_type = 1\<rparr>
     [\<lparr>hl_tag = \<lparr>relid = 7, locktag_type = 1\<rparr>, hl_mode = kShareLock, session_lock = False\<rparr>] = kShareLock"
    by (simp add: LockModeHeld_def)
  ultimately show ?thesis
    using lock_strength [of kShareUpdateExclusiveLock "\<lparr>relid = 7, locktag_type = 1\<rparr>"
      "[\<lparr>hl_tag = \<lparr>relid = 7, locktag_type = 1\<rparr>, hl_mode = kShareLock, session_lock = False\<rparr>]"]
    by (simp add: less_eq_LockMode_def)
qed

end
