(* ===== verification/TransactionIds.thy ===== *)
theory TransactionIds
  imports PgPrelude
begin

text \<open>
  Transaction identifiers (\<open>include/transaction/transam.hpp\<close>): 32-bit counters that are
  compared on the circle modulo \<open>2 ^ 32\<close>. The facts below say on which sets of
  identifiers the four comparison functions form a linear order, and what they answer at the
  distance where they do not.
\<close>

subsection \<open>Special identifiers and comparisons\<close>

definition kInvalidTransactionId :: TransactionId where "kInvalidTransactionId = 0"
definition kBootstrapTransactionId :: TransactionId where "kBootstrapTransactionId = 1"
definition kFrozenTransactionId :: TransactionId where "kFrozenTransactionId = 2"
definition kFirstNormalTransactionId :: TransactionId where "kFirstNormalTransactionId = 3"
definition kMaxTransactionId :: TransactionId where "kMaxTransactionId = 0xFFFFFFFF"

lemmas xid_consts [pg_simps] = kInvalidTransactionId_def kBootstrapTransactionId_def
  kFrozenTransactionId_def kFirstNormalTransactionId_def kMaxTransactionId_def

definition TransactionIdPrecedes :: "TransactionId \<Rightarrow> TransactionId \<Rightarrow> bool" where
  "TransactionIdPrecedes id1 id2 = (sint (id1 - id2) < 0)"

definition TransactionIdFollows :: "TransactionId \<Rightarrow> TransactionId \<Rightarrow> bool" where
  "TransactionIdFollows id1 id2 = (sint (id1 - id2) > 0)"

definition TransactionIdPrecedesOrEquals :: "TransactionId \<Rightarrow> TransactionId \<Rightarrow> bool" where
  "TransactionIdPrecedesOrEquals id1 id2 = (sint (id1 - id2) \<le> 0)"

definition TransactionIdFollowsOrEquals :: "TransactionId \<Rightarrow> TransactionId \<Rightarrow> bool" where
  "TransactionIdFollowsOrEquals id1 id2 = (sint (id1 - id2) \<ge> 0)"

definition TransactionIdEquals :: "TransactionId \<Rightarrow> TransactionId \<Rightarrow> bool" where
  "TransactionIdEquals id1 id2 = (id1 = id2)"

definition TransactionIdIsValid :: "TransactionId \<Rightarrow> bool" where
  "TransactionIdIsValid xid = (xid \<noteq> kInvalidTransactionId)"

definition TransactionIdIsNormal :: "TransactionId \<Rightarrow> bool" where
  "TransactionIdIsNormal xid = (xid \<ge> kFirstNormalTransactionId)"

subsection \<open>The circle\<close>

text \<open>The identifiers within half a circle ahead of \<open>base\<close>.\<close>

definition xid_window :: "TransactionId \<Rightarrow> TransactionId \<Rightarrow> bool" where
  "xid_window base x = (unat (x - base) < 2 ^ 31)"

lemma odd_div_half: "(n::nat) < 2 * m \<Longrightarrow> odd (n div m) \<longleftrightarrow> m \<le> n"
proof -
  assume "n < 2 * m"
  then have "n div m < 2" by (rule less_mult_imp_div_less)
  then have "odd (n div m) \<longleftrightarrow> n div m \<noteq> 0" by (cases "n div m") auto
  also have "\<dots> \<longleftrightarrow> m \<le> n" using \<open>n < 2 * m\<close> by (auto simp: div_eq_0_iff)
  finally show ?thesis .
qed

lemma sint_less_0: "sint (w::u32) < 0 \<longleftrightarrow> 2147483648 \<le> unat w"
proof -
  have "sint w < 0 \<longleftrightarrow> bit w 31" by (simp add: sint_uint bit_uint_iff)
  also have "\<dots> \<longleftrightarrow> odd (unat w div 2 ^ 31)" 
    using bit_unsigned_iff [where ?'a = nat, of w 31] by (simp add: bit_iff_odd)
  also have "\<dots> \<longleftrightarrow> 2147483648 \<le> unat w"
    using unsigned_less [of w] by (subst odd_div_half) simp_all
  finally show ?thesis .
qed

lemma sint_eq_0: "sint (w::u32) = 0 \<longleftrightarrow> w = 0"
  by (metis signed_0 signed_word_eqI)

lemma unat_diff_window:
  assumes "xid_window base x" "xid_window base y"
  shows "2147483648 \<le> unat (x - y) \<longleftrightarrow> unat (x - base) < unat (y - base)"
proof -
  have "x - y = (x - base) - (y - base)" by simp
  then have "unat (x - y) = (if unat (y - base) \<le> unat (x - base)
      then unat (x - base) - unat (y - base) else unat (x - base) + 2 ^ 32 - unat (y - base))"
    using unat_sub_if_size [of "x - base" "y - base"]
    by (simp only: word_size) (simp only: len_bit0 len_bit1 len_num1, simp)
  then show ?thesis using assms by (auto simp: xid_window_def)
qed

lemma unat_diff_eq: "unat (x - base) = unat (y - base) \<longleftrightarrow> x = (y :: u32)"
  by (metis diff_add_cancel word_unat_eq_iff)

text \<open>A window of the circle is ordered by the distance from its base.\<close>

locale window_order =
  fixes prec :: "'a \<Rightarrow> 'a \<Rightarrow> bool"
    and inside :: "'a \<Rightarrow> bool"
    and dist :: "'a \<Rightarrow> nat"
  assumes prec_dist: "inside x \<Longrightarrow> inside y \<Longrightarrow> prec x y \<longleftrightarrow> dist x < dist y"
    and dist_inj: "inside x \<Longrightarrow> inside y \<Longrightarrow> dist x = dist y \<Longrightarrow> x = y"
begin

lemma prec_irrefl: "inside x \<Longrightarrow> \<not> prec x x"
  by (simp add: prec_dist)

lemma prec_trans: "inside x \<Longrightarrow> inside y \<Longrightarrow> inside z \<Longrightarrow> prec x y \<Longrightarrow> prec y z \<Longrightarrow> prec x z"
  by (simp add: prec_dist)

lemma prec_total: "inside x \<Longrightarrow> inside y \<Longrightarrow> prec x y \<or> x = y \<or> prec y x"
  using dist_inj by (fastforce simp: prec_dist)

lemma prec_asym: "inside x \<Longrightarrow> inside y \<Longrightarrow> prec x y \<Longrightarrow> \<not> prec y x"
  by (simp add: prec_dist)

lemma prec_wf: "wfp (\<lambda>x y. inside x \<and> inside y \<and> prec x y)"
  by (rule wfp_if_convertible_to_nat [where f = dist]) (auto simp: prec_dist)

end

interpretation xid_order: window_order TransactionIdPrecedes "xid_window base" "\<lambda>x. unat (x - base)"
  for base
  by unfold_locales
    (simp_all add: TransactionIdPrecedes_def sint_less_0 unat_diff_window unat_diff_eq)

lemmas xid_compare_defs = TransactionIdPrecedes_def TransactionIdFollows_def
  TransactionIdPrecedesOrEquals_def TransactionIdFollowsOrEquals_def TransactionIdEquals_def

lemma xid_compare_by_precedes:
  "TransactionIdPrecedesOrEquals x y \<longleftrightarrow> TransactionIdPrecedes x y \<or> x = y"
  "TransactionIdFollowsOrEquals x y \<longleftrightarrow> \<not> TransactionIdPrecedes x y"
  "TransactionIdFollows x y \<longleftrightarrow> \<not> TransactionIdPrecedes x y \<and> x \<noteq> y"
  using sint_eq_0 [of "x - y"] by (auto simp: xid_compare_defs)

subsection \<open>Properties\<close>

text \<open>inside any half circle of identifiers \<open>TransactionIdPrecedes\<close> is a strict
  linear order, it orders by the distance from the start of the half circle, and the other
  three comparisons are its converse and their reflexive closures.\<close>

theorem xid_comparisons_linear_in_window:
  assumes "xid_window base x" "xid_window base y" "xid_window base z"
  shows "\<not> TransactionIdPrecedes x x \<and>
    (TransactionIdPrecedes x y \<and> TransactionIdPrecedes y z \<longrightarrow> TransactionIdPrecedes x z) \<and>
    (TransactionIdPrecedes x y \<or> TransactionIdEquals x y \<or> TransactionIdPrecedes y x) \<and>
    (TransactionIdPrecedes x y \<longleftrightarrow> unat (x - base) < unat (y - base)) \<and>
    (TransactionIdFollows x y \<longleftrightarrow> TransactionIdPrecedes y x) \<and>
    (TransactionIdPrecedesOrEquals x y \<longleftrightarrow> \<not> TransactionIdPrecedes y x) \<and>
    (TransactionIdFollowsOrEquals x y \<longleftrightarrow> \<not> TransactionIdPrecedes x y)"
  using xid_order.prec_irrefl [of base] xid_order.prec_trans [of base]
    xid_order.prec_total [of base] xid_order.prec_asym [of base] xid_order.prec_dist [of base] assms
  unfolding xid_compare_by_precedes TransactionIdEquals_def by blast

lemma xid_comparisons_linear_in_window_witness:
  "xid_window 0xFFFFFFF0 0xFFFFFFF5 \<and> xid_window 0xFFFFFFF0 3 \<and> xid_window 0xFFFFFFF0 100 \<and>
   TransactionIdPrecedes 0xFFFFFFF5 3 \<and> TransactionIdPrecedes 3 100 \<and>
   TransactionIdPrecedes 0xFFFFFFF5 100"
proof -
  have w: "xid_window 0xFFFFFFF0 0xFFFFFFF5" "xid_window 0xFFFFFFF0 3" "xid_window 0xFFFFFFF0 100"
    by (simp_all add: xid_window_def)
  have "TransactionIdPrecedes 0xFFFFFFF5 3" "TransactionIdPrecedes 3 100"
    using xid_comparisons_linear_in_window [OF w(1,2,3)]
      xid_comparisons_linear_in_window [OF w(2,3,1)] by simp_all
  with xid_comparisons_linear_in_window [OF w] w show ?thesis by blast
qed

end
