(* ===== verification/DeadlockDetector.thy ===== *)
theory DeadlockDetector
  imports TransactionIds "HOL-Library.AList"
begin

text \<open>
  The two deadlock detectors: \<open>src/transaction/deadlock.cpp\<close>, a depth-first search in the
  graph of transactions that wait for several holders, and
  \<open>src/storage/ipc/deadlock.cpp\<close>, which follows the single blocker of each waiter.

  A hash map is a list of pairs with distinct keys, in the iteration order of the map. The
  recursion of \<open>DfsVisit\<close> is bounded by fuel, one unit per nested call; a graph needs no
  more than its number of nodes, which \<open>dfs_fuel\<close> bounds, and \<open>None\<close> stands for
  running out of it.
\<close>

subsection \<open>Transactions: depth-first search\<close>

type_synonym WaitGraph = "(TransactionId \<times> TransactionId list) list"

record DfsState =
  visiting :: "TransactionId set"
  path :: "TransactionId list"
  start_xid :: TransactionId
  found_cycle :: bool
  cycle :: "TransactionId list"

fun DfsVisit :: "nat \<Rightarrow> WaitGraph \<Rightarrow> TransactionId \<Rightarrow> DfsState \<Rightarrow> DfsState option"
and dfs_loop :: "nat \<Rightarrow> WaitGraph \<Rightarrow> TransactionId list \<Rightarrow> DfsState \<Rightarrow> DfsState option" where
  "DfsVisit 0 g node st = None"
| "DfsVisit (Suc fuel) g node st =
    (let st1 = st\<lparr>visiting := insert node (visiting st), path := path st @ [node]\<rparr>
     in case (case map_of g node of None \<Rightarrow> Some st1 | Some ns \<Rightarrow> dfs_loop fuel g ns st1) of
          None \<Rightarrow> None
        | Some st2 \<Rightarrow>
            if found_cycle st2 then Some st2
            else Some (st2\<lparr>path := butlast (path st2), visiting := visiting st2 - {node}\<rparr>))"
| "dfs_loop fuel g [] st = Some st"
| "dfs_loop fuel g (neighbor # ns) st =
    (if neighbor = start_xid st \<and> length (path st) > 0
     then Some (st\<lparr>found_cycle := True, cycle := path st\<rparr>)
     else if neighbor \<notin> visiting st
     then (case DfsVisit fuel g neighbor st of
             None \<Rightarrow> None
           | Some st' \<Rightarrow> if found_cycle st' then Some st' else dfs_loop fuel g ns st')
     else dfs_loop fuel g ns st)"

definition AddWaitEdge :: "TransactionId \<Rightarrow> TransactionId \<Rightarrow> WaitGraph \<Rightarrow> WaitGraph" where
  "AddWaitEdge waiter holder g =
    (let edges = (case map_of g waiter of None \<Rightarrow> [] | Some hs \<Rightarrow> hs)
     in AList.update waiter (if holder \<in> set edges then edges else edges @ [holder]) g)"

definition RemoveWaitEdgesFor :: "TransactionId \<Rightarrow> WaitGraph \<Rightarrow> WaitGraph" where
  "RemoveWaitEdgesFor xid g =
    map (\<lambda>(waiter, holders). (waiter, removeAll xid holders)) (AList.delete xid g)"

definition dfs_fuel :: "WaitGraph \<Rightarrow> nat" where
  "dfs_fuel g = Suc (sum_list (map (\<lambda>(w, hs). Suc (length hs)) g))"

definition dfs_start :: "TransactionId \<Rightarrow> DfsState" where
  "dfs_start start = \<lparr>visiting = {}, path = [], start_xid = start, found_cycle = False, cycle = []\<rparr>"

definition DetectDeadlock :: "WaitGraph \<Rightarrow> TransactionId \<Rightarrow> bool option" where
  "DetectDeadlock g start = map_option found_cycle (DfsVisit (dfs_fuel g) g start (dfs_start start))"

definition FindDeadlockCycle :: "WaitGraph \<Rightarrow> TransactionId \<Rightarrow> TransactionId list option" where
  "FindDeadlockCycle g start = map_option cycle (DfsVisit (dfs_fuel g) g start (dfs_start start))"

definition SelectVictim :: "TransactionId list \<Rightarrow> TransactionId" where
  "SelectVictim cyc = (if cyc = [] then kInvalidTransactionId
     else foldl (\<lambda>victim xid. if xid > victim then xid else victim) (cyc ! 0) cyc)"

definition GetWaitEdges :: "WaitGraph \<Rightarrow> (TransactionId \<times> TransactionId) list" where
  "GetWaitEdges g = concat (map (\<lambda>(waiter, holders). map (\<lambda>holder. (waiter, holder)) holders) g)"

definition GetWaitersFor :: "TransactionId \<Rightarrow> WaitGraph \<Rightarrow> TransactionId list" where
  "GetWaitersFor holder g = map fst (filter (\<lambda>(waiter, holders). holder \<in> set holders) g)"

definition GetHoldersWaitedBy :: "TransactionId \<Rightarrow> WaitGraph \<Rightarrow> TransactionId list" where
  "GetHoldersWaitedBy waiter g = (case map_of g waiter of None \<Rightarrow> [] | Some hs \<Rightarrow> hs)"

definition ResetDeadlockDetector :: "WaitGraph \<Rightarrow> WaitGraph" where
  "ResetDeadlockDetector g = []"

subsection \<open>The graph\<close>

definition edges :: "WaitGraph \<Rightarrow> (TransactionId \<times> TransactionId) set" where
  "edges g = {(w, h). \<exists>hs. map_of g w = Some hs \<and> h \<in> set hs}"

definition graph_wf :: "WaitGraph \<Rightarrow> bool" where
  "graph_wf g \<longleftrightarrow> distinct (map fst g)"

lemma edges_AddWaitEdge: "edges (AddWaitEdge w h g) = insert (w, h) (edges g)"
  by (auto simp: edges_def AddWaitEdge_def Let_def update_conv' split: option.splits if_splits)

lemma graph_wf_AddWaitEdge: "graph_wf g \<Longrightarrow> graph_wf (AddWaitEdge w h g)"
  by (simp add: graph_wf_def AddWaitEdge_def Let_def distinct_update)

lemma edges_RemoveWaitEdgesFor: "edges (RemoveWaitEdgesFor x g) = {(w, h) \<in> edges g. w \<noteq> x \<and> h \<noteq> x}"
  by (auto simp: edges_def RemoveWaitEdgesFor_def map_of_map_snd delete_conv' split: if_splits)

lemma graph_wf_RemoveWaitEdgesFor: "graph_wf g \<Longrightarrow> graph_wf (RemoveWaitEdgesFor x g)"
  by (simp add: graph_wf_def RemoveWaitEdgesFor_def case_prod_unfold comp_def distinct_delete)

lemma set_GetWaitEdges: "graph_wf g \<Longrightarrow> set (GetWaitEdges g) = edges g"
  by (force simp: GetWaitEdges_def edges_def graph_wf_def)

lemma set_GetWaitersFor: "graph_wf g \<Longrightarrow> set (GetWaitersFor h g) = {w. (w, h) \<in> edges g}"
  by (force simp: GetWaitersFor_def edges_def graph_wf_def)

lemma set_GetHoldersWaitedBy: "set (GetHoldersWaitedBy w g) = {h. (w, h) \<in> edges g}"
  by (cases "map_of g w") (auto simp: GetHoldersWaitedBy_def edges_def)

subsection \<open>The search\<close>

text \<open>A way back from \<open>n\<close> to \<open>s\<close> over distinct nodes outside \<open>V\<close>.\<close>

definition way_back :: "WaitGraph \<Rightarrow> TransactionId \<Rightarrow> TransactionId set \<Rightarrow> TransactionId \<Rightarrow> TransactionId list \<Rightarrow> bool" where
  "way_back g s V n p \<longleftrightarrow> successively (\<lambda>a b. (a, b) \<in> edges g) (n # p) \<and>
     (last (n # p), s) \<in> edges g \<and> distinct (n # p) \<and> set (n # p) \<inter> V = {}"

lemma way_back_Cons:
  "way_back g s V n (m # p) \<longleftrightarrow> (n, m) \<in> edges g \<and> n \<notin> V \<and> way_back g s (insert n V) m p"
  by (auto simp: way_back_def)

lemma way_back_Nil: "way_back g s V n [] \<longleftrightarrow> (n, s) \<in> edges g \<and> n \<notin> V"
  by (auto simp: way_back_def)

lemma Dfs_correct:
  "DfsVisit f g node st = Some st' \<Longrightarrow> \<not> found_cycle st \<Longrightarrow> node \<notin> visiting st \<Longrightarrow>
     (if found_cycle st'
      then \<exists>p. cycle st' = path st @ node # p \<and> way_back g (start_xid st) (visiting st) node p
      else st' = st \<and> (\<nexists>p. way_back g (start_xid st) (visiting st) node p))"
  "dfs_loop f g ns st = Some st' \<Longrightarrow> \<not> found_cycle st \<Longrightarrow> path st \<noteq> [] \<Longrightarrow>
     (if found_cycle st'
      then (start_xid st \<in> set ns \<and> cycle st' = path st) \<or>
        (\<exists>n \<in> set ns. \<exists>p. cycle st' = path st @ n # p \<and> way_back g (start_xid st) (visiting st) n p)
      else st' = st \<and> start_xid st \<notin> set ns \<and>
        (\<forall>n \<in> set ns. \<nexists>p. way_back g (start_xid st) (visiting st) n p))"
proof (induction f g node st and f g ns st arbitrary: st' and st' rule: DfsVisit_dfs_loop.induct)
  case (1 g node st)
  then show ?case by simp
next
  case (2 fuel g node st)
  let ?st1 = "st\<lparr>visiting := insert node (visiting st), path := path st @ [node]\<rparr>"
  show ?case
  proof (cases "map_of g node")
    case None
    then have "\<And>h. (node, h) \<notin> edges g" by (simp add: edges_def)
    then have "\<nexists>p. way_back g (start_xid st) (visiting st) node p"
      by (metis list.exhaust way_back_Cons way_back_Nil)
    then show ?thesis using 2 None by (auto simp: Let_def)
  next
    case (Some ns)
    then have ed: "(node, h) \<in> edges g \<longleftrightarrow> h \<in> set ns" for h by (simp add: edges_def)
    obtain st2 where l: "dfs_loop fuel g ns ?st1 = Some st2"
      and st': "st' = (if found_cycle st2 then st2
          else st2\<lparr>path := butlast (path st2), visiting := visiting st2 - {node}\<rparr>)"
      using 2(2) Some by (auto simp: Let_def split: option.splits if_splits)
    have IH: "if found_cycle st2
      then (start_xid st \<in> set ns \<and> cycle st2 = path ?st1) \<or>
        (\<exists>n \<in> set ns. \<exists>p. cycle st2 = path ?st1 @ n # p \<and> way_back g (start_xid st) (visiting ?st1) n p)
      else st2 = ?st1 \<and> start_xid st \<notin> set ns \<and>
        (\<forall>n \<in> set ns. \<nexists>p. way_back g (start_xid st) (visiting ?st1) n p)"
      using 2(1) [OF refl Some l] 2(3) by (cases "found_cycle st2") simp_all
    show ?thesis
    proof (cases "found_cycle st2")
      case True
      then consider "start_xid st \<in> set ns" "cycle st2 = path ?st1"
        | n p where "n \<in> set ns" "cycle st2 = path ?st1 @ n # p"
            "way_back g (start_xid st) (visiting ?st1) n p"
        using IH by (auto split: if_splits)
      then show ?thesis
      proof cases
        case 1
        then show ?thesis using True st' 2(4) by (auto simp: way_back_Nil ed intro!: exI [of _ "[]"])
      next
        case (2 n p)
        then show ?thesis
          using True st' \<open>node \<notin> visiting st\<close> by (auto simp: way_back_Cons ed intro!: exI [of _ "n # p"])
      qed
    next
      case False
      then have "st' = st" using IH st' 2(4) by (cases st) auto
      moreover have "\<not> way_back g (start_xid st) (visiting st) node p" for p
        using IH False by (cases p) (auto simp: way_back_Cons way_back_Nil ed)
      ultimately show ?thesis using 2(3) by auto
    qed
  qed
next
  case (3 fuel g st)
  then show ?case by auto
next
  case (4 fuel g neighbor ns st)
  show ?case
  proof (cases "neighbor = start_xid st")
    case True
    then show ?thesis using 4(4,6) by auto
  next
    case ne: False
    show ?thesis
    proof (cases "neighbor \<in> visiting st")
      case True
      then have "\<not> way_back g (start_xid st) (visiting st) neighbor p" for p by (simp add: way_back_def)
      then show ?thesis using 4(3) [OF _ _ _ 4(5,6)] 4(4) ne True by auto
    next
      case False
      then obtain st1 where v: "DfsVisit fuel g neighbor st = Some st1"
        and r: "if found_cycle st1 then st' = st1 else dfs_loop fuel g ns st1 = Some st'"
        using 4(4) ne by (auto split: option.splits if_splits)
      have IH: "if found_cycle st1
        then \<exists>p. cycle st1 = path st @ neighbor # p \<and> way_back g (start_xid st) (visiting st) neighbor p
        else st1 = st \<and> (\<nexists>p. way_back g (start_xid st) (visiting st) neighbor p)"
        using 4(1) v ne False 4(5) by auto
      show ?thesis
      proof (cases "found_cycle st1")
        case True
        then show ?thesis using IH r by auto
      next
        case nf: False
        then show ?thesis using 4(2) [of st1 st'] v r IH ne False 4(5,6) by (auto split: if_splits)
      qed
    qed
  qed
qed

lemma Dfs_fuel:
  fixes N :: "TransactionId set"
  assumes N: "finite N" "\<And>a b. (a, b) \<in> edges g \<Longrightarrow> b \<in> N"
  shows "\<not> found_cycle st \<Longrightarrow> node \<in> N \<Longrightarrow> node \<notin> visiting st \<Longrightarrow> card (N - visiting st) \<le> f \<Longrightarrow>
      DfsVisit f g node st \<noteq> None"
    and "\<not> found_cycle st \<Longrightarrow> set ns \<subseteq> N \<Longrightarrow> card (N - visiting st) \<le> f \<Longrightarrow> dfs_loop f g ns st \<noteq> None"
  using N
proof (induction f g node st and f g ns st rule: DfsVisit_dfs_loop.induct)
  case (1 g node st)
  then have "N - visiting st \<noteq> {}" by blast
  then show ?case using 1 by (simp add: card_eq_0_iff)
next
  case (2 fuel g node st)
  let ?st1 = "st\<lparr>visiting := insert node (visiting st), path := path st @ [node]\<rparr>"
  have "N - visiting ?st1 = (N - visiting st) - {node}" by auto
  then have c: "card (N - visiting ?st1) \<le> fuel" using 2(3-6) by simp
  have "dfs_loop fuel g ns ?st1 \<noteq> None" if "map_of g node = Some ns" for ns
  proof (rule 2(1) [OF refl that _ _ c])
    show "set ns \<subseteq> N" using that 2(7) by (auto simp: edges_def)
  qed (use 2 in auto)
  then show ?case by (auto simp: Let_def split: option.splits)
next
  case (3 fuel g st)
  then show ?case by simp
next
  case (4 fuel g neighbor ns st)
  show ?case
  proof (cases "neighbor = start_xid st \<and> path st \<noteq> []")
    case True
    then show ?thesis by simp
  next
    case ne: False
    show ?thesis
    proof (cases "neighbor \<in> visiting st")
      case True
      then show ?thesis using 4(3) [OF _ _ 4(4)] 4(5-8) ne by auto
    next
      case False
      then obtain st1 where v: "DfsVisit fuel g neighbor st = Some st1"
        using 4(1) ne 4(4-8) by fastforce
      show ?thesis
      proof (cases "found_cycle st1")
        case True
        then show ?thesis using v ne False by auto
      next
        case nf: False
        then have "st1 = st" using Dfs_correct(1) [OF v 4(4) False] by simp
        then have "dfs_loop fuel g ns st1 \<noteq> None"
          using 4(2) [OF _ False v nf] ne 4(4-8) by auto
        then show ?thesis using v ne nf False by auto
      qed
    qed
  qed
qed

lemma card_nodes: "card (insert s (set (concat (map snd g)))) \<le> dfs_fuel g"
proof -
  have "card (set (concat (map snd g))) \<le> length (concat (map snd g))" by (rule card_length)
  also have "\<dots> \<le> sum_list (map (\<lambda>(w, hs). Suc (length hs)) g)"
    by (induction g) auto
  finally show ?thesis
    by (simp add: dfs_fuel_def card_insert_if)
qed

lemma edges_nodes: "(a, b) \<in> edges g \<Longrightarrow> b \<in> insert s (set (concat (map snd g)))"
  by (force simp: edges_def dest: map_of_SomeD)

lemma way_back_trancl: "way_back g s V n p \<Longrightarrow> (n, s) \<in> (edges g)\<^sup>+"
  by (induction p arbitrary: n V) (auto simp: way_back_Nil way_back_Cons intro: trancl_into_trancl2)

lemma trancl_way_back: "(n, s) \<in> (edges g)\<^sup>+ \<Longrightarrow> \<exists>p. way_back g s {} n p"
proof (induction rule: converse_trancl_induct)
  case (base n)
  then show ?case by (intro exI [of _ "[]"]) (simp add: way_back_Nil)
next
  case (step n m)
  then obtain p where p: "way_back g s {} m p" by blast
  show ?case
  proof (cases "n \<in> set (m # p)")
    case True
    then obtain us vs where "m # p = us @ n # vs" by (metis split_list)
    then have "way_back g s {} n vs"
      using p by (auto simp: way_back_def successively_append_iff)
    then show ?thesis by blast
  next
    case False
    then have "way_back g s {} n (m # p)" using p step(1) by (auto simp: way_back_def)
    then show ?thesis by blast
  qed
qed

lemma DfsVisit_start:
  "\<exists>st'. DfsVisit (dfs_fuel g) g s (dfs_start s) = Some st' \<and>
    (if found_cycle st' then way_back g s {} s (tl (cycle st')) \<and> cycle st' = s # tl (cycle st') \<and>
        (s, s) \<in> (edges g)\<^sup>+
     else cycle st' = [] \<and> (s, s) \<notin> (edges g)\<^sup>+)"
proof -
  have "DfsVisit (dfs_fuel g) g s (dfs_start s) \<noteq> None"
    using card_nodes [of s g] edges_nodes [of _ _ g s]
    by (intro Dfs_fuel(1) [where N = "insert s (set (concat (map snd g)))"])
      (auto simp: dfs_start_def)
  then obtain st' where v: "DfsVisit (dfs_fuel g) g s (dfs_start s) = Some st'" by blast
  have "if found_cycle st' then \<exists>p. cycle st' = s # p \<and> way_back g s {} s p
      else st' = dfs_start s \<and> (\<nexists>p. way_back g s {} s p)"
    using Dfs_correct(1) [OF v] by (cases "found_cycle st'") (auto simp: dfs_start_def)
  then have "if found_cycle st' then way_back g s {} s (tl (cycle st')) \<and> cycle st' = s # tl (cycle st') \<and>
        (s, s) \<in> (edges g)\<^sup>+
     else cycle st' = [] \<and> (s, s) \<notin> (edges g)\<^sup>+"
    using way_back_trancl trancl_way_back [of s s g]
    by (cases "found_cycle st'") (auto simp: dfs_start_def)
  with v show ?thesis by blast
qed

lemma DetectDeadlock_iff: "DetectDeadlock g s = Some ((s, s) \<in> (edges g)\<^sup>+)"
  using DfsVisit_start [of g s] by (auto simp: DetectDeadlock_def split: if_splits)

subsection \<open>The interface\<close>

text \<open>
  What a transaction that waits for locks relies on. The detector answers whether a node is on
  a cycle; adding the edge of a new wait and removing a finished transaction change exactly
  the edges involved.
\<close>

locale wait_for_graph =
  fixes edges_of :: "'g \<Rightarrow> ('n \<times> 'n) set"
    and add :: "'n \<Rightarrow> 'n \<Rightarrow> 'g \<Rightarrow> 'g"
    and remove :: "'n \<Rightarrow> 'g \<Rightarrow> 'g"
    and detect :: "'g \<Rightarrow> 'n \<Rightarrow> bool"
  assumes edges_add: "edges_of (add w h g) = insert (w, h) (edges_of g)"
    and edges_remove: "edges_of (remove x g) = {(w, h) \<in> edges_of g. w \<noteq> x \<and> h \<noteq> x}"
    and detect_iff: "detect g x \<longleftrightarrow> (x, x) \<in> (edges_of g)\<^sup>+"
begin

lemma detect_add: "detect (add w h g) w \<longleftrightarrow> detect g w \<or> (h, w) \<in> (edges_of g)\<^sup>*"
  by (auto simp: detect_iff edges_add trancl_insert)

lemma detect_remove_self: "\<not> detect (remove x g) x"
proof
  assume "detect (remove x g) x"
  then have "(x, x) \<in> (edges_of (remove x g))\<^sup>+" by (simp add: detect_iff)
  then obtain y where "(x, y) \<in> edges_of (remove x g)" by (metis tranclD)
  then show False by (simp add: edges_remove)
qed

lemma detect_remove_mono: "detect (remove x g) y \<Longrightarrow> detect g y"
proof -
  have "edges_of (remove x g) \<subseteq> edges_of g" by (auto simp: edges_remove)
  then show "detect (remove x g) y \<Longrightarrow> detect g y" by (auto simp: detect_iff dest: trancl_mono)
qed

end

interpretation xact_waits: wait_for_graph edges AddWaitEdge RemoveWaitEdgesFor
  "\<lambda>g x. DetectDeadlock g x = Some True"
  by unfold_locales (simp_all add: edges_AddWaitEdge edges_RemoveWaitEdgesFor DetectDeadlock_iff)

subsection \<open>Backends: following the blocker\<close>

type_synonym IpcWaitGraph = "(int \<times> int) list"

definition RegisterWaitFor :: "int \<Rightarrow> int \<Rightarrow> IpcWaitGraph \<Rightarrow> IpcWaitGraph" where
  "RegisterWaitFor waiter blocker g = omap_set waiter blocker g"

definition UnregisterWaitFor :: "int \<Rightarrow> IpcWaitGraph \<Rightarrow> IpcWaitGraph" where
  "UnregisterWaitFor waiter g = AList.delete waiter g"

definition ClearWaitForGraph :: "IpcWaitGraph \<Rightarrow> IpcWaitGraph" where
  "ClearWaitForGraph g = []"

definition WaitForEdges :: "IpcWaitGraph \<Rightarrow> (int \<times> int) list" where
  "WaitForEdges g = g"

function ipc_loop :: "IpcWaitGraph \<Rightarrow> int \<Rightarrow> int set \<Rightarrow> int list \<Rightarrow> bool \<times> int list" where
  "ipc_loop g current visited pth =
    (if current = -1 then (False, [])
     else if current \<in> set pth
     then (True, dropWhile (\<lambda>x. x \<noteq> current) pth @ [current])
     else if current \<in> visited then (False, [])
     else case map_of g current of
         None \<Rightarrow> (False, [])
       | Some blocker \<Rightarrow> ipc_loop g blocker (insert current visited) (pth @ [current]))"
  by pat_completeness auto
termination
proof (relation "measure (\<lambda>(g, current, visited, pth). card (fst ` set g - set pth))")
  fix g :: IpcWaitGraph and current :: int and visited :: "int set" and pth :: "int list" and blocker
  assume "\<not> current \<in> set pth" "map_of g current = Some blocker"
  then have "current \<in> fst ` set g - set pth" by (force dest: map_of_SomeD)
  then have "card ((fst ` set g - set pth) - {current}) < card (fst ` set g - set pth)"
    by (intro card_Diff1_less) auto
  moreover have "(fst ` set g - set pth) - {current} = fst ` set g - set (pth @ [current])" by auto
  ultimately show "((g, blocker, insert current visited, pth @ [current]), (g, current, visited, pth))
      \<in> measure (\<lambda>(g, current, visited, pth). card (fst ` set g - set pth))" by simp
qed simp

declare ipc_loop.simps [simp del]

definition IpcFindDeadlockCycle :: "IpcWaitGraph \<Rightarrow> int \<Rightarrow> bool \<times> int list" where
  "IpcFindDeadlockCycle g start = ipc_loop g start {} []"

fun has_loop :: "IpcWaitGraph \<Rightarrow> (int \<times> int) list \<Rightarrow> int set \<Rightarrow> bool" where
  "has_loop g [] checked = False"
| "has_loop g (kv # kvs) checked =
    (if fst kv \<in> checked then has_loop g kvs checked
     else (case IpcFindDeadlockCycle g (fst kv) of
         (True, cyc) \<Rightarrow> True
       | (False, cyc) \<Rightarrow> has_loop g kvs (insert (fst kv) (checked \<union> set cyc))))"

definition HasDeadlock :: "IpcWaitGraph \<Rightarrow> bool" where
  "HasDeadlock g = has_loop g g {}"

text \<open>The edges the search follows; it stops at the number -1, which stands for no backend.\<close>

definition ipc_edges :: "IpcWaitGraph \<Rightarrow> (int \<times> int) set" where
  "ipc_edges g = {(a, b). a \<noteq> -1 \<and> map_of g a = Some b}"

lemma single_valued_ipc_edges: "single_valued (ipc_edges g)"
  by (auto simp: ipc_edges_def intro: single_valuedI)

lemma no_cycle_before_end:
  assumes "single_valued r" "(s, t) \<in> r\<^sup>*" "t \<notin> Domain r" "(s, x) \<in> r\<^sup>*"
  shows "(x, x) \<notin> r\<^sup>+"
proof
  assume c: "(x, x) \<in> r\<^sup>+"
  have t: "(t, y) \<in> r\<^sup>* \<Longrightarrow> y = t" for y using assms(3) by (metis Domain.intros converse_rtranclE)
  have "(x, t) \<in> r\<^sup>* \<or> (t, x) \<in> r\<^sup>*"
    using single_valued_confluent [OF assms(1,2,4)] by blast
  then have "(x, t) \<in> r\<^sup>*" using t by auto
  then have "(t, x) \<in> r\<^sup>* \<or> (x, t) \<in> r\<^sup>+" by (auto dest: rtranclD)
  moreover have "(x, y) \<in> r\<^sup>* \<Longrightarrow> (y, x) \<in> r\<^sup>+" for y
  proof (induction rule: rtrancl_induct)
    case base
    show ?case by (rule c)
  next
    case (step y z)
    from step(3) obtain w where "(y, w) \<in> r" "(w, x) \<in> r\<^sup>*" by (metis tranclD)
    with step(2) assms(1) have "(z, x) \<in> r\<^sup>*" by (metis single_valuedD)
    then show ?case using c by (rule rtrancl_trancl_trancl)
  qed
  ultimately have "(t, x) \<in> r\<^sup>+" using \<open>(x, t) \<in> r\<^sup>*\<close> by blast
  then show False using assms(3) by (metis Domain.intros tranclD)
qed

lemma ipc_loop_spec:
  "successively (\<lambda>a b. (a, b) \<in> ipc_edges g) (pth @ [cur]) \<Longrightarrow> visited = set pth \<Longrightarrow>
   ipc_loop g cur visited pth = (b, c) \<Longrightarrow>
   if b then 2 \<le> length c \<and> hd c = last c \<and> successively (\<lambda>a b. (a, b) \<in> ipc_edges g) c \<and>
      (cur, hd c) \<in> (ipc_edges g)\<^sup>*
   else c = [] \<and> (\<exists>t. (cur, t) \<in> (ipc_edges g)\<^sup>* \<and> t \<notin> Domain (ipc_edges g))"
proof (induction g cur visited pth rule: ipc_loop.induct)
  case (1 g cur visited pth)
  show ?case
  proof (cases "cur = -1 \<or> (cur \<notin> set pth \<and> map_of g cur = None)")
    case True
    then have "cur \<notin> Domain (ipc_edges g)" by (auto simp: ipc_edges_def)
    then show ?thesis using 1(4) True \<open>visited = set pth\<close>
      by (auto simp: ipc_loop.simps [of g cur] split: if_splits)
  next
    case False
    then consider "cur \<in> set pth" "cur \<noteq> -1"
      | blocker where "cur \<notin> set pth" "cur \<noteq> -1" "map_of g cur = Some blocker"
      by (cases "map_of g cur") auto
    then show ?thesis
    proof cases
      case c1: 1
      then obtain us vs where p: "pth = us @ cur # vs" "cur \<notin> set us" by (metis split_list_first)
      have "\<And>x. x \<in> set us \<Longrightarrow> x \<noteq> cur" using p(2) by auto
      then have d: "dropWhile (\<lambda>x. x \<noteq> cur) pth = cur # vs"
        unfolding p(1) by (subst dropWhile_append2) simp_all
      have c: "b" "c = cur # vs @ [cur]"
        using 1(4) c1 d by (auto simp: ipc_loop.simps [of g cur])
      have "successively (\<lambda>a b. (a, b) \<in> ipc_edges g) (us @ (cur # vs @ [cur]))" using 1(2) p by simp
      then have "successively (\<lambda>a b. (a, b) \<in> ipc_edges g) (cur # vs @ [cur])"
        by (simp only: successively_append_iff)
      then show ?thesis using c by simp
    next
      case (2 blocker)
      then have l: "ipc_loop g blocker (insert cur visited) (pth @ [cur]) = (b, c)"
        using 1(3,4) by (simp add: ipc_loop.simps [of g cur])
      have e: "(cur, blocker) \<in> ipc_edges g" using 2 by (simp add: ipc_edges_def)
      have "successively (\<lambda>a b. (a, b) \<in> ipc_edges g) ((pth @ [cur]) @ [blocker])"
        using 1(2) e by (simp add: successively_append_iff)
      with 1(1) [OF _ _ _ 2(3) this _ l] 2 1(3) e show ?thesis
        by (cases b) (auto intro: converse_rtrancl_into_rtrancl)
    qed
  qed
qed

lemma chain_trancl:
  "successively (\<lambda>a b. (a, b) \<in> r) xs \<Longrightarrow> 2 \<le> length xs \<Longrightarrow> (hd xs, last xs) \<in> r\<^sup>+"
proof (induction xs rule: induct_list012)
  case (3 x y zs)
  then show ?case by (cases zs) (auto intro: trancl_into_trancl2)
qed simp_all

lemma IpcFindDeadlockCycle_spec:
  "IpcFindDeadlockCycle g s = (b, c) \<Longrightarrow>
   (if b then 2 \<le> length c \<and> hd c = last c \<and> successively (\<lambda>a b. (a, b) \<in> ipc_edges g) c \<and>
       (s, hd c) \<in> (ipc_edges g)\<^sup>* else c = []) \<and>
   b = (\<exists>x. (s, x) \<in> (ipc_edges g)\<^sup>* \<and> (x, x) \<in> (ipc_edges g)\<^sup>+)"
proof -
  assume l: "IpcFindDeadlockCycle g s = (b, c)"
  then have sp: "if b then 2 \<le> length c \<and> hd c = last c \<and> successively (\<lambda>a b. (a, b) \<in> ipc_edges g) c \<and>
      (s, hd c) \<in> (ipc_edges g)\<^sup>*
    else c = [] \<and> (\<exists>t. (s, t) \<in> (ipc_edges g)\<^sup>* \<and> t \<notin> Domain (ipc_edges g))"
    using ipc_loop_spec [of g "[]" s "{}" b c] by (simp add: IpcFindDeadlockCycle_def)
  show ?thesis
  proof (cases b)
    case True
    then have "(hd c, hd c) \<in> (ipc_edges g)\<^sup>+"
      using sp chain_trancl [of "ipc_edges g" c] by auto
    then show ?thesis using sp True by auto
  next
    case False
    then show ?thesis using sp no_cycle_before_end [OF single_valued_ipc_edges] by auto
  qed
qed

lemma has_loop_spec:
  "(\<And>x. x \<in> checked \<Longrightarrow> \<not> fst (IpcFindDeadlockCycle g x)) \<Longrightarrow>
    has_loop g kvs checked \<longleftrightarrow> (\<exists>k \<in> fst ` set kvs. fst (IpcFindDeadlockCycle g k))"
proof (induction g kvs checked rule: has_loop.induct)
  case (2 g kv kvs checked)
  obtain b c where f: "IpcFindDeadlockCycle g (fst kv) = (b, c)" by force
  show ?case
  proof (cases "fst kv \<in> checked \<or> b")
    case True
    moreover have "fst kv \<in> checked \<Longrightarrow> \<not> b" using 2(3) [of "fst kv"] f by auto
    ultimately show ?thesis using 2(1,3) f by auto
  next
    case False
    then have "c = []" using IpcFindDeadlockCycle_spec [OF f] by simp
    then have "x \<in> insert (fst kv) (checked \<union> set c) \<Longrightarrow> \<not> fst (IpcFindDeadlockCycle g x)" for x
      using 2(3) f False by auto
    then have "has_loop g kvs (insert (fst kv) (checked \<union> set c)) \<longleftrightarrow>
        (\<exists>k \<in> fst ` set kvs. fst (IpcFindDeadlockCycle g k))"
      using f False by (intro 2(2)) auto
    then show ?thesis using f False by (auto split: bool.splits)
  qed
qed simp

subsection \<open>Properties\<close>

text \<open>C4: the depth-first detector always returns; it reports a deadlock for a transaction
  exactly when the transaction waits for itself through one or more wait edges, and the cycle
  it returns starts with that transaction, has no repeated member and each member waits for the
  next, the last one for the first.\<close>

theorem deadlock_detected_iff_cycle:
  "DetectDeadlock g s = Some ((s, s) \<in> (edges g)\<^sup>+) \<and>
   (\<exists>c. FindDeadlockCycle g s = Some c \<and>
     (if (s, s) \<in> (edges g)\<^sup>+
      then c \<noteq> [] \<and> hd c = s \<and> distinct c \<and> successively (\<lambda>a b. (a, b) \<in> edges g) c \<and>
        (last c, s) \<in> edges g
      else c = []))"
proof -
  obtain st' where v: "DfsVisit (dfs_fuel g) g s (dfs_start s) = Some st'" and
    r: "if found_cycle st' then way_back g s {} s (tl (cycle st')) \<and> cycle st' = s # tl (cycle st') \<and>
        (s, s) \<in> (edges g)\<^sup>+
     else cycle st' = [] \<and> (s, s) \<notin> (edges g)\<^sup>+"
    using DfsVisit_start by blast
  have "found_cycle st' \<longleftrightarrow> (s, s) \<in> (edges g)\<^sup>+" using r by (auto split: if_splits)
  moreover have "\<exists>p. cycle st' = s # p \<and> way_back g s {} s p" if "found_cycle st'"
    using r that by metis
  moreover have "\<not> found_cycle st' \<Longrightarrow> cycle st' = []" using r by metis
  ultimately show ?thesis
    by (auto simp: DetectDeadlock_iff FindDeadlockCycle_def v way_back_def)
qed

text \<open>a new wait edge puts the waiter into a deadlock exactly when it was in one already
  or the holder already waits, directly or through others, for the waiter; once a transaction
  is removed it is in no deadlock and no other transaction is in a new one.\<close>

theorem wait_edges_and_deadlocks:
  "(DetectDeadlock (AddWaitEdge w h g) w = Some True \<longleftrightarrow>
     DetectDeadlock g w = Some True \<or> (h, w) \<in> (edges g)\<^sup>*) \<and>
   DetectDeadlock (RemoveWaitEdgesFor x g) x = Some False \<and>
   (DetectDeadlock (RemoveWaitEdgesFor x g) y = Some True \<longrightarrow> DetectDeadlock g y = Some True)"
proof -
  have "DetectDeadlock (RemoveWaitEdgesFor x g) x = Some False"
    using xact_waits.detect_remove_self [of x g] by (auto simp: DetectDeadlock_iff)
  then show ?thesis
    using xact_waits.detect_add [of w h g] xact_waits.detect_remove_mono [of x g y] by blast
qed

lemma wait_edges_and_deadlocks_witness:
  "DetectDeadlock (AddWaitEdge 5 6 [(6, [5])]) 5 = Some True \<and>
   DetectDeadlock (RemoveWaitEdgesFor 6 (AddWaitEdge 5 6 [(6, [5])])) 6 = Some False"
proof -
  have "(6, 5) \<in> (edges [(6, [5])])\<^sup>*" by (auto simp: edges_def)
  then show ?thesis using wait_edges_and_deadlocks [of 5 6 "[(6, [5])]" 6 6]
    wait_edges_and_deadlocks [of 5 6 "AddWaitEdge 5 6 [(6, [5])]" 6 6] by simp
qed

text \<open>the detector over single blockers finds a cycle from a backend exactly when one can
  be reached along the wait edges; the returned list is such a cycle with its first member
  repeated at the end, and \<open>HasDeadlock\<close> holds exactly when some backend waits for itself.\<close>

theorem ipc_deadlock_iff_cycle:
  "(\<exists>b c. IpcFindDeadlockCycle g s = (b, c) \<and>
     b = (\<exists>x. (s, x) \<in> (ipc_edges g)\<^sup>* \<and> (x, x) \<in> (ipc_edges g)\<^sup>+) \<and>
     (if b then 2 \<le> length c \<and> hd c = last c \<and> (s, hd c) \<in> (ipc_edges g)\<^sup>* \<and>
         successively (\<lambda>a b. (a, b) \<in> ipc_edges g) c else c = [])) \<and>
   HasDeadlock g = (\<exists>x. (x, x) \<in> (ipc_edges g)\<^sup>+)"
proof
  obtain b c where f: "IpcFindDeadlockCycle g s = (b, c)" by force
  then show "\<exists>b c. IpcFindDeadlockCycle g s = (b, c) \<and>
     b = (\<exists>x. (s, x) \<in> (ipc_edges g)\<^sup>* \<and> (x, x) \<in> (ipc_edges g)\<^sup>+) \<and>
     (if b then 2 \<le> length c \<and> hd c = last c \<and> (s, hd c) \<in> (ipc_edges g)\<^sup>* \<and>
         successively (\<lambda>a b. (a, b) \<in> ipc_edges g) c else c = [])"
    using IpcFindDeadlockCycle_spec [OF f] by (intro exI [of _ b] exI [of _ c], cases b) simp_all
next
  have f: "fst (IpcFindDeadlockCycle g k) \<longleftrightarrow> (\<exists>x. (k, x) \<in> (ipc_edges g)\<^sup>* \<and> (x, x) \<in> (ipc_edges g)\<^sup>+)" for k
    using IpcFindDeadlockCycle_spec [of g k] by (cases "IpcFindDeadlockCycle g k") auto
  have key: "x \<in> fst ` set g" if c: "(x, x) \<in> (ipc_edges g)\<^sup>+" for x
  proof -
    obtain y where "(x, y) \<in> ipc_edges g" using tranclD [OF c] by blast
    then have "(x, y) \<in> set g" by (auto simp: ipc_edges_def dest: map_of_SomeD)
    then show ?thesis by force
  qed
  show "HasDeadlock g = (\<exists>x. (x, x) \<in> (ipc_edges g)\<^sup>+)"
  proof -
    have "HasDeadlock g \<longleftrightarrow> (\<exists>k \<in> fst ` set g. fst (IpcFindDeadlockCycle g k))"
      unfolding HasDeadlock_def by (rule has_loop_spec) simp
    then show ?thesis using key unfolding f by blast
  qed
qed

text \<open>the victim is a member of the cycle with the numerically largest identifier; this is
  the youngest transaction only as long as the identifiers have not wrapped around.\<close>

theorem victim_is_largest:
  assumes "c \<noteq> []"
  shows "SelectVictim c \<in> set c \<and> (\<forall>x \<in> set c. x \<le> SelectVictim c) \<and>
    ((\<exists>base. \<forall>x \<in> set c. xid_window base x \<and> base \<le> x) \<longrightarrow>
      (\<forall>x \<in> set c. TransactionIdPrecedesOrEquals x (SelectVictim c)))"
proof -
  have "foldl (\<lambda>victim xid. if xid > victim then xid else victim) a xs = foldl max a xs" for a :: u32 and xs
    by (induction xs arbitrary: a) (auto simp: max_def)
  then have v: "SelectVictim c = foldl max (c ! 0) c" using assms by (simp add: SelectVictim_def)
  have in_c: "SelectVictim c \<in> set c"
    using foldl_max_in [of "c ! 0" c] assms by (auto simp: v)
  have le: "x \<le> SelectVictim c" if "x \<in> set c" for x
    using that by (auto simp: v foldl_max_le_iff)
  have "TransactionIdPrecedesOrEquals x (SelectVictim c)"
    if w: "\<forall>x \<in> set c. xid_window base x \<and> base \<le> x" and x: "x \<in> set c" for base x
  proof -
    have "unat (x - base) \<le> unat (SelectVictim c - base)"
      using w x in_c le [OF x] by (simp add: unat_sub word_le_nat_alt)
    then show ?thesis
      using xid_order.prec_dist [of base x "SelectVictim c"] w x in_c unat_diff_eq
      by (fastforce simp: xid_compare_by_precedes)
  qed
  then show ?thesis using in_c le by blast
qed

lemma victim_is_largest_witness:
  "SelectVictim [10, 30, 20] = 30 \<and> 20 \<le> SelectVictim [10, 30, 20]"
  using victim_is_largest [of "[10, 30, 20]"] by (simp add: SelectVictim_def)

end
