(* ===== verification/FreeSpaceMap.thy ===== *)
theory FreeSpaceMap
  imports PgPrelude "HOL-Library.AList"
begin

text \<open>
  Free space tracking: the FSM page (\<open>src/storage/freespace/fsmpage.cpp\<close>), a binary tree
  in an array whose internal nodes hold the maximum of their children, and the per-relation map
  from blocks to free-space categories (\<open>src/storage/freespace/freespace.cpp\<close>).
\<close>

subsection \<open>The FSM page\<close>

definition kFsmLeafNodesPerPage :: nat where "kFsmLeafNodesPerPage = 162"
definition kFsmNodesPerPage :: nat where "kFsmNodesPerPage = 2 * kFsmLeafNodesPerPage - 1"

lemmas fsm_consts [pg_simps] = kFsmLeafNodesPerPage_def kFsmNodesPerPage_def

record FSMPageData =
  nodes :: "u8 list"
  fp_next_slot :: int

definition NodeIndexFromSlot :: "nat \<Rightarrow> nat" where
  "NodeIndexFromSlot slot = (kFsmLeafNodesPerPage - 1) + slot"

definition ParentIndex :: "nat \<Rightarrow> int" where
  "ParentIndex node_index = (if node_index = 0 then -1 else int ((node_index - 1) div 2))"

definition MaxOfChildren :: "u8 list \<Rightarrow> nat \<Rightarrow> u8" where
  "MaxOfChildren ns node_index =
    (let left = 2 * node_index + 1; right = 2 * node_index + 2
     in if left \<ge> kFsmNodesPerPage then 0
        else max (ns ! left) (if right < kFsmNodesPerPage then ns ! right else 0))"

function propagate_loop :: "u8 list \<Rightarrow> nat \<Rightarrow> u8 list" where
  "propagate_loop ns node =
    (if node \<noteq> 0
     then let parent = nat (ParentIndex node)
       in propagate_loop (ns[parent := MaxOfChildren ns parent]) parent
     else ns)"
  by pat_completeness auto
termination
  by (relation "measure snd") (auto simp: ParentIndex_def)

declare propagate_loop.simps [simp del]

definition PropagateUp :: "FSMPageData \<Rightarrow> nat \<Rightarrow> FSMPageData" where
  "PropagateUp page slot = page\<lparr>nodes := propagate_loop (nodes page) (NodeIndexFromSlot slot)\<rparr>"

definition FSMPageInit :: "FSMPageData \<Rightarrow> FSMPageData" where
  "FSMPageInit page = page\<lparr>nodes := replicate kFsmNodesPerPage 0, fp_next_slot := 0\<rparr>"

definition FSMPageGetFreeSpace :: "FSMPageData \<Rightarrow> u8" where
  "FSMPageGetFreeSpace page = nodes page ! 0"

definition FSMPageSetFreeSpace :: "FSMPageData \<Rightarrow> int \<Rightarrow> u8 \<Rightarrow> FSMPageData" where
  "FSMPageSetFreeSpace page slot v =
    (if slot < 0 \<or> slot \<ge> int kFsmLeafNodesPerPage then page
     else PropagateUp (page\<lparr>nodes := (nodes page)[NodeIndexFromSlot (nat slot) := v]\<rparr>) (nat slot))"

text \<open>The walk from the root; \<open>None\<close> is the return of -1 inside the loop.\<close>

function search_loop :: "u8 list \<Rightarrow> u8 \<Rightarrow> nat \<Rightarrow> nat option" where
  "search_loop ns min_value node =
    (if node < kFsmLeafNodesPerPage - 1
     then let left = 2 * node + 1; right = 2 * node + 2;
              lv = (if left < kFsmNodesPerPage then ns ! left else 0);
              rv = (if right < kFsmNodesPerPage then ns ! right else 0)
       in if lv \<ge> min_value \<and> lv \<ge> rv then search_loop ns min_value left
          else if rv \<ge> min_value then search_loop ns min_value right
          else None
     else Some node)"
  by pat_completeness auto
termination
  by (relation "measure (\<lambda>(ns, v, node). kFsmNodesPerPage - node)") (auto simp: fsm_consts)

declare search_loop.simps [simp del]

definition FSMPageSearchFreeSpace :: "FSMPageData \<Rightarrow> u8 \<Rightarrow> int \<times> FSMPageData" where
  "FSMPageSearchFreeSpace page min_value =
    (if nodes page ! 0 < min_value then (-1, page)
     else case search_loop (nodes page) min_value 0 of
         None \<Rightarrow> (-1, page)
       | Some node \<Rightarrow>
           let slot = int node - (int kFsmLeafNodesPerPage - 1)
           in (slot, page\<lparr>fp_next_slot := slot\<rparr>))"

definition FSMPageGetSlot :: "FSMPageData \<Rightarrow> int \<Rightarrow> u8" where
  "FSMPageGetSlot page slot =
    (if slot < 0 \<or> slot \<ge> int kFsmLeafNodesPerPage then 0
     else nodes page ! NodeIndexFromSlot (nat slot))"

definition FSMPageClear :: "FSMPageData \<Rightarrow> FSMPageData" where
  "FSMPageClear page = FSMPageInit page"

definition FSMLeftChild :: "int \<Rightarrow> int" where "FSMLeftChild node_index = 2 * node_index + 1"
definition FSMRightChild :: "int \<Rightarrow> int" where "FSMRightChild node_index = 2 * node_index + 2"

subsection \<open>Per-relation maps\<close>

text \<open>The comparison of the map keys of type \<^typ>\<open>RelFileNode\<close>, which is a linear order.\<close>

definition RelFileNodeCmp :: "RelFileNode \<Rightarrow> RelFileNode \<Rightarrow> bool" where
  "RelFileNodeCmp a b =
    (if spc_node a \<noteq> spc_node b then spc_node a < spc_node b
     else if db_node a \<noteq> db_node b then db_node a < db_node b
     else rel_node a < rel_node b)"

instantiation RelFileNode :: linorder
begin

definition less_RelFileNode :: "RelFileNode \<Rightarrow> RelFileNode \<Rightarrow> bool" where
  "less_RelFileNode a b = RelFileNodeCmp a b"

definition less_eq_RelFileNode :: "RelFileNode \<Rightarrow> RelFileNode \<Rightarrow> bool" where
  "less_eq_RelFileNode a b = (a = b \<or> a < b)"

instance
proof
  fix x y z :: RelFileNode
  show "(x < y) = (x \<le> y \<and> \<not> y \<le> x)"
    by (auto simp: less_eq_RelFileNode_def less_RelFileNode_def RelFileNodeCmp_def split: if_splits)
  show "x \<le> x" by (simp add: less_eq_RelFileNode_def)
  show "x \<le> y \<Longrightarrow> y \<le> z \<Longrightarrow> x \<le> z"
    by (auto simp: less_eq_RelFileNode_def less_RelFileNode_def RelFileNodeCmp_def split: if_splits)
  show "x \<le> y \<Longrightarrow> y \<le> x \<Longrightarrow> x = y"
    by (auto simp: less_eq_RelFileNode_def less_RelFileNode_def RelFileNodeCmp_def split: if_splits)
  show "x \<le> y \<or> y \<le> x"
    by (cases x; cases y) (auto simp: less_eq_RelFileNode_def less_RelFileNode_def RelFileNodeCmp_def)
qed

end

type_synonym RelationFSM = "(BlockNumber \<times> u8) list"
type_synonym FsmMap = "(RelFileNode \<times> RelationFSM) list"

definition kFsmFreeSpaceMax :: int where "kFsmFreeSpaceMax = 255"

definition ClampCategory :: "u8 \<Rightarrow> u8" where
  "ClampCategory cat = (if uint cat > kFsmFreeSpaceMax then of_int kFsmFreeSpaceMax else cat)"

definition GetPageWithFreeSpace :: "RelFileNode \<Rightarrow> u8 \<Rightarrow> FsmMap \<Rightarrow> BlockNumber" where
  "GetPageWithFreeSpace rnode min_cat m = (case map_of m rnode of
      None \<Rightarrow> kInvalidBlockNumber
    | Some rel \<Rightarrow> (case find (\<lambda>kv. snd kv \<ge> min_cat) rel of
        None \<Rightarrow> kInvalidBlockNumber
      | Some kv \<Rightarrow> fst kv))"

definition RecordPageWithFreeSpace :: "RelFileNode \<Rightarrow> BlockNumber \<Rightarrow> u8 \<Rightarrow> FsmMap \<Rightarrow> FsmMap" where
  "RecordPageWithFreeSpace rnode block cat m =
    (let rel = (case map_of m rnode of None \<Rightarrow> [] | Some rel \<Rightarrow> rel)
     in omap_set rnode (omap_set block (ClampCategory cat) rel) m)"

definition FreeSpaceMapTruncateRel :: "RelFileNode \<Rightarrow> BlockNumber \<Rightarrow> FsmMap \<Rightarrow> FsmMap" where
  "FreeSpaceMapTruncateRel rnode nblocks m = (case map_of m rnode of
      None \<Rightarrow> m
    | Some rel \<Rightarrow> omap_set rnode (takeWhile (\<lambda>kv. fst kv < nblocks) rel) m)"

definition FreeSpaceMapVacuumRel :: "RelFileNode \<Rightarrow> FsmMap \<Rightarrow> int \<times> FsmMap" where
  "FreeSpaceMapVacuumRel rnode m = (case map_of m rnode of
      None \<Rightarrow> (0, m)
    | Some rel \<Rightarrow> (int (length rel), AList.delete rnode m))"

definition FreeSpaceMapDropRel :: "RelFileNode \<Rightarrow> FsmMap \<Rightarrow> int \<times> FsmMap" where
  "FreeSpaceMapDropRel rnode m = FreeSpaceMapVacuumRel rnode m"

definition ResetFreeSpaceMap :: "FsmMap \<Rightarrow> FsmMap" where
  "ResetFreeSpaceMap m = []"

definition GetFreeSpaceMapForRel :: "RelFileNode \<Rightarrow> FsmMap \<Rightarrow> (BlockNumber \<times> u8) list" where
  "GetFreeSpaceMapForRel rnode m = (case map_of m rnode of None \<Rightarrow> [] | Some rel \<Rightarrow> rel)"

definition FreeSpaceCategoryForBytes :: "int \<Rightarrow> u8" where
  "FreeSpaceCategoryForBytes bytes =
    (if bytes \<le> 0 then 0
     else let cat = bytes div 32
       in if cat > kFsmFreeSpaceMax then of_int kFsmFreeSpaceMax else of_int cat)"

definition BytesForFreeSpaceCategory :: "u8 \<Rightarrow> int" where
  "BytesForFreeSpaceCategory cat = uint cat * 32"

definition NumFSMRelations :: "FsmMap \<Rightarrow> int" where
  "NumFSMRelations m = int (length m)"

subsection \<open>The tree invariant\<close>

definition node_ok :: "u8 list \<Rightarrow> nat \<Rightarrow> bool" where
  "node_ok ns i \<longleftrightarrow> ns ! i = max (ns ! (2 * i + 1)) (ns ! (2 * i + 2))"

definition fsm_ok :: "FSMPageData \<Rightarrow> bool" where
  "fsm_ok page \<longleftrightarrow> length (nodes page) = kFsmNodesPerPage \<and>
     (\<forall>i < kFsmLeafNodesPerPage - 1. node_ok (nodes page) i)"

definition leaf :: "FSMPageData \<Rightarrow> nat \<Rightarrow> u8" where
  "leaf page s = nodes page ! (161 + s)"

lemma fsm_ok_Init: "fsm_ok (FSMPageInit page)"
  by (simp add: fsm_ok_def FSMPageInit_def node_ok_def fsm_consts)

lemma MaxOfChildren_internal:
  "p < 161 \<Longrightarrow> MaxOfChildren ns p = max (ns ! (2 * p + 1)) (ns ! (2 * p + 2))"
  by (simp add: MaxOfChildren_def fsm_consts Let_def)

lemma propagate_loop_spec:
  "length ns = 323 \<Longrightarrow> node < 323 \<Longrightarrow>
   (\<forall>i < 161. (node \<noteq> 0 \<longrightarrow> i \<noteq> (node - 1) div 2) \<longrightarrow> node_ok ns i) \<Longrightarrow>
   length (propagate_loop ns node) = 323 \<and> (\<forall>i < 161. node_ok (propagate_loop ns node) i) \<and>
   (\<forall>j. 161 \<le> j \<and> j < 323 \<longrightarrow> propagate_loop ns node ! j = ns ! j)"
proof (induction ns node rule: propagate_loop.induct)
  case (1 ns node)
  show ?case
  proof (cases "node = 0")
    case True
    then show ?thesis using 1(2-4) by (simp add: propagate_loop.simps [of ns 0])
  next
    case False
    define p where "p = (node - 1) div 2"
    define ns' where "ns' = ns[p := MaxOfChildren ns p]"
    have p: "p < 161" "nat (ParentIndex node) = p"
      using False 1(3) by (auto simp: p_def ParentIndex_def)
    have step: "propagate_loop ns node = propagate_loop ns' p"
      using False p(2) by (subst propagate_loop.simps) (simp add: Let_def ns'_def)
    have ok: "node_ok ns' i" if i: "i < 161" "p \<noteq> 0 \<longrightarrow> i \<noteq> (p - 1) div 2" for i
    proof (cases "i = p")
      case True
      then show ?thesis using p 1(2) by (simp add: node_ok_def ns'_def MaxOfChildren_internal)
    next
      case ip: False
      have "2 * i + 1 \<noteq> p" "2 * i + 2 \<noteq> p" using i(2) by presburger+
      then have "node_ok ns' i = node_ok ns i" using ip by (simp add: node_ok_def ns'_def)
      then show ?thesis using 1(4) i(1) ip False by (simp add: p_def)
    qed
    have "length ns' = 323" using 1(2) by (simp add: ns'_def)
    with 1(1) [OF False p(2) [symmetric]] ok p
    have "length (propagate_loop ns' p) = 323 \<and> (\<forall>i < 161. node_ok (propagate_loop ns' p) i) \<and>
        (\<forall>j. 161 \<le> j \<and> j < 323 \<longrightarrow> propagate_loop ns' p ! j = ns' ! j)"
      by (simp add: ns'_def)
    then show ?thesis using p(1) by (simp add: step ns'_def)
  qed
qed

lemma fsm_ok_SetFreeSpace:
  assumes "fsm_ok page" "s < 162"
  shows "fsm_ok (FSMPageSetFreeSpace page (int s) v) \<and>
    (\<forall>t < 162. leaf (FSMPageSetFreeSpace page (int s) v) t = (if t = s then v else leaf page t))"
proof -
  let ?ns = "(nodes page)[161 + s := v]"
  have len: "length (nodes page) = 323" and ok: "\<And>i. i < 161 \<Longrightarrow> node_ok (nodes page) i"
    using assms(1) by (simp_all add: fsm_ok_def fsm_consts)
  have "node_ok ?ns i" if "i < 161" "i \<noteq> (161 + s - 1) div 2" for i
  proof -
    have "2 * i + 1 \<noteq> 161 + s" "2 * i + 2 \<noteq> 161 + s" using that(2) by presburger+
    then show ?thesis using ok [OF that(1)] that(1) by (simp add: node_ok_def)
  qed
  then have "length (propagate_loop ?ns (161 + s)) = 323 \<and>
      (\<forall>i < 161. node_ok (propagate_loop ?ns (161 + s)) i) \<and>
      (\<forall>j. 161 \<le> j \<and> j < 323 \<longrightarrow> propagate_loop ?ns (161 + s) ! j = ?ns ! j)"
    using len assms(2) by (intro propagate_loop_spec) auto
  moreover have "FSMPageSetFreeSpace page (int s) v = page\<lparr>nodes := propagate_loop ?ns (161 + s)\<rparr>"
    using assms(2) by (simp add: FSMPageSetFreeSpace_def PropagateUp_def NodeIndexFromSlot_def fsm_consts)
  ultimately show ?thesis using len by (simp add: fsm_ok_def fsm_consts leaf_def)
qed

lemma root_is_upper_bound:
  assumes "fsm_ok page"
  shows "j < 323 \<Longrightarrow> nodes page ! j \<le> nodes page ! 0"
proof (induction j rule: less_induct)
  case (less j)
  show ?case
  proof (cases "j = 0")
    case True
    then show ?thesis by simp
  next
    case False
    define p where "p = (j - 1) div 2"
    have p: "p < 161" "p < j" "j = 2 * p + 1 \<or> j = 2 * p + 2" using False less.prems by (auto simp: p_def)
    then have "node_ok (nodes page) p" using assms by (simp add: fsm_ok_def fsm_consts)
    then have "nodes page ! j \<le> nodes page ! p" using p(3) by (auto simp: node_ok_def)
    also have "\<dots> \<le> nodes page ! 0" using less.IH [of p] p less.prems by simp
    finally show ?thesis .
  qed
qed

lemma search_loop_spec:
  assumes "\<forall>i < 161. node_ok ns i" "min_value \<le> ns ! node" "node < 323"
  shows "\<exists>k. search_loop ns min_value node = Some k \<and> 161 \<le> k \<and> k < 323 \<and> ns ! k = ns ! node"
  using assms
proof (induction ns min_value node rule: search_loop.induct)
  case (1 ns m node)
  show ?case
  proof (cases "node < 161")
    case False
    then show ?thesis using 1(5) by (simp add: search_loop.simps [of ns m node] fsm_consts)
  next
    case True
    let ?l = "2 * node + 1" let ?r = "2 * node + 2"
    have mx: "ns ! node = max (ns ! ?l) (ns ! ?r)" using 1(3) True by (simp add: node_ok_def)
    have b: "?l < kFsmNodesPerPage" "?r < kFsmNodesPerPage" "?l < 323" "?r < 323"
      using True by (simp_all add: fsm_consts)
    show ?thesis
    proof (cases "m \<le> ns ! ?l \<and> ns ! ?r \<le> ns ! ?l")
      case L: True
      then have "ns ! node = ns ! ?l" using mx by simp
      moreover have "search_loop ns m node = search_loop ns m ?l"
        using True b L by (simp add: search_loop.simps [of ns m node] fsm_consts Let_def)
      ultimately show ?thesis using 1(1) [OF _ refl refl refl refl] 1(3) True L b by (simp add: fsm_consts)
    next
      case R: False
      then have r: "m \<le> ns ! ?r" "ns ! node = ns ! ?r" using mx 1(4) by (auto simp: max_def split: if_splits)
      moreover have "search_loop ns m node = search_loop ns m ?r"
        using True b R r by (auto simp: search_loop.simps [of ns m node] fsm_consts Let_def)
      ultimately show ?thesis using 1(2) [OF _ refl refl refl refl] 1(3) True R b by (simp add: fsm_consts)
    qed
  qed
qed

lemma FSMPageSearchFreeSpace_spec:
  assumes "fsm_ok page" "FSMPageSearchFreeSpace page v = (s, page')"
  shows "if s < 0 then s = -1 \<and> page' = page \<and> (\<forall>t < 162. leaf page t < v)
    else s < 162 \<and> page' = page\<lparr>fp_next_slot := s\<rparr> \<and> v \<le> leaf page (nat s) \<and>
      (\<forall>t < 162. leaf page t \<le> leaf page (nat s))"
proof (cases "nodes page ! 0 < v")
  case True
  then have "\<forall>t < 162. leaf page t < v"
    using le_less_trans [OF root_is_upper_bound [OF assms(1)]] by (simp add: leaf_def)
  then show ?thesis using True assms(2) by (auto simp: FSMPageSearchFreeSpace_def)
next
  case False
  obtain k where k: "search_loop (nodes page) v 0 = Some k" "161 \<le> k" "k < 323"
      "nodes page ! k = nodes page ! 0"
    using search_loop_spec [of "nodes page" v 0] assms(1) False
    by (auto simp: fsm_ok_def fsm_consts not_less)
  have s: "s = int k - 161" "page' = page\<lparr>fp_next_slot := s\<rparr>"
    using assms(2) False k by (auto simp: FSMPageSearchFreeSpace_def fsm_consts Let_def)
  have l: "leaf page (nat s) = nodes page ! 0" using s(1) k by (simp add: leaf_def nat_diff_distrib)
  have "\<forall>t < 162. leaf page t \<le> nodes page ! 0"
    using root_is_upper_bound [OF assms(1)] by (simp add: leaf_def)
  then show ?thesis using l k s False by (auto simp: not_less)
qed

subsection \<open>Lookup in a relation's map\<close>

lemma find_block_None: "find (\<lambda>kv. snd kv \<ge> c) rel = None \<longleftrightarrow> (\<forall>kv \<in> set rel. snd kv < (c :: u8))"
  by (auto simp: find_None_iff not_le)

lemma find_block_Some:
  "sorted_wrt (<) (map fst rel) \<Longrightarrow> find (\<lambda>kv. snd kv \<ge> (c :: u8)) rel = Some kv \<Longrightarrow>
    kv \<in> set rel \<and> c \<le> snd kv \<and> (\<forall>kv' \<in> set rel. c \<le> snd kv' \<longrightarrow> fst kv \<le> (fst kv' :: BlockNumber))"
  by (induction rel) (auto split: if_splits)

definition rel_space :: "RelFileNode \<Rightarrow> FsmMap \<Rightarrow> BlockNumber \<rightharpoonup> u8" where
  "rel_space rnode m = map_of (GetFreeSpaceMapForRel rnode m)"

definition fsm_map_ok :: "FsmMap \<Rightarrow> bool" where
  "fsm_map_ok m \<longleftrightarrow> sorted_wrt (<) (map fst m) \<and>
     (\<forall>(r, rel) \<in> set m. sorted_wrt (<) (map fst rel) \<and> kInvalidBlockNumber \<notin> fst ` set rel)"

lemma ClampCategory_id: "ClampCategory c = c"
  using uint_lt2p [of c] by (simp add: ClampCategory_def kFsmFreeSpaceMax_def)

lemma sorted_distinct: "sorted_wrt (<) (xs :: 'a::linorder list) \<Longrightarrow> distinct xs"
  by (induction xs) auto

lemma rel_entry:
  "fsm_map_ok m \<Longrightarrow> map_of m r = Some rel \<Longrightarrow>
    sorted_wrt (<) (map fst rel) \<and> kInvalidBlockNumber \<notin> fst ` set rel"
  by (auto simp: fsm_map_ok_def dest!: map_of_SomeD)

lemma rel_entry_or_empty:
  "fsm_map_ok m \<Longrightarrow> sorted_wrt (<) (map fst (GetFreeSpaceMapForRel r m)) \<and>
    kInvalidBlockNumber \<notin> fst ` set (GetFreeSpaceMapForRel r m)"
  using rel_entry [of m r] by (simp add: GetFreeSpaceMapForRel_def split: option.splits)

lemma set_omap_set: "set (omap_set k v m) \<subseteq> insert (k, v) (set m)"
  by (induction k v m rule: omap_set.induct) auto

lemma fsm_map_ok_omap_set:
  assumes "fsm_map_ok m" "sorted_wrt (<) (map fst rel)" "kInvalidBlockNumber \<notin> fst ` set rel"
  shows "fsm_map_ok (omap_set r rel m)"
proof -
  have "sorted_wrt (<) (map fst (omap_set r rel m))"
    using assms(1) by (intro sorted_omap_set) (simp add: fsm_map_ok_def)
  moreover have "case x of (r, rel) \<Rightarrow> sorted_wrt (<) (map fst rel) \<and> kInvalidBlockNumber \<notin> fst ` set rel"
    if "x \<in> set (omap_set r rel m)" for x
  proof -
    have "x = (r, rel) \<or> x \<in> set m" using that set_omap_set [of r rel m] by blast
    then show ?thesis using assms by (auto simp: fsm_map_ok_def)
  qed
  ultimately show ?thesis unfolding fsm_map_ok_def by blast
qed

lemma GetFreeSpaceMapForRel_omap_set:
  "GetFreeSpaceMapForRel q (omap_set r rel m) = (if q = r then rel else GetFreeSpaceMapForRel q m)"
  by (simp add: GetFreeSpaceMapForRel_def)

lemma Record_unfold:
  "RecordPageWithFreeSpace r b c m = omap_set r (omap_set b c (GetFreeSpaceMapForRel r m)) m"
  by (simp add: RecordPageWithFreeSpace_def ClampCategory_id GetFreeSpaceMapForRel_def)

lemma Record_spec:
  assumes "fsm_map_ok m" "b \<noteq> kInvalidBlockNumber"
  shows "fsm_map_ok (RecordPageWithFreeSpace r b c m) \<and>
    rel_space q (RecordPageWithFreeSpace r b c m) = (if q = r then (rel_space r m)(b \<mapsto> c) else rel_space q m)"
proof -
  have "fsm_map_ok (RecordPageWithFreeSpace r b c m)"
    unfolding Record_unfold using rel_entry_or_empty [OF assms(1), of r] assms
    by (intro fsm_map_ok_omap_set sorted_omap_set) (auto simp: keys_omap_set)
  then show ?thesis by (simp add: rel_space_def Record_unfold GetFreeSpaceMapForRel_omap_set)
qed

lemma GetPageWithFreeSpace_unfold:
  "GetPageWithFreeSpace r c m = (case find (\<lambda>kv. snd kv \<ge> c) (GetFreeSpaceMapForRel r m) of
     None \<Rightarrow> kInvalidBlockNumber | Some kv \<Rightarrow> fst kv)"
  by (simp add: GetPageWithFreeSpace_def GetFreeSpaceMapForRel_def split: option.splits)

lemma rel_space_iff: "fsm_map_ok m \<Longrightarrow> rel_space r m b = Some c \<longleftrightarrow> (b, c) \<in> set (GetFreeSpaceMapForRel r m)"
  using rel_entry_or_empty [of m r] by (simp add: rel_space_def sorted_distinct)

lemma GetPage_spec:
  assumes "fsm_map_ok m"
  shows "if GetPageWithFreeSpace r c m = kInvalidBlockNumber then (\<forall>b v. rel_space r m b = Some v \<longrightarrow> v < c)
    else (\<exists>v. rel_space r m (GetPageWithFreeSpace r c m) = Some v \<and> c \<le> v) \<and>
      (\<forall>b v. rel_space r m b = Some v \<and> c \<le> v \<longrightarrow> GetPageWithFreeSpace r c m \<le> b)"
proof (cases "find (\<lambda>kv. snd kv \<ge> c) (GetFreeSpaceMapForRel r m)")
  case None
  then have "GetPageWithFreeSpace r c m = kInvalidBlockNumber" by (simp add: GetPageWithFreeSpace_unfold)
  then show ?thesis using assms None by (auto simp: rel_space_iff find_block_None)
next
  case (Some kv)
  have s: "sorted_wrt (<) (map fst (GetFreeSpaceMapForRel r m))"
    and i: "kInvalidBlockNumber \<notin> fst ` set (GetFreeSpaceMapForRel r m)"
    using rel_entry_or_empty [OF assms] by blast+
  note f = find_block_Some [OF s Some]
  have "fst kv \<noteq> kInvalidBlockNumber" using f i by force
  then show ?thesis
    using f Some by (cases kv) (auto simp: GetPageWithFreeSpace_unfold rel_space_iff [OF assms])
qed

lemma Truncate_spec:
  assumes "fsm_map_ok m"
  shows "fsm_map_ok (FreeSpaceMapTruncateRel r n m) \<and>
    rel_space q (FreeSpaceMapTruncateRel r n m) = (if q = r then rel_space r m |` {b. b < n} else rel_space q m)"
proof (cases "map_of m r")
  case None
  then show ?thesis using assms
    by (auto simp: FreeSpaceMapTruncateRel_def rel_space_def GetFreeSpaceMapForRel_def)
next
  case (Some rel)
  have rel: "sorted_wrt (<) (map fst rel)" "kInvalidBlockNumber \<notin> fst ` set rel"
    using rel_entry [OF assms Some] by blast+
  let ?t = "takeWhile (\<lambda>kv. fst kv < n) rel"
  have "sorted_wrt (<) (map fst ?t)" using rel(1) by (metis sorted_wrt_take takeWhile_eq_take take_map)
  moreover have "kInvalidBlockNumber \<notin> fst ` set ?t" using rel(2) by (auto dest: set_takeWhileD)
  ultimately have "fsm_map_ok (omap_set r ?t m)" using assms by (rule fsm_map_ok_omap_set [rotated])
  moreover have "map_of ?t = map_of rel |` {b. b < n}"
    using rel(1)
  proof (induction rel)
    case (Cons kv rel)
    have "\<forall>kv' \<in> set rel. fst kv < fst kv'" using Cons.prems by simp
    then have "map_of rel b = None" if "b \<le> fst kv" for b
      using that by (force simp: map_of_eq_None_iff)
    then show ?case using Cons by (cases kv) (auto simp: restrict_map_def fun_eq_iff not_less)
  qed simp
  ultimately show ?thesis
    using Some by (simp add: FreeSpaceMapTruncateRel_def rel_space_def GetFreeSpaceMapForRel_def)
qed

subsection \<open>The interface\<close>

text \<open>
  Both structures are free-space finders: space is recorded under a key, and a search for an
  amount returns a key under which at least that amount is recorded, unless there is none.
\<close>

locale space_finder =
  fixes record_space :: "'k \<Rightarrow> u8 \<Rightarrow> 's \<Rightarrow> 's"
    and search :: "u8 \<Rightarrow> 's \<Rightarrow> 'k option"
    and space :: "'s \<Rightarrow> 'k \<rightharpoonup> u8"
    and ok :: "'s \<Rightarrow> bool"
    and key :: "'k \<Rightarrow> bool"
  assumes record_law: "ok s \<Longrightarrow> key k \<Longrightarrow> ok (record_space k v s) \<and> space (record_space k v s) = (space s)(k \<mapsto> v)"
    and search_found: "ok s \<Longrightarrow> search v s = Some k \<Longrightarrow> \<exists>c. space s k = Some c \<and> v \<le> c"
    and search_none: "ok s \<Longrightarrow> search v s = None \<Longrightarrow> space s k = Some c \<Longrightarrow> c < v"
begin

lemma search_iff: "ok s \<Longrightarrow> search v s \<noteq> None \<longleftrightarrow> (\<exists>k c. space s k = Some c \<and> v \<le> c)"
  using search_found [of s v] search_none [of s v] by (auto simp: not_less [symmetric])

lemma search_after_record: "ok s \<Longrightarrow> key k \<Longrightarrow> v \<le> c \<Longrightarrow> search v (record_space k c s) \<noteq> None"
  using record_law [of s k c] by (subst search_iff) auto

lemma search_after_full:
  "ok s \<Longrightarrow> key k \<Longrightarrow> c < v \<Longrightarrow> search v (record_space k c s) \<noteq> Some k"
  using record_law [of s k c] search_found [of "record_space k c s" v k] by auto

end

definition page_space :: "FSMPageData \<Rightarrow> nat \<rightharpoonup> u8" where
  "page_space page = (\<lambda>s. if s < 162 then Some (leaf page s) else None)"

definition page_search :: "u8 \<Rightarrow> FSMPageData \<Rightarrow> nat option" where
  "page_search v page =
    (let s = fst (FSMPageSearchFreeSpace page v) in if s < 0 then None else Some (nat s))"

definition rel_search :: "RelFileNode \<Rightarrow> u8 \<Rightarrow> FsmMap \<Rightarrow> BlockNumber option" where
  "rel_search r v m =
    (let b = GetPageWithFreeSpace r v m in if b = kInvalidBlockNumber then None else Some b)"

interpretation fsm_page: space_finder "\<lambda>s v page. FSMPageSetFreeSpace page (int s) v" page_search
  page_space fsm_ok "\<lambda>s. s < 162"
proof (unfold_locales, goal_cases)
  case (1 page s v)
  then show ?case using fsm_ok_SetFreeSpace [of page s v] by (auto simp: page_space_def fun_eq_iff)
next
  case (2 page v s)
  then show ?case
    using FSMPageSearchFreeSpace_spec [of page v "fst (FSMPageSearchFreeSpace page v)"
      "snd (FSMPageSearchFreeSpace page v)"]
    by (auto simp: page_search_def page_space_def Let_def split: if_splits)
next
  case (3 page v s c)
  then show ?case
    using FSMPageSearchFreeSpace_spec [of page v "fst (FSMPageSearchFreeSpace page v)"
      "snd (FSMPageSearchFreeSpace page v)"]
    by (auto simp: page_search_def page_space_def Let_def split: if_splits)
qed

interpretation rel_fsm: space_finder "RecordPageWithFreeSpace r" "rel_search r" "rel_space r" fsm_map_ok
  "\<lambda>b. b \<noteq> kInvalidBlockNumber" for r
proof (unfold_locales, goal_cases)
  case (1 m b v)
  then show ?case by (simp add: Record_spec)
next
  case (2 m v b)
  then show ?case using GetPage_spec [of m r v] by (auto simp: rel_search_def Let_def split: if_splits)
next
  case (3 m v b c)
  then show ?case using GetPage_spec [of m r v] by (auto simp: rel_search_def Let_def split: if_splits)
qed

lemma uint_category:
  "uint (FreeSpaceCategoryForBytes b) = (if b \<le> 0 then 0 else min 255 (b div 32))"
  by (auto simp: FreeSpaceCategoryForBytes_def kFsmFreeSpaceMax_def Let_def uint_word_of_int
      pos_imp_zdiv_nonneg_iff not_less)

subsection \<open>Properties\<close>

text \<open>C20: setting the free space of a slot keeps the FSM page a maximum tree (every internal
  node holds the maximum of its children, so the root holds the page maximum) and changes the
  value of that slot only; slots out of range are ignored.\<close>

theorem fsm_page_set_keeps_max_tree:
  assumes "fsm_ok page"
  shows "fsm_ok (FSMPageSetFreeSpace page s v) \<and>
    (\<forall>t. FSMPageGetSlot (FSMPageSetFreeSpace page s v) t =
      (if t = s \<and> 0 \<le> s \<and> s < 162 then v else FSMPageGetSlot page t)) \<and>
    FSMPageGetFreeSpace page = Max (FSMPageGetSlot page ` {0..<162})"
proof -
  have slot: "FSMPageGetSlot p t = (if 0 \<le> t \<and> t < 162 then leaf p (nat t) else 0)" for p t
    by (simp add: FSMPageGetSlot_def leaf_def NodeIndexFromSlot_def fsm_consts)
  obtain k where k: "161 \<le> k" "k < 323" "nodes page ! k = nodes page ! 0"
    using search_loop_spec [of "nodes page" 0 0] assms by (auto simp: fsm_ok_def fsm_consts)
  then have "nodes page ! 0 = FSMPageGetSlot page (int k - 161)"
    by (simp add: slot leaf_def nat_diff_distrib)
  then have "FSMPageGetFreeSpace page = Max (FSMPageGetSlot page ` {0..<162})"
    unfolding FSMPageGetFreeSpace_def
    using k root_is_upper_bound [OF assms]
    by (intro Max_eqI [symmetric]) (auto simp: slot leaf_def nat_diff_distrib intro!: image_eqI [of _ _ "int k - 161"])
  moreover have "FSMPageSetFreeSpace page s v = page" if "\<not> (0 \<le> s \<and> s < 162)"
    using that by (auto simp: FSMPageSetFreeSpace_def fsm_consts)
  moreover have "fsm_ok (FSMPageSetFreeSpace page s v) \<and>
      (\<forall>t < 162. leaf (FSMPageSetFreeSpace page s v) t = (if t = nat s then v else leaf page t))"
    if "0 \<le> s \<and> s < 162"
    using fsm_ok_SetFreeSpace [OF assms, of "nat s" v] that by auto
  ultimately show ?thesis
    using assms by (cases "0 \<le> s \<and> s < 162") (auto simp: slot)
qed

lemma fsm_page_set_keeps_max_tree_witness:
  "fsm_ok (FSMPageInit \<lparr>nodes = [], fp_next_slot = 0\<rparr>) \<and>
   FSMPageGetSlot (FSMPageSetFreeSpace (FSMPageInit \<lparr>nodes = [], fp_next_slot = 0\<rparr>) 5 9) 5 = 9"
  using fsm_page_set_keeps_max_tree [OF fsm_ok_Init, of "\<lparr>nodes = [], fp_next_slot = 0\<rparr>" 5 9]
    fsm_ok_Init by simp

text \<open>C24: the search of an FSM page fails with -1 exactly when no slot has the requested
  category; otherwise the walk from the root ends at a slot whose category is the maximum of
  the page, and only the search hint changes.\<close>

theorem fsm_page_search_correct:
  assumes "fsm_ok page" "FSMPageSearchFreeSpace page v = (s, page')"
  shows "(s = -1 \<longleftrightarrow> (\<forall>t \<in> {0..<162}. FSMPageGetSlot page t < v)) \<and>
    (s \<noteq> -1 \<longrightarrow> 0 \<le> s \<and> s < 162 \<and> v \<le> FSMPageGetSlot page s \<and>
      (\<forall>t \<in> {0..<162}. FSMPageGetSlot page t \<le> FSMPageGetSlot page s) \<and>
      page' = page\<lparr>fp_next_slot := s\<rparr>)"
proof -
  have slot: "FSMPageGetSlot page t = leaf page (nat t)" if "t \<in> {0..<162}" for t
    using that by (simp add: FSMPageGetSlot_def leaf_def NodeIndexFromSlot_def fsm_consts)
  have all: "(\<forall>t \<in> {0..<162}. P (FSMPageGetSlot page t)) \<longleftrightarrow> (\<forall>t < 162. P (leaf page t))" for P
  proof
    assume a: "\<forall>t \<in> {0..<162}. P (FSMPageGetSlot page t)"
    show "\<forall>t < 162. P (leaf page t)"
    proof (intro allI impI)
      fix t :: nat assume "t < 162"
      then have t: "int t \<in> {0..<162}" by simp
      show "P (leaf page t)" using bspec [OF a t] slot [OF t] by simp
    qed
  qed (use slot in auto)
  show ?thesis
  proof (cases "s < 0")
    case True
    then show ?thesis
      using FSMPageSearchFreeSpace_spec [OF assms] all [of "\<lambda>x. x < v"] by simp
  next
    case False
    then have r: "s < 162" "page' = page\<lparr>fp_next_slot := s\<rparr>" "v \<le> leaf page (nat s)"
      "\<forall>t < 162. leaf page t \<le> leaf page (nat s)"
      using FSMPageSearchFreeSpace_spec [OF assms] by simp_all
    then have "\<not> (\<forall>t < 162. leaf page t < v)" using False by (auto simp: not_less intro!: exI [of _ "nat s"])
    then show ?thesis
      using r False slot [of s] all [of "\<lambda>x. x < v"] all [of "\<lambda>x. x \<le> FSMPageGetSlot page s"] by auto
  qed
qed

lemma fsm_page_search_correct_witness:
  "fst (FSMPageSearchFreeSpace (FSMPageInit \<lparr>nodes = [], fp_next_slot = 0\<rparr>) 1) = -1"
proof -
  let ?p = "FSMPageInit \<lparr>nodes = [], fp_next_slot = 0\<rparr>"
  have "\<forall>t \<in> {0..<162}. FSMPageGetSlot ?p t < 1"
    by (auto simp: FSMPageGetSlot_def FSMPageInit_def NodeIndexFromSlot_def fsm_consts)
  then show ?thesis
    using fsm_page_search_correct [OF fsm_ok_Init, of "\<lparr>nodes = [], fp_next_slot = 0\<rparr>" 1
      "fst (FSMPageSearchFreeSpace ?p 1)" "snd (FSMPageSearchFreeSpace ?p 1)"] by simp
qed

text \<open>C25: in the per-relation map, recording changes one block of one relation, truncation
  drops the blocks from the given number on, and the search returns the lowest block of the
  relation with at least the requested category, or the invalid block number when there is
  none.\<close>

theorem rel_fsm_operations:
  assumes "fsm_map_ok m"
  shows "(b \<noteq> kInvalidBlockNumber \<longrightarrow> fsm_map_ok (RecordPageWithFreeSpace r b c m) \<and>
      rel_space q (RecordPageWithFreeSpace r b c m) =
        (if q = r then (rel_space r m)(b \<mapsto> c) else rel_space q m)) \<and>
    fsm_map_ok (FreeSpaceMapTruncateRel r n m) \<and>
    rel_space q (FreeSpaceMapTruncateRel r n m) =
      (if q = r then rel_space r m |` {b. b < n} else rel_space q m) \<and>
    (GetPageWithFreeSpace r c m = kInvalidBlockNumber \<longleftrightarrow> (\<forall>b v. rel_space r m b = Some v \<longrightarrow> v < c)) \<and>
    (GetPageWithFreeSpace r c m \<noteq> kInvalidBlockNumber \<longrightarrow>
      GetPageWithFreeSpace r c m = (LEAST b. \<exists>v. rel_space r m b = Some v \<and> c \<le> v))"
proof -
  have ne: "GetPageWithFreeSpace r c m = (LEAST b. \<exists>v. rel_space r m b = Some v \<and> c \<le> v)"
    "\<not> (\<forall>b v. rel_space r m b = Some v \<longrightarrow> v < c)"
    if "GetPageWithFreeSpace r c m \<noteq> kInvalidBlockNumber"
    using GetPage_spec [OF assms, of r c] that by (auto simp: not_less intro!: Least_equality [symmetric])
  then show ?thesis
    using GetPage_spec [OF assms, of r c] Record_spec [OF assms, of b r c q] Truncate_spec [OF assms, of r n q]
    by auto
qed

lemma rel_fsm_operations_witness:
  "GetPageWithFreeSpace (RelFileNode 1 2 3) 7
     (RecordPageWithFreeSpace (RelFileNode 1 2 3) 4 9 (RecordPageWithFreeSpace (RelFileNode 1 2 3) 5 8 [])) = 4"
proof -
  let ?r = "RelFileNode 1 2 3"
  let ?m1 = "RecordPageWithFreeSpace ?r 5 8 []" let ?m = "RecordPageWithFreeSpace ?r 4 9 ?m1"
  have i: "(5::u32) \<noteq> kInvalidBlockNumber" "(4::u32) \<noteq> kInvalidBlockNumber"
    by (simp_all add: kInvalidBlockNumber_def)
  have ok0: "fsm_map_ok []" by (simp add: fsm_map_ok_def)
  have ok1: "fsm_map_ok ?m1" and s1: "rel_space ?r ?m1 = [5 \<mapsto> 8]"
    using rel_fsm_operations [OF ok0, of 5 ?r 8 ?r] i
    by (simp_all add: rel_space_def GetFreeSpaceMapForRel_def)
  have ok: "fsm_map_ok ?m" and s: "rel_space ?r ?m = [5 \<mapsto> 8, 4 \<mapsto> 9]"
    using rel_fsm_operations [OF ok1, of 4 ?r 9 ?r] i s1 by simp_all
  define m where "m = ?m"
  have m: "rel_space ?r m = [5 \<mapsto> 8, 4 \<mapsto> 9]" by (simp only: m_def s)
  have "(LEAST b. \<exists>v. rel_space ?r m b = Some v \<and> 7 \<le> v) = 4"
    by (rule Least_equality) (auto simp: m split: if_splits)
  moreover have "\<not> (\<forall>b v. rel_space ?r m b = Some v \<longrightarrow> v < 7)"
    by (auto simp: m intro!: exI [of _ 4])
  ultimately have "GetPageWithFreeSpace ?r 7 m = 4"
    using rel_fsm_operations [OF ok [folded m_def], of 4 ?r 7 ?r 0] by metis
  then show ?thesis by (simp only: m_def)
qed

text \<open>the category of a free-space amount below the block size rounds down to a multiple of
  32 bytes, and a page found for the category of the needed bytes can miss up to 31 of them:
  the rounding of the request is downwards as well.\<close>

theorem category_rounds_down:
  assumes "0 \<le> free" "free < 8192" "0 \<le> need" "need < 8192"
  shows "BytesForFreeSpaceCategory (FreeSpaceCategoryForBytes free) \<le> free \<and>
    free < BytesForFreeSpaceCategory (FreeSpaceCategoryForBytes free) + 32 \<and>
    FreeSpaceCategoryForBytes (BytesForFreeSpaceCategory c) = c \<and>
    (FreeSpaceCategoryForBytes need \<le> FreeSpaceCategoryForBytes free \<longleftrightarrow> need div 32 \<le> free div 32)"
proof -
  have u: "uint (FreeSpaceCategoryForBytes x) = x div 32" if "0 \<le> x" "x < 8192" for x
    using that by (auto simp: uint_category)
  have "uint c < 256" "0 \<le> uint c" using uint_lt2p [of c] by simp_all
  then have "uint (FreeSpaceCategoryForBytes (uint c * 32)) = uint c" using u [of "uint c * 32"] by simp
  then have "FreeSpaceCategoryForBytes (BytesForFreeSpaceCategory c) = c"
    by (simp add: BytesForFreeSpaceCategory_def word_uint_eq_iff)
  moreover have "free div 32 * 32 \<le> free \<and> free < free div 32 * 32 + 32"
    using div_mult_mod_eq [of free 32] pos_mod_bound [of 32 free] pos_mod_sign [of 32 free] by linarith
  ultimately show ?thesis
    using assms u [of free] u [of need] by (simp add: BytesForFreeSpaceCategory_def word_le_def)
qed

lemma category_rounds_down_witness:
  "FreeSpaceCategoryForBytes 63 \<le> FreeSpaceCategoryForBytes 32 \<and>
   BytesForFreeSpaceCategory (FreeSpaceCategoryForBytes 32) \<le> 32"
  using category_rounds_down [of 32 63 0] by simp

end
