(* ===== verification/CommitLog.thy ===== *)
theory CommitLog
  imports TransactionIds "HOL-Library.AList"
begin

text \<open>
  The commit log (\<open>src/transaction/transam.cpp\<close>): the status array indexed by
  transaction identifier, the counter of the next identifier, the single-entry cache of
  \<open>TransactionLogFetch\<close> and the files under \<open>pg_xact/\<close> that hold the statuses
  with two bits per identifier.

  The shared array has \<open>kMaxXids\<close> entries; it is a function here, and every access is
  guarded by \<open>xid < kMaxXids\<close> as in the code. The pointer to it and the pointer to the
  variable cache are \<open>None\<close> before initialisation. The light-weight locks only order
  concurrent operations: an operation is one step on the state.

  What the operating system does with files is a parameter of the persistence functions:
  \<open>wr name bytes\<close> is the content the file has after \<open>open\<close>, \<open>write\<close>,
  \<open>fsync\<close> and \<open>close\<close> (\<open>None\<close> when it cannot be opened), and \<open>rd name bytes\<close>
  is what \<open>read\<close> delivers of a file that holds \<open>bytes\<close> (\<open>None\<close> when it cannot
  be opened or read).
\<close>

subsection \<open>State\<close>

datatype XidStatus = kInProgress | kCommitted | kAborted | kSubCommitted

definition kMaxXids :: u32 where "kMaxXids = push_bit 24 1"
definition kClogXidsPerPage :: u32 where "kClogXidsPerPage = 32768"
definition kSlruPageSize :: nat where "kSlruPageSize = 8192"

record VariableCacheData =
  nextXid :: TransactionId
  oldestXid :: TransactionId

type_synonym clog_array = "TransactionId \<Rightarrow> XidStatus"

record ClogState =
  g_clog_base :: "clog_array option"
  g_variable_cache :: "VariableCacheData option"
  cached_xid :: TransactionId
  cached_status :: XidStatus
  ClogDirectory :: string
  DirtyClogPages :: "nat list"

definition clog_start :: ClogState where
  "clog_start = \<lparr>g_clog_base = None, g_variable_cache = None, cached_xid = kInvalidTransactionId,
    cached_status = kInProgress, ClogDirectory = [], DirtyClogPages = []\<rparr>"

subsection \<open>Operations\<close>

definition FetchFromCommitLog :: "ClogState \<Rightarrow> TransactionId \<Rightarrow> XidStatus" where
  "FetchFromCommitLog st xid = (case g_clog_base st of
      None \<Rightarrow> kInProgress
    | Some base \<Rightarrow> if xid \<ge> kMaxXids then kInProgress else base xid)"

definition MarkDirty :: "TransactionId \<Rightarrow> ClogState \<Rightarrow> ClogState" where
  "MarkDirty xid st =
    st\<lparr>DirtyClogPages := set_insert (unat (xid div kClogXidsPerPage)) (DirtyClogPages st)\<rparr>"

definition SetClogDirectory :: "string \<Rightarrow> ClogState \<Rightarrow> ClogState" where
  "SetClogDirectory dir st = st\<lparr>ClogDirectory := dir\<rparr>"

definition ResetClogPersistence :: "ClogState \<Rightarrow> ClogState" where
  "ResetClogPersistence st = st\<lparr>ClogDirectory := [], DirtyClogPages := []\<rparr>"

definition fresh_clog :: clog_array where
  "fresh_clog = (\<lambda>_. kInProgress)(kInvalidTransactionId := kCommitted,
     kBootstrapTransactionId := kCommitted, kFrozenTransactionId := kCommitted)"

definition InitializeCommitLog :: "ClogState \<Rightarrow> ClogState" where
  "InitializeCommitLog st = st\<lparr>
     g_clog_base := (case g_clog_base st of None \<Rightarrow> Some fresh_clog | Some base \<Rightarrow> Some base),
     g_variable_cache := (case g_variable_cache st of
         None \<Rightarrow> Some \<lparr>nextXid = kFirstNormalTransactionId, oldestXid = kFirstNormalTransactionId\<rparr>
       | Some vc \<Rightarrow> Some vc),
     cached_xid := kInvalidTransactionId,
     cached_status := kInProgress\<rparr>"

definition TransactionLogFetch :: "TransactionId \<Rightarrow> ClogState \<Rightarrow> XidStatus \<times> ClogState" where
  "TransactionLogFetch xid st =
    (if \<not> TransactionIdIsNormal xid then (kCommitted, st)
     else if xid = cached_xid st then (cached_status st, st)
     else let status = FetchFromCommitLog st xid
       in (status, st\<lparr>cached_xid := xid, cached_status := status\<rparr>))"

definition TransactionIdGetStatus :: "TransactionId \<Rightarrow> ClogState \<Rightarrow> XidStatus \<times> ClogState" where
  "TransactionIdGetStatus xid st = TransactionLogFetch xid st"

definition TransactionIdDidCommit :: "TransactionId \<Rightarrow> ClogState \<Rightarrow> bool \<times> ClogState" where
  "TransactionIdDidCommit xid st =
    (let (status, st') = TransactionIdGetStatus xid st in (status = kCommitted, st'))"

definition TransactionIdDidAbort :: "TransactionId \<Rightarrow> ClogState \<Rightarrow> bool \<times> ClogState" where
  "TransactionIdDidAbort xid st =
    (if \<not> TransactionIdIsNormal xid then (False, st)
     else let (status, st') = TransactionIdGetStatus xid st in (status = kAborted, st'))"

text \<open>The common body of the three functions that write a status.\<close>

definition set_status :: "XidStatus \<Rightarrow> TransactionId \<Rightarrow> ClogState \<Rightarrow> ClogState" where
  "set_status s xid st =
    (let st1 = (case g_clog_base st of
           None \<Rightarrow> st
         | Some base \<Rightarrow>
             if xid < kMaxXids then MarkDirty xid (st\<lparr>g_clog_base := Some (base(xid := s))\<rparr>) else st)
     in if xid = cached_xid st1 then st1\<lparr>cached_xid := kInvalidTransactionId\<rparr> else st1)"

definition TransactionIdCommit :: "TransactionId \<Rightarrow> ClogState \<Rightarrow> unit result \<times> ClogState" where
  "TransactionIdCommit xid st =
    (if \<not> TransactionIdIsNormal xid
     then (Inl (Ereport (''cannot commit special transaction id '' @ dec_string (unat xid))), st)
     else (Inr (), set_status kCommitted xid st))"

definition TransactionIdAbort :: "TransactionId \<Rightarrow> ClogState \<Rightarrow> unit result \<times> ClogState" where
  "TransactionIdAbort xid st =
    (if \<not> TransactionIdIsNormal xid
     then (Inl (Ereport (''cannot abort special transaction id '' @ dec_string (unat xid))), st)
     else (Inr (), set_status kAborted xid st))"

definition TransactionIdSetInProgress :: "TransactionId \<Rightarrow> ClogState \<Rightarrow> ClogState" where
  "TransactionIdSetInProgress xid st =
    (if \<not> TransactionIdIsNormal xid then st else set_status kInProgress xid st)"

definition AllocateNextTransactionId :: "ClogState \<Rightarrow> TransactionId result \<times> ClogState" where
  "AllocateNextTransactionId st =
    (let (xid, st1) = (case g_variable_cache st of
           None \<Rightarrow> (kInvalidTransactionId, st)
         | Some vc \<Rightarrow> (nextXid vc, st\<lparr>g_variable_cache := Some (vc\<lparr>nextXid := nextXid vc + 1\<rparr>)\<rparr>))
     in if xid = kInvalidTransactionId
        then (Inl (Ereport ''variable cache not initialized''), st1)
        else (Inr xid, TransactionIdSetInProgress xid st1))"

definition GetNextTransactionId :: "ClogState \<Rightarrow> TransactionId" where
  "GetNextTransactionId st =
    (case g_variable_cache st of None \<Rightarrow> kFirstNormalTransactionId | Some vc \<Rightarrow> nextXid vc) - 1"

definition ResetTransactionState :: "ClogState \<Rightarrow> ClogState" where
  "ResetTransactionState st = InitializeCommitLog st"

subsection \<open>Files\<close>

text \<open>\<open>snprintf("%04X", pageno)\<close> for a page number.\<close>

definition hex_digit :: "nat \<Rightarrow> char" where
  "hex_digit d = (if d < 10 then char_of (48 + d) else char_of (55 + d))"

fun hex_digits :: "nat \<Rightarrow> string" where
  "hex_digits n =
    (if n < 16 then [hex_digit n] else hex_digits (n div 16) @ [hex_digit (n mod 16)])"

declare hex_digits.simps [simp del]

definition PageFileName :: "nat \<Rightarrow> string" where
  "PageFileName pageno =
    (let ds = hex_digits pageno in replicate (4 - length ds) (CHR ''0'') @ ds)"

text \<open>
  \<open>strtol(name, &end, 16)\<close> followed by the tests on \<open>end\<close>: the whole name must be a
  number; optional white space, a sign and a \<open>0x\<close> prefix are accepted, and the value
  saturates at \<open>LONG_MAX\<close>.
\<close>

definition hex_val :: "char \<Rightarrow> nat option" where
  "hex_val c = (let k = of_char c :: nat in
     if 48 \<le> k \<and> k \<le> 57 then Some (k - 48)
     else if 65 \<le> k \<and> k \<le> 70 then Some (k - 55)
     else if 97 \<le> k \<and> k \<le> 102 then Some (k - 87) else None)"

fun hex_number :: "nat \<Rightarrow> string \<Rightarrow> nat option" where
  "hex_number acc [] = Some acc"
| "hex_number acc (c # cs) =
    (case hex_val c of None \<Rightarrow> None | Some d \<Rightarrow> hex_number (16 * acc + d) cs)"

definition is_space :: "char \<Rightarrow> bool" where
  "is_space c = (let k = of_char c :: nat in k = 32 \<or> (9 \<le> k \<and> k \<le> 13))"

definition parse_pageno :: "string \<Rightarrow> int option" where
  "parse_pageno name =
    (let s = dropWhile is_space name;
         neg = (s \<noteq> [] \<and> hd s = CHR ''-'');
         s1 = (if s \<noteq> [] \<and> (hd s = CHR ''-'' \<or> hd s = CHR ''+'') then tl s else s);
         s2 = (if 2 < length s1 \<and> s1 ! 0 = CHR ''0'' \<and> (s1 ! 1 = CHR ''x'' \<or> s1 ! 1 = CHR ''X'')
               then drop 2 s1 else s1)
     in if s2 = [] then None else
        case hex_number 0 s2 of
          None \<Rightarrow> None
        | Some v \<Rightarrow> let pageno = (if neg then - int v else min (int v) (2 ^ 63 - 1))
            in if pageno < 0 then None else Some pageno)"

definition status_code :: "XidStatus \<Rightarrow> u8" where
  "status_code s = (case s of kInProgress \<Rightarrow> 0 | kCommitted \<Rightarrow> 1 | kAborted \<Rightarrow> 2 | kSubCommitted \<Rightarrow> 3)"

definition status_of_code :: "u8 \<Rightarrow> XidStatus" where
  "status_of_code c =
    (if c = 0 then kInProgress else if c = 1 then kCommitted else if c = 2 then kAborted
     else kSubCommitted)"

text \<open>The inner loops over the four identifiers of a byte; \<open>break\<close> ends them.\<close>

definition byte_xids :: "TransactionId \<Rightarrow> nat list" where
  "byte_xids x0 = takeWhile (\<lambda>j. \<not> x0 + of_nat j \<ge> kMaxXids) [0..<4]"

definition load_byte :: "TransactionId \<Rightarrow> u8 \<Rightarrow> clog_array \<Rightarrow> clog_array" where
  "load_byte x0 byte base = foldl (\<lambda>b j.
      b(x0 + of_nat j := status_of_code (drop_bit (j * 2) byte AND 3))) base (byte_xids x0)"

definition load_page :: "int \<Rightarrow> u8 list \<Rightarrow> clog_array \<Rightarrow> clog_array" where
  "load_page pageno page base =
    (let xid_start = of_int pageno * kClogXidsPerPage
     in foldl (\<lambda>b i. load_byte (xid_start + of_nat i * 4) (page ! i) b) base [0..<length page])"

definition encode_byte :: "clog_array \<Rightarrow> TransactionId \<Rightarrow> u8" where
  "encode_byte base x0 =
    foldl (\<lambda>b j. b OR push_bit (j * 2) (status_code (base (x0 + of_nat j)) AND 3)) 0 (byte_xids x0)"

definition encode_page :: "clog_array \<Rightarrow> nat \<Rightarrow> u8 list" where
  "encode_page base pageno =
    (let xid_start = of_nat pageno * kClogXidsPerPage
     in map (\<lambda>i. encode_byte base (xid_start + of_nat i * 4)) [0..<kSlruPageSize])"

text \<open>The directory as the list of its files in the order \<open>readdir\<close> gives them; \<open>None\<close>
  when it does not exist.\<close>

type_synonym dir_files = "(string \<times> u8 list) list"

definition load_file :: "(string \<Rightarrow> u8 list \<Rightarrow> u8 list option) \<Rightarrow> string \<times> u8 list
    \<Rightarrow> clog_array \<Rightarrow> clog_array" where
  "load_file rd ent base = (case ent of (d_name, content) \<Rightarrow>
     if d_name = [] \<or> hd d_name = CHR ''.'' then base
     else case parse_pageno d_name of
         None \<Rightarrow> base
       | Some pageno \<Rightarrow>
           (case rd d_name content of
              None \<Rightarrow> base
            | Some bytes \<Rightarrow> load_page pageno (take kSlruPageSize bytes) base))"

definition LoadClogFiles :: "(string \<Rightarrow> u8 list \<Rightarrow> u8 list option) \<Rightarrow> dir_files option
    \<Rightarrow> ClogState \<Rightarrow> ClogState" where
  "LoadClogFiles rd dir st = (case g_clog_base st of
      None \<Rightarrow> st
    | Some base \<Rightarrow>
        if ClogDirectory st = [] then st
        else case dir of
            None \<Rightarrow> st
          | Some ents \<Rightarrow> st\<lparr>g_clog_base := Some (fold (load_file rd) ents base)\<rparr>)"

text \<open>A file that exists is truncated and written in place; a new one is added.\<close>

definition put_file :: "string \<Rightarrow> u8 list \<Rightarrow> dir_files \<Rightarrow> dir_files" where
  "put_file n c ents = AList.update n c ents"

definition flush_page :: "(string \<Rightarrow> u8 list \<Rightarrow> u8 list option) \<Rightarrow> clog_array \<Rightarrow> nat
    \<Rightarrow> dir_files \<Rightarrow> dir_files" where
  "flush_page wr base pageno ents =
    (let name = PageFileName pageno
     in case wr name (encode_page base pageno) of
          None \<Rightarrow> ents
        | Some c \<Rightarrow> put_file name c ents)"

definition FlushClogFiles :: "(string \<Rightarrow> u8 list \<Rightarrow> u8 list option) \<Rightarrow> dir_files option
    \<Rightarrow> ClogState \<Rightarrow> dir_files option \<times> ClogState" where
  "FlushClogFiles wr dir st = (case g_clog_base st of
      None \<Rightarrow> (dir, st)
    | Some base \<Rightarrow>
        if ClogDirectory st = [] then (dir, st)
        else (Some (fold (flush_page wr base) (DirtyClogPages st)
                (case dir of None \<Rightarrow> [] | Some ents \<Rightarrow> ents)),
              st\<lparr>DirtyClogPages := []\<rparr>))"


subsection \<open>The file format\<close>

lemma unat_of_nat_u32: "n < 4294967296 \<Longrightarrow> unat (of_nat n :: u32) = n"
  by (simp add: unat_of_nat)

lemma eq_of_nat_u32: "n < 4294967296 \<Longrightarrow> (x :: u32) = of_nat n \<longleftrightarrow> unat x = n"
  by (auto simp: unat_of_nat_u32 word_unat_eq_iff)

lemma kMaxXids_nat: "kMaxXids = of_nat 16777216" "unat kMaxXids = 16777216"
  by (simp_all add: kMaxXids_def)

lemma byte_xids_full:
  assumes "n + 4 \<le> 16777216"
  shows "byte_xids (of_nat n) = [0, 1, 2, 3]"
proof -
  have "\<not> of_nat n + of_nat j \<ge> kMaxXids" if "j < 4" for j
  proof -
    have "unat (of_nat (n + j) :: u32) = n + j" using assms that by (simp only: unat_of_nat_u32)
    then show ?thesis using assms that by (simp add: word_le_nat_alt kMaxXids_nat)
  qed
  then have "byte_xids (of_nat n) = [0..<4]" by (simp add: byte_xids_def takeWhile_eq_all_conv)
  then show ?thesis by (simp add: upt_rec)
qed

lemma load_byte_nat:
  assumes "n + 4 \<le> 16777216"
  shows "load_byte (of_nat n) b base x =
    (if n \<le> unat x \<and> unat x < n + 4
     then status_of_code (drop_bit ((unat x - n) * 2) b AND 3) else base x)"
proof -
  have eq: "x = of_nat n + of_nat j \<longleftrightarrow> unat x = n + j" if "j < 4" for j
    using eq_of_nat_u32 [of "n + j" x] assms that by simp
  have "n \<le> unat x \<and> unat x < n + 4 \<longleftrightarrow>
      unat x = n \<or> unat x = n + 1 \<or> unat x = n + 2 \<or> unat x = n + 3" by linarith
  moreover have "load_byte (of_nat n) b base x =
     (if unat x = n + 3 then status_of_code (drop_bit 6 b AND 3)
      else if unat x = n + 2 then status_of_code (drop_bit 4 b AND 3)
      else if unat x = n + 1 then status_of_code (drop_bit 2 b AND 3)
      else if unat x = n then status_of_code (drop_bit 0 b AND 3) else base x)"
    using eq [of 0] eq [of 1] eq [of 2] eq [of 3]
    by (simp add: load_byte_def byte_xids_full [OF assms])
  ultimately show ?thesis by auto
qed

lemma load_page_nat:
  assumes "n + 4 * length page \<le> 16777216"
  shows "foldl (\<lambda>b i. load_byte (of_nat (n + 4 * i)) (page ! i) b) base [0..<length page] x =
    (if n \<le> unat x \<and> unat x < n + 4 * length page
     then status_of_code (drop_bit ((unat x - n) mod 4 * 2) (page ! ((unat x - n) div 4)) AND 3)
     else base x)"
proof -
  have "k \<le> length page \<Longrightarrow>
    foldl (\<lambda>b i. load_byte (of_nat (n + 4 * i)) (page ! i) b) base [0..<k] x =
    (if n \<le> unat x \<and> unat x < n + 4 * k
     then status_of_code (drop_bit ((unat x - n) mod 4 * 2) (page ! ((unat x - n) div 4)) AND 3)
     else base x)" for k
  proof (induction k)
    case 0
    show ?case by auto
  next
    case (Suc k)
    have b: "n + 4 * k + 4 \<le> 16777216" using Suc.prems assms by simp
    show ?case
    proof (cases "n + 4 * k \<le> unat x \<and> unat x < n + 4 * k + 4")
      case True
      then obtain d where d: "unat x = n + 4 * k + d" "d < 4" by (metis le_Suc_ex nat_add_left_cancel_less)
      then have "(unat x - n) div 4 = k" "(unat x - n) mod 4 = d" by simp_all
      then show ?thesis using d by (simp only: upt_Suc) (simp add: load_byte_nat [OF b, simplified])
    next
      case False
      then show ?thesis using Suc by (simp only: upt_Suc) (auto simp: load_byte_nat [OF b, simplified])
    qed
  qed
  then show ?thesis by simp
qed

lemma pack4:
  fixes a b c d :: u8
  assumes "k < 4"
  shows "drop_bit (k * 2) (((a AND 3 OR push_bit 2 (b AND 3)) OR push_bit 4 (c AND 3)) OR
      push_bit 6 (d AND 3)) AND 3 = [a, b, c, d] ! k AND 3"
proof (rule bit_word_eqI)
  fix n assume "n < LENGTH(8)"
  then have "n \<in> {0, 1, 2, 3, 4, 5, 6, 7}" by (simp, linarith)
  moreover have "k = 0 \<or> k = 1 \<or> k = 2 \<or> k = 3" using assms by linarith
  ultimately show "bit (drop_bit (k * 2) (((a AND 3 OR push_bit 2 (b AND 3)) OR push_bit 4 (c AND 3)) OR
      push_bit 6 (d AND 3)) AND 3) n = bit ([a, b, c, d] ! k AND 3) n"
    by (elim disjE insertE emptyE)
      (simp_all add: bit_and_iff bit_or_iff bit_drop_bit_eq bit_push_bit_iff)
qed

lemma encode_byte_nat:
  assumes "n + 4 \<le> 16777216" "k < 4"
  shows "drop_bit (k * 2) (encode_byte base (of_nat n)) AND 3 = status_code (base (of_nat (n + k))) AND 3"
proof -
  have "k = 0 \<or> k = 1 \<or> k = 2 \<or> k = 3" using assms(2) by linarith
  then show ?thesis
    using pack4 [OF assms(2), of "status_code (base (of_nat n))" "status_code (base (of_nat n + 1))"
        "status_code (base (of_nat n + 2))" "status_code (base (of_nat n + 3))"]
    by (auto simp: encode_byte_def byte_xids_full [OF assms(1)])
qed

lemma status_of_code_code: "status_of_code (status_code s AND 3) = s"
  by (cases s) (simp_all add: status_code_def status_of_code_def)

lemma length_encode_page [simp]: "length (encode_page c p) = kSlruPageSize"
  by (simp add: encode_page_def Let_def)

lemma load_encode_page:
  assumes "p < 512"
  shows "load_page (int p) (encode_page c p) base x = (if unat x div 32768 = p then c x else base x)"
proof -
  have start: "of_int (int p) * kClogXidsPerPage + of_nat i * 4 = (of_nat (p * 32768 + 4 * i) :: u32)" for i
    by (simp add: kClogXidsPerPage_def)
  have eb: "encode_page c p ! i = encode_byte c (of_nat (p * 32768 + 4 * i))" if "i < 8192" for i
    using that by (simp add: encode_page_def Let_def kSlruPageSize_def kClogXidsPerPage_def mult.commute)
  have b: "p * 32768 + 4 * length (encode_page c p) \<le> 16777216"
    using assms by (simp add: kSlruPageSize_def)
  have inside: "p * 32768 \<le> unat x \<and> unat x < p * 32768 + 4 * length (encode_page c p) \<longleftrightarrow>
      unat x div 32768 = p"
    using div_mult_mod_eq [of "unat x" 32768] mod_less_divisor [of 32768 "unat x"]
    by (auto simp: kSlruPageSize_def intro: div_nat_eqI)
  show ?thesis
  proof (cases "unat x div 32768 = p")
    case True
    define d where "d = unat x - p * 32768"
    have ux: "unat x = p * 32768 + d" and d: "d < 32768"
      using True inside by (auto simp: d_def kSlruPageSize_def)
    have "d div 4 < 8192" using d by simp
    moreover have "p * 32768 + 4 * (d div 4) + 4 \<le> 16777216" using assms calculation by linarith
    ultimately have "status_of_code (drop_bit (d mod 4 * 2) (encode_page c p ! (d div 4)) AND 3) =
        c (of_nat (p * 32768 + 4 * (d div 4) + d mod 4))"
      by (simp only: eb encode_byte_nat mod_less_divisor zero_less_numeral status_of_code_code)
    also have "(of_nat (p * 32768 + 4 * (d div 4) + d mod 4) :: u32) = x"
      using ux by (simp only: add.assoc mult_div_mod_eq) (metis of_nat_unat ucast_id)
    finally show ?thesis
      using True inside unfolding load_page_def Let_def start load_page_nat [OF b]
      by (simp add: d_def)
  next
    case False
    then show ?thesis using inside unfolding load_page_def Let_def start load_page_nat [OF b] by auto
  qed
qed

subsection \<open>File names\<close>

lemma hex_val_digit: "d < 16 \<Longrightarrow> hex_val (hex_digit d) = Some d"
  by (auto simp: hex_val_def hex_digit_def Let_def)

lemma hex_number_snoc:
  "hex_number acc (xs @ [c]) = (case hex_number acc xs of None \<Rightarrow> None
    | Some v \<Rightarrow> (case hex_val c of None \<Rightarrow> None | Some d \<Rightarrow> Some (16 * v + d)))"
  by (induction xs arbitrary: acc) (auto split: option.splits)

lemma hex_digits_val: "hex_number 0 (hex_digits n) = Some n"
proof (induction n rule: hex_digits.induct)
  case (1 n)
  then show ?case
    by (subst hex_digits.simps) (auto simp: hex_val_digit hex_number_snoc)
qed

lemma hex_digits_chars: "c \<in> set (hex_digits n) \<Longrightarrow> \<exists>d < 16. c = hex_digit d"
proof (induction n rule: hex_digits.induct)
  case (1 n)
  have "\<exists>d < 16. hex_digit (n mod 16) = hex_digit d" by (intro exI [of _ "n mod 16"]) simp
  with 1 show ?case by (subst (asm) (2) hex_digits.simps) (auto split: if_splits)
qed

lemma hex_digits_nonempty: "hex_digits n \<noteq> []"
  by (subst hex_digits.simps) simp

lemma hex_number_zeros: "hex_number 0 (replicate k (CHR ''0'') @ ds) = hex_number 0 ds"
  by (induction k) (simp_all add: hex_val_def)

lemma PageFileName_chars: "c \<in> set (PageFileName p) \<Longrightarrow> \<exists>d < 16. c = hex_digit d"
proof -
  assume "c \<in> set (PageFileName p)"
  then consider "c = CHR ''0''" | "c \<in> set (hex_digits p)"
    by (auto simp: PageFileName_def Let_def)
  then show ?thesis
  proof cases
    case 1
    moreover have "hex_digit 0 = CHR ''0''" by code_simp
    ultimately show ?thesis by (intro exI [of _ 0]) simp
  next
    case 2
    then show ?thesis by (rule hex_digits_chars)
  qed
qed

lemma hex_digit_plain:
  "d < 16 \<Longrightarrow> hex_digit d \<notin> {CHR ''.'', CHR ''-'', CHR ''+'', CHR ''x'', CHR ''X''} \<and> \<not> is_space (hex_digit d)"
  using hex_val_digit [of d] by (auto simp: hex_val_def is_space_def Let_def split: if_splits)

lemma PageFileName_plain:
  assumes "c \<in> set (PageFileName p)"
  shows "c \<notin> {CHR ''.'', CHR ''-'', CHR ''+'', CHR ''x'', CHR ''X''} \<and> \<not> is_space c"
proof -
  obtain d where "d < 16" and c: "c = hex_digit d" using PageFileName_chars [OF assms] by blast
  then show ?thesis unfolding c by (intro hex_digit_plain)
qed

lemma PageFileName_nonempty: "PageFileName p \<noteq> []"
  by (simp add: PageFileName_def Let_def hex_digits_nonempty)

lemma PageFileName_val: "hex_number 0 (PageFileName p) = Some p"
  by (simp add: PageFileName_def Let_def hex_number_zeros hex_digits_val)

lemma inj_PageFileName: "PageFileName p = PageFileName q \<longleftrightarrow> p = q"
proof
  assume eq: "PageFileName p = PageFileName q"
  have "Some p = Some q" using PageFileName_val [of p] PageFileName_val [of q] by (simp only: eq)
  then show "p = q" by simp
next
  assume "p = q"
  then show "PageFileName p = PageFileName q" by (simp only:)
qed

lemma parse_PageFileName:
  assumes "p < 512"
  shows "parse_pageno (PageFileName p) = Some (int p)"
proof -
  let ?s = "PageFileName p"
  have hd: "hd ?s \<in> set ?s" by (simp add: PageFileName_nonempty)
  have ws: "dropWhile is_space ?s = ?s"
    using PageFileName_plain [OF hd] by (cases ?s) simp_all
  have h: "hd ?s \<noteq> CHR ''-'' \<and> hd ?s \<noteq> CHR ''+''"
    using PageFileName_plain [OF hd] by simp
  have x: "\<not> (2 < length ?s \<and> ?s ! 0 = CHR ''0'' \<and> (?s ! 1 = CHR ''x'' \<or> ?s ! 1 = CHR ''X''))"
  proof (cases "2 < length ?s")
    case True
    then have "?s ! 1 \<in> set ?s" by simp
    then show ?thesis using PageFileName_plain [of "?s ! 1" p] by simp
  qed simp
  have n: "hex_number 0 ?s = Some p" by (rule PageFileName_val)
  have "int p \<le> 512" using assms by simp
  then have "min (int p) (2 ^ 63 - 1) = int p" by (intro min_absorb1) (rule order_trans, assumption, simp)
  then show ?thesis
    unfolding parse_pageno_def Let_def ws using h x n PageFileName_nonempty by auto
qed

subsection \<open>Directory contents\<close>

text \<open>\<open>dir_rep L ents\<close>: the files of the directory are the pages \<open>p\<close> of \<open>L\<close>, each
  written from the status array beside it.\<close>

definition dir_rep :: "(nat \<times> clog_array) list \<Rightarrow> dir_files \<Rightarrow> bool" where
  "dir_rep L ents \<longleftrightarrow> ents = map (\<lambda>(p, a). (PageFileName p, encode_page a p)) L \<and>
     distinct (map fst L) \<and> (\<forall>p \<in> fst ` set L. p < 512)"

lemma dir_rep_Nil [simp]: "dir_rep [] ents \<longleftrightarrow> ents = []"
  by (auto simp: dir_rep_def)

lemma load_file_page:
  assumes "p < 512" "\<And>n c. rd n c = Some c"
  shows "load_file rd (PageFileName p, encode_page a p) base x =
    (if unat x div 32768 = p then a x else base x)"
  using assms PageFileName_plain [of "hd (PageFileName p)" p] PageFileName_nonempty [of p]
  by (simp add: load_file_def parse_PageFileName load_encode_page kSlruPageSize_def)

lemma load_dir_rep:
  assumes rd: "\<And>n c. rd n c = Some c"
  shows "dir_rep L ents \<Longrightarrow> fold (load_file rd) ents base x =
    (case map_of L (unat x div 32768) of None \<Rightarrow> base x | Some a \<Rightarrow> a x)"
proof (induction L arbitrary: ents base)
  case Nil
  then show ?case by simp
next
  case (Cons pa L)
  obtain p a where pa: "pa = (p, a)" by force
  from Cons.prems obtain es where e: "ents = (PageFileName p, encode_page a p) # es" "dir_rep L es"
      "p \<notin> fst ` set L" "p < 512"
    unfolding pa by (auto simp: dir_rep_def)
  have "map_of L p = None" using e(3) by (simp add: map_of_eq_None_iff)
  then show ?case
    by (simp add: e(1) pa Cons.IH [OF e(2)] load_file_page [OF e(4) rd] split: option.splits)
qed

lemma map_update_page:
  "\<forall>q \<in> fst ` set L. q < 512 \<Longrightarrow> p < 512 \<Longrightarrow>
    map (\<lambda>(p, a). (PageFileName p, encode_page a p)) (AList.update p a L) =
    AList.update (PageFileName p) (encode_page a p) (map (\<lambda>(p, a). (PageFileName p, encode_page a p)) L)"
  by (induction L) (auto simp: inj_PageFileName)

lemma put_file_rep:
  assumes L: "dir_rep L ents" and p: "p < 512"
  shows "dir_rep (AList.update p a L) (put_file (PageFileName p) (encode_page a p) ents)"
proof -
  have "fst ` set (AList.update p a L) \<subseteq> insert p (fst ` set L)"
    by (induction L) auto
  moreover have "\<forall>q \<in> insert p (fst ` set L). q < 512" using L p by (simp add: dir_rep_def)
  ultimately have "\<forall>q \<in> fst ` set (AList.update p a L). q < 512" by blast
  then show ?thesis
    using L p map_update_page [of L p a] by (simp add: dir_rep_def put_file_def distinct_update)
qed

lemma flush_dir_rep:
  assumes wr: "\<And>n c. wr n c = Some c"
  shows "dir_rep L ents \<Longrightarrow> (\<forall>p \<in> set ps. p < 512) \<Longrightarrow>
    \<exists>L'. dir_rep L' (fold (flush_page wr base) ps ents) \<and>
      map_of L' = (\<lambda>p. if p \<in> set ps then Some base else map_of L p)"
proof (induction ps arbitrary: L ents)
  case Nil
  then show ?case by auto
next
  case (Cons p ps)
  define L1 where "L1 = AList.update p base L"
  have L1: "dir_rep L1 (flush_page wr base p ents)" "map_of L1 = (map_of L)(p \<mapsto> base)"
    using put_file_rep [OF Cons.prems(1), of p base] Cons.prems(2)
    by (simp_all add: flush_page_def wr Let_def L1_def update_conv')
  from Cons.IH [OF L1(1)] Cons.prems(2) show ?case
    by (auto simp: L1(2) fun_eq_iff)
qed

subsection \<open>Statuses\<close>

text \<open>What the commit log promises: a status for every identifier.\<close>

definition clog_status :: "ClogState \<Rightarrow> TransactionId \<Rightarrow> XidStatus" where
  "clog_status st xid = (if TransactionIdIsNormal xid then FetchFromCommitLog st xid else kCommitted)"

definition cache_ok :: "ClogState \<Rightarrow> bool" where
  "cache_ok st \<longleftrightarrow> (TransactionIdIsNormal (cached_xid st) \<longrightarrow>
     cached_status st = FetchFromCommitLog st (cached_xid st))"

lemma not_normal_invalid [simp]: "\<not> TransactionIdIsNormal kInvalidTransactionId"
  by (simp add: TransactionIdIsNormal_def xid_consts)

lemma FetchFromCommitLog_set_status:
  "FetchFromCommitLog (set_status s x st) y =
    (if y = x \<and> x < kMaxXids \<and> g_clog_base st \<noteq> None then s else FetchFromCommitLog st y)"
  by (auto simp: FetchFromCommitLog_def set_status_def MarkDirty_def Let_def split: option.splits)

lemma cache_ok_set_status: "cache_ok st \<Longrightarrow> cache_ok (set_status s x st)"
proof -
  assume c: "cache_ok st"
  have "cached_xid (set_status s x st) =
      (if cached_xid st = x then kInvalidTransactionId else cached_xid st)"
    "cached_status (set_status s x st) = cached_status st"
    by (auto simp: set_status_def MarkDirty_def Let_def split: option.splits)
  then show ?thesis using c by (auto simp: cache_ok_def FetchFromCommitLog_set_status)
qed

lemma TransactionLogFetch_correct:
  assumes "cache_ok st" "TransactionLogFetch x st = (s, st')"
  shows "s = clog_status st x \<and> cache_ok st' \<and> clog_status st' = clog_status st"
proof -
  have f: "FetchFromCommitLog (st\<lparr>cached_xid := a, cached_status := b\<rparr>) = FetchFromCommitLog st" for a b
    by (auto simp: FetchFromCommitLog_def fun_eq_iff)
  show ?thesis using assms
    by (auto simp: TransactionLogFetch_def clog_status_def cache_ok_def Let_def f fun_eq_iff
        split: if_splits)
qed

lemma cache_ok_Initialize: "cache_ok (InitializeCommitLog st)"
  by (simp add: cache_ok_def InitializeCommitLog_def)

subsection \<open>Runs\<close>

text \<open>
  The runs of a server on directory \<open>d\<close>: it starts with no files, writes statuses, looks them
  up, flushes dirty pages, and may be restarted at any time, which reloads the files into a
  fresh array.
\<close>

definition clog_boot :: "string \<Rightarrow> ClogState" where
  "clog_boot d = InitializeCommitLog (SetClogDirectory d clog_start)"

inductive clog_run :: "(string \<Rightarrow> u8 list \<Rightarrow> u8 list option) \<Rightarrow> (string \<Rightarrow> u8 list \<Rightarrow> u8 list option)
    \<Rightarrow> string \<Rightarrow> dir_files option \<Rightarrow> ClogState \<Rightarrow> bool"
  for wr rd d where
  run_start: "d \<noteq> [] \<Longrightarrow> clog_run wr rd d None (clog_boot d)"
| run_commit: "clog_run wr rd d dir st \<Longrightarrow> TransactionIdCommit x st = (r, st') \<Longrightarrow> clog_run wr rd d dir st'"
| run_abort: "clog_run wr rd d dir st \<Longrightarrow> TransactionIdAbort x st = (r, st') \<Longrightarrow> clog_run wr rd d dir st'"
| run_begin: "clog_run wr rd d dir st \<Longrightarrow> AllocateNextTransactionId st = (r', st') \<Longrightarrow> clog_run wr rd d dir st'"
| run_fetch: "clog_run wr rd d dir st \<Longrightarrow> TransactionLogFetch x st = (s, st') \<Longrightarrow> clog_run wr rd d dir st'"
| run_flush: "clog_run wr rd d dir st \<Longrightarrow> FlushClogFiles wr dir st = (dir', st') \<Longrightarrow> clog_run wr rd d dir' st'"
| run_restart: "clog_run wr rd d dir st \<Longrightarrow> clog_run wr rd d dir (LoadClogFiles rd dir (clog_boot d))"

abbreviation files :: "dir_files option \<Rightarrow> dir_files" where
  "files dir \<equiv> (case dir of None \<Rightarrow> [] | Some ents \<Rightarrow> ents)"

text \<open>The status a restart reads from the files.\<close>

definition on_disk :: "(nat \<times> clog_array) list \<Rightarrow> TransactionId \<Rightarrow> XidStatus" where
  "on_disk L x = (case map_of L (unat x div 32768) of None \<Rightarrow> fresh_clog x | Some a \<Rightarrow> a x)"

text \<open>Pages that are not dirty agree with the files.\<close>

definition clog_inv :: "string \<Rightarrow> dir_files option \<Rightarrow> ClogState \<Rightarrow> bool" where
  "clog_inv d dir st \<longleftrightarrow> d \<noteq> [] \<and> ClogDirectory st = d \<and> cache_ok st \<and>
    (\<forall>p \<in> set (DirtyClogPages st). p < 512) \<and>
    (\<exists>base L. g_clog_base st = Some base \<and> dir_rep L (files dir) \<and>
      (\<forall>x. x < kMaxXids \<and> unat x div 32768 \<notin> set (DirtyClogPages st) \<longrightarrow> base x = on_disk L x))"

lemma clog_inv_start: "d \<noteq> [] \<Longrightarrow> clog_inv d None (clog_boot d)"
  by (auto simp: clog_inv_def clog_boot_def InitializeCommitLog_def SetClogDirectory_def clog_start_def
      cache_ok_def on_disk_def intro!: exI [of _ "[]"])

lemma set_status_fields:
  "ClogDirectory (set_status s x st) = ClogDirectory st"
  "set (DirtyClogPages (set_status s x st)) =
     (if g_clog_base st \<noteq> None \<and> x < kMaxXids
      then insert (unat x div 32768) (set (DirtyClogPages st)) else set (DirtyClogPages st))"
  "g_clog_base (set_status s x st) =
     (case g_clog_base st of None \<Rightarrow> None | Some b \<Rightarrow> Some (if x < kMaxXids then b(x := s) else b))"
  by (auto simp: set_status_def MarkDirty_def Let_def kClogXidsPerPage_def unat_div split: option.splits)

lemma clog_inv_set_status:
  assumes "clog_inv d dir st"
  shows "clog_inv d dir (set_status s x st)"
proof -
  obtain base L where b: "g_clog_base st = Some base" "dir_rep L (files dir)"
    "\<And>x. x < kMaxXids \<Longrightarrow> unat x div 32768 \<notin> set (DirtyClogPages st) \<Longrightarrow> base x = on_disk L x"
    and p: "\<And>p. p \<in> set (DirtyClogPages st) \<Longrightarrow> p < 512"
    using assms by (auto simp: clog_inv_def)
  have "x < kMaxXids \<Longrightarrow> unat x div 32768 < 512"
    by (simp add: word_less_nat_alt kMaxXids_nat less_mult_imp_div_less)
  then have "\<forall>p \<in> set (DirtyClogPages (set_status s x st)). p < 512"
    using p by (auto simp: set_status_fields)
  then show ?thesis
    using assms b unfolding clog_inv_def set_status_fields
    by (auto simp: cache_ok_set_status intro!: exI [of _ L])
qed

lemma clog_inv_alloc:
  assumes "clog_inv d dir st" "AllocateNextTransactionId st = (r, st')"
  shows "clog_inv d dir st'"
proof -
  have v: "clog_inv d dir (st\<lparr>g_variable_cache := v\<rparr>)" for v
    using assms(1) by (simp add: clog_inv_def cache_ok_def FetchFromCommitLog_def)
  have "clog_inv d dir (TransactionIdSetInProgress x (st\<lparr>g_variable_cache := v\<rparr>))" for x v
    using v by (simp add: TransactionIdSetInProgress_def clog_inv_set_status)
  then show ?thesis
    using assms v
    by (auto simp: AllocateNextTransactionId_def Let_def split: option.splits if_splits)
qed

lemma clog_inv_fetch:
  assumes "clog_inv d dir st" "TransactionLogFetch x st = (s, st')"
  shows "clog_inv d dir st'"
proof -
  have "cache_ok st'" using TransactionLogFetch_correct assms by (auto simp: clog_inv_def)
  moreover have "g_clog_base st' = g_clog_base st" "ClogDirectory st' = ClogDirectory st"
    "DirtyClogPages st' = DirtyClogPages st"
    using assms(2) by (auto simp: TransactionLogFetch_def Let_def split: if_splits)
  ultimately show ?thesis using assms(1) by (simp add: clog_inv_def)
qed

lemma clog_inv_flush:
  assumes wr: "\<And>n c. wr n c = Some c" and inv: "clog_inv d dir st"
    and fl: "FlushClogFiles wr dir st = (dir', st')"
  shows "clog_inv d dir' st' \<and> DirtyClogPages st' = [] \<and> g_clog_base st' = g_clog_base st"
proof -
  obtain base L where b: "g_clog_base st = Some base" "dir_rep L (files dir)"
    "\<And>x. x < kMaxXids \<Longrightarrow> unat x div 32768 \<notin> set (DirtyClogPages st) \<Longrightarrow> base x = on_disk L x"
    and p: "\<forall>p \<in> set (DirtyClogPages st). p < 512" and d: "d \<noteq> []" "ClogDirectory st = d"
    using inv by (auto simp: clog_inv_def)
  obtain L' where L': "dir_rep L' (fold (flush_page wr base) (DirtyClogPages st) (files dir))"
    "map_of L' = (\<lambda>p. if p \<in> set (DirtyClogPages st) then Some base else map_of L p)"
    using flush_dir_rep [where wr = wr, OF wr b(2) p, of base] by blast
  have st': "st' = st\<lparr>DirtyClogPages := []\<rparr>" and
    dir': "dir' = Some (fold (flush_page wr base) (DirtyClogPages st) (files dir))"
    using fl b(1) d by (auto simp: FlushClogFiles_def)
  have "base x = on_disk L' x" if "x < kMaxXids" for x
    using b(3) [OF that] by (auto simp: on_disk_def L'(2))
  then show ?thesis
    using inv L'(1) b(1) unfolding st' dir' clog_inv_def
    by (auto simp: cache_ok_def FetchFromCommitLog_def)
qed

lemma LoadClogFiles_boot:
  assumes rd: "\<And>n c. rd n c = Some c" and "d \<noteq> []" "dir_rep L (files dir)"
  shows "LoadClogFiles rd dir (clog_boot d) = (clog_boot d)\<lparr>g_clog_base := Some (on_disk L)\<rparr>"
proof -
  have "fold (load_file rd) (files dir) fresh_clog = on_disk L"
    using load_dir_rep [where rd = rd, OF rd assms(3), of fresh_clog] by (auto simp: on_disk_def fun_eq_iff)
  then show ?thesis using assms(2)
    by (auto simp: LoadClogFiles_def clog_boot_def InitializeCommitLog_def SetClogDirectory_def
        clog_start_def split: option.splits)
qed

lemma clog_inv_restart:
  assumes rd: "\<And>n c. rd n c = Some c" and inv: "clog_inv d dir st"
  shows "clog_inv d dir (LoadClogFiles rd dir (clog_boot d))"
proof -
  obtain L where L: "dir_rep L (files dir)" "d \<noteq> []" using inv by (auto simp: clog_inv_def)
  have "clog_inv d None (clog_boot d)" using L(2) by (rule clog_inv_start)
  then show ?thesis
    using L unfolding LoadClogFiles_boot [where rd = rd, OF rd L(2,1)]
    by (auto simp: clog_inv_def clog_boot_def cache_ok_def InitializeCommitLog_def)
qed

lemma clog_run_inv:
  assumes wr: "\<And>n c. wr n c = Some c" and rd: "\<And>n c. rd n c = Some c"
  shows "clog_run wr rd d dir st \<Longrightarrow> clog_inv d dir st"
proof (induction rule: clog_run.induct)
  case (run_flush dir st dir' st')
  then show ?case using clog_inv_flush [where wr = wr, OF wr] by blast
next
  case (run_restart dir st)
  then show ?case using clog_inv_restart [where rd = rd, OF rd] by blast
qed (auto simp: clog_inv_start TransactionIdCommit_def TransactionIdAbort_def
      intro: clog_inv_alloc clog_inv_fetch clog_inv_set_status split: if_splits)

subsection \<open>The interface\<close>

text \<open>
  What visibility checks and the transaction manager rely on: a status is read without
  changing any status, and a write changes the status of its identifier only.
\<close>

locale status_log =
  fixes get :: "'x \<Rightarrow> 's \<Rightarrow> 'v \<times> 's"
    and put :: "'v \<Rightarrow> 'x \<Rightarrow> 's \<Rightarrow> 's"
    and status :: "'s \<Rightarrow> 'x \<Rightarrow> 'v"
    and inv :: "'s \<Rightarrow> bool"
    and recordable :: "'x \<Rightarrow> bool"
  assumes get_status: "inv s \<Longrightarrow> get x s = (v, s') \<Longrightarrow> v = status s x \<and> inv s' \<and> status s' = status s"
    and put_status: "inv s \<Longrightarrow> recordable x \<Longrightarrow> inv (put v x s) \<and> status (put v x s) = (status s)(x := v)"
begin

fun puts :: "('x \<times> 'v) list \<Rightarrow> 's \<Rightarrow> 's" where
  "puts [] s = s"
| "puts ((x, v) # ws) s = puts ws (snd (get x (put v x s)))"

lemma puts_status:
  "inv s \<Longrightarrow> \<forall>x \<in> fst ` set ws. recordable x \<Longrightarrow>
    inv (puts ws s) \<and> status (puts ws s) = (\<lambda>x. case map_of (rev ws) x of None \<Rightarrow> status s x | Some v \<Rightarrow> v)"
proof (induction ws arbitrary: s)
  case Nil
  then show ?case by simp
next
  case (Cons w ws)
  obtain x v where w: "w = (x, v)" by force
  obtain u s' where g: "get x (put v x s) = (u, s')" by force
  have p: "inv (put v x s)" "status (put v x s) = (status s)(x := v)"
    using put_status [of s x v] Cons.prems w by auto
  have s': "inv s'" "status s' = (status s)(x := v)" using get_status [OF p(1) g] p(2) by auto
  show ?case using Cons.IH [OF s'(1)] Cons.prems(2) by (auto simp: w g s'(2) fun_eq_iff map_add_def split: option.splits)
qed

lemma get_after_puts:
  "inv s \<Longrightarrow> \<forall>y \<in> fst ` set ws. recordable y \<Longrightarrow> map_of (rev ws) x = Some v \<Longrightarrow> fst (get x (puts ws s)) = v"
  using puts_status [of s ws] get_status [of "puts ws s" x] by (metis (mono_tags, lifting) option.simps(5) prod.collapse)

end

definition clog_ready :: "ClogState \<Rightarrow> bool" where
  "clog_ready st \<longleftrightarrow> cache_ok st \<and> g_clog_base st \<noteq> None"

definition clog_recordable :: "TransactionId \<Rightarrow> bool" where
  "clog_recordable x \<longleftrightarrow> TransactionIdIsNormal x \<and> x < kMaxXids"

lemma clog_ready_set_status: "clog_ready st \<Longrightarrow> clog_ready (set_status s x st)"
  by (auto simp: clog_ready_def cache_ok_set_status set_status_fields)

lemma clog_status_set_status:
  "clog_ready st \<Longrightarrow> clog_recordable x \<Longrightarrow> clog_status (set_status s x st) = (clog_status st)(x := s)"
  by (auto simp: clog_ready_def clog_recordable_def clog_status_def FetchFromCommitLog_set_status fun_eq_iff)

lemma TransactionLogFetch_base: "g_clog_base (snd (TransactionLogFetch x st)) = g_clog_base st"
  by (simp add: TransactionLogFetch_def Let_def)

interpretation clog: status_log TransactionIdGetStatus set_status clog_status clog_ready clog_recordable
proof
  fix st x v st'
  assume "clog_ready st" "TransactionIdGetStatus x st = (v, st')"
  then show "v = clog_status st x \<and> clog_ready st' \<and> clog_status st' = clog_status st"
    using TransactionLogFetch_correct [of st x v st'] TransactionLogFetch_base [of x st]
    by (simp add: clog_ready_def TransactionIdGetStatus_def)
qed (simp add: clog_ready_set_status clog_status_set_status)

text \<open>\<open>k\<close> transactions started one after the other.\<close>

fun alloc_many :: "nat \<Rightarrow> ClogState \<Rightarrow> TransactionId result list \<times> ClogState" where
  "alloc_many 0 st = ([], st)"
| "alloc_many (Suc k) st =
    (let (r, st1) = AllocateNextTransactionId st; (rs, st2) = alloc_many k st1 in (r # rs, st2))"

lemma AllocateNextTransactionId_normal:
  assumes "g_variable_cache st = Some vc" "nextXid vc \<noteq> 0"
  shows "AllocateNextTransactionId st = (Inr (nextXid vc), TransactionIdSetInProgress (nextXid vc)
      (st\<lparr>g_variable_cache := Some (vc\<lparr>nextXid := nextXid vc + 1\<rparr>)\<rparr>))"
  using assms by (simp add: AllocateNextTransactionId_def xid_consts)

lemma set_status_vc: "g_variable_cache (set_status s x st) = g_variable_cache st"
  by (auto simp: set_status_def MarkDirty_def Let_def split: option.splits)

lemma SetInProgress_vc: "g_variable_cache (TransactionIdSetInProgress x st) = g_variable_cache st"
  by (simp add: TransactionIdSetInProgress_def set_status_vc)

lemma clog_ready_vc [simp]: "clog_ready (st\<lparr>g_variable_cache := v\<rparr>) = clog_ready st"
  by (simp add: clog_ready_def cache_ok_def FetchFromCommitLog_def)

lemma clog_status_vc [simp]: "clog_status (st\<lparr>g_variable_cache := v\<rparr>) = clog_status st"
  by (simp add: clog_status_def FetchFromCommitLog_def fun_eq_iff)

lemma alloc_many_spec:
  "clog_ready st \<Longrightarrow> g_variable_cache st = Some vc \<Longrightarrow> nextXid vc = of_nat n \<Longrightarrow>
   3 \<le> n \<Longrightarrow> n + k \<le> 4294967296 \<Longrightarrow>
   alloc_many k st = (rs, st') \<Longrightarrow>
   rs = map (\<lambda>i. Inr (of_nat (n + i))) [0..<k] \<and> clog_ready st' \<and>
   map_option nextXid (g_variable_cache st') = Some (of_nat (n + k)) \<and>
   clog_status st' = (\<lambda>x. if n \<le> unat x \<and> unat x < n + k then kInProgress else clog_status st x)"
proof (induction k arbitrary: st vc n rs)
  case 0
  then show ?case by (auto simp: fun_eq_iff)
next
  case (Suc k)
  let ?x = "of_nat n :: u32"
  let ?s1 = "TransactionIdSetInProgress ?x (st\<lparr>g_variable_cache := Some (vc\<lparr>nextXid := ?x + 1\<rparr>)\<rparr>)"
  have ux: "unat ?x = n" using Suc.prems by (simp add: unat_of_nat_u32)
  then have norm: "TransactionIdIsNormal ?x" "?x \<noteq> 0"
    using Suc.prems(4) by (auto simp: TransactionIdIsNormal_def xid_consts word_le_nat_alt)
  have a: "AllocateNextTransactionId st = (Inr ?x, ?s1)"
    using AllocateNextTransactionId_normal [OF Suc.prems(2)] norm Suc.prems(3) by simp
  obtain rs1 where r: "alloc_many k ?s1 = (rs1, st')" "rs = Inr ?x # rs1"
    using Suc.prems(6) by (auto simp: a Let_def split: prod.splits)
  have vc1: "g_variable_cache ?s1 = Some (vc\<lparr>nextXid := ?x + 1\<rparr>)" by (simp add: SetInProgress_vc)
  have ready: "clog_ready ?s1"
    using Suc.prems(1) norm by (simp add: TransactionIdSetInProgress_def clog_ready_set_status)
  have stat: "clog_status ?s1 = (clog_status st)(?x := kInProgress)"
    using Suc.prems(1) norm
    by (auto simp: TransactionIdSetInProgress_def clog_ready_def clog_status_def fun_eq_iff
        FetchFromCommitLog_set_status) (auto simp: FetchFromCommitLog_def)
  have IH: "rs1 = map (\<lambda>i. Inr (of_nat (Suc n + i))) [0..<k] \<and> clog_ready st' \<and>
      map_option nextXid (g_variable_cache st') = Some (of_nat (Suc n + k)) \<and>
      clog_status st' = (\<lambda>x. if Suc n \<le> unat x \<and> unat x < Suc n + k then kInProgress else clog_status ?s1 x)"
    using Suc.IH [OF ready vc1 _ _ _ r(1), of "Suc n"] Suc.prems(4,5) by simp
  have "[0..<Suc k] = 0 # map Suc [0..<k]" by (simp add: map_Suc_upt upt_conv_Cons)
  moreover have "y = ?x \<longleftrightarrow> unat y = n" for y :: u32
    using eq_of_nat_u32 [of n y] Suc.prems(5) by simp
  ultimately show ?case using IH by (auto simp: r(2) stat fun_eq_iff)
qed

lemma DidCommit_status:
  "clog_ready st \<Longrightarrow> fst (TransactionIdDidCommit y st) \<longleftrightarrow> clog_status st y = kCommitted"
  using clog.get_status [of st y] by (auto simp: TransactionIdDidCommit_def split: prod.splits)

lemma DidAbort_status:
  "clog_ready st \<Longrightarrow> fst (TransactionIdDidAbort y st) \<longleftrightarrow> clog_status st y = kAborted"
  using clog.get_status [of st y]
  by (auto simp: TransactionIdDidAbort_def clog_status_def split: prod.splits)

lemma clog_boot_simps [simp]:
  "clog_ready (clog_boot d)"
  "g_clog_base (clog_boot d) = Some fresh_clog"
  "g_variable_cache (clog_boot d) = Some \<lparr>nextXid = 3, oldestXid = 3\<rparr>"
  by (simp_all add: clog_ready_def clog_boot_def cache_ok_Initialize)
    (simp_all add: InitializeCommitLog_def clog_start_def SetClogDirectory_def xid_consts)

subsection \<open>Properties\<close>

text \<open>\<open>TransactionIdCommit\<close> and \<open>TransactionIdAbort\<close> of a normal identifier below
  \<open>kMaxXids\<close> make \<open>TransactionIdDidCommit\<close>, respectively \<open>TransactionIdDidAbort\<close>,
  answer true for it and leave every other answer as it was, whatever the single-entry cache
  held; both refuse the special identifiers without any effect.\<close>

theorem commit_abort_recorded:
  assumes "clog_ready st"
  shows "(clog_recordable x \<longrightarrow>
      (\<exists>st'. TransactionIdCommit x st = (Inr (), st') \<and> clog_ready st' \<and>
        (\<forall>y. fst (TransactionIdDidCommit y st') = (y = x \<or> fst (TransactionIdDidCommit y st)) \<and>
             fst (TransactionIdDidAbort y st') = (y \<noteq> x \<and> fst (TransactionIdDidAbort y st))))) \<and>
    (clog_recordable x \<longrightarrow>
      (\<exists>st'. TransactionIdAbort x st = (Inr (), st') \<and> clog_ready st' \<and>
        (\<forall>y. fst (TransactionIdDidAbort y st') = (y = x \<or> fst (TransactionIdDidAbort y st)) \<and>
             fst (TransactionIdDidCommit y st') = (y \<noteq> x \<and> fst (TransactionIdDidCommit y st))))) \<and>
    (\<not> TransactionIdIsNormal x \<longrightarrow>
      (\<exists>e. TransactionIdCommit x st = (Inl e, st)) \<and> (\<exists>e. TransactionIdAbort x st = (Inl e, st)))"
  using clog.put_status [OF assms, of x kCommitted] clog.put_status [OF assms, of x kAborted] assms
  by (auto simp: TransactionIdCommit_def TransactionIdAbort_def clog_recordable_def DidCommit_status
      DidAbort_status)

lemma commit_abort_recorded_witness:
  "clog_ready (clog_boot ''pg_xact'') \<and> clog_recordable 7 \<and>
   (\<exists>st'. TransactionIdCommit 7 (clog_boot ''pg_xact'') = (Inr (), st') \<and>
     fst (TransactionIdDidCommit 7 st') \<and> \<not> fst (TransactionIdDidCommit 8 st'))"
proof -
  have r: "clog_ready (clog_boot ''pg_xact'')" "clog_recordable 7"
    by (simp_all add: clog_recordable_def kMaxXids_def TransactionIdIsNormal_def xid_consts)
  moreover have "\<not> fst (TransactionIdDidCommit 8 (clog_boot ''pg_xact''))"
    using r(1) by (simp add: DidCommit_status clog_status_def FetchFromCommitLog_def kMaxXids_def
        fresh_clog_def TransactionIdIsNormal_def xid_consts)
  ultimately show ?thesis using commit_abort_recorded [OF r(1), of 7] by auto
qed



text \<open>transactions that start one after the other from the counter value \<open>n\<close> get the
  consecutive identifiers \<open>n\<close>, \<open>n + 1\<close>, ..., each of them is in progress afterwards,
  no other status changes and the counter has advanced by their number, as long as the counter
  stays within 32 bits.\<close>

theorem allocation_consecutive:
  assumes "clog_ready st" "g_variable_cache st = Some vc" "unat (nextXid vc) = n"
    and "3 \<le> n" "n + k \<le> 2 ^ 32" "alloc_many k st = (rs, st')"
  shows "rs = map (\<lambda>i. Inr (of_nat (n + i))) [0..<k] \<and> clog_ready st' \<and>
   map_option nextXid (g_variable_cache st') = Some (of_nat (n + k)) \<and>
   clog_status st' = (\<lambda>x. if n \<le> unat x \<and> unat x < n + k then kInProgress else clog_status st x)"
proof (rule alloc_many_spec [OF assms(1,2) _ assms(4) _ assms(6)])
  show "nextXid vc = of_nat n" using assms(3) by (metis unat_of_nat_u32 eq_of_nat_u32 unsigned_less word_unat_eq_iff len_num1 of_nat_unat ucast_id)
  show "n + k \<le> 4294967296" using assms(5) by simp
qed

lemma allocation_consecutive_witness:
  "fst (alloc_many 3 (clog_boot ''pg_xact'')) = [Inr 3, Inr 4, Inr 5]"
proof -
  let ?vc = "\<lparr>nextXid = 3, oldestXid = 3\<rparr>"
  have "clog_ready (clog_boot ''pg_xact'')" "g_variable_cache (clog_boot ''pg_xact'') = Some ?vc"
    by simp_all
  from allocation_consecutive [OF this, of 3 3] show ?thesis
    by (cases "alloc_many 3 (clog_boot ''pg_xact'')") (simp add: upt_rec)
qed

text \<open>the counter wraps around without skipping the special identifiers: after the
  identifier \<open>0xFFFFFFFF\<close> the next allocation fails with an error and the two after it
  return the bootstrap and the frozen identifier.\<close>

theorem allocation_wraps_into_special_xids:
  assumes "g_variable_cache st = Some vc" "nextXid vc = kMaxTransactionId"
  shows "fst (alloc_many 4 st) = [Inr kMaxTransactionId, Inl (Ereport ''variable cache not initialized''),
    Inr kBootstrapTransactionId, Inr kFrozenTransactionId]"
proof -
  have four: "(4 :: nat) = Suc (Suc (Suc (Suc 0)))" by simp
  show ?thesis
    using assms unfolding four
    by (simp add: AllocateNextTransactionId_def SetInProgress_vc xid_consts Let_def split: prod.splits)
qed

lemma allocation_wraps_into_special_xids_witness:
  "fst (alloc_many 4 (clog_start\<lparr>g_variable_cache := Some \<lparr>nextXid = 0xFFFFFFFF, oldestXid = 3\<rparr>\<rparr>)) =
    [Inr 0xFFFFFFFF, Inl (Ereport ''variable cache not initialized''), Inr 1, Inr 2]"
  using allocation_wraps_into_special_xids
    [of "clog_start\<lparr>g_variable_cache := Some \<lparr>nextXid = 0xFFFFFFFF, oldestXid = 3\<rparr>\<rparr>"]
  by (simp add: xid_consts)

end
