(* ===== verification/Slru.thy ===== *)
theory Slru
  imports CommitLog
begin

text \<open>
  The page cache for transaction-status data (\<open>src/transaction/slru.cpp\<close>). A cache holds at
  most \<open>capacity\<close> pages in the order of their use; pages are read from and written to one
  file per page when a directory is configured, and only live in memory otherwise.

  A file is identified by its directory and its name. Page numbers are non-negative, as all
  callers compute them by unsigned division. As in the commit log, \<open>wr\<close> and \<open>rd\<close> stand
  for the effect of the operating system on a file that is written or read; \<open>io\<close> is the
  instance in which it stores and returns the bytes it is given. \<open>std::unordered_map\<close> is an
  association list.
\<close>

subsection \<open>State\<close>

datatype SlruPageStatus = kEmpty | kValid | kDirty

record SlruPage =
  sp_pageno :: nat
  sp_status :: SlruPageStatus
  sp_data :: "u8 list"

record SlruCtl =
  sl_name :: string
  capacity :: nat
  disk_dir :: string
  slru_pages :: "(nat \<times> SlruPage) list"
  lru_order :: "nat list"
  sl_reads :: u64
  sl_writes :: u64
  sl_flushes :: u64

type_synonym file_path = "string \<times> string"
type_synonym file_system = "file_path \<rightharpoonup> u8 list"
type_synonym file_op = "file_path \<Rightarrow> u8 list \<Rightarrow> u8 list option"
type_synonym slru_state = "SlruCtl \<times> file_system"

abbreviation io :: file_op where
  "io \<equiv> (\<lambda>_. Some)"

definition zero_page :: "u8 list" where
  "zero_page = replicate kSlruPageSize 0"

subsection \<open>Operations\<close>

definition PageFilePath :: "string \<Rightarrow> nat \<Rightarrow> file_path" where
  "PageFilePath dir pageno = (dir, PageFileName pageno)"

definition ReadPageFromDisk :: "file_op \<Rightarrow> file_system \<Rightarrow> string \<Rightarrow> nat \<Rightarrow> SlruPage \<Rightarrow> SlruPage" where
  "ReadPageFromDisk rd fs dir pageno page =
    (let path = PageFilePath dir pageno
     in case fs path of
          None \<Rightarrow> page
        | Some c \<Rightarrow> (case rd path c of
            None \<Rightarrow> page
          | Some bytes \<Rightarrow> page\<lparr>sp_data := arr_write (sp_data page) 0 (take kSlruPageSize bytes)\<rparr>))"

definition WritePageToDisk :: "file_op \<Rightarrow> string \<Rightarrow> nat \<Rightarrow> SlruPage \<Rightarrow> file_system \<Rightarrow> file_system" where
  "WritePageToDisk wr dir pageno page fs =
    (let path = PageFilePath dir pageno
     in case wr path (sp_data page) of None \<Rightarrow> fs | Some c \<Rightarrow> fs(path \<mapsto> c))"

definition TouchPage :: "nat \<Rightarrow> SlruCtl \<Rightarrow> SlruCtl" where
  "TouchPage pageno ctl = ctl\<lparr>lru_order := remove1 pageno (lru_order ctl) @ [pageno]\<rparr>"

definition EvictOnePage :: "file_op \<Rightarrow> slru_state \<Rightarrow> slru_state" where
  "EvictOnePage wr s = (case s of (ctl, fs) \<Rightarrow>
     case lru_order ctl of
       [] \<Rightarrow> (ctl, fs)
     | victim # rest \<Rightarrow>
         let ctl1 = ctl\<lparr>lru_order := rest\<rparr>
         in case map_of (slru_pages ctl1) victim of
              None \<Rightarrow> (ctl1, fs)
            | Some page \<Rightarrow>
                (ctl1\<lparr>slru_pages := AList.delete victim (slru_pages ctl1)\<rparr>,
                 if sp_status page = kDirty \<and> disk_dir ctl1 \<noteq> []
                 then WritePageToDisk wr (disk_dir ctl1) victim page fs else fs))"

definition LoadPage :: "file_op \<Rightarrow> file_op \<Rightarrow> nat \<Rightarrow> slru_state \<Rightarrow> slru_state" where
  "LoadPage wr rd pageno s = (case s of (ctl, fs) \<Rightarrow>
     case map_of (slru_pages ctl) pageno of
       Some page \<Rightarrow> (TouchPage pageno ctl, fs)
     | None \<Rightarrow>
         let (ctl1, fs1) =
               (if length (slru_pages ctl) \<ge> capacity ctl then EvictOnePage wr (ctl, fs) else (ctl, fs));
             page = \<lparr>sp_pageno = pageno, sp_status = kValid, sp_data = zero_page\<rparr>;
             page1 = (if disk_dir ctl1 \<noteq> [] then ReadPageFromDisk rd fs1 (disk_dir ctl1) pageno page
                      else page)
         in (ctl1\<lparr>slru_pages := AList.update pageno page1 (slru_pages ctl1),
               lru_order := lru_order ctl1 @ [pageno]\<rparr>, fs1))"

definition cached :: "nat \<Rightarrow> SlruCtl \<Rightarrow> SlruPage" where
  "cached pageno ctl = the (map_of (slru_pages ctl) pageno)"

definition SimpleLruInit :: "string \<Rightarrow> nat \<Rightarrow> string \<Rightarrow> SlruCtl" where
  "SimpleLruInit nm cap dir = \<lparr>sl_name = nm, capacity = cap, disk_dir = dir, slru_pages = [],
     lru_order = [], sl_reads = 0, sl_writes = 0, sl_flushes = 0\<rparr>"

definition SimpleLruRead :: "file_op \<Rightarrow> file_op \<Rightarrow> nat \<Rightarrow> nat \<Rightarrow> nat \<Rightarrow> slru_state \<Rightarrow> u8 list \<times> slru_state" where
  "SimpleLruRead wr rd pageno offset len s =
    (let (ctl, fs) = LoadPage wr rd pageno s
     in (arr_read (sp_data (cached pageno ctl)) offset len, (ctl\<lparr>sl_reads := sl_reads ctl + 1\<rparr>, fs)))"

definition SimpleLruWrite :: "file_op \<Rightarrow> file_op \<Rightarrow> nat \<Rightarrow> nat \<Rightarrow> u8 list \<Rightarrow> slru_state \<Rightarrow> slru_state" where
  "SimpleLruWrite wr rd pageno offset src s =
    (let (ctl, fs) = LoadPage wr rd pageno s;
         page = cached pageno ctl;
         page1 = page\<lparr>sp_data := arr_write (sp_data page) offset src, sp_status := kDirty\<rparr>
     in (ctl\<lparr>sl_writes := sl_writes ctl + 1, slru_pages := AList.update pageno page1 (slru_pages ctl)\<rparr>, fs))"

definition SimpleLruFlush :: "file_op \<Rightarrow> slru_state \<Rightarrow> slru_state" where
  "SimpleLruFlush wr s = (case s of (ctl, fs) \<Rightarrow>
     (ctl\<lparr>slru_pages := map (\<lambda>(p, page).
            (p, if disk_dir ctl \<noteq> []
                then if sp_status page = kDirty then page\<lparr>sp_status := kValid\<rparr> else page
                else page\<lparr>sp_status := kValid\<rparr>)) (slru_pages ctl),
          sl_flushes := sl_flushes ctl + 1\<rparr>,
      if disk_dir ctl \<noteq> []
      then fold (\<lambda>(p, page) fs. if sp_status page = kDirty
             then WritePageToDisk wr (disk_dir ctl) p page fs else fs) (slru_pages ctl) fs
      else fs))"

definition SimpleLruReset :: "SlruCtl \<Rightarrow> SlruCtl" where
  "SimpleLruReset ctl =
    ctl\<lparr>slru_pages := [], lru_order := [], sl_reads := 0, sl_writes := 0, sl_flushes := 0\<rparr>"

definition SimpleLruFree :: "file_op \<Rightarrow> slru_state option \<Rightarrow> file_system \<Rightarrow> file_system" where
  "SimpleLruFree wr s fs = (case s of None \<Rightarrow> fs | Some cf \<Rightarrow> snd (SimpleLruFlush wr cf))"

subsection \<open>Invariant and contents\<close>

definition slru_ok :: "SlruCtl \<Rightarrow> bool" where
  "slru_ok ctl \<longleftrightarrow> distinct (map fst (slru_pages ctl)) \<and> distinct (lru_order ctl) \<and>
     set (lru_order ctl) = fst ` set (slru_pages ctl) \<and>
     length (slru_pages ctl) \<le> max 1 (capacity ctl) \<and>
     (\<forall>p page. map_of (slru_pages ctl) p = Some page \<longrightarrow>
        length (sp_data page) = kSlruPageSize \<and> sp_pageno page = p \<and> sp_status page \<noteq> kEmpty)"

definition disk_page :: "file_system \<Rightarrow> string \<Rightarrow> nat \<Rightarrow> u8 list" where
  "disk_page fs dir p = (case fs (PageFilePath dir p) of
      None \<Rightarrow> zero_page
    | Some c \<Rightarrow> arr_write zero_page 0 (take kSlruPageSize c))"

definition slru_inv :: "slru_state \<Rightarrow> bool" where
  "slru_inv s \<longleftrightarrow> (case s of (ctl, fs) \<Rightarrow> slru_ok ctl \<and> disk_dir ctl \<noteq> [] \<and>
     (\<forall>p page. map_of (slru_pages ctl) p = Some page \<and> sp_status page = kValid \<longrightarrow>
        sp_data page = disk_page fs (disk_dir ctl) p))"

text \<open>What a page holds, wherever it is.\<close>

definition content :: "slru_state \<Rightarrow> nat \<Rightarrow> u8 list" where
  "content s p = (case s of (ctl, fs) \<Rightarrow>
     (case map_of (slru_pages ctl) p of Some page \<Rightarrow> sp_data page | None \<Rightarrow> disk_page fs (disk_dir ctl) p))"

lemma length_disk_page [simp]: "length (disk_page fs dir p) = kSlruPageSize"
  by (auto simp: disk_page_def zero_page_def arr_write_def split: option.splits)

lemma disk_page_write:
  assumes "length (sp_data page) = kSlruPageSize"
  shows "disk_page (WritePageToDisk io dir p page fs) d q =
    (if d = dir \<and> q = p then sp_data page else disk_page fs d q)"
  using assms
  by (auto simp: disk_page_def WritePageToDisk_def PageFilePath_def inj_PageFileName arr_write_def zero_page_def)

lemma length_content: "slru_inv s \<Longrightarrow> length (content s p) = kSlruPageSize"
  by (auto simp: slru_inv_def slru_ok_def content_def split: option.splits)

lemma length_delete:
  assumes "distinct (map fst xs)" "k \<in> fst ` set xs"
  shows "length (AList.delete k xs) = length xs - 1"
proof -
  have "length (AList.delete k xs) = length (removeAll k (map fst xs))"
    by (metis delete_keys length_map)
  also have "\<dots> = length xs - 1"
    using assms by (simp add: distinct_remove1_removeAll [symmetric] length_remove1)
  finally show ?thesis .
qed

lemma delete_simps [simp]: "fst ` set (AList.delete k xs) = fst ` set xs - {k}"
  by (metis delete_keys list.set_map set_removeAll)

lemma EvictOnePage_spec:
  assumes inv: "slru_inv (ctl, fs)" and ev: "EvictOnePage io (ctl, fs) = (ctl', fs')"
  shows "slru_inv (ctl', fs') \<and> content (ctl', fs') = content (ctl, fs) \<and>
    disk_dir ctl' = disk_dir ctl \<and> capacity ctl' = capacity ctl \<and>
    length (slru_pages ctl') = length (slru_pages ctl) - 1 \<and>
    fst ` set (slru_pages ctl') \<subseteq> fst ` set (slru_pages ctl)"
proof (cases "lru_order ctl")
  case Nil
  then have "slru_pages ctl = []" using inv by (auto simp: slru_inv_def slru_ok_def)
  then show ?thesis using Nil inv ev by (simp add: EvictOnePage_def)
next
  case (Cons v rest)
  have ok: "slru_ok ctl" and dd: "disk_dir ctl \<noteq> []" using inv by (auto simp: slru_inv_def)
  then have v: "v \<in> fst ` set (slru_pages ctl)" using Cons by (auto simp: slru_ok_def)
  then obtain page where pg: "map_of (slru_pages ctl) v = Some page"
    by (metis image_iff map_of_eq_None_iff not_None_eq)
  have c': "ctl' = ctl\<lparr>lru_order := rest, slru_pages := AList.delete v (slru_pages ctl)\<rparr>"
    and f': "fs' = (if sp_status page = kDirty then WritePageToDisk io (disk_dir ctl) v page fs else fs)"
    using ev Cons pg dd by (auto simp: EvictOnePage_def Let_def)
  have len: "length (sp_data page) = kSlruPageSize" "sp_status page \<noteq> kEmpty"
    using ok pg by (auto simp: slru_ok_def)
  have dp: "disk_page fs' (disk_dir ctl) q = (if q = v then sp_data page else disk_page fs (disk_dir ctl) q)" for q
    using inv pg len by (cases "sp_status page") (auto simp: f' disk_page_write slru_inv_def)
  have "slru_ok ctl'"
    using ok Cons length_delete [of "slru_pages ctl" v] v
    by (auto simp: slru_ok_def c' delete_conv' distinct_delete)
  then have "slru_inv (ctl', fs')"
    using inv dd by (auto simp: slru_inv_def c' dp delete_conv' split: if_splits)
  moreover have "content (ctl', fs') = content (ctl, fs)"
    using pg by (auto simp: content_def c' dp delete_conv' fun_eq_iff split: option.splits)
  moreover have "length (slru_pages ctl') = length (slru_pages ctl) - 1"
    using length_delete [of "slru_pages ctl" v] v ok by (simp add: c' slru_ok_def)
  ultimately show ?thesis by (auto simp: c')
qed

lemma length_update_new:
  "k \<notin> fst ` set xs \<Longrightarrow> AList.update k v xs = xs @ [(k, v)]"
  by (induction xs) auto

lemma LoadPage_spec:
  assumes inv: "slru_inv (ctl, fs)" and ld: "LoadPage io io p (ctl, fs) = (ctl', fs')"
  shows "slru_inv (ctl', fs') \<and> content (ctl', fs') = content (ctl, fs) \<and>
    disk_dir ctl' = disk_dir ctl \<and> capacity ctl' = capacity ctl \<and>
    map_of (slru_pages ctl') p \<noteq> None"
proof (cases "map_of (slru_pages ctl) p")
  case (Some page)
  then have c': "ctl' = ctl\<lparr>lru_order := remove1 p (lru_order ctl) @ [p]\<rparr>" "fs' = fs"
    using ld by (auto simp: LoadPage_def TouchPage_def)
  have "p \<in> fst ` set (slru_pages ctl)" using Some by (force dest: map_of_SomeD)
  then have "slru_ok ctl'" using inv
    by (auto simp: slru_inv_def slru_ok_def c' set_remove1_eq)
  then show ?thesis using inv Some
    by (auto simp: slru_inv_def c' content_def fun_eq_iff split: option.splits)
next
  case None
  obtain c1 f1 where e: "(if length (slru_pages ctl) \<ge> capacity ctl then EvictOnePage io (ctl, fs) else (ctl, fs)) = (c1, f1)"
    by force
  let ?pg = "\<lparr>sp_pageno = p, sp_status = kValid, sp_data = disk_page f1 (disk_dir ctl) p\<rparr>"
  have s1: "slru_inv (c1, f1)" "content (c1, f1) = content (ctl, fs)" "disk_dir c1 = disk_dir ctl"
      "capacity c1 = capacity ctl" "length (slru_pages c1) < max 1 (capacity ctl)"
      "fst ` set (slru_pages c1) \<subseteq> fst ` set (slru_pages ctl)"
    using EvictOnePage_spec [OF inv, of c1 f1] e inv
    by (auto simp: slru_inv_def slru_ok_def split: if_splits)
  have dd: "disk_dir ctl \<noteq> []" using inv by (simp add: slru_inv_def)
  have rd: "ReadPageFromDisk io f1 (disk_dir ctl) p \<lparr>sp_pageno = p, sp_status = kValid, sp_data = zero_page\<rparr> = ?pg"
    by (auto simp: ReadPageFromDisk_def disk_page_def Let_def split: option.splits)
  have new: "p \<notin> fst ` set (slru_pages c1)" using None s1(6) by (auto simp: map_of_eq_None_iff)
  have c': "ctl' = c1\<lparr>slru_pages := slru_pages c1 @ [(p, ?pg)], lru_order := lru_order c1 @ [p]\<rparr>" "fs' = f1"
    using ld None dd s1(3) by (auto simp: LoadPage_def e rd length_update_new [OF new])
  have n: "map_of (slru_pages c1) p = None" using new by (simp add: map_of_eq_None_iff)
  have mo: "map_of (slru_pages ctl') = (map_of (slru_pages c1))(p \<mapsto> ?pg)"
    using n by (auto simp: c' map_add_def fun_eq_iff split: option.splits)
  have "slru_ok ctl'"
    using s1 new unfolding slru_ok_def mo by (auto simp: slru_inv_def slru_ok_def c')
  moreover have dc: "disk_dir ctl' = disk_dir ctl" "disk_dir c1 = disk_dir ctl" using s1(3) by (simp_all add: c')
  ultimately have "slru_inv (ctl', fs')"
    using s1(1) dd by (auto simp: slru_inv_def dc mo c'(2) split: if_splits)
  moreover have "content (ctl', fs') = content (c1, f1)"
  proof
    fix q
    show "content (ctl', fs') q = content (c1, f1) q"
      using n by (cases "q = p"; cases "map_of (slru_pages c1) q") (simp_all add: content_def mo dc c'(2))
  qed
  ultimately show ?thesis using s1 mo by (simp add: c'(1))
qed

lemma SimpleLruRead_spec:
  assumes "slru_inv s" "SimpleLruRead io io p off len s = (r, s')"
  shows "r = arr_read (content s p) off len \<and> slru_inv s' \<and> content s' = content s \<and>
    disk_dir (fst s') = disk_dir (fst s)"
proof -
  obtain ctl fs where s: "s = (ctl, fs)" by force
  obtain c1 f1 where l: "LoadPage io io p (ctl, fs) = (c1, f1)" by force
  have sp: "slru_inv (c1, f1)" "content (c1, f1) = content (ctl, fs)" "disk_dir c1 = disk_dir ctl"
      "map_of (slru_pages c1) p \<noteq> None"
    using LoadPage_spec [OF assms(1) [unfolded s] l] by auto
  have r: "r = arr_read (sp_data (cached p c1)) off len" "s' = (c1\<lparr>sl_reads := sl_reads c1 + 1\<rparr>, f1)"
    using assms(2) by (auto simp: SimpleLruRead_def s l)
  have "sp_data (cached p c1) = content (c1, f1) p" using sp(4) by (auto simp: cached_def content_def)
  moreover have "slru_inv s'" using sp(1) by (simp add: r slru_inv_def slru_ok_def)
  moreover have "content s' = content (c1, f1)" by (simp add: r content_def fun_eq_iff split: option.splits)
  ultimately show ?thesis using r sp s by simp
qed

lemma update_old_keys: "k \<in> fst ` set xs \<Longrightarrow> map fst (AList.update k v xs) = map fst xs"
  by (simp add: update_keys)

lemma SimpleLruWrite_spec:
  assumes inv: "slru_inv s" and off: "off + length src \<le> kSlruPageSize"
    and w: "SimpleLruWrite io io p off src s = s'"
  shows "slru_inv s' \<and> content s' = (content s)(p := arr_write (content s p) off src) \<and>
    disk_dir (fst s') = disk_dir (fst s)"
proof -
  obtain ctl fs where s: "s = (ctl, fs)" by force
  obtain c1 f1 where l: "LoadPage io io p (ctl, fs) = (c1, f1)" by force
  have sp: "slru_inv (c1, f1)" "content (c1, f1) = content s" "disk_dir c1 = disk_dir ctl"
      "map_of (slru_pages c1) p \<noteq> None"
    using LoadPage_spec [OF inv [unfolded s] l] by (auto simp: s)
  then obtain page where pg: "map_of (slru_pages c1) p = Some page" by blast
  let ?pg = "page\<lparr>sp_data := arr_write (sp_data page) off src, sp_status := kDirty\<rparr>"
  have s': "s' = (c1\<lparr>sl_writes := sl_writes c1 + 1, slru_pages := AList.update p ?pg (slru_pages c1)\<rparr>, f1)"
    using w by (auto simp: SimpleLruWrite_def s l cached_def pg Let_def)
  have key: "p \<in> fst ` set (slru_pages c1)" using pg by (force dest: map_of_SomeD)
  have keys: "map fst (AList.update p ?pg (slru_pages c1)) = map fst (slru_pages c1)"
    by (rule update_old_keys [OF key])
  have len: "length (sp_data page) = kSlruPageSize" "sp_pageno page = p"
    using sp(1) pg by (auto simp: slru_inv_def slru_ok_def)
  have "length (AList.update p ?pg (slru_pages c1)) = length (slru_pages c1)"
    "fst ` set (AList.update p ?pg (slru_pages c1)) = fst ` set (slru_pages c1)"
    using keys by (metis length_map) (metis keys list.set_map)
  then have "slru_inv s'"
    using sp(1) len off keys by (auto simp: slru_inv_def slru_ok_def s' update_conv')
  moreover have "content s' = (content s)(p := arr_write (content s p) off src)"
    using pg by (auto simp: s' content_def update_conv' fun_eq_iff sp(2) [symmetric] split: option.splits)
  ultimately show ?thesis using sp(3) by (simp add: s s')
qed

lemma flush_fold:
  assumes "\<forall>(p, page) \<in> set ps. length (sp_data page) = kSlruPageSize" "distinct (map fst ps)"
  shows "disk_page (fold (\<lambda>(p, page) fs. if sp_status page = kDirty
      then WritePageToDisk io dir p page fs else fs) ps fs) dir q =
    (case map_of ps q of
       Some page \<Rightarrow> if sp_status page = kDirty then sp_data page else disk_page fs dir q
     | None \<Rightarrow> disk_page fs dir q)"
  using assms
proof (induction ps arbitrary: fs)
  case (Cons pp ps)
  obtain p page where pp: "pp = (p, page)" by force
  have n: "map_of ps p = None" using Cons.prems(2) by (simp add: pp map_of_eq_None_iff)
  show ?case using Cons n by (auto simp: pp disk_page_write split: option.splits)
qed simp

lemma SimpleLruFlush_spec:
  assumes inv: "slru_inv s" and fl: "SimpleLruFlush io s = (ctl', fs')"
  shows "slru_inv (ctl', fs') \<and> content (ctl', fs') = content s \<and> disk_dir ctl' = disk_dir (fst s) \<and>
    disk_page fs' (disk_dir (fst s)) = content s"
proof -
  obtain ctl fs where s: "s = (ctl, fs)" by force
  have ok: "slru_ok ctl" and dd: "disk_dir ctl \<noteq> []" using inv by (auto simp: s slru_inv_def)
  have c': "ctl' = ctl\<lparr>slru_pages := map (\<lambda>(p, page).
      (p, if sp_status page = kDirty then page\<lparr>sp_status := kValid\<rparr> else page)) (slru_pages ctl),
          sl_flushes := sl_flushes ctl + 1\<rparr>"
    and f': "fs' = fold (\<lambda>(p, page) fs. if sp_status page = kDirty
             then WritePageToDisk io (disk_dir ctl) p page fs else fs) (slru_pages ctl) fs"
    using fl dd by (auto simp: SimpleLruFlush_def s)
  have "\<forall>(p, page) \<in> set (slru_pages ctl). length (sp_data page) = kSlruPageSize" "distinct (map fst (slru_pages ctl))"
    using ok by (auto simp: slru_ok_def)
  note ff = flush_fold [OF this, of "disk_dir ctl" fs, folded f']
  have dp: "disk_page fs' (disk_dir ctl) q = content s q" for q
    unfolding ff content_def s using inv ok
    by (auto simp: s slru_inv_def slru_ok_def split: option.splits) (metis SlruPageStatus.exhaust)
  have mo: "map_of (slru_pages ctl') p = map_option (\<lambda>page. if sp_status page = kDirty
      then page\<lparr>sp_status := kValid\<rparr> else page) (map_of (slru_pages ctl) p)" for p
    by (simp add: c' map_of_map_snd)
  have dc: "disk_dir ctl' = disk_dir ctl" by (simp add: c')
  have co: "content (ctl', fs') = content s"
  proof
    fix q
    show "content (ctl', fs') q = content s q"
      using dp [of q] by (cases "map_of (slru_pages ctl) q") (simp_all add: content_def s mo dc)
  qed
  have "slru_ok ctl'"
    using ok unfolding slru_ok_def mo
    by (auto simp: c' comp_def case_prod_unfold image_image)
  moreover have "sp_data page = disk_page fs' (disk_dir ctl') p"
    if "map_of (slru_pages ctl') p = Some page" for p page
    using that dp [of p] fun_cong [OF co, of p] by (simp add: content_def dc)
  ultimately show ?thesis using dd dp co by (auto simp: slru_inv_def s c' fun_eq_iff)
qed

lemma slru_inv_Init: "dir \<noteq> [] \<Longrightarrow> slru_inv (SimpleLruInit nm cap dir, fs) \<and>
    content (SimpleLruInit nm cap dir, fs) = disk_page fs dir"
  by (auto simp: slru_inv_def slru_ok_def SimpleLruInit_def content_def fun_eq_iff)

subsection \<open>Separate directories\<close>

text \<open>A cache touches the files of its own directory only.\<close>

definition same_outside :: "string \<Rightarrow> file_system \<Rightarrow> file_system \<Rightarrow> bool" where
  "same_outside dir fs fs' \<longleftrightarrow> (\<forall>path. fst path \<noteq> dir \<longrightarrow> fs' path = fs path)"

lemma same_outside_refl [simp]: "same_outside dir fs fs"
  by (simp add: same_outside_def)

lemma same_outside_WritePage: "same_outside dir fs fs1 \<Longrightarrow> same_outside dir fs (WritePageToDisk wr dir p page fs1)"
  by (auto simp: same_outside_def WritePageToDisk_def PageFilePath_def Let_def split: option.splits)

lemma EvictOnePage_frame:
  "EvictOnePage wr (ctl, fs) = (ctl', fs') \<Longrightarrow> same_outside (disk_dir ctl) fs fs' \<and> disk_dir ctl' = disk_dir ctl"
  by (auto simp: EvictOnePage_def Let_def same_outside_WritePage split: list.splits option.splits if_splits)

lemma LoadPage_frame:
  assumes "LoadPage wr rd p (ctl, fs) = (ctl', fs')"
  shows "same_outside (disk_dir ctl) fs fs' \<and> disk_dir ctl' = disk_dir ctl"
proof -
  obtain c1 f1 where e: "EvictOnePage wr (ctl, fs) = (c1, f1)" by force
  show ?thesis using assms EvictOnePage_frame [OF e] e
    by (auto simp: LoadPage_def TouchPage_def Let_def split: option.splits if_splits)
qed

lemma SimpleLruRead_frame:
  "SimpleLruRead wr rd p off len (ctl, fs) = (r, (ctl', fs')) \<Longrightarrow>
    same_outside (disk_dir ctl) fs fs' \<and> disk_dir ctl' = disk_dir ctl"
  using LoadPage_frame [of wr rd p ctl fs] by (auto simp: SimpleLruRead_def split: prod.splits)

lemma SimpleLruWrite_frame:
  "SimpleLruWrite wr rd p off src (ctl, fs) = (ctl', fs') \<Longrightarrow>
    same_outside (disk_dir ctl) fs fs' \<and> disk_dir ctl' = disk_dir ctl"
  using LoadPage_frame [of wr rd p ctl fs] by (auto simp: SimpleLruWrite_def Let_def split: prod.splits)

lemma SimpleLruFlush_frame:
  assumes "SimpleLruFlush wr (ctl, fs) = (ctl', fs')"
  shows "same_outside (disk_dir ctl) fs fs' \<and> disk_dir ctl' = disk_dir ctl"
proof -
  have "same_outside d fs f1 \<Longrightarrow> same_outside d fs (fold (\<lambda>(p, page) fs. if sp_status page = kDirty
             then WritePageToDisk wr d p page fs else fs) ps f1)" for d f1 ps
    by (induction ps arbitrary: f1) (auto simp: same_outside_WritePage)
  then show ?thesis using assms by (auto simp: SimpleLruFlush_def split: if_splits)
qed

lemma disk_page_outside: "same_outside d fs fs' \<Longrightarrow> dir \<noteq> d \<Longrightarrow> disk_page fs' dir = disk_page fs dir"
  by (simp add: same_outside_def disk_page_def PageFilePath_def fun_eq_iff)

lemma slru_outside:
  assumes "same_outside d fs fs'" "disk_dir ctl \<noteq> d"
  shows "slru_inv (ctl, fs') = slru_inv (ctl, fs) \<and> content (ctl, fs') = content (ctl, fs)"
  using disk_page_outside [OF assms] by (auto simp: slru_inv_def content_def fun_eq_iff split: option.splits)

subsection \<open>The interface\<close>

text \<open>
  What a client relies on: the cache is a store of fixed-size pages. Reading does not change
  any page, writing changes the addressed bytes only. A client that keeps records of
  \<open>k\<close> bytes, with \<open>k\<close> a divisor of the page size, sees an array of such records.
\<close>

locale paged_store =
  fixes rd :: "nat \<Rightarrow> nat \<Rightarrow> nat \<Rightarrow> 's \<Rightarrow> u8 list \<times> 's"
    and wt :: "nat \<Rightarrow> nat \<Rightarrow> u8 list \<Rightarrow> 's \<Rightarrow> 's"
    and cont :: "'s \<Rightarrow> nat \<Rightarrow> u8 list"
    and inv :: "'s \<Rightarrow> bool"
    and psize :: nat
  assumes read_law: "inv s \<Longrightarrow> rd p off len s = (r, s') \<Longrightarrow>
      r = arr_read (cont s p) off len \<and> inv s' \<and> cont s' = cont s"
    and write_law: "inv s \<Longrightarrow> off + length b \<le> psize \<Longrightarrow>
      inv (wt p off b s) \<and> cont (wt p off b s) = (cont s)(p := arr_write (cont s p) off b)"
    and page_length: "inv s \<Longrightarrow> length (cont s p) = psize"
begin

lemma read_after_write:
  assumes "inv s" "off + length b \<le> psize"
  shows "fst (rd p off (length b) (wt p off b s)) = b"
proof -
  obtain r s' where r: "rd p off (length b) (wt p off b s) = (r, s')" by force
  show ?thesis
    using read_law [OF _ r] write_law [OF assms, of p] page_length [OF assms(1), of p] assms(2) r
    by (simp add: arr_read_write_same)
qed

text \<open>Record number \<open>i\<close> of an array of \<open>k\<close>-byte records.\<close>

definition cell :: "nat \<Rightarrow> 's \<Rightarrow> nat \<Rightarrow> u8 list" where
  "cell k s i = arr_read (cont s (k * i div psize)) (k * i mod psize) k"

lemma cell_fits:
  assumes "k dvd psize" "0 < k" "0 < psize"
  shows "k * i mod psize + k \<le> psize"
proof -
  obtain m where m: "psize = k * m" using assms(1) by blast
  then have "k * i mod psize = k * (i mod m)" by simp
  moreover have "i mod m < m" using m assms(3) by (intro mod_less_divisor) auto
  then have "k * (i mod m) + k \<le> k * m" by (metis Suc_leI mult_Suc_right mult_le_mono2 add.commute)
  ultimately show ?thesis using m by simp
qed

lemma cells_disjoint:
  assumes "k dvd psize" "0 < k" "0 < psize" "i \<noteq> j" "k * i div psize = k * j div psize"
  shows "k * i mod psize + k \<le> k * j mod psize \<or> k * j mod psize + k \<le> k * i mod psize"
proof -
  obtain m where m: "psize = k * m" using assms(1) by blast
  have "i div m = j div m" using assms(2,5) by (simp add: m)
  then have "i mod m \<noteq> j mod m" using assms(4) by (metis div_mult_mod_eq)
  then have "i mod m + 1 \<le> j mod m \<or> j mod m + 1 \<le> i mod m" by linarith
  then have "k * (i mod m + 1) \<le> k * (j mod m) \<or> k * (j mod m + 1) \<le> k * (i mod m)"
    using mult_le_mono2 by blast
  then show ?thesis by (simp add: m add.commute)
qed

lemma cell_write:
  assumes inv: "inv s" and k: "k dvd psize" "0 < k" "0 < psize" and b: "length b = k"
  shows "inv (wt (k * i div psize) (k * i mod psize) b s) \<and>
    cell k (wt (k * i div psize) (k * i mod psize) b s) = (cell k s)(i := b)"
proof -
  have fit: "k * n mod psize + k \<le> psize" for n using cell_fits [OF k] .
  have w: "inv (wt (k * i div psize) (k * i mod psize) b s)"
    "cont (wt (k * i div psize) (k * i mod psize) b s) =
      (cont s)(k * i div psize := arr_write (cont s (k * i div psize)) (k * i mod psize) b)"
    using write_law [OF inv, of "k * i mod psize" b] fit [of i] b by auto
  have "cell k (wt (k * i div psize) (k * i mod psize) b s) j = (if j = i then b else cell k s j)" for j
  proof (cases "j = i")
    case True
    then show ?thesis using fit [of i] b page_length [OF inv]
      by (simp add: cell_def w arr_read_write_same)
  next
    case False
    then show ?thesis
      using fit [of i] fit [of j] b page_length [OF inv] cells_disjoint [OF k, of j i]
      by (auto simp: cell_def w intro!: arr_read_write_other)
  qed
  with w(1) show ?thesis by (auto simp: fun_eq_iff)
qed

lemma cell_read:
  assumes "inv s" "rd (k * i div psize) (k * i mod psize) k s = (r, s')"
  shows "r = cell k s i \<and> inv s' \<and> cont s' = cont s"
  using read_law [OF assms] by (simp add: cell_def)

end

interpretation slru: paged_store "SimpleLruRead io io" "SimpleLruWrite io io" content slru_inv kSlruPageSize
  using SimpleLruRead_spec SimpleLruWrite_spec length_content by unfold_locales blast+

subsection \<open>Properties\<close>

text \<open>C7: with a configured directory and a file system that stores what it is given, the cache
  is transparent: a read returns the bytes of the page, a write changes exactly the addressed
  bytes of one page, no other page changes whatever is evicted to make room, and the cache never
  holds more pages than its capacity.\<close>

theorem slru_is_page_store:
  assumes "slru_inv s" "off + len \<le> kSlruPageSize"
  shows "(\<exists>s'. SimpleLruRead io io p off len s = (arr_read (content s p) off len, s') \<and>
      slru_inv s' \<and> content s' = content s) \<and>
    (length src = len \<longrightarrow> slru_inv (SimpleLruWrite io io p off src s) \<and>
      content (SimpleLruWrite io io p off src s) = (content s)(p := arr_write (content s p) off src) \<and>
      fst (SimpleLruRead io io p off len (SimpleLruWrite io io p off src s)) = src) \<and>
    length (slru_pages (fst s)) \<le> max 1 (capacity (fst s))"
proof -
  obtain r s' where r: "SimpleLruRead io io p off len s = (r, s')" by (meson surj_pair)
  have "length (slru_pages (fst s)) \<le> max 1 (capacity (fst s))"
    using assms(1) by (cases s) (simp add: slru_inv_def slru_ok_def)
  then show ?thesis
    using slru.read_law [OF assms(1) r] slru.write_law [OF assms(1), of off src p]
      slru.read_after_write [OF assms(1), of off src p] assms(2) r by auto
qed

lemma slru_is_page_store_witness:
  "fst (SimpleLruRead io io 3 16 2 (SimpleLruWrite io io 3 16 [7, 8]
     (SimpleLruInit ''clog'' 1 ''pg_xact'', Map.empty))) = [7, 8]"
proof -
  have "slru_inv (SimpleLruInit ''clog'' 1 ''pg_xact'', Map.empty)" using slru_inv_Init by blast
  from slru_is_page_store [OF this, of 16 2 3 "[7, 8]"] show ?thesis by (simp add: kSlruPageSize_def)
qed

text \<open>after \<open>SimpleLruFlush\<close> every page is in its file: a cache that is created anew on
  the same directory shows the same contents.\<close>

theorem slru_flush_durable:
  assumes "slru_inv s" "SimpleLruFlush io s = (ctl', fs')"
  shows "slru_inv (ctl', fs') \<and> content (ctl', fs') = content s \<and>
    content (SimpleLruInit nm cap (disk_dir (fst s)), fs') = content s"
proof -
  have "disk_dir (fst s) \<noteq> []" using assms(1) by (cases s) (simp add: slru_inv_def)
  then show ?thesis using SimpleLruFlush_spec [OF assms] slru_inv_Init by simp
qed

lemma slru_flush_durable_witness:
  "content (SimpleLruInit ''clog'' 4 ''pg_xact'',
      snd (SimpleLruFlush io (SimpleLruWrite io io 3 16 [7, 8]
        (SimpleLruInit ''clog'' 1 ''pg_xact'', Map.empty)))) 3 ! 17 = 8"
proof -
  let ?init = "(SimpleLruInit ''clog'' 1 ''pg_xact'', Map.empty)"
  let ?s = "SimpleLruWrite io io 3 16 [7, 8] ?init"
  have i0: "slru_inv ?init" "content ?init 3 = zero_page"
    using slru_inv_Init by (auto simp: disk_page_def)
  have i: "slru_inv ?s" "content ?s 3 = arr_write zero_page 16 [7, 8]" "disk_dir (fst ?s) = ''pg_xact''"
    using SimpleLruWrite_spec [OF i0(1), of 16 "[7, 8]" 3, OF _ refl] i0(2)
    by (auto simp: kSlruPageSize_def SimpleLruInit_def)
  have "content (SimpleLruInit ''clog'' 4 ''pg_xact'', snd (SimpleLruFlush io ?s)) = content ?s"
    using slru_flush_durable [OF i(1) prod.collapse [symmetric], of "''clog''" 4] i(3) by simp
  then show ?thesis using i(2) by (simp add: zero_page_def kSlruPageSize_def nth_arr_write)
qed

text \<open>without a directory the cache loses data: a page written first and evicted by the use
  of another page reads as zeros afterwards.\<close>

theorem slru_in_memory_loses_pages:
  "fst (SimpleLruRead wr rd 0 0 1 (SimpleLruWrite wr rd 1 0 [9]
     (SimpleLruWrite wr rd 0 0 [7] (SimpleLruInit nm 1 [], fs)))) = [0]"
proof -
  have z: "zero_page = 0 # replicate 8191 0"
    unfolding zero_page_def kSlruPageSize_def by (simp add: replicate_Suc [symmetric] del: replicate_Suc)
  show ?thesis
    by (simp add: SimpleLruRead_def SimpleLruWrite_def LoadPage_def EvictOnePage_def SimpleLruInit_def
        cached_def z arr_read_def arr_write_def)
qed

end
