(* ===== verification/MultiXact.thy ===== *)
theory MultiXact
  imports Slru
begin

text \<open>
  Sets of transactions that share a row lock (\<open>src/transaction/multixact.cpp\<close>): one SLRU
  holds, per multixact identifier, the byte offset of its first member, a second one the members
  with a stride of eight bytes; a control file holds the two counters. The theory proves that
  this layout implements an append-only list of member lists, and that it survives a flush and a
  restart.

  \<open>memcpy\<close> of a \<open>uint32_t\<close> stores its bytes least significant first. The loop that
  collects members adds 8 to a 32-bit offset and does not end when the sum wraps around; it is
  bounded by fuel, and the fuel chosen covers every run in which the sum does not wrap.
\<close>

subsection \<open>State\<close>

type_synonym MultiXactId = u32
type_synonym MultiXactOffset = u32

record MultiXactMember =
  mm_xid :: TransactionId
  mm_status :: u8

record MultiXactState =
  OffsetsCtl :: "SlruCtl option"
  MembersCtl :: "SlruCtl option"
  NextMultiXactIdVar :: MultiXactId
  NextMemberOffset :: MultiXactOffset
  mx_fs :: file_system

definition kFirstMultiXactId :: MultiXactId where "kFirstMultiXactId = 1"
definition kInvalidMultiXactId :: MultiXactId where "kInvalidMultiXactId = 0"
definition kMultiXactOffsetsPerPage :: nat where "kMultiXactOffsetsPerPage = kSlruPageSize div 4"
definition kMultiXactMemberStride :: nat where "kMultiXactMemberStride = 8"

lemmas mx_consts = kFirstMultiXactId_def kInvalidMultiXactId_def kMultiXactOffsetsPerPage_def
  kMultiXactMemberStride_def kSlruPageSize_def

subsection \<open>The control file\<close>

definition ControlFilePath :: "MultiXactState \<Rightarrow> file_path option" where
  "ControlFilePath st = (case OffsetsCtl st of
      None \<Rightarrow> None
    | Some ctl \<Rightarrow> if disk_dir ctl = [] then None else Some (disk_dir ctl, ''multixact_control''))"

definition WriteControlFile :: "file_op \<Rightarrow> MultiXactState \<Rightarrow> MultiXactState" where
  "WriteControlFile wr st = (case ControlFilePath st of
      None \<Rightarrow> st
    | Some path \<Rightarrow>
        (case wr path (u32_bytes (NextMultiXactIdVar st) @ u32_bytes (NextMemberOffset st)) of
           None \<Rightarrow> st
         | Some c \<Rightarrow> st\<lparr>mx_fs := (mx_fs st)(path \<mapsto> c)\<rparr>))"

definition ReadControlFile :: "file_op \<Rightarrow> MultiXactState \<Rightarrow> MultiXactState" where
  "ReadControlFile rd st = (case ControlFilePath st of
      None \<Rightarrow> st
    | Some path \<Rightarrow> (case mx_fs st path of
        None \<Rightarrow> st
      | Some c \<Rightarrow> (case rd path c of
          None \<Rightarrow> st
        | Some bytes \<Rightarrow>
            if length bytes \<ge> 8
            then st\<lparr>NextMultiXactIdVar := bytes_u32 (take 4 bytes),
                    NextMemberOffset := bytes_u32 (take 4 (drop 4 bytes))\<rparr>
            else st)))"

subsection \<open>Offsets and members\<close>

definition ReadOffset :: "file_op \<Rightarrow> file_op \<Rightarrow> MultiXactId \<Rightarrow> MultiXactState \<Rightarrow> MultiXactOffset \<times> MultiXactState" where
  "ReadOffset wr rd multi st = (case OffsetsCtl st of
      None \<Rightarrow> (0, st)
    | Some ctl \<Rightarrow>
        let pageno = unat multi div kMultiXactOffsetsPerPage;
            entry = unat multi mod kMultiXactOffsetsPerPage;
            (bytes, (ctl', fs')) = SimpleLruRead wr rd pageno (entry * 4) 4 (ctl, mx_fs st)
        in (bytes_u32 bytes, st\<lparr>OffsetsCtl := Some ctl', mx_fs := fs'\<rparr>))"

definition WriteOffset :: "file_op \<Rightarrow> file_op \<Rightarrow> MultiXactId \<Rightarrow> MultiXactOffset \<Rightarrow> MultiXactState \<Rightarrow> MultiXactState" where
  "WriteOffset wr rd multi off st = (case OffsetsCtl st of
      None \<Rightarrow> st
    | Some ctl \<Rightarrow>
        let pageno = unat multi div kMultiXactOffsetsPerPage;
            entry = unat multi mod kMultiXactOffsetsPerPage;
            (ctl', fs') = SimpleLruWrite wr rd pageno (entry * 4) (u32_bytes off) (ctl, mx_fs st)
        in st\<lparr>OffsetsCtl := Some ctl', mx_fs := fs'\<rparr>)"

definition member_bytes :: "MultiXactMember \<Rightarrow> u8 list" where
  "member_bytes m = u32_bytes (mm_xid m) @ [mm_status m, 0, 0, 0]"

definition bytes_member :: "u8 list \<Rightarrow> MultiXactMember" where
  "bytes_member buf = \<lparr>mm_xid = bytes_u32 (take 4 buf), mm_status = buf ! 4\<rparr>"

definition WriteMember :: "file_op \<Rightarrow> file_op \<Rightarrow> MultiXactOffset \<Rightarrow> MultiXactMember \<Rightarrow> MultiXactState \<Rightarrow> MultiXactState" where
  "WriteMember wr rd off m st = (case MembersCtl st of
      None \<Rightarrow> st
    | Some ctl \<Rightarrow>
        let pageno = unat off div kSlruPageSize; offset = unat off mod kSlruPageSize;
            (ctl', fs') = SimpleLruWrite wr rd pageno offset (member_bytes m) (ctl, mx_fs st)
        in st\<lparr>MembersCtl := Some ctl', mx_fs := fs'\<rparr>)"

definition ReadMember :: "file_op \<Rightarrow> file_op \<Rightarrow> MultiXactOffset \<Rightarrow> MultiXactState \<Rightarrow> MultiXactMember \<times> MultiXactState" where
  "ReadMember wr rd off st = (case MembersCtl st of
      None \<Rightarrow> (\<lparr>mm_xid = kInvalidTransactionId, mm_status = 0\<rparr>, st)
    | Some ctl \<Rightarrow>
        let pageno = unat off div kSlruPageSize; offset = unat off mod kSlruPageSize;
            (bytes, (ctl', fs')) = SimpleLruRead wr rd pageno offset kMultiXactMemberStride (ctl, mx_fs st)
        in (bytes_member bytes, st\<lparr>MembersCtl := Some ctl', mx_fs := fs'\<rparr>))"

subsection \<open>Operations\<close>

definition flush_ctl :: "file_op \<Rightarrow> SlruCtl option \<Rightarrow> file_system \<Rightarrow> SlruCtl option \<times> file_system" where
  "flush_ctl wr c fs = (case c of
      None \<Rightarrow> (None, fs)
    | Some ctl \<Rightarrow> let (ctl', fs') = SimpleLruFlush wr (ctl, fs) in (Some ctl', fs'))"

definition InitializeMultiXact :: "file_op \<Rightarrow> file_op \<Rightarrow> string \<Rightarrow> string \<Rightarrow> MultiXactState \<Rightarrow> MultiXactState" where
  "InitializeMultiXact wr rd offsets_dir members_dir st =
    (let fs1 = snd (flush_ctl wr (OffsetsCtl st) (mx_fs st));
         fs2 = snd (flush_ctl wr (MembersCtl st) fs1)
     in ReadControlFile rd
          \<lparr>OffsetsCtl = Some (SimpleLruInit ''multixact_offsets'' 16 offsets_dir),
           MembersCtl = Some (SimpleLruInit ''multixact_members'' 16 members_dir),
           NextMultiXactIdVar = kFirstMultiXactId, NextMemberOffset = 0, mx_fs = fs2\<rparr>)"

definition ResetMultiXact :: "MultiXactState \<Rightarrow> MultiXactState" where
  "ResetMultiXact st = st\<lparr>OffsetsCtl := map_option SimpleLruReset (OffsetsCtl st),
     MembersCtl := map_option SimpleLruReset (MembersCtl st),
     NextMultiXactIdVar := kFirstMultiXactId, NextMemberOffset := 0\<rparr>"

definition FlushMultiXact :: "file_op \<Rightarrow> MultiXactState \<Rightarrow> MultiXactState" where
  "FlushMultiXact wr st =
    (let (oc, fs1) = flush_ctl wr (OffsetsCtl st) (mx_fs st);
         (mc, fs2) = flush_ctl wr (MembersCtl st) fs1
     in WriteControlFile wr (st\<lparr>OffsetsCtl := oc, MembersCtl := mc, mx_fs := fs2\<rparr>))"

definition ShutdownMultiXact :: "file_op \<Rightarrow> MultiXactState \<Rightarrow> MultiXactState" where
  "ShutdownMultiXact wr st =
    (let (oc, fs1) = flush_ctl wr (OffsetsCtl st) (mx_fs st);
         (mc, fs2) = flush_ctl wr (MembersCtl st) fs1
     in WriteControlFile wr (st\<lparr>OffsetsCtl := oc, MembersCtl := mc, mx_fs := fs2\<rparr>))"

definition MultiXactIdIsValid :: "MultiXactId \<Rightarrow> MultiXactState \<Rightarrow> bool" where
  "MultiXactIdIsValid multi st \<longleftrightarrow> multi \<noteq> kInvalidMultiXactId \<and> multi < NextMultiXactIdVar st"

definition GetNextMultiXactId :: "MultiXactState \<Rightarrow> MultiXactId" where
  "GetNextMultiXactId st = NextMultiXactIdVar st"

definition append_member :: "file_op \<Rightarrow> file_op \<Rightarrow> MultiXactMember \<Rightarrow> MultiXactState \<Rightarrow> MultiXactState" where
  "append_member wr rd m st =
    (let st1 = WriteMember wr rd (NextMemberOffset st) m st
     in st1\<lparr>NextMemberOffset := NextMemberOffset st1 + of_nat kMultiXactMemberStride\<rparr>)"

definition MultiXactIdCreate :: "file_op \<Rightarrow> file_op \<Rightarrow> MultiXactMember list \<Rightarrow> MultiXactState
    \<Rightarrow> MultiXactId \<times> MultiXactState" where
  "MultiXactIdCreate wr rd ms st =
    (let multi = NextMultiXactIdVar st;
         st1 = st\<lparr>NextMultiXactIdVar := multi + 1\<rparr>;
         start = NextMemberOffset st1;
         st2 = WriteOffset wr rd multi start st1
     in (multi, fold (append_member wr rd) ms st2))"

fun members_loop :: "file_op \<Rightarrow> file_op \<Rightarrow> nat \<Rightarrow> MultiXactOffset \<Rightarrow> MultiXactOffset \<Rightarrow> MultiXactState
    \<Rightarrow> (MultiXactMember list \<times> MultiXactState) option" where
  "members_loop wr rd 0 off lim st = None"
| "members_loop wr rd (Suc fuel) off lim st =
    (if off + of_nat kMultiXactMemberStride \<le> lim
     then let (m, st1) = ReadMember wr rd off st
       in map_option (\<lambda>(ms, st2). (m # ms, st2))
            (members_loop wr rd fuel (off + of_nat kMultiXactMemberStride) lim st1)
     else Some ([], st))"

definition MultiXactIdGetMembers :: "file_op \<Rightarrow> file_op \<Rightarrow> MultiXactId \<Rightarrow> MultiXactState
    \<Rightarrow> (MultiXactMember list \<times> MultiXactState) option" where
  "MultiXactIdGetMembers wr rd multi st =
    (if \<not> MultiXactIdIsValid multi st then Some ([], st)
     else
       let (start, st1) = ReadOffset wr rd multi st;
           (lim, st2) =
             (if multi + 1 = NextMultiXactIdVar st1 then (NextMemberOffset st1, st1)
              else ReadOffset wr rd (multi + 1) st1)
       in members_loop wr rd (Suc (unat lim div 8)) start lim st2)"

definition MultiXactIdExpand :: "file_op \<Rightarrow> file_op \<Rightarrow> MultiXactId \<Rightarrow> TransactionId \<Rightarrow> u8 \<Rightarrow> MultiXactState
    \<Rightarrow> (MultiXactId \<times> MultiXactState) option" where
  "MultiXactIdExpand wr rd multi xid status st =
    (if \<not> MultiXactIdIsValid multi st then Some (multi, st)
     else case MultiXactIdGetMembers wr rd multi st of
         None \<Rightarrow> None
       | Some (ms, st1) \<Rightarrow>
           if \<exists>m \<in> set ms. mm_xid m = xid then Some (multi, st1)
           else Some (MultiXactIdCreate wr rd (ms @ [\<lparr>mm_xid = xid, mm_status = status\<rparr>]) st1))"

subsection \<open>The abstract view\<close>

text \<open>
  \<open>mx_rep ms st\<close>: the multixacts created so far have the member lists \<open>ms\<close>, in the order
  of their identifiers, which start at 1.
\<close>

abbreviation offset_cell :: "SlruCtl \<Rightarrow> file_system \<Rightarrow> nat \<Rightarrow> u8 list" where
  "offset_cell oc fs \<equiv> slru.cell 4 (oc, fs)"

abbreviation member_cell :: "SlruCtl \<Rightarrow> file_system \<Rightarrow> nat \<Rightarrow> u8 list" where
  "member_cell mc fs \<equiv> slru.cell 8 (mc, fs)"

definition mx_total :: "MultiXactMember list list \<Rightarrow> nat" where
  "mx_total ms = length (concat ms)"

definition ctl_rep :: "string \<Rightarrow> string \<Rightarrow> (nat \<Rightarrow> u8 list) \<Rightarrow> (nat \<Rightarrow> u8 list) \<Rightarrow> MultiXactState \<Rightarrow> bool" where
  "ctl_rep od md ocell mcell st \<longleftrightarrow> (\<exists>oc mc. OffsetsCtl st = Some oc \<and> MembersCtl st = Some mc \<and>
     disk_dir oc = od \<and> disk_dir mc = md \<and> od \<noteq> md \<and>
     slru_inv (oc, mx_fs st) \<and> slru_inv (mc, mx_fs st) \<and>
     offset_cell oc (mx_fs st) = ocell \<and> member_cell mc (mx_fs st) = mcell)"

definition cells_rep :: "MultiXactMember list list \<Rightarrow> (nat \<Rightarrow> u8 list) \<Rightarrow> (nat \<Rightarrow> u8 list) \<Rightarrow> bool" where
  "cells_rep ms ocell mcell \<longleftrightarrow>
     (\<forall>i < length ms. ocell (Suc i) = u32_bytes (of_nat (8 * mx_total (take i ms)))) \<and>
     (\<forall>j < mx_total ms. mcell j = member_bytes (concat ms ! j))"

definition mx_rep :: "string \<Rightarrow> string \<Rightarrow> MultiXactMember list list \<Rightarrow> MultiXactState \<Rightarrow> bool" where
  "mx_rep od md ms st \<longleftrightarrow> (\<exists>ocell mcell. ctl_rep od md ocell mcell st \<and> cells_rep ms ocell mcell) \<and>
     unat (NextMultiXactIdVar st) = Suc (length ms) \<and> unat (NextMemberOffset st) = 8 * mx_total ms"

lemma page_of_offset: "unat multi div kMultiXactOffsetsPerPage = 4 * unat multi div kSlruPageSize"
  "unat multi mod kMultiXactOffsetsPerPage * 4 = 4 * unat multi mod kSlruPageSize"
  for multi :: u32
  using div_mult_mult1 [of 4 "unat multi" 2048] mult_mod_right [of 4 "unat multi" 2048]
  by (simp_all add: mx_consts mult.commute)

lemma bytes_member_bytes [simp]: "bytes_member (member_bytes m) = m"
  by (simp add: bytes_member_def member_bytes_def nth_append)

lemma length_member_bytes [simp]: "length (member_bytes m) = 8"
  by (simp add: member_bytes_def)

lemma cell_cong: "content s = content s' \<Longrightarrow> slru.cell k s = slru.cell k s'"
  by (simp add: slru.cell_def fun_eq_iff)

lemma ReadOffset_rep:
  assumes "ctl_rep od md ocell mcell st" "ReadOffset io io multi st = (off, st')"
  shows "off = bytes_u32 (ocell (unat multi)) \<and> ctl_rep od md ocell mcell st' \<and>
    NextMultiXactIdVar st' = NextMultiXactIdVar st \<and> NextMemberOffset st' = NextMemberOffset st"
proof -
  obtain oc mc where c: "OffsetsCtl st = Some oc" "MembersCtl st = Some mc" "disk_dir oc = od"
      "disk_dir mc = md" "od \<noteq> md" "slru_inv (oc, mx_fs st)" "slru_inv (mc, mx_fs st)"
      "offset_cell oc (mx_fs st) = ocell" "member_cell mc (mx_fs st) = mcell"
    using assms(1) by (auto simp: ctl_rep_def)
  obtain b oc' fs' where r: "SimpleLruRead io io (4 * unat multi div kSlruPageSize)
      (4 * unat multi mod kSlruPageSize) 4 (oc, mx_fs st) = (b, (oc', fs'))"
    by (metis surj_pair)
  have s: "off = bytes_u32 b" "st' = st\<lparr>OffsetsCtl := Some oc', mx_fs := fs'\<rparr>"
    using assms(2) c(1) r by (auto simp: ReadOffset_def page_of_offset)
  have b: "b = ocell (unat multi)" "slru_inv (oc', fs')" "content (oc', fs') = content (oc, mx_fs st)"
    using slru.cell_read [OF c(6) r] c(8) by auto
  have f: "same_outside od (mx_fs st) fs'" "disk_dir oc' = od"
    using SimpleLruRead_frame [OF r] c(3) by auto
  then have "slru_inv (mc, fs')" "content (mc, fs') = content (mc, mx_fs st)"
    using slru_outside [OF f(1), of mc] c(4,5,7) by auto
  then have "ctl_rep od md ocell mcell st'"
    using c b f cell_cong [OF b(3), of 4] cell_cong [of "(mc, fs')" "(mc, mx_fs st)" 8]
    by (auto simp: ctl_rep_def s(2))
  then show ?thesis by (simp add: s b(1))
qed

lemma WriteOffset_rep:
  assumes "ctl_rep od md ocell mcell st"
  shows "ctl_rep od md (ocell(unat multi := u32_bytes off)) mcell (WriteOffset io io multi off st) \<and>
    NextMultiXactIdVar (WriteOffset io io multi off st) = NextMultiXactIdVar st \<and>
    NextMemberOffset (WriteOffset io io multi off st) = NextMemberOffset st"
proof -
  obtain oc mc where c: "OffsetsCtl st = Some oc" "MembersCtl st = Some mc" "disk_dir oc = od"
      "disk_dir mc = md" "od \<noteq> md" "slru_inv (oc, mx_fs st)" "slru_inv (mc, mx_fs st)"
      "offset_cell oc (mx_fs st) = ocell" "member_cell mc (mx_fs st) = mcell"
    using assms(1) by (auto simp: ctl_rep_def)
  obtain oc' fs' where r: "SimpleLruWrite io io (4 * unat multi div kSlruPageSize)
      (4 * unat multi mod kSlruPageSize) (u32_bytes off) (oc, mx_fs st) = (oc', fs')"
    by force
  have s: "WriteOffset io io multi off st = st\<lparr>OffsetsCtl := Some oc', mx_fs := fs'\<rparr>"
    using c(1) r by (auto simp: WriteOffset_def page_of_offset)
  have b: "slru_inv (oc', fs')" "offset_cell oc' fs' = ocell(unat multi := u32_bytes off)"
    using slru.cell_write [OF c(6), of 4 "u32_bytes off" "unat multi"] r c(8)
    by (auto simp: kSlruPageSize_def)
  have f: "same_outside od (mx_fs st) fs'" "disk_dir oc' = od"
    using SimpleLruWrite_frame [OF r] c(3) by auto
  then have "slru_inv (mc, fs')" "content (mc, fs') = content (mc, mx_fs st)"
    using slru_outside [OF f(1), of mc] c(4,5,7) by auto
  then show ?thesis
    using c b f cell_cong [of "(mc, fs')" "(mc, mx_fs st)" 8] by (auto simp: ctl_rep_def s)
qed

lemma ReadMember_rep:
  assumes "ctl_rep od md ocell mcell st" "ReadMember io io off st = (m, st')" "unat off = 8 * j"
  shows "m = bytes_member (mcell j) \<and> ctl_rep od md ocell mcell st' \<and>
    NextMultiXactIdVar st' = NextMultiXactIdVar st \<and> NextMemberOffset st' = NextMemberOffset st"
proof -
  obtain oc mc where c: "OffsetsCtl st = Some oc" "MembersCtl st = Some mc" "disk_dir oc = od"
      "disk_dir mc = md" "od \<noteq> md" "slru_inv (oc, mx_fs st)" "slru_inv (mc, mx_fs st)"
      "offset_cell oc (mx_fs st) = ocell" "member_cell mc (mx_fs st) = mcell"
    using assms(1) by (auto simp: ctl_rep_def)
  obtain b mc' fs' where r: "SimpleLruRead io io (8 * j div kSlruPageSize) (8 * j mod kSlruPageSize) 8
      (mc, mx_fs st) = (b, (mc', fs'))"
    by (metis surj_pair)
  have s: "m = bytes_member b" "st' = st\<lparr>MembersCtl := Some mc', mx_fs := fs'\<rparr>"
    using assms(2,3) c(2) r by (auto simp: ReadMember_def kMultiXactMemberStride_def)
  have b: "b = mcell j" "slru_inv (mc', fs')" "content (mc', fs') = content (mc, mx_fs st)"
    using slru.cell_read [OF c(7) r] c(9) by auto
  have f: "same_outside md (mx_fs st) fs'" "disk_dir mc' = md"
    using SimpleLruRead_frame [OF r] c(4) by auto
  then have "slru_inv (oc, fs')" "content (oc, fs') = content (oc, mx_fs st)"
    using slru_outside [OF f(1), of oc] c(3,5,6) by auto
  then have "ctl_rep od md ocell mcell st'"
    using c b f cell_cong [OF b(3), of 8] cell_cong [of "(oc, fs')" "(oc, mx_fs st)" 4]
    by (auto simp: ctl_rep_def s(2))
  then show ?thesis by (simp add: s b(1))
qed

lemma WriteMember_rep:
  assumes "ctl_rep od md ocell mcell st" "unat off = 8 * j"
  shows "ctl_rep od md ocell (mcell(j := member_bytes m)) (WriteMember io io off m st) \<and>
    NextMultiXactIdVar (WriteMember io io off m st) = NextMultiXactIdVar st \<and>
    NextMemberOffset (WriteMember io io off m st) = NextMemberOffset st"
proof -
  obtain oc mc where c: "OffsetsCtl st = Some oc" "MembersCtl st = Some mc" "disk_dir oc = od"
      "disk_dir mc = md" "od \<noteq> md" "slru_inv (oc, mx_fs st)" "slru_inv (mc, mx_fs st)"
      "offset_cell oc (mx_fs st) = ocell" "member_cell mc (mx_fs st) = mcell"
    using assms(1) by (auto simp: ctl_rep_def)
  obtain mc' fs' where r: "SimpleLruWrite io io (8 * j div kSlruPageSize) (8 * j mod kSlruPageSize)
      (member_bytes m) (mc, mx_fs st) = (mc', fs')"
    by force
  have s: "WriteMember io io off m st = st\<lparr>MembersCtl := Some mc', mx_fs := fs'\<rparr>"
    using c(2) r assms(2) by (auto simp: WriteMember_def)
  have b: "slru_inv (mc', fs')" "member_cell mc' fs' = mcell(j := member_bytes m)"
    using slru.cell_write [OF c(7), of 8 "member_bytes m" j] r c(9) by (auto simp: kSlruPageSize_def)
  have f: "same_outside md (mx_fs st) fs'" "disk_dir mc' = md"
    using SimpleLruWrite_frame [OF r] c(4) by auto
  then have "slru_inv (oc, fs')" "content (oc, fs') = content (oc, mx_fs st)"
    using slru_outside [OF f(1), of oc] c(3,5,6) by auto
  then show ?thesis
    using c b f cell_cong [of "(oc, fs')" "(oc, mx_fs st)" 4] by (auto simp: ctl_rep_def s)
qed

subsection \<open>Creating and reading multixacts\<close>

lemma unat_add_8: "unat (x :: u32) + 8 < 4294967296 \<Longrightarrow> unat (x + 8) = unat x + 8"
  by (subst unat_add_lem [THEN iffD1]) simp_all

lemma append_members_rep:
  "ctl_rep od md ocell mcell st \<Longrightarrow> unat (NextMemberOffset st) = 8 * n \<Longrightarrow> 8 * (n + length ms) < 4294967296 \<Longrightarrow>
   ctl_rep od md ocell (\<lambda>j. if n \<le> j \<and> j < n + length ms then member_bytes (ms ! (j - n)) else mcell j)
     (fold (append_member io io) ms st) \<and>
   NextMultiXactIdVar (fold (append_member io io) ms st) = NextMultiXactIdVar st \<and>
   unat (NextMemberOffset (fold (append_member io io) ms st)) = 8 * (n + length ms)"
proof (induction ms arbitrary: st n mcell)
  case Nil
  have "(\<lambda>j. if n \<le> j \<and> j < n + length [] then member_bytes ([] ! (j - n)) else mcell j) = mcell"
    by (auto simp: fun_eq_iff)
  then show ?case using Nil by simp
next
  case (Cons m ms)
  let ?st1 = "append_member io io m st"
  have w: "ctl_rep od md ocell (mcell(n := member_bytes m)) (WriteMember io io (NextMemberOffset st) m st)"
    "NextMultiXactIdVar (WriteMember io io (NextMemberOffset st) m st) = NextMultiXactIdVar st"
    "NextMemberOffset (WriteMember io io (NextMemberOffset st) m st) = NextMemberOffset st"
    using WriteMember_rep [OF Cons.prems(1,2), of m] by auto
  have "unat (NextMemberOffset st + 8) = 8 * Suc n"
    using Cons.prems(2,3) by (subst unat_add_8) auto
  then have st1: "ctl_rep od md ocell (mcell(n := member_bytes m)) ?st1"
    "unat (NextMemberOffset ?st1) = 8 * Suc n" "NextMultiXactIdVar ?st1 = NextMultiXactIdVar st"
    using w by (auto simp: append_member_def Let_def kMultiXactMemberStride_def ctl_rep_def)
  have "(\<lambda>j. if Suc n \<le> j \<and> j < Suc n + length ms then member_bytes (ms ! (j - Suc n))
        else (mcell(n := member_bytes m)) j) =
      (\<lambda>j. if n \<le> j \<and> j < n + length (m # ms) then member_bytes ((m # ms) ! (j - n)) else mcell j)"
    by (auto simp: fun_eq_iff nth_Cons' Suc_diff_le)
  then show ?case using Cons.IH [OF st1(1,2)] Cons.prems(3) st1(3) by simp
qed

lemma mx_total_append: "mx_total (xs @ ys) = mx_total xs + mx_total ys"
  by (simp add: mx_total_def)

lemma mx_total_take_le: "mx_total (take i ms) \<le> mx_total ms"
  by (metis append_take_drop_id le_add1 mx_total_append)

lemma Create_rep:
  assumes rep: "mx_rep od md mss st" and b1: "Suc (Suc (length mss)) < 4294967296"
    and b2: "8 * (mx_total mss + length ms) < 4294967296"
    and cr: "MultiXactIdCreate io io ms st = (multi, st')"
  shows "unat multi = Suc (length mss) \<and> mx_rep od md (mss @ [ms]) st'"
proof -
  obtain ocell mcell where c: "ctl_rep od md ocell mcell st" "cells_rep mss ocell mcell"
    and n: "unat (NextMultiXactIdVar st) = Suc (length mss)" "unat (NextMemberOffset st) = 8 * mx_total mss"
    using rep by (auto simp: mx_rep_def)
  let ?multi = "NextMultiXactIdVar st"
  let ?st1 = "st\<lparr>NextMultiXactIdVar := ?multi + 1\<rparr>"
  let ?st2 = "WriteOffset io io ?multi (NextMemberOffset st) ?st1"
  let ?oc = "ocell(Suc (length mss) := u32_bytes (NextMemberOffset st))"
  let ?mc = "\<lambda>j. if mx_total mss \<le> j \<and> j < mx_total mss + length ms then member_bytes (ms ! (j - mx_total mss)) else mcell j"
  have "ctl_rep od md ocell mcell ?st1" using c(1) by (auto simp: ctl_rep_def)
  then have s2: "ctl_rep od md ?oc mcell ?st2" "NextMultiXactIdVar ?st2 = ?multi + 1"
      "NextMemberOffset ?st2 = NextMemberOffset st"
    using WriteOffset_rep [of od md ocell mcell ?st1 ?multi "NextMemberOffset st"] n(1) by auto
  have st': "multi = ?multi" "st' = fold (append_member io io) ms ?st2"
    using cr by (auto simp: MultiXactIdCreate_def Let_def)
  have s3: "ctl_rep od md ?oc ?mc st'" "NextMultiXactIdVar st' = ?multi + 1"
      "unat (NextMemberOffset st') = 8 * (mx_total mss + length ms)"
    using append_members_rep [OF s2(1), of "mx_total mss" ms] s2 n(2) b2 st' by auto
  have off: "NextMemberOffset st = of_nat (8 * mx_total mss)"
    using n(2) by (metis of_nat_unat ucast_id)
  have "cells_rep (mss @ [ms]) ?oc ?mc"
    using c(2) mx_total_take_le [of _ mss] off
    by (auto simp: cells_rep_def nth_append mx_total_append mx_total_def less_Suc_eq)
  moreover have "unat (?multi + 1) = Suc (Suc (length mss))"
    using b1 n(1) by (subst unat_add_lem [THEN iffD1]) simp_all
  ultimately show ?thesis using s3 st' n(1) by (auto simp: mx_rep_def mx_total_append mx_total_def)
qed

lemma members_loop_rep:
  "ctl_rep od md ocell mcell st \<Longrightarrow> unat off = 8 * a \<Longrightarrow> unat lim = 8 * b \<Longrightarrow> a \<le> b \<Longrightarrow>
   8 * b + 8 < 4294967296 \<Longrightarrow> b - a < fuel \<Longrightarrow>
   \<exists>st'. members_loop io io fuel off lim st = Some (map (\<lambda>j. bytes_member (mcell j)) [a..<b], st') \<and>
     ctl_rep od md ocell mcell st' \<and> NextMultiXactIdVar st' = NextMultiXactIdVar st \<and>
     NextMemberOffset st' = NextMemberOffset st"
proof (induction fuel arbitrary: off a st)
  case (Suc fuel)
  have u: "unat (off + 8) = 8 * Suc a" using Suc.prems by (subst unat_add_8) auto
  have cond: "off + 8 \<le> lim \<longleftrightarrow> a < b" unfolding word_le_nat_alt u Suc.prems(3) by auto
  show ?case
  proof (cases "a < b")
    case False
    then show ?thesis using Suc.prems cond by (auto simp: kMultiXactMemberStride_def)
  next
    case True
    obtain m st1 where r: "ReadMember io io off st = (m, st1)" by force
    have m: "m = bytes_member (mcell a)" "ctl_rep od md ocell mcell st1"
      "NextMultiXactIdVar st1 = NextMultiXactIdVar st" "NextMemberOffset st1 = NextMemberOffset st"
      using ReadMember_rep [OF Suc.prems(1) r Suc.prems(2)] by auto
    have ex: "\<exists>st'. members_loop io io fuel (off + 8) lim st1 =
        Some (map (\<lambda>j. bytes_member (mcell j)) [Suc a..<b], st') \<and> ctl_rep od md ocell mcell st' \<and>
        NextMultiXactIdVar st' = NextMultiXactIdVar st1 \<and> NextMemberOffset st' = NextMemberOffset st1"
      using Suc.IH [OF m(2) u Suc.prems(3)] Suc.prems(5,6) True by simp
    then show ?thesis
      using True cond m r by (auto simp: kMultiXactMemberStride_def upt_conv_Cons)
  qed
qed simp

lemma GetMembers_rep:
  assumes rep: "mx_rep od md mss st" and i: "i < length mss" "unat multi = Suc i"
    and b: "8 * mx_total mss + 8 < 4294967296"
  shows "\<exists>st'. MultiXactIdGetMembers io io multi st = Some (mss ! i, st') \<and> mx_rep od md mss st'"
proof -
  obtain ocell mcell where c: "ctl_rep od md ocell mcell st" "cells_rep mss ocell mcell"
    and n: "unat (NextMultiXactIdVar st) = Suc (length mss)" "unat (NextMemberOffset st) = 8 * mx_total mss"
    using rep by (auto simp: mx_rep_def)
  have valid: "MultiXactIdIsValid multi st"
    using i n(1) by (auto simp: MultiXactIdIsValid_def mx_consts word_less_nat_alt unat_eq_0)
  obtain start st1 where r1: "ReadOffset io io multi st = (start, st1)" by force
  have s1: "start = bytes_u32 (ocell (Suc i))" "ctl_rep od md ocell mcell st1"
      "NextMultiXactIdVar st1 = NextMultiXactIdVar st" "NextMemberOffset st1 = NextMemberOffset st"
    using ReadOffset_rep [OF c(1) r1] i(2) by auto
  have u: "unat (of_nat (8 * mx_total (take k mss)) :: u32) = 8 * mx_total (take k mss)" for k
    using mx_total_take_le [of k mss] b by (intro unat_of_nat_u32) linarith
  have start: "unat start = 8 * mx_total (take i mss)"
    using s1(1) c(2) i(1) u [of i] by (simp add: cells_rep_def)
  have um: "unat (multi + 1) = Suc (Suc i)"
  proof -
    have "Suc (length mss) < 4294967296" 
      using n(1) unsigned_less [where ?'a = nat, of "NextMultiXactIdVar st"] by simp
    then show ?thesis using i by (subst unat_add_lem [THEN iffD1]) simp_all
  qed
  obtain lim st2 where r2: "(if multi + 1 = NextMultiXactIdVar st1 then (NextMemberOffset st1, st1)
      else ReadOffset io io (multi + 1) st1) = (lim, st2)" by (metis surj_pair)
  have s2: "unat lim = 8 * mx_total (take (Suc i) mss)" "ctl_rep od md ocell mcell st2"
      "NextMultiXactIdVar st2 = NextMultiXactIdVar st" "NextMemberOffset st2 = NextMemberOffset st"
  proof -
    have "multi + 1 = NextMultiXactIdVar st1 \<longleftrightarrow> Suc i = length mss"
      using um n(1) s1(3) by (auto simp: word_unat_eq_iff)
    moreover have "lim = bytes_u32 (ocell (Suc (Suc i))) \<and> ctl_rep od md ocell mcell st2 \<and>
        NextMultiXactIdVar st2 = NextMultiXactIdVar st1 \<and> NextMemberOffset st2 = NextMemberOffset st1"
      if "multi + 1 \<noteq> NextMultiXactIdVar st1"
      using ReadOffset_rep [OF s1(2), of "multi + 1" lim st2] r2 that um by simp
    moreover have "Suc i < length mss \<Longrightarrow> bytes_u32 (ocell (Suc (Suc i))) = of_nat (8 * mx_total (take (Suc i) mss))"
      using c(2) by (simp add: cells_rep_def)
    ultimately show "unat lim = 8 * mx_total (take (Suc i) mss)" "ctl_rep od md ocell mcell st2"
      "NextMultiXactIdVar st2 = NextMultiXactIdVar st" "NextMemberOffset st2 = NextMemberOffset st"
      using r2 s1 n(2) i(1) u [of "Suc i"]
      by (cases "Suc i = length mss"; auto)+
  qed
  let ?a = "mx_total (take i mss)" let ?b = "mx_total (take (Suc i) mss)"
  have tk: "take (Suc i) mss = take i mss @ [mss ! i]" using i(1) by (rule take_Suc_conv_app_nth)
  have ab: "?a \<le> ?b" "?b = ?a + length (mss ! i)" "?b \<le> mx_total mss"
    using mx_total_take_le [of "Suc i" mss] by (auto simp: tk mx_total_append mx_total_def)
  obtain st' where l: "members_loop io io (Suc (unat lim div 8)) start lim st2 =
      Some (map (\<lambda>j. bytes_member (mcell j)) [?a..<?b], st')" and ctl': "ctl_rep od md ocell mcell st'"
      "NextMultiXactIdVar st' = NextMultiXactIdVar st2" "NextMemberOffset st' = NextMemberOffset st2"
    using members_loop_rep [OF s2(2) start s2(1) ab(1), of "Suc (unat lim div 8)"] ab b s2(1) by auto
  have "concat mss = concat (take (Suc i) mss) @ concat (drop (Suc i) mss)"
    by (metis append_take_drop_id concat_append)
  then have "concat mss ! (?a + j) = mss ! i ! j" if "j < length (mss ! i)" for j
    using that by (simp add: tk mx_total_def nth_append)
  then have "map (\<lambda>j. bytes_member (mcell j)) [?a..<?b] = mss ! i"
    using c(2) ab by (intro nth_equalityI) (auto simp: cells_rep_def)
  moreover have "mx_rep od md mss st'" using ctl' c(2) s2 n by (auto simp: mx_rep_def)
  ultimately show ?thesis
    using valid l r1 r2 by (auto simp: MultiXactIdGetMembers_def)
qed

subsection \<open>Flush and restart\<close>

lemma control_not_page: "PageFileName p \<noteq> ''multixact_control''"
proof
  assume "PageFileName p = ''multixact_control''"
  then have "hex_number 0 ''multixact_control'' = Some p" using PageFileName_val [of p] by (simp only:)
  moreover have "hex_val (CHR ''m'') = None" by code_simp
  ultimately show False by simp
qed

lemma disk_page_control: "disk_page (fs((d, ''multixact_control'') \<mapsto> c)) dir = disk_page fs dir"
  by (simp add: disk_page_def PageFilePath_def control_not_page [symmetric] control_not_page fun_eq_iff)

lemma slru_same_pages:
  assumes "disk_page fs' (disk_dir ctl) = disk_page fs (disk_dir ctl)"
  shows "slru_inv (ctl, fs') = slru_inv (ctl, fs) \<and> content (ctl, fs') = content (ctl, fs)"
  using assms by (auto simp: slru_inv_def content_def fun_eq_iff split: option.splits)

lemma Flush_rep:
  assumes "ctl_rep od md ocell mcell st"
  shows "ctl_rep od md ocell mcell (FlushMultiXact io st) \<and>
    NextMultiXactIdVar (FlushMultiXact io st) = NextMultiXactIdVar st \<and>
    NextMemberOffset (FlushMultiXact io st) = NextMemberOffset st \<and>
    mx_fs (FlushMultiXact io st) (od, ''multixact_control'') =
      Some (u32_bytes (NextMultiXactIdVar st) @ u32_bytes (NextMemberOffset st)) \<and>
    (\<exists>oc mc. disk_page (mx_fs (FlushMultiXact io st)) od = content (oc, mx_fs st) \<and>
       disk_page (mx_fs (FlushMultiXact io st)) md = content (mc, mx_fs st) \<and>
       offset_cell oc (mx_fs st) = ocell \<and> member_cell mc (mx_fs st) = mcell)"
proof -
  obtain oc mc where c: "OffsetsCtl st = Some oc" "MembersCtl st = Some mc" "disk_dir oc = od"
      "disk_dir mc = md" "od \<noteq> md" "slru_inv (oc, mx_fs st)" "slru_inv (mc, mx_fs st)"
      "offset_cell oc (mx_fs st) = ocell" "member_cell mc (mx_fs st) = mcell"
    using assms(1) by (auto simp: ctl_rep_def)
  obtain oc1 f1 where o: "SimpleLruFlush io (oc, mx_fs st) = (oc1, f1)" by force
  obtain mc1 f2 where m: "SimpleLruFlush io (mc, f1) = (mc1, f2)" by force
  let ?f3 = "f2((od, ''multixact_control'') \<mapsto> u32_bytes (NextMultiXactIdVar st) @ u32_bytes (NextMemberOffset st))"
  have od: "od \<noteq> []" using c(3,6) by (simp add: slru_inv_def)
  have o1: "slru_inv (oc1, f1)" "content (oc1, f1) = content (oc, mx_fs st)" "disk_dir oc1 = od"
      "disk_page f1 od = content (oc, mx_fs st)" "same_outside od (mx_fs st) f1"
    using SimpleLruFlush_spec [OF c(6) o] SimpleLruFlush_frame [OF o] c(3) by auto
  have mc: "slru_inv (mc, f1)" "content (mc, f1) = content (mc, mx_fs st)"
    using slru_outside [OF o1(5), of mc] c(4,5,7) by auto
  have m1: "slru_inv (mc1, f2)" "content (mc1, f2) = content (mc, mx_fs st)" "disk_dir mc1 = md"
      "disk_page f2 md = content (mc, mx_fs st)" "same_outside md f1 f2"
    using SimpleLruFlush_spec [OF mc(1) m] SimpleLruFlush_frame [OF m] c(4) mc(2) by auto
  have o2: "slru_inv (oc1, f2)" "content (oc1, f2) = content (oc, mx_fs st)" "disk_page f2 od = content (oc, mx_fs st)"
    using slru_outside [OF m1(5), of oc1] disk_page_outside [OF m1(5), of od] o1 c(5) by auto
  have st': "FlushMultiXact io st = st\<lparr>OffsetsCtl := Some oc1, MembersCtl := Some mc1, mx_fs := ?f3\<rparr>"
    using c(1,2) o m o1(3) od
    by (simp add: FlushMultiXact_def flush_ctl_def WriteControlFile_def ControlFilePath_def)
  have p3: "disk_page ?f3 dir = disk_page f2 dir" for dir by (rule disk_page_control)
  have "slru_inv (oc1, ?f3)" "content (oc1, ?f3) = content (oc, mx_fs st)"
      "slru_inv (mc1, ?f3)" "content (mc1, ?f3) = content (mc, mx_fs st)"
    using slru_same_pages [OF p3, of oc1] slru_same_pages [OF p3, of mc1] o2 m1 by auto
  then show ?thesis
    using c o1(3) m1(3) o2(3) m1(4) p3 cell_cong [of "(oc1, ?f3)" "(oc, mx_fs st)" 4]
      cell_cong [of "(mc1, ?f3)" "(mc, mx_fs st)" 8]
    unfolding st' by (auto simp: ctl_rep_def)
qed

lemma restart_rep:
  assumes "mx_rep od md mss st" "st1 = FlushMultiXact io st"
  shows "mx_rep od md mss st1 \<and>
    mx_rep od md mss (InitializeMultiXact io io od md (st1\<lparr>OffsetsCtl := None, MembersCtl := None\<rparr>))"
proof -
  obtain ocell mcell where c: "ctl_rep od md ocell mcell st" "cells_rep mss ocell mcell"
    and n: "unat (NextMultiXactIdVar st) = Suc (length mss)" "unat (NextMemberOffset st) = 8 * mx_total mss"
    using assms(1) by (auto simp: mx_rep_def)
  have d: "od \<noteq> []" "md \<noteq> []" "od \<noteq> md" using c(1) by (auto simp: ctl_rep_def slru_inv_def)
  obtain oc mc where f: "ctl_rep od md ocell mcell st1" "NextMultiXactIdVar st1 = NextMultiXactIdVar st"
      "NextMemberOffset st1 = NextMemberOffset st"
      "mx_fs st1 (od, ''multixact_control'') = Some (u32_bytes (NextMultiXactIdVar st) @ u32_bytes (NextMemberOffset st))"
      "disk_page (mx_fs st1) od = content (oc, mx_fs st)" "disk_page (mx_fs st1) md = content (mc, mx_fs st)"
      "offset_cell oc (mx_fs st) = ocell" "member_cell mc (mx_fs st) = mcell"
    using Flush_rep [OF c(1)] unfolding assms(2) by blast
  let ?oc = "SimpleLruInit ''multixact_offsets'' 16 od" let ?mc = "SimpleLruInit ''multixact_members'' 16 md"
  let ?st2 = "InitializeMultiXact io io od md (st1\<lparr>OffsetsCtl := None, MembersCtl := None\<rparr>)"
  have s2: "?st2 = \<lparr>OffsetsCtl = Some ?oc, MembersCtl = Some ?mc,
      NextMultiXactIdVar = NextMultiXactIdVar st, NextMemberOffset = NextMemberOffset st, mx_fs = mx_fs st1\<rparr>"
    using f(4) d(1)
    by (simp add: InitializeMultiXact_def flush_ctl_def ReadControlFile_def ControlFilePath_def
        SimpleLruInit_def Let_def)
  have i: "slru_inv (?oc, mx_fs st1)" "content (?oc, mx_fs st1) = content (oc, mx_fs st)"
      "slru_inv (?mc, mx_fs st1)" "content (?mc, mx_fs st1) = content (mc, mx_fs st)"
    using slru_inv_Init d f(5,6) by auto
  have "ctl_rep od md ocell mcell ?st2"
    using i f(7,8) d cell_cong [OF i(2), of 4] cell_cong [OF i(4), of 8]
    by (auto simp: ctl_rep_def s2 SimpleLruInit_def)
  then show ?thesis using c(2) n f by (auto simp: mx_rep_def s2)
qed

lemma mx_rep_Initialize:
  assumes "od \<noteq> []" "md \<noteq> []" "od \<noteq> md" "fs (od, ''multixact_control'') = None"
  shows "mx_rep od md [] (InitializeMultiXact io io od md
    \<lparr>OffsetsCtl = None, MembersCtl = None, NextMultiXactIdVar = a, NextMemberOffset = b, mx_fs = fs\<rparr>)"
proof -
  have "\<exists>oc mc. ctl_rep od md oc mc (InitializeMultiXact io io od md
    \<lparr>OffsetsCtl = None, MembersCtl = None, NextMultiXactIdVar = a, NextMemberOffset = b, mx_fs = fs\<rparr>)"
    using assms slru_inv_Init
    by (auto simp: InitializeMultiXact_def flush_ctl_def ReadControlFile_def ControlFilePath_def
        ctl_rep_def Let_def SimpleLruInit_def)
  then show ?thesis using assms
    by (auto simp: mx_rep_def cells_rep_def mx_total_def InitializeMultiXact_def flush_ctl_def
        ReadControlFile_def ControlFilePath_def SimpleLruInit_def kFirstMultiXactId_def)
qed

subsection \<open>Properties\<close>

text \<open>C15: creating a multixact returns the next identifier and appends its member list: while
  the identifiers and the member offsets stay within 32 bits, every identifier created so far
  yields exactly the members it was created with, whatever pages the two caches evict.\<close>

theorem multixact_create_get:
  assumes "mx_rep od md mss st" "length mss + 2 < 2 ^ 32" "8 * (mx_total mss + length ms) + 8 < 2 ^ 32"
    and "MultiXactIdCreate io io ms st = (multi, st')"
  shows "unat multi = length mss + 1 \<and> mx_rep od md (mss @ [ms]) st' \<and>
    (\<forall>i < length mss + 1. \<exists>st''. MultiXactIdGetMembers io io (of_nat (i + 1)) st' = Some ((mss @ [ms]) ! i, st'') \<and>
      mx_rep od md (mss @ [ms]) st'')"
proof -
  have cr: "unat multi = length mss + 1" "mx_rep od md (mss @ [ms]) st'"
    using Create_rep [OF assms(1) _ _ assms(4)] assms(2,3) by auto
  have "\<exists>st''. MultiXactIdGetMembers io io (of_nat (i + 1)) st' = Some ((mss @ [ms]) ! i, st'') \<and>
      mx_rep od md (mss @ [ms]) st''" if "i < length mss + 1" for i
  proof (rule GetMembers_rep [OF cr(2)])
    show "unat (of_nat (i + 1) :: u32) = Suc i" using that assms(2) by (subst unat_of_nat_u32) auto
    show "8 * mx_total (mss @ [ms]) + 8 < 4294967296"
      using assms(3) by (simp add: mx_total_append) (simp add: mx_total_def)
  qed (use that in simp)
  with cr show ?thesis by blast
qed

lemma multixact_create_get_witness:
  "\<exists>st''. MultiXactIdGetMembers io io 1
     (snd (MultiXactIdCreate io io [\<lparr>mm_xid = 700, mm_status = 1\<rparr>, \<lparr>mm_xid = 701, mm_status = 1\<rparr>]
       (InitializeMultiXact io io ''off'' ''mem''
         \<lparr>OffsetsCtl = None, MembersCtl = None, NextMultiXactIdVar = 0, NextMemberOffset = 0, mx_fs = Map.empty\<rparr>))) =
     Some ([\<lparr>mm_xid = 700, mm_status = 1\<rparr>, \<lparr>mm_xid = 701, mm_status = 1\<rparr>], st'')"
proof -
  let ?ms = "[\<lparr>mm_xid = 700, mm_status = 1\<rparr>, \<lparr>mm_xid = 701, mm_status = 1\<rparr>]"
  let ?st = "InitializeMultiXact io io ''off'' ''mem''
    \<lparr>OffsetsCtl = None, MembersCtl = None, NextMultiXactIdVar = 0, NextMemberOffset = 0, mx_fs = Map.empty\<rparr>"
  have "mx_rep ''off'' ''mem'' [] ?st" by (rule mx_rep_Initialize) simp_all
  from multixact_create_get [OF this _ _ prod.collapse [symmetric], of ?ms]
  show ?thesis by (auto simp: mx_total_def)
qed

text \<open>\<open>MultiXactIdExpand\<close> of a valid multixact returns the same identifier when the
  transaction is a member already, and otherwise a new identifier whose members are the old ones
  followed by the new member; existing multixacts keep their members.\<close>

theorem multixact_expand:
  assumes "mx_rep od md mss st" "i < length mss" "unat multi = i + 1"
    and "length mss + 2 < 2 ^ 32" "8 * (mx_total mss + length (mss ! i) + 1) + 8 < 2 ^ 32"
  shows "\<exists>m' st'. MultiXactIdExpand io io multi xid s st = Some (m', st') \<and>
    (if \<exists>m \<in> set (mss ! i). mm_xid m = xid then m' = multi \<and> mx_rep od md mss st'
     else unat m' = length mss + 1 \<and>
       mx_rep od md (mss @ [mss ! i @ [\<lparr>mm_xid = xid, mm_status = s\<rparr>]]) st')"
proof -
  have n: "unat (NextMultiXactIdVar st) = Suc (length mss)" using assms(1) by (simp add: mx_rep_def)
  then have v: "MultiXactIdIsValid multi st"
    using assms(2,3) by (auto simp: MultiXactIdIsValid_def mx_consts word_less_nat_alt)
  obtain st1 where g: "MultiXactIdGetMembers io io multi st = Some (mss ! i, st1)" "mx_rep od md mss st1"
    using GetMembers_rep [OF assms(1,2)] assms(3,5) by auto
  let ?new = "mss ! i @ [\<lparr>mm_xid = xid, mm_status = s\<rparr>]"
  obtain m' st' where cr: "MultiXactIdCreate io io ?new st1 = (m', st')" by force
  have "unat m' = Suc (length mss) \<and> mx_rep od md (mss @ [?new]) st'"
    using Create_rep [OF g(2) _ _ cr] assms(4,5) by simp
  then show ?thesis using v g cr by (auto simp: MultiXactIdExpand_def)
qed

lemma multixact_expand_witness:
  "\<exists>m' st'. MultiXactIdExpand io io 1 800 2
     (snd (MultiXactIdCreate io io [\<lparr>mm_xid = 700, mm_status = 1\<rparr>]
       (InitializeMultiXact io io ''off'' ''mem''
         \<lparr>OffsetsCtl = None, MembersCtl = None, NextMultiXactIdVar = 0, NextMemberOffset = 0, mx_fs = Map.empty\<rparr>))) =
     Some (m', st') \<and> unat m' = 2"
proof -
  let ?ms = "[\<lparr>mm_xid = 700, mm_status = 1\<rparr>]"
  let ?st = "InitializeMultiXact io io ''off'' ''mem''
    \<lparr>OffsetsCtl = None, MembersCtl = None, NextMultiXactIdVar = 0, NextMemberOffset = 0, mx_fs = Map.empty\<rparr>"
  have "mx_rep ''off'' ''mem'' [] ?st" by (rule mx_rep_Initialize) simp_all
  then have "mx_rep ''off'' ''mem'' [?ms] (snd (MultiXactIdCreate io io ?ms ?st))"
    using Create_rep [OF _ _ _ prod.collapse [symmetric], of "''off''" "''mem''" "[]" ?st ?ms] by (simp add: mx_total_def)
  from multixact_expand [OF this, of 0 1 800 2] show ?thesis by (auto simp: mx_total_def)
qed

text \<open>C26: after \<open>FlushMultiXact\<close> the multixacts are durable: a server that starts on the same
  directories with empty caches has the same multixacts and continues with the same counters.\<close>

theorem multixact_flush_restart:
  assumes "mx_rep od md mss st" "8 * mx_total mss + 8 < 2 ^ 32"
  shows "mx_rep od md mss (InitializeMultiXact io io od md
      ((FlushMultiXact io st)\<lparr>OffsetsCtl := None, MembersCtl := None\<rparr>)) \<and>
    (\<forall>i < length mss. \<exists>st'. MultiXactIdGetMembers io io (of_nat (i + 1)) (InitializeMultiXact io io od md
      ((FlushMultiXact io st)\<lparr>OffsetsCtl := None, MembersCtl := None\<rparr>)) = Some (mss ! i, st'))"
proof -
  let ?st = "InitializeMultiXact io io od md ((FlushMultiXact io st)\<lparr>OffsetsCtl := None, MembersCtl := None\<rparr>)"
  have rep: "mx_rep od md mss ?st" using restart_rep [OF assms(1) refl] by blast
  have n: "unat (NextMultiXactIdVar st) = Suc (length mss)" using assms(1) by (simp add: mx_rep_def)
  then have len: "Suc (length mss) < 4294967296"
    using unsigned_less [where ?'a = nat, of "NextMultiXactIdVar st"] by simp
  have "\<exists>st'. MultiXactIdGetMembers io io (of_nat (i + 1)) ?st = Some (mss ! i, st')" if "i < length mss" for i
  proof -
    have "unat (of_nat (i + 1) :: u32) = Suc i" using that len by (subst unat_of_nat_u32) auto
    then show ?thesis using GetMembers_rep [OF rep that] assms(2) by fastforce
  qed
  with rep show ?thesis by blast
qed

lemma multixact_flush_restart_witness:
  "\<exists>st'. MultiXactIdGetMembers io io 1 (InitializeMultiXact io io ''off'' ''mem''
     ((FlushMultiXact io (snd (MultiXactIdCreate io io [\<lparr>mm_xid = 700, mm_status = 1\<rparr>]
       (InitializeMultiXact io io ''off'' ''mem''
         \<lparr>OffsetsCtl = None, MembersCtl = None, NextMultiXactIdVar = 0, NextMemberOffset = 0, mx_fs = Map.empty\<rparr>))))
      \<lparr>OffsetsCtl := None, MembersCtl := None\<rparr>)) = Some ([\<lparr>mm_xid = 700, mm_status = 1\<rparr>], st')"
proof -
  let ?ms = "[\<lparr>mm_xid = 700, mm_status = 1\<rparr>]"
  let ?st = "InitializeMultiXact io io ''off'' ''mem''
    \<lparr>OffsetsCtl = None, MembersCtl = None, NextMultiXactIdVar = 0, NextMemberOffset = 0, mx_fs = Map.empty\<rparr>"
  have "mx_rep ''off'' ''mem'' [] ?st" by (rule mx_rep_Initialize) simp_all
  then have "mx_rep ''off'' ''mem'' [?ms] (snd (MultiXactIdCreate io io ?ms ?st))"
    using Create_rep [OF _ _ _ prod.collapse [symmetric], of "''off''" "''mem''" "[]" ?st ?ms] by (simp add: mx_total_def)
  from multixact_flush_restart [OF this] show ?thesis by (auto simp: mx_total_def)
qed

end
