(* ===== verification/LWLocks.thy ===== *)
theory LWLocks
  imports PgPrelude
begin

text \<open>
  Light-weight locks (\<open>src/storage/ipc/lwlock.cpp\<close>). A lock is one atomic 32-bit word in
  shared memory: bit 31 is the exclusive holder, the other bits count the shared holders. Every
  backend keeps a private list of the locks it holds.

  The acquire loops are not atomic: between the load of the word and the compare-and-swap other
  backends run. The model has one step per atomic access of the word. A backend inside an
  acquire loop has a program counter, with the value it last read of the word; a step of the loop
  is given the outcome of the weak compare-and-swap on equality (\<open>spurious\<close>), which the
  language lets fail at will. The private list is updated in the step of the last atomic access.
\<close>

subsection \<open>State\<close>

datatype LWLockMode = kExclusive | kShared

definition kExclusiveBit :: u32 where "kExclusiveBit = 0x80000000"

definition kSharedCountMask :: u32 where "kSharedCountMask = 0x7FFFFFFF"

record LWLock =
  lw_state :: u32
  lw_id :: int
  lw_tranche :: int

record HeldLock =
  hl_lock :: nat
  hl_mode :: LWLockMode
  hl_count :: nat

datatype LWPc =
    Idle
  | ExclLoop nat
  | SharedLoop nat u32
  | CondSharedLoop nat u32

record LWSystem =
  locks :: "nat \<Rightarrow> LWLock"
  HeldLocks :: "nat \<Rightarrow> HeldLock list"
  pc :: "nat \<Rightarrow> LWPc"

definition SharedHolders :: "LWLock \<Rightarrow> nat" where
  "SharedHolders l = unat (lw_state l AND kSharedCountMask)"

definition ExclusiveHeld :: "LWLock \<Rightarrow> bool" where
  "ExclusiveHeld l \<longleftrightarrow> lw_state l AND kExclusiveBit \<noteq> 0"

subsection \<open>Operations\<close>

definition LWLockInitialize :: "int \<Rightarrow> int \<Rightarrow> LWLock" where
  "LWLockInitialize lockid tranche = \<lparr>lw_state = 0, lw_id = lockid, lw_tranche = tranche\<rparr>"

fun FindHeld :: "nat \<Rightarrow> HeldLock list \<Rightarrow> HeldLock option" where
  "FindHeld lock [] = None"
| "FindHeld lock (h # hs) = (if hl_lock h = lock then Some h else FindHeld lock hs)"

text \<open>\<open>h->count++\<close> through the pointer that \<open>FindHeld\<close> returned.\<close>

fun bump_held :: "nat \<Rightarrow> HeldLock list \<Rightarrow> HeldLock list" where
  "bump_held lock [] = []"
| "bump_held lock (h # hs) =
    (if hl_lock h = lock then h\<lparr>hl_count := hl_count h + 1\<rparr> # hs else h # bump_held lock hs)"

abbreviation set_state :: "nat \<Rightarrow> u32 \<Rightarrow> LWSystem \<Rightarrow> LWSystem" where
  "set_state l w s \<equiv> s\<lparr>locks := (locks s)(l := (locks s l)\<lparr>lw_state := w\<rparr>)\<rparr>"

abbreviation goto :: "nat \<Rightarrow> LWPc \<Rightarrow> LWSystem \<Rightarrow> LWSystem" where
  "goto b p s \<equiv> s\<lparr>pc := (pc s)(b := p)\<rparr>"

abbreviation set_held :: "nat \<Rightarrow> HeldLock list \<Rightarrow> LWSystem \<Rightarrow> LWSystem" where
  "set_held b hs s \<equiv> s\<lparr>HeldLocks := (HeldLocks s)(b := hs)\<rparr>"

definition push_held :: "nat \<Rightarrow> nat \<Rightarrow> LWLockMode \<Rightarrow> LWSystem \<Rightarrow> LWSystem" where
  "push_held b l m s =
    set_held b (HeldLocks s b @ [\<lparr>hl_lock = l, hl_mode = m, hl_count = 1\<rparr>]) s"

text \<open>
  \<open>LWLockAcquire\<close> up to its first access of the word, by backend \<open>b\<close>. The result is
  \<open>None\<close> when the function goes on into one of its loops.
\<close>

definition LWLockAcquire :: "nat \<Rightarrow> nat \<Rightarrow> LWLockMode \<Rightarrow> LWSystem \<Rightarrow> bool option \<times> LWSystem" where
  "LWLockAcquire b l m s =
    (case FindHeld l (HeldLocks s b) of
       Some h \<Rightarrow>
         if hl_mode h = m then (Some True, set_held b (bump_held l (HeldLocks s b)) s)
         else (Some False, s)
     | None \<Rightarrow>
         if m = kExclusive then (None, goto b (ExclLoop l) s)
         else (None, goto b (SharedLoop l (lw_state (locks s l))) s))"

text \<open>One round of the exclusive loop: \<open>compare_exchange_weak(0, kExclusiveBit)\<close>.\<close>

definition acquire_exclusive_step :: "bool \<Rightarrow> nat \<Rightarrow> nat \<Rightarrow> LWSystem \<Rightarrow> bool option \<times> LWSystem" where
  "acquire_exclusive_step spurious b l s =
    (if lw_state (locks s l) = 0 \<and> \<not> spurious
     then (Some True, goto b Idle (push_held b l kExclusive (set_state l kExclusiveBit s)))
     else (None, s))"

text \<open>One round of the shared loop, with the value \<open>old\<close> read before.\<close>

definition acquire_shared_step ::
  "bool \<Rightarrow> nat \<Rightarrow> nat \<Rightarrow> u32 \<Rightarrow> LWSystem \<Rightarrow> bool option \<times> LWSystem" where
  "acquire_shared_step spurious b l old s =
    (if old AND kExclusiveBit \<noteq> 0 then (None, goto b (SharedLoop l (lw_state (locks s l))) s)
     else if lw_state (locks s l) = old \<and> \<not> spurious
     then (Some True, goto b Idle (push_held b l kShared (set_state l (old + 1) s)))
     else (None, goto b (SharedLoop l (lw_state (locks s l))) s))"

text \<open>The loop of \<open>LWLockRelease\<close> over the list: the list after it, and the mode to give up.\<close>

fun release_held :: "nat \<Rightarrow> HeldLock list \<Rightarrow> HeldLock list \<times> LWLockMode option" where
  "release_held l [] = ([], None)"
| "release_held l (h # hs) =
    (if hl_lock h = l
     then if hl_count h - 1 > 0 then (h\<lparr>hl_count := hl_count h - 1\<rparr> # hs, None)
          else (hs, Some (hl_mode h))
     else let (hs', m) = release_held l hs in (h # hs', m))"

definition LWLockRelease :: "nat \<Rightarrow> nat \<Rightarrow> LWSystem \<Rightarrow> LWSystem" where
  "LWLockRelease b l s =
    (let (hs, m) = release_held l (HeldLocks s b);
         w = lw_state (locks s l);
         s1 = (case m of
             None \<Rightarrow> s
           | Some kExclusive \<Rightarrow> set_state l (w AND NOT kExclusiveBit) s
           | Some kShared \<Rightarrow> set_state l (w - 1) s)
     in set_held b hs s1)"

definition LWLockHeldByMe :: "nat \<Rightarrow> nat \<Rightarrow> LWSystem \<Rightarrow> bool" where
  "LWLockHeldByMe b l s \<longleftrightarrow> FindHeld l (HeldLocks s b) \<noteq> None"

definition LWLockHeldByMeInMode :: "nat \<Rightarrow> nat \<Rightarrow> LWLockMode \<Rightarrow> LWSystem \<Rightarrow> bool" where
  "LWLockHeldByMeInMode b l m s \<longleftrightarrow>
    (case FindHeld l (HeldLocks s b) of None \<Rightarrow> False | Some h \<Rightarrow> hl_mode h = m)"

definition LWLockConditionalAcquire ::
  "nat \<Rightarrow> nat \<Rightarrow> LWLockMode \<Rightarrow> LWSystem \<Rightarrow> bool option \<times> LWSystem" where
  "LWLockConditionalAcquire b l m s =
    (if LWLockHeldByMeInMode b l m s
     then (Some True, set_held b (bump_held l (HeldLocks s b)) s)
     else if m = kExclusive then
       (if lw_state (locks s l) = 0
        then (Some True, push_held b l kExclusive (set_state l kExclusiveBit s))
        else (Some False, s))
     else (None, goto b (CondSharedLoop l (lw_state (locks s l))) s))"

definition conditional_shared_step ::
  "bool \<Rightarrow> nat \<Rightarrow> nat \<Rightarrow> u32 \<Rightarrow> LWSystem \<Rightarrow> bool option \<times> LWSystem" where
  "conditional_shared_step spurious b l old s =
    (if old AND kExclusiveBit \<noteq> 0 then (Some False, goto b Idle s)
     else if lw_state (locks s l) = old \<and> \<not> spurious
     then (Some True, goto b Idle (push_held b l kShared (set_state l (old + 1) s)))
     else (None, goto b (CondSharedLoop l (lw_state (locks s l))) s))"

definition NumHeldLWLocks :: "nat \<Rightarrow> LWSystem \<Rightarrow> nat" where
  "NumHeldLWLocks b s = foldl (\<lambda>total h. total + hl_count h) 0 (HeldLocks s b)"

definition HeldLWLockIds :: "nat \<Rightarrow> LWSystem \<Rightarrow> int list" where
  "HeldLWLockIds b s = map (\<lambda>h. lw_id (locks s (hl_lock h))) (HeldLocks s b)"

text \<open>
  The steps of \<open>n\<close> backends, interleaved: a backend that is in no loop enters an operation, a
  backend in a loop runs a round of it.
\<close>

inductive lw_step :: "nat \<Rightarrow> LWSystem \<Rightarrow> LWSystem \<Rightarrow> bool" for n where
  acquire: "b < n \<Longrightarrow> pc s b = Idle \<Longrightarrow> lw_step n s (snd (LWLockAcquire b l m s))"
| exclusive: "b < n \<Longrightarrow> pc s b = ExclLoop l \<Longrightarrow> lw_step n s (snd (acquire_exclusive_step sp b l s))"
| shared: "b < n \<Longrightarrow> pc s b = SharedLoop l old \<Longrightarrow> lw_step n s (snd (acquire_shared_step sp b l old s))"
| conditional: "b < n \<Longrightarrow> pc s b = Idle \<Longrightarrow> lw_step n s (snd (LWLockConditionalAcquire b l m s))"
| cond_shared: "b < n \<Longrightarrow> pc s b = CondSharedLoop l old \<Longrightarrow>
    lw_step n s (snd (conditional_shared_step sp b l old s))"
| release: "b < n \<Longrightarrow> pc s b = Idle \<Longrightarrow> lw_step n s (LWLockRelease b l s)"

definition lw_initial :: "(nat \<Rightarrow> int) \<Rightarrow> LWSystem" where
  "lw_initial ids = \<lparr>locks = \<lambda>l. LWLockInitialize (ids l) 0, HeldLocks = \<lambda>_. [], pc = \<lambda>_. Idle\<rparr>"

inductive lw_reach :: "nat \<Rightarrow> (nat \<Rightarrow> int) \<Rightarrow> LWSystem \<Rightarrow> bool" for n ids where
  lw_init: "lw_reach n ids (lw_initial ids)"
| lw_next: "lw_reach n ids s \<Longrightarrow> lw_step n s s' \<Longrightarrow> lw_reach n ids s'"

subsection \<open>The private list\<close>

text \<open>The mode in which a list holds a lock.\<close>

definition mode_of :: "nat \<Rightarrow> HeldLock list \<Rightarrow> LWLockMode option" where
  "mode_of l hs = map_option hl_mode (FindHeld l hs)"

definition held_wf :: "HeldLock list \<Rightarrow> bool" where
  "held_wf hs \<longleftrightarrow> distinct (map hl_lock hs) \<and> (\<forall>h \<in> set hs. 0 < hl_count h)"

lemma FindHeld_append: "FindHeld l (xs @ ys) = (case FindHeld l xs of None \<Rightarrow> FindHeld l ys | Some h \<Rightarrow> Some h)"
  by (induction xs) auto

lemma FindHeld_None: "FindHeld l hs = None \<longleftrightarrow> l \<notin> hl_lock ` set hs"
  by (induction hs) auto

lemma FindHeld_bump:
  "FindHeld l' (bump_held l hs) = map_option (\<lambda>h. if l' = l then h\<lparr>hl_count := hl_count h + 1\<rparr> else h)
     (FindHeld l' hs)"
  by (induction hs) (auto simp: option.map_ident)

lemma mode_of_simps [simp]:
  "mode_of l [] = None"
  "mode_of l (h # hs) = (if hl_lock h = l then Some (hl_mode h) else mode_of l hs)"
  by (simp_all add: mode_of_def)

lemma mode_of_None: "mode_of l hs = None \<longleftrightarrow> l \<notin> hl_lock ` set hs"
  by (induction hs) auto

lemma mode_of_snoc [simp]:
  "mode_of l (hs @ [h]) = (if mode_of l hs = None \<and> hl_lock h = l then Some (hl_mode h) else mode_of l hs)"
  by (induction hs) auto

lemma mode_of_bump [simp]: "mode_of l' (bump_held l hs) = mode_of l' hs"
  by (induction hs) auto

lemma locks_bump [simp]: "map hl_lock (bump_held l hs) = map hl_lock hs"
  by (induction hs) auto

lemma held_wf_bump: "held_wf hs \<Longrightarrow> held_wf (bump_held l hs)"
proof -
  have "\<forall>h \<in> set hs. 0 < hl_count h \<Longrightarrow> \<forall>h \<in> set (bump_held l hs). 0 < hl_count h"
    by (induction hs) auto
  then show "held_wf hs \<Longrightarrow> held_wf (bump_held l hs)" by (simp add: held_wf_def)
qed

lemma held_wf_snoc: "held_wf hs \<Longrightarrow> mode_of l hs = None \<Longrightarrow> 0 < c \<Longrightarrow> held_wf (hs @ [\<lparr>hl_lock = l, hl_mode = m, hl_count = c\<rparr>])"
  by (auto simp: held_wf_def mode_of_None)

lemma held_wf_Cons [simp]: "held_wf (h # hs) \<longleftrightarrow> 0 < hl_count h \<and> mode_of (hl_lock h) hs = None \<and> held_wf hs"
  by (auto simp: held_wf_def mode_of_None)

lemma mode_of_release:
  "held_wf hs \<Longrightarrow> mode_of l' (fst (release_held l hs)) =
      (if l' = l \<and> snd (release_held l hs) \<noteq> None then None else mode_of l' hs)"
  by (induction hs) (auto split: prod.splits)

lemma release_held_mode:
  "held_wf hs \<Longrightarrow> snd (release_held l hs) \<noteq> None \<Longrightarrow> snd (release_held l hs) = mode_of l hs"
  by (induction hs) (auto split: prod.splits if_splits)

lemma held_wf_release: "held_wf hs \<Longrightarrow> held_wf (fst (release_held l hs))"
proof (induction hs)
  case (Cons h hs)
  then show ?case using mode_of_release [of hs "hl_lock h" l] by (auto split: prod.splits)
qed (simp add: held_wf_def)

subsection \<open>The word and the lists agree\<close>

definition holders :: "LWSystem \<Rightarrow> LWLockMode \<Rightarrow> nat \<Rightarrow> nat set" where
  "holders s m l = {b. mode_of l (HeldLocks s b) = Some m}"

definition word_ok :: "u32 \<Rightarrow> nat set \<Rightarrow> nat set \<Rightarrow> bool" where
  "word_ok w E S \<longleftrightarrow>
    (w = kExclusiveBit \<and> (\<exists>b. E = {b}) \<and> S = {}) \<or> (w = of_nat (card S) \<and> E = {})"

fun pc_ok :: "LWPc \<Rightarrow> HeldLock list \<Rightarrow> bool" where
  "pc_ok Idle hs = True"
| "pc_ok (ExclLoop l) hs = (mode_of l hs = None)"
| "pc_ok (SharedLoop l old) hs = (mode_of l hs = None)"
| "pc_ok (CondSharedLoop l old) hs = (mode_of l hs = None \<or> old AND kExclusiveBit \<noteq> 0)"

definition lw_inv :: "nat \<Rightarrow> LWSystem \<Rightarrow> bool" where
  "lw_inv n s \<longleftrightarrow>
    (\<forall>b. held_wf (HeldLocks s b)) \<and> (\<forall>b \<ge> n. HeldLocks s b = []) \<and>
    (\<forall>l. word_ok (lw_state (locks s l)) (holders s kExclusive l) (holders s kShared l)) \<and>
    (\<forall>b. pc_ok (pc s b) (HeldLocks s b))"

lemma lw_inv_pc: "lw_inv n s \<Longrightarrow> pc_ok (pc s b) (HeldLocks s b)"
  by (simp add: lw_inv_def)

lemma pc_ok_bump [simp]: "pc_ok p (bump_held l hs) = pc_ok p hs"
  by (cases p) simp_all

lemma exclusive_bit_of_nat:
  "k < 2147483648 \<Longrightarrow> (of_nat k :: u32) AND kExclusiveBit = 0"
proof -
  assume k: "k < 2147483648"
  have "kExclusiveBit = push_bit 31 1" by (simp add: kExclusiveBit_def)
  moreover have "\<not> bit k 31" using k by (simp add: bit_iff_odd)
  then have "\<not> bit (of_nat k :: u32) 31" by (simp add: bit_simps)
  ultimately show ?thesis using word_and_mask_eq_0 [of "of_nat k :: u32" 31] by metis
qed

lemma holders_subset: "lw_inv n s \<Longrightarrow> holders s m l \<subseteq> {..<n}"
  by (force simp: lw_inv_def holders_def not_less [symmetric])

lemma word_ok_free:
  assumes "word_ok w E S" "S \<subseteq> {..<n}" "n < 2147483648"
  shows "w AND kExclusiveBit = 0 \<longleftrightarrow> E = {}" "w = 0 \<longleftrightarrow> E = {} \<and> S = {}"
    "w AND kExclusiveBit = 0 \<longrightarrow> w = of_nat (card S)"
proof -
  have fin: "finite S" using assms(2) finite_subset by blast
  have c: "card S < 2147483648" using assms(2,3) card_mono [of "{..<n}" S] by simp
  have bit: "kExclusiveBit AND kExclusiveBit \<noteq> (0::u32)" "kExclusiveBit \<noteq> 0"
    by (simp_all add: kExclusiveBit_def)
  have z: "(of_nat (card S) :: u32) = 0 \<longleftrightarrow> card S = 0"
    using c by (auto simp: word_of_nat_eq_0_iff dest: dvd_imp_le)
  have "(w AND kExclusiveBit = 0 \<longleftrightarrow> E = {}) \<and> (w = 0 \<longleftrightarrow> E = {} \<and> S = {}) \<and>
      (w AND kExclusiveBit = 0 \<longrightarrow> w = of_nat (card S))"
  proof (cases "E = {}")
    case True
    then have "w = of_nat (card S)" using assms(1) by (auto simp: word_ok_def)
    then show ?thesis using True exclusive_bit_of_nat [OF c] z fin by simp
  next
    case False
    then have "w = kExclusiveBit" using assms(1) by (auto simp: word_ok_def)
    then show ?thesis using False bit by simp
  qed
  then show "w AND kExclusiveBit = 0 \<longleftrightarrow> E = {}" "w = 0 \<longleftrightarrow> E = {} \<and> S = {}"
    "w AND kExclusiveBit = 0 \<longrightarrow> w = of_nat (card S)" by blast+
qed

lemma word_ok_share: "word_ok w {} S \<Longrightarrow> finite S \<Longrightarrow> b \<notin> S \<Longrightarrow> word_ok (w + 1) {} (insert b S)"
  by (auto simp: word_ok_def add.commute)

lemma word_ok_unshare:
  assumes "word_ok w E S" "b \<in> S" "finite S"
  shows "word_ok (w - 1) E (S - {b})"
proof -
  have "w = of_nat (card S)" "E = {}" using assms by (auto simp: word_ok_def)
  moreover have "of_nat (card S) - 1 = (of_nat (card (S - {b})) :: u32)"
    using assms(2,3) by (cases "card S") (simp_all add: card_Diff_singleton)
  ultimately show ?thesis by (simp add: word_ok_def)
qed

lemma word_ok_unlock: "word_ok w E S \<Longrightarrow> b \<in> E \<Longrightarrow> word_ok (w AND NOT kExclusiveBit) {} S"
  by (auto simp: word_ok_def)

lemma holders_set_held [simp]:
  "holders (set_held b hs s) m l =
    (if mode_of l hs = Some m then insert b (holders s m l) else holders s m l - {b})"
  by (auto simp: holders_def)

lemma holders_other [simp]:
  "holders (s\<lparr>locks := ls\<rparr>) m l = holders s m l" "holders (s\<lparr>pc := ps\<rparr>) m l = holders s m l"
  by (simp_all add: holders_def)

text \<open>The four ways in which a step changes the system, each of which keeps the invariant.\<close>

lemma inv_goto: "lw_inv n s \<Longrightarrow> pc_ok p (HeldLocks s b) \<Longrightarrow> lw_inv n (goto b p s)"
  unfolding lw_inv_def by simp

lemma inv_bump:
  assumes "lw_inv n s" "b < n"
  shows "lw_inv n (set_held b (bump_held l (HeldLocks s b)) s)"
proof -
  have "holders (set_held b (bump_held l (HeldLocks s b)) s) m k = holders s m k" for m k
    by (auto simp: holders_def)
  then show ?thesis using assms unfolding lw_inv_def by (simp del: holders_set_held add: held_wf_bump)
qed

lemma inv_grant:
  assumes inv: "lw_inv n s" "b < n" "mode_of l (HeldLocks s b) = None"
    and w: "word_ok w (if m = kExclusive then insert b (holders s m l) else holders s kExclusive l)
      (if m = kShared then insert b (holders s m l) else holders s kShared l)"
  shows "lw_inv n (goto b Idle (push_held b l m (set_state l w s)))"
proof -
  let ?s = "goto b Idle (push_held b l m (set_state l w s))"
  have "holders ?s m' k = (if k = l \<and> m' = m then insert b (holders s m k) else holders s m' k)" for m' k
    using inv(3) by (auto simp: push_held_def holders_def)
  then have "word_ok (lw_state (locks ?s k)) (holders ?s kExclusive k) (holders ?s kShared k)" for k
    using inv(1) w by (cases m) (auto simp: push_held_def lw_inv_def)
  then show ?thesis using inv unfolding lw_inv_def
    by (auto simp: push_held_def held_wf_snoc)
qed

lemma inv_release:
  assumes inv: "lw_inv n s" "b < n" "pc s b = Idle"
  shows "lw_inv n (LWLockRelease b l s)"
proof -
  let ?s = "LWLockRelease b l s" and ?hs = "HeldLocks s b"
  have wf: "held_wf ?hs" using inv(1) by (simp add: lw_inv_def)
  have ok: "word_ok (lw_state (locks s k)) (holders s kExclusive k) (holders s kShared k)" for k
    using inv(1) by (simp add: lw_inv_def)
  have fin: "finite (holders s m k)" for m k
    using holders_subset [OF inv(1)] finite_subset by blast
  have held: "HeldLocks ?s = (HeldLocks s)(b := fst (release_held l ?hs))" and pcs: "pc ?s = pc s"
    by (auto simp: LWLockRelease_def Let_def split: prod.splits option.splits LWLockMode.splits)
  have h: "holders ?s m k =
      (if k = l \<and> snd (release_held l ?hs) = Some m then holders s m k - {b} else holders s m k)" for m k
    using mode_of_release [OF wf, of k l] release_held_mode [OF wf, of l]
    by (auto simp: holders_def held split: if_splits)
  have other: "k \<noteq> l \<Longrightarrow> locks ?s k = locks s k" for k
    by (auto simp: LWLockRelease_def Let_def split: prod.splits option.splits LWLockMode.splits)
  have "word_ok (lw_state (locks ?s l)) (holders ?s kExclusive l) (holders ?s kShared l)"
  proof (cases "snd (release_held l ?hs)")
    case None
    then have "locks ?s l = locks s l" by (cases "release_held l ?hs") (simp add: LWLockRelease_def)
    then show ?thesis using None ok h by simp
  next
    case (Some m)
    then have b: "b \<in> holders s m l" using release_held_mode [OF wf, of l] by (simp add: holders_def)
    show ?thesis
    proof (cases m)
      case kExclusive
      then have "holders s kExclusive l = {b}" using b ok [of l] by (auto simp: word_ok_def)
      moreover have "lw_state (locks ?s l) = lw_state (locks s l) AND NOT kExclusiveBit"
        using Some kExclusive by (cases "release_held l ?hs") (simp add: LWLockRelease_def)
      ultimately show ?thesis using word_ok_unlock [OF ok b [unfolded kExclusive]] h Some kExclusive by simp
    next
      case kShared
      moreover have "lw_state (locks ?s l) = lw_state (locks s l) - 1"
        using Some kShared by (cases "release_held l ?hs") (simp add: LWLockRelease_def)
      ultimately show ?thesis using word_ok_unshare [OF ok b [unfolded kShared] fin] h Some by simp
    qed
  qed
  then have words: "word_ok (lw_state (locks ?s k)) (holders ?s kExclusive k) (holders ?s kShared k)" for k
    using ok h other by (cases "k = l") auto
  show ?thesis using inv words held_wf_release [OF wf, of l] unfolding lw_inv_def held pcs by auto
qed

lemma inv_share:
  assumes "lw_inv n s" "n < 2147483648" "b < n" "mode_of l (HeldLocks s b) = None"
    and "lw_state (locks s l) AND kExclusiveBit = 0"
  shows "lw_inv n (goto b Idle (push_held b l kShared (set_state l (lw_state (locks s l) + 1) s)))"
proof (rule inv_grant [OF assms(1,3,4)])
  let ?E = "holders s kExclusive l" and ?S = "holders s kShared l"
  have ok: "word_ok (lw_state (locks s l)) ?E ?S" using assms(1) by (simp add: lw_inv_def)
  have sub: "?S \<subseteq> {..<n}" using holders_subset [OF assms(1)] .
  have "?E = {}" using word_ok_free(1) [OF ok sub assms(2)] assms(5) by simp
  then show "word_ok (lw_state (locks s l) + 1)
      (if kShared = kExclusive then insert b (holders s kShared l) else ?E)
      (if kShared = kShared then insert b (holders s kShared l) else ?S)"
    using word_ok_share [of "lw_state (locks s l)" ?S b] ok sub assms(4) finite_subset [OF sub]
    by (simp add: holders_def)
qed

lemma inv_exclude:
  assumes "lw_inv n s" "n < 2147483648" "b < n" "lw_state (locks s l) = 0"
  shows "lw_inv n (goto b Idle (push_held b l kExclusive (set_state l kExclusiveBit s)))"
proof -
  let ?E = "holders s kExclusive l" and ?S = "holders s kShared l"
  have ok: "word_ok (lw_state (locks s l)) ?E ?S" using assms(1) by (simp add: lw_inv_def)
  have e: "?E = {}" "?S = {}"
    using word_ok_free(2) [OF ok holders_subset [OF assms(1)] assms(2)] assms(4) by simp_all
  then have "mode_of l (HeldLocks s b) \<noteq> Some m" for m by (cases m) (auto simp: holders_def)
  then have "mode_of l (HeldLocks s b) = None" by blast
  then show ?thesis using inv_grant [OF assms(1,3), of l kExclusiveBit kExclusive] e
    by (simp add: word_ok_def)
qed

lemma lw_step_inv:
  assumes "lw_step n s s'" "lw_inv n s" "n < 2147483648"
  shows "lw_inv n s'"
  using assms
proof (cases rule: lw_step.cases)
  case (acquire b l m)
  then show ?thesis using assms(2) inv_bump [of n s b l]
    by (auto simp: LWLockAcquire_def mode_of_def split: option.splits intro!: inv_goto)
next
  case (exclusive b l sp)
  then show ?thesis using assms(2,3) inv_exclude [of n s b l] by (auto simp: acquire_exclusive_step_def)
next
  case (shared b l old sp)
  then have "mode_of l (HeldLocks s b) = None" using lw_inv_pc [OF assms(2), of b] by simp
  then show ?thesis using shared assms(2,3) inv_share [of n s b l]
    by (auto simp: acquire_shared_step_def intro: inv_goto)
next
  case (conditional b l m)
  then have idle: "goto b Idle (push_held b l kExclusive (set_state l kExclusiveBit s)) =
      push_held b l kExclusive (set_state l kExclusiveBit s)"
    by (simp add: push_held_def fun_upd_idem)
  have "pc_ok (CondSharedLoop l (lw_state (locks s l))) (HeldLocks s b)" if "m = kShared"
    "\<not> LWLockHeldByMeInMode b l m s"
  proof (cases "mode_of l (HeldLocks s b)")
    case (Some k)
    then have "b \<in> holders s kExclusive l"
      using that by (cases k) (auto simp: holders_def LWLockHeldByMeInMode_def mode_of_def)
    moreover have "word_ok (lw_state (locks s l)) (holders s kExclusive l) (holders s kShared l)"
      using assms(2) by (simp add: lw_inv_def)
    ultimately show ?thesis using word_ok_free(1) [OF _ holders_subset [OF assms(2)] assms(3)] by fastforce
  qed simp
  then show ?thesis using conditional assms(2,3) inv_bump [of n s b l] inv_exclude [of n s b l] idle
    by (cases m) (auto simp: LWLockConditionalAcquire_def intro!: inv_goto)
next
  case (cond_shared b l old sp)
  then have "mode_of l (HeldLocks s b) = None \<or> old AND kExclusiveBit \<noteq> 0"
    using lw_inv_pc [OF assms(2), of b] by simp
  then show ?thesis using cond_shared assms(2,3) inv_share [of n s b l]
    by (auto simp: conditional_shared_step_def intro: inv_goto)
next
  case (release b l)
  then show ?thesis using assms(2) inv_release by simp
qed

lemma lw_inv_initial: "lw_inv n (lw_initial ids)"
  by (simp add: lw_inv_def lw_initial_def held_wf_def word_ok_def holders_def LWLockInitialize_def)

lemma lw_reach_inv: "lw_reach n ids s \<Longrightarrow> n < 2147483648 \<Longrightarrow> lw_inv n s"
  by (induction rule: lw_reach.induct) (auto simp: lw_inv_initial intro: lw_step_inv)

lemma HeldByMeInMode_mode: "LWLockHeldByMeInMode b l m s \<longleftrightarrow> mode_of l (HeldLocks s b) = Some m"
  by (auto simp: LWLockHeldByMeInMode_def mode_of_def split: option.splits)

lemma HeldByMe_mode: "LWLockHeldByMe b l s \<longleftrightarrow> mode_of l (HeldLocks s b) \<noteq> None"
  by (auto simp: LWLockHeldByMe_def mode_of_def)

lemma holders_mode: "holders s m l = {b. LWLockHeldByMeInMode b l m s}"
  by (simp add: holders_def HeldByMeInMode_mode)

lemma shared_mask_of_nat: "k < 2147483648 \<Longrightarrow> unat ((of_nat k :: u32) AND kSharedCountMask) = k"
proof -
  assume k: "k < 2147483648"
  have "kSharedCountMask = mask 31" by (simp add: kSharedCountMask_def mask_eq_exp_minus_1)
  then have "(of_nat k :: u32) AND kSharedCountMask = of_nat (take_bit 31 k)"
    by (metis take_bit_eq_mask take_bit_of_nat)
  then show ?thesis using k by (simp add: take_bit_nat_eq_self unat_of_nat)
qed

lemma lw_inv_word:
  assumes "lw_inv n s" "n < 2147483648"
  shows "ExclusiveHeld (locks s l) \<longleftrightarrow> holders s kExclusive l \<noteq> {}"
    "SharedHolders (locks s l) = card (holders s kShared l)"
    "holders s kExclusive l \<noteq> {} \<longrightarrow> holders s kShared l = {} \<and> card (holders s kExclusive l) = 1"
    "lw_state (locks s l) = 0 \<longleftrightarrow> holders s kExclusive l = {} \<and> holders s kShared l = {}"
proof -
  have ok: "word_ok (lw_state (locks s l)) (holders s kExclusive l) (holders s kShared l)"
    using assms(1) by (simp add: lw_inv_def)
  note sub = holders_subset [OF assms(1), of kShared l]
  have c: "card (holders s kShared l) < 2147483648" using sub assms(2) card_mono [of "{..<n}" "holders s kShared l"] by simp
  have mb: "kExclusiveBit AND kSharedCountMask = (0::u32)" by (simp add: kExclusiveBit_def kSharedCountMask_def)
  show "ExclusiveHeld (locks s l) \<longleftrightarrow> holders s kExclusive l \<noteq> {}"
    "lw_state (locks s l) = 0 \<longleftrightarrow> holders s kExclusive l = {} \<and> holders s kShared l = {}"
    using word_ok_free [OF ok sub assms(2)] by (auto simp: ExclusiveHeld_def)
  show "SharedHolders (locks s l) = card (holders s kShared l)"
    using ok shared_mask_of_nat [OF c] mb by (auto simp: SharedHolders_def word_ok_def)
  show "holders s kExclusive l \<noteq> {} \<longrightarrow> holders s kShared l = {} \<and> card (holders s kExclusive l) = 1"
    using ok by (auto simp: word_ok_def)
qed

subsection \<open>Properties\<close>

text \<open>
  C6: Light-weight locks give mutual exclusion under every interleaving of the atomic accesses
  of fewer than 2^31 backends: a backend that holds a lock exclusively is its only holder, and
  the lock word always counts the backends that hold the lock in shared mode and shows the
  exclusive one.
\<close>

theorem lwlock_mutual_exclusion:
  assumes "n < 2147483648" "lw_reach n ids s"
  shows "(LWLockHeldByMeInMode b l kExclusive s \<and> LWLockHeldByMe b' l s \<longrightarrow> b' = b) \<and>
    (ExclusiveHeld (locks s l) \<longleftrightarrow> (\<exists>c < n. LWLockHeldByMeInMode c l kExclusive s)) \<and>
    SharedHolders (locks s l) = card {c. c < n \<and> LWLockHeldByMeInMode c l kShared s}"
proof -
  have inv: "lw_inv n s" using lw_reach_inv assms by blast
  note w = lw_inv_word [OF inv assms(1), of l]
  have in_n: "{b. b < n \<and> LWLockHeldByMeInMode b l m s} = holders s m l" for m
    using holders_subset [OF inv, of m l] by (auto simp: holders_mode)
  have "ExclusiveHeld (locks s l) \<longleftrightarrow> (\<exists>c < n. LWLockHeldByMeInMode c l kExclusive s)"
    using w(1) in_n [of kExclusive] by auto
  moreover have "b' = b" if a: "LWLockHeldByMeInMode b l kExclusive s" "LWLockHeldByMe b' l s"
  proof -
    have "b \<in> holders s kExclusive l" using a by (simp add: holders_mode)
    then have one: "holders s kShared l = {}" "holders s kExclusive l = {b}"
      using w(3) by (auto simp: card_1_singleton_iff)
    obtain m where "mode_of l (HeldLocks s b') = Some m" using a by (auto simp: HeldByMe_mode)
    then show "b' = b" using one by (cases m) (auto simp: holders_def)
  qed
  ultimately show ?thesis using w(2) in_n [of kShared] by simp
qed

text \<open>
  A run of two backends: backend 0 takes lock 5 exclusively, backend 1 enters its loop for the
  same lock and runs a round of it in vain.
\<close>

definition lw_ex1 :: LWSystem where "lw_ex1 = snd (LWLockAcquire 0 5 kExclusive (lw_initial (\<lambda>_. 0)))"
definition lw_ex2 :: LWSystem where "lw_ex2 = snd (acquire_exclusive_step False 0 5 lw_ex1)"
definition lw_ex3 :: LWSystem where "lw_ex3 = snd (LWLockAcquire 1 5 kShared lw_ex2)"
definition lw_ex4 :: LWSystem where "lw_ex4 = snd (acquire_shared_step False 1 5 kExclusiveBit lw_ex3)"

lemmas lw_eval = lw_initial_def LWLockAcquire_def acquire_exclusive_step_def acquire_shared_step_def
  LWLockRelease_def push_held_def LWLockInitialize_def kExclusiveBit_def
  lw_ex1_def lw_ex2_def lw_ex3_def lw_ex4_def

lemma lw_example_reach: "lw_reach 2 (\<lambda>_. 0) lw_ex4"
proof -
  have "lw_reach 2 (\<lambda>_. 0) lw_ex1"
    unfolding lw_ex1_def by (rule lw_next [OF lw_init lw_step.acquire]) (simp_all add: lw_eval)
  then have "lw_reach 2 (\<lambda>_. 0) lw_ex2"
    unfolding lw_ex2_def by (rule lw_next [OF _ lw_step.exclusive]) (simp_all add: lw_eval)
  then have "lw_reach 2 (\<lambda>_. 0) lw_ex3"
    unfolding lw_ex3_def by (rule lw_next [OF _ lw_step.acquire]) (simp_all add: lw_eval)
  then show ?thesis
    unfolding lw_ex4_def by (rule lw_next [OF _ lw_step.shared]) (simp_all add: lw_eval)
qed

lemma lwlock_mutual_exclusion_witness:
  "lw_reach 2 (\<lambda>_. 0) lw_ex4 \<and> LWLockHeldByMeInMode 0 5 kExclusive lw_ex4 \<and>
   \<not> LWLockHeldByMe 1 5 lw_ex4 \<and> ExclusiveHeld (locks lw_ex4 5) \<and>
   SharedHolders (locks lw_ex4 5) = card {c. c < 2 \<and> LWLockHeldByMeInMode c 5 kShared lw_ex4}"
proof -
  have "LWLockHeldByMeInMode 0 5 kExclusive lw_ex4"
    by (simp add: lw_eval LWLockHeldByMeInMode_def)
  then show ?thesis
    using lwlock_mutual_exclusion [OF _ lw_example_reach, of 0 5 1] lw_example_reach by auto
qed



text \<open>
  A nested acquire in the other mode returns false and takes nothing, and the release that
  is paired with it gives up the outer hold: after
  \<open>Acquire(exclusive); Acquire(shared); Release\<close> the lock is free while the backend is
  still inside its outer critical section, and another backend can take it.
\<close>

theorem nested_mode_switch_drops_lock:
  assumes "HeldLocks s b = []" "lw_state (locks s l) = 0"
  shows "let s1 = snd (acquire_exclusive_step False b l s);
             (r, s2) = LWLockAcquire b l kShared s1;
             s3 = LWLockRelease b l s2
         in LWLockHeldByMeInMode b l kExclusive s1 \<and> r = Some False \<and> s2 = s1 \<and>
            \<not> LWLockHeldByMe b l s3 \<and> lw_state (locks s3 l) = 0 \<and>
            fst (acquire_exclusive_step False b' l s3) = Some True"
  using assms by (simp add: acquire_exclusive_step_def LWLockAcquire_def LWLockRelease_def push_held_def
    LWLockHeldByMeInMode_def LWLockHeldByMe_def kExclusiveBit_def)

lemma nested_mode_switch_drops_lock_witness:
  "let s = lw_initial (\<lambda>_. 0);
       s1 = snd (acquire_exclusive_step False 0 3 s);
       (r, s2) = LWLockAcquire 0 3 kShared s1;
       s3 = LWLockRelease 0 3 s2
   in LWLockHeldByMeInMode 0 3 kExclusive s1 \<and> r = Some False \<and> s2 = s1 \<and>
      \<not> LWLockHeldByMe 0 3 s3 \<and> lw_state (locks s3 3) = 0 \<and>
      fst (acquire_exclusive_step False 1 3 s3) = Some True"
  using nested_mode_switch_drops_lock [of "lw_initial (\<lambda>_. 0)" 0 3 1]
  by (simp add: lw_initial_def LWLockInitialize_def)

end
