(* ===== verification/ProcArray.thy ===== *)
theory ProcArray
  imports CommitLog "HOL-Library.Multiset"
begin

text \<open>
  The pool of backend slots (\<open>src/storage/ipc/proc.cpp\<close>) and the array of registered
  backends that snapshots scan (\<open>src/transaction/procarray.cpp\<close>).

  The pool, the compact \<open>PGXACT\<close> array and the \<open>ProcArray\<close> live in shared memory
  (\<open>ProcShared\<close>; \<open>None\<close> before \<open>ShmemInitStruct\<close> has created the region). The
  pointer to the own slot, the head of the free list and the counter of local identifiers are
  static variables of each process (\<open>ProcLocal\<close>). Pointers to slots are their indices. The
  operations run under \<open>kProcArrayLock\<close>, so each is one step on the state.
\<close>

subsection \<open>State\<close>

definition kMaxBackends :: nat where "kMaxBackends = 100"

datatype ProcStatus = kIdle | kWaiting | kBlocked

record PGPROC =
  p_pid :: int
  p_xid :: TransactionId
  p_xmin :: TransactionId
  p_lxid :: int
  p_status :: ProcStatus
  p_latch :: "nat option"
  p_backend_id :: string
  p_backend_id_num :: int
  p_is_aux :: bool
  p_next :: "nat option"
  p_pgprocno :: int

definition PGPROC_zero :: PGPROC where
  "PGPROC_zero = \<lparr>p_pid = 0, p_xid = kInvalidTransactionId, p_xmin = kInvalidTransactionId, p_lxid = 0,
    p_status = kIdle, p_latch = None, p_backend_id = [], p_backend_id_num = 0, p_is_aux = False,
    p_next = None, p_pgprocno = - 1\<rparr>"

record PGXACT =
  px_xid :: TransactionId
  px_xmin :: TransactionId

definition PGXACT_zero :: PGXACT where
  "PGXACT_zero = \<lparr>px_xid = kInvalidTransactionId, px_xmin = kInvalidTransactionId\<rparr>"

record ProcArrayStruct =
  pgprocnos :: "int list"
  numProcs :: nat

record ProcShared =
  g_proc_base :: "PGPROC list option"
  g_pgxact_base :: "PGXACT list option"
  g_procarray :: "ProcArrayStruct option"

record ProcLocal =
  g_proc_freelist :: "nat option"
  MyProcPtr :: "nat option"
  NextLxid :: int

subsection \<open>The array of registered backends\<close>

definition empty_procarray :: ProcArrayStruct where
  "empty_procarray = \<lparr>pgprocnos = replicate kMaxBackends (- 1), numProcs = 0\<rparr>"

definition InitializeProcArray :: "ProcShared \<Rightarrow> ProcShared" where
  "InitializeProcArray sh = (case g_procarray sh of
      None \<Rightarrow> sh\<lparr>g_procarray := Some empty_procarray\<rparr>
    | Some pa \<Rightarrow> sh)"

definition ResetProcArray :: "ProcShared \<Rightarrow> ProcShared" where
  "ResetProcArray sh = (InitializeProcArray sh)\<lparr>g_procarray := Some empty_procarray\<rparr>"

definition ProcArrayAdd :: "int \<Rightarrow> ProcShared \<Rightarrow> ProcShared" where
  "ProcArrayAdd pgprocno sh0 =
    (let sh = InitializeProcArray sh0 in
     if pgprocno < 0 then sh
     else case g_procarray sh of
         None \<Rightarrow> sh
       | Some pa \<Rightarrow>
           if numProcs pa < kMaxBackends
           then sh\<lparr>g_procarray := Some (pa\<lparr>pgprocnos := (pgprocnos pa)[numProcs pa := pgprocno],
                  numProcs := numProcs pa + 1\<rparr>)\<rparr>
           else sh)"

text \<open>The loop of \<open>ProcArrayRemove\<close>, from index \<open>i\<close>.\<close>

function remove_loop :: "int \<Rightarrow> nat \<Rightarrow> ProcArrayStruct \<Rightarrow> ProcArrayStruct" where
  "remove_loop pgprocno i pa =
    (if i < numProcs pa then
       if pgprocnos pa ! i = pgprocno then
         (let n = numProcs pa - 1
          in pa\<lparr>numProcs := n, pgprocnos := (pgprocnos pa)[i := pgprocnos pa ! n, n := - 1]\<rparr>)
       else remove_loop pgprocno (i + 1) pa
     else pa)"
  by pat_completeness auto
termination by (relation "measure (\<lambda>(_, i, pa). numProcs pa - i)") auto

declare remove_loop.simps [simp del]

definition ProcArrayRemove :: "int \<Rightarrow> ProcShared \<Rightarrow> ProcShared" where
  "ProcArrayRemove pgprocno sh = (case g_procarray sh of
      None \<Rightarrow> sh
    | Some pa \<Rightarrow>
        if pgprocno < 0 then sh else sh\<lparr>g_procarray := Some (remove_loop pgprocno 0 pa)\<rparr>)"

definition GetPgXactByIndex :: "int \<Rightarrow> ProcShared \<Rightarrow> PGXACT option" where
  "GetPgXactByIndex index sh = (case g_pgxact_base sh of
      None \<Rightarrow> None
    | Some xs \<Rightarrow> if index < 0 \<or> index \<ge> int kMaxBackends then None else Some (xs ! nat index))"

abbreviation registered :: "ProcArrayStruct \<Rightarrow> int list" where
  "registered pa \<equiv> take (numProcs pa) (pgprocnos pa)"

definition oldest_step :: "TransactionId \<Rightarrow> TransactionId \<Rightarrow> TransactionId" where
  "oldest_step oldest xid =
    (if oldest = kInvalidTransactionId \<or> TransactionIdPrecedes xid oldest then xid else oldest)"

definition GetOldestXmin :: "TransactionId \<Rightarrow> ProcShared \<Rightarrow> TransactionId" where
  "GetOldestXmin ignore sh = (case g_procarray sh of
      None \<Rightarrow> kFrozenTransactionId
    | Some pa \<Rightarrow>
        let oldest = foldl (\<lambda>oldest pgprocno. case GetPgXactByIndex pgprocno sh of
                None \<Rightarrow> oldest
              | Some pgxact \<Rightarrow>
                  let xid = px_xid pgxact in
                  if \<not> TransactionIdIsValid xid then oldest
                  else if ignore \<noteq> kInvalidTransactionId \<and> xid = ignore then oldest
                  else oldest_step oldest xid)
              kInvalidTransactionId (registered pa)
        in if oldest = kInvalidTransactionId then kFrozenTransactionId else oldest)"

text \<open>
  \<open>GetRunningTransactionData(xip, &xmax, &xmin)\<close>. The scan is under the lock; \<open>xmax\<close>
  is read from the counter after it was released, so the counter is an argument of its own.
\<close>

definition scan_running :: "ProcShared \<Rightarrow> TransactionId list" where
  "scan_running sh = (case g_procarray sh of
      None \<Rightarrow> []
    | Some pa \<Rightarrow> foldl (\<lambda>xip pgprocno. case GetPgXactByIndex pgprocno sh of
          None \<Rightarrow> xip
        | Some pgxact \<Rightarrow> if TransactionIdIsValid (px_xid pgxact) then xip @ [px_xid pgxact] else xip)
        [] (registered pa))"

definition GetRunningTransactionData ::
  "ProcShared \<Rightarrow> ClogState \<Rightarrow> TransactionId list \<times> TransactionId \<times> TransactionId" where
  "GetRunningTransactionData sh clog =
    (if g_procarray sh = None then ([], GetNextTransactionId clog + 1, kFrozenTransactionId)
     else let xip = scan_running sh;
              oldest = foldl oldest_step kInvalidTransactionId xip
       in (xip, GetNextTransactionId clog + 1,
           if oldest = kInvalidTransactionId then kFrozenTransactionId else oldest))"

definition CountRunningXacts :: "ProcShared \<Rightarrow> nat" where
  "CountRunningXacts sh = (case g_procarray sh of None \<Rightarrow> 0 | Some pa \<Rightarrow> numProcs pa)"

definition ProcArrayContains :: "TransactionId \<Rightarrow> ProcShared \<Rightarrow> bool" where
  "ProcArrayContains xid sh = (case g_procarray sh of
      None \<Rightarrow> False
    | Some pa \<Rightarrow> list_ex (\<lambda>pgprocno. case GetPgXactByIndex pgprocno sh of
          None \<Rightarrow> False
        | Some pgxact \<Rightarrow> px_xid pgxact = xid) (registered pa))"

subsection \<open>The pool of slots\<close>

text \<open>The loop that rebuilds the free list from the slots with no process.\<close>

fun freelist_step :: "PGPROC list \<times> nat option \<Rightarrow> nat \<Rightarrow> PGPROC list \<times> nat option" where
  "freelist_step (ps, fl) i =
    (if p_pid (ps ! i) = 0 then (ps[i := (ps ! i)\<lparr>p_next := fl\<rparr>], Some i) else (ps, fl))"

definition rebuild_freelist :: "PGPROC list \<Rightarrow> PGPROC list \<times> nat option" where
  "rebuild_freelist ps = foldl freelist_step (ps, None) (rev [0..<kMaxBackends])"

definition fresh_pool :: "PGPROC list" where
  "fresh_pool = map (\<lambda>i. PGPROC_zero\<lparr>p_pgprocno := int i,
      p_next := (if i + 1 < kMaxBackends then Some (i + 1) else None)\<rparr>) [0..<kMaxBackends]"

definition ProcGlobalInit :: "ProcShared \<Rightarrow> ProcLocal \<Rightarrow> ProcShared \<times> ProcLocal" where
  "ProcGlobalInit sh loc =
    (let sh1 = sh\<lparr>g_pgxact_base := Some (case g_pgxact_base sh of
            None \<Rightarrow> replicate kMaxBackends PGXACT_zero | Some xs \<Rightarrow> xs)\<rparr>
     in case g_proc_base sh of
         None \<Rightarrow> (sh1\<lparr>g_proc_base := Some fresh_pool\<rparr>, loc\<lparr>g_proc_freelist := Some 0\<rparr>)
       | Some ps \<Rightarrow>
           let (ps', fl) = rebuild_freelist (map2 (\<lambda>i p. p\<lparr>p_pgprocno := int i\<rparr>) [0..<kMaxBackends] ps)
           in (sh1\<lparr>g_proc_base := Some ps'\<rparr>, loc\<lparr>g_proc_freelist := fl\<rparr>))"

definition clear_pgxact :: "int \<Rightarrow> PGXACT list option \<Rightarrow> PGXACT list option" where
  "clear_pgxact pgprocno base =
    (if pgprocno \<ge> 0 then map_option (\<lambda>xs. xs[nat pgprocno := PGXACT_zero]) base else base)"

text \<open>\<open>pid\<close> is what \<open>getpid()\<close> returns. The result is the slot.\<close>

definition InitProcess :: "int \<Rightarrow> ProcShared \<Rightarrow> ProcLocal \<Rightarrow> nat option \<times> ProcShared \<times> ProcLocal" where
  "InitProcess pid sh0 loc0 =
    (let (sh, loc) = ProcGlobalInit sh0 loc0 in
     case (g_proc_freelist loc, g_proc_base sh) of
       (Some i, Some ps) \<Rightarrow>
         let p = ps ! i;
             p' = p\<lparr>p_next := None, p_pid := pid, p_lxid := NextLxid loc,
                    p_xid := kInvalidTransactionId, p_xmin := kInvalidTransactionId,
                    p_status := kIdle, p_latch := None, p_backend_id := [],
                    p_backend_id_num := 0, p_is_aux := False\<rparr>;
             sh1 = sh\<lparr>g_proc_base := Some (ps[i := p']),
                      g_pgxact_base := clear_pgxact (p_pgprocno p) (g_pgxact_base sh)\<rparr>
         in (Some i, ProcArrayAdd (p_pgprocno p') sh1,
             loc\<lparr>g_proc_freelist := p_next p, NextLxid := NextLxid loc + 1, MyProcPtr := Some i\<rparr>)
     | _ \<Rightarrow> (None, sh, loc))"

definition ProcKill :: "ProcShared \<Rightarrow> ProcLocal \<Rightarrow> ProcShared \<times> ProcLocal" where
  "ProcKill sh loc =
    (case (MyProcPtr loc, g_proc_base sh) of
       (Some i, Some ps) \<Rightarrow>
         let p = ps ! i;
             sh1 = ProcArrayRemove (p_pgprocno p) sh;
             p' = p\<lparr>p_pid := 0, p_xid := kInvalidTransactionId, p_xmin := kInvalidTransactionId,
                    p_next := g_proc_freelist loc\<rparr>
         in (sh1\<lparr>g_pgxact_base := clear_pgxact (p_pgprocno p) (g_pgxact_base sh1),
                 g_proc_base := Some (ps[i := p'])\<rparr>,
             loc\<lparr>g_proc_freelist := Some i, MyProcPtr := None\<rparr>)
     | _ \<Rightarrow> (sh, loc))"

text \<open>The index that \<open>GetMyPgXact\<close> points to, \<open>None\<close> when it returns null.\<close>

definition my_pgxact_index :: "ProcShared \<Rightarrow> ProcLocal \<Rightarrow> nat option" where
  "my_pgxact_index sh loc =
    (case (MyProcPtr loc, g_proc_base sh, g_pgxact_base sh) of
       (Some i, Some ps, Some xs) \<Rightarrow>
         if p_pgprocno (ps ! i) < 0 then None else Some (nat (p_pgprocno (ps ! i)))
     | _ \<Rightarrow> None)"

definition GetMyPgXact :: "ProcShared \<Rightarrow> ProcLocal \<Rightarrow> PGXACT option" where
  "GetMyPgXact sh loc =
    (case my_pgxact_index sh loc of
       None \<Rightarrow> None
     | Some k \<Rightarrow> map_option (\<lambda>xs. xs ! k) (g_pgxact_base sh))"

text \<open>\<open>pgxact->xid = xid\<close> through the pointer of \<open>GetMyPgXact\<close>, skipped when it is null.\<close>

definition set_my_xid :: "TransactionId \<Rightarrow> ProcLocal \<Rightarrow> ProcShared \<Rightarrow> ProcShared" where
  "set_my_xid xid loc sh =
    (case my_pgxact_index sh loc of
       None \<Rightarrow> sh
     | Some k \<Rightarrow> sh\<lparr>g_pgxact_base := map_option (\<lambda>xs. xs[k := (xs ! k)\<lparr>px_xid := xid\<rparr>]) (g_pgxact_base sh)\<rparr>)"

definition NumProcs :: "ProcShared \<Rightarrow> nat" where
  "NumProcs sh = (case g_proc_base sh of
      None \<Rightarrow> 0
    | Some ps \<Rightarrow> length (filter (\<lambda>i. p_pid (ps ! i) \<noteq> 0) [0..<kMaxBackends]))"

definition AllProcs :: "ProcShared \<Rightarrow> nat list" where
  "AllProcs sh = (case g_proc_base sh of
      None \<Rightarrow> []
    | Some ps \<Rightarrow> filter (\<lambda>i. p_pid (ps ! i) \<noteq> 0) [0..<kMaxBackends])"

subsection \<open>Lemmas on the array\<close>

lemma foldl_append_filter:
  "foldl (\<lambda>acc x. if P x then acc @ [f x] else acc) acc xs = acc @ map f (filter P xs)"
  by (induction xs arbitrary: acc) auto

lemma mset_butlast: "xs \<noteq> [] \<Longrightarrow> mset (butlast xs) = mset xs - {#last xs#}"
  by (induction xs rule: rev_induct) auto

text \<open>Removal by moving the last element into the gap.\<close>

lemma mset_swap_remove:
  assumes "k < length ys"
  shows "mset (butlast (ys[k := last ys])) = mset ys - {#ys ! k#}"
proof -
  have ne: "ys \<noteq> []" using assms by auto
  then have "last (ys[k := last ys]) = last ys" using assms
    by (cases "k = length ys - 1") (simp_all add: last_conv_nth)
  then have "mset (butlast (ys[k := last ys])) = mset (ys[k := last ys]) - {#last ys#}"
    using ne mset_butlast [of "ys[k := last ys]"] by simp
  then show ?thesis using assms by (simp add: mset_update)
qed

lemma remove_loop_at:
  assumes "i \<le> k" "k < numProcs pa" "pgprocnos pa ! k = x" "\<forall>j. i \<le> j \<and> j < k \<longrightarrow> pgprocnos pa ! j \<noteq> x"
  shows "remove_loop x i pa = pa\<lparr>numProcs := numProcs pa - 1,
    pgprocnos := (pgprocnos pa)[k := pgprocnos pa ! (numProcs pa - 1), numProcs pa - 1 := - 1]\<rparr>"
  using assms
proof (induction "k - i" arbitrary: i)
  case 0
  then show ?case by (simp add: remove_loop.simps [of x i pa] Let_def)
next
  case (Suc d)
  then have "i < k" "pgprocnos pa ! i \<noteq> x" by auto
  then have "remove_loop x i pa = remove_loop x (i + 1) pa"
    using Suc.prems(2) by (simp add: remove_loop.simps [of x i pa])
  also have "\<dots> = pa\<lparr>numProcs := numProcs pa - 1,
    pgprocnos := (pgprocnos pa)[k := pgprocnos pa ! (numProcs pa - 1), numProcs pa - 1 := - 1]\<rparr>"
    using Suc.hyps(2) Suc.prems \<open>i < k\<close> by (intro Suc.hyps(1)) simp_all
  finally show ?case .
qed

lemma first_index: "x \<in> set xs \<Longrightarrow> \<exists>k < length xs. xs ! k = x \<and> (\<forall>j < k. xs ! j \<noteq> x)"
proof (intro exI conjI)
  assume x: "x \<in> set xs"
  let ?k = "length (takeWhile (\<lambda>y. y \<noteq> x) xs)"
  show k: "?k < length xs" using x by (intro length_takeWhile_less) auto
  show "xs ! ?k = x" using nth_length_takeWhile [OF k] by simp
  show "\<forall>j < ?k. xs ! j \<noteq> x"
  proof (intro allI impI)
    fix j assume j: "j < ?k"
    then have "takeWhile (\<lambda>y. y \<noteq> x) xs ! j \<noteq> x" using nth_mem set_takeWhileD by fastforce
    then show "xs ! j \<noteq> x" using takeWhile_nth [OF j] by simp
  qed
qed

lemma remove_loop_spec:
  assumes "x \<in> set (registered pa)" "numProcs pa \<le> length (pgprocnos pa)"
  shows "numProcs (remove_loop x 0 pa) = numProcs pa - 1"
    "length (pgprocnos (remove_loop x 0 pa)) = length (pgprocnos pa)"
    "mset (registered (remove_loop x 0 pa)) = mset (registered pa) - {#x#}"
proof -
  let ?ys = "registered pa" and ?n = "numProcs pa"
  obtain k where k: "k < length ?ys" "?ys ! k = x" "\<forall>j < k. ?ys ! j \<noteq> x"
    using first_index [OF assms(1)] by blast
  then have r: "remove_loop x 0 pa = pa\<lparr>numProcs := ?n - 1,
      pgprocnos := (pgprocnos pa)[k := pgprocnos pa ! (?n - 1), ?n - 1 := - 1]\<rparr>"
    using assms(2) by (intro remove_loop_at) auto
  have "last ?ys = pgprocnos pa ! (?n - 1)"
    using k assms(2) by (subst last_conv_nth) auto
  then have "registered (remove_loop x 0 pa) = butlast (?ys[k := last ?ys])"
    using k assms(2) by (simp add: r butlast_conv_take take_update_swap list_update_beyond)
  then show "mset (registered (remove_loop x 0 pa)) = mset (registered pa) - {#x#}"
    using mset_swap_remove [OF k(1)] k(2) by simp
  show "numProcs (remove_loop x 0 pa) = ?n - 1"
    "length (pgprocnos (remove_loop x 0 pa)) = length (pgprocnos pa)" using r by simp_all
qed

definition same_slots :: "PGPROC list \<Rightarrow> PGPROC list \<Rightarrow> bool" where
  "same_slots ps ps' \<longleftrightarrow>
    map p_pid ps' = map p_pid ps \<and> map p_pgprocno ps' = map p_pgprocno ps"

lemma same_slots_length: "same_slots ps ps' \<Longrightarrow> length ps' = length ps"
  by (metis length_map same_slots_def)

lemma same_slots_nth:
  "same_slots ps ps' \<Longrightarrow> i < length ps \<Longrightarrow> p_pid (ps' ! i) = p_pid (ps ! i) \<and> p_pgprocno (ps' ! i) = p_pgprocno (ps ! i)"
  by (metis nth_map same_slots_def same_slots_length)

lemma same_slots_next: "same_slots ps (ps[i := (ps ! i)\<lparr>p_next := fl\<rparr>])"
  by (cases "i < length ps") (auto simp: same_slots_def map_update list_update_same_conv list_update_beyond)

lemma freelist_fold:
  assumes "foldl freelist_step (ps, fl) js = (ps', fl')" "\<forall>j \<in> set js. j < length ps"
  shows "same_slots ps ps' \<and>
    (fl' = fl \<and> (\<forall>j \<in> set js. p_pid (ps ! j) \<noteq> 0) \<or> (\<exists>j \<in> set js. fl' = Some j \<and> p_pid (ps ! j) = 0))"
  using assms
proof (induction js arbitrary: ps fl)
  case Nil
  then show ?case by (simp add: same_slots_def)
next
  case (Cons j js)
  let ?ps = "if p_pid (ps ! j) = 0 then ps[j := (ps ! j)\<lparr>p_next := fl\<rparr>] else ps"
  let ?fl = "if p_pid (ps ! j) = 0 then Some j else fl"
  have same: "same_slots ps ?ps" using same_slots_next [of ps j fl] by (auto simp: same_slots_def)
  have "foldl freelist_step (?ps, ?fl) js = (ps', fl')" using Cons.prems(1) by (auto split: if_splits)
  moreover have "\<forall>j \<in> set js. j < length ?ps" using Cons.prems(2) by simp
  ultimately have IH: "same_slots ?ps ps' \<and>
      (fl' = ?fl \<and> (\<forall>j \<in> set js. p_pid (?ps ! j) \<noteq> 0) \<or> (\<exists>j \<in> set js. fl' = Some j \<and> p_pid (?ps ! j) = 0))"
    by (rule Cons.IH)
  have pid: "k \<in> set (j # js) \<Longrightarrow> p_pid (?ps ! k) = p_pid (ps ! k)" for k
    using same_slots_nth [OF same] Cons.prems(2) by blast
  have "same_slots ps ps'" using IH same by (simp add: same_slots_def)
  then show ?case using IH pid by (cases "p_pid (ps ! j) = 0") auto
qed

lemma rebuild_spec:
  assumes "rebuild_freelist ps = (ps', fl)" "length ps = kMaxBackends"
  shows "same_slots ps ps'" "fl = None \<longleftrightarrow> (\<forall>i < kMaxBackends. p_pid (ps ! i) \<noteq> 0)"
    "fl = Some i \<Longrightarrow> i < kMaxBackends \<and> p_pid (ps ! i) = 0"
proof -
  have "\<forall>j \<in> set (rev [0..<kMaxBackends]). j < length ps" using assms(2) by simp
  from freelist_fold [OF assms(1) [unfolded rebuild_freelist_def] this]
  show "same_slots ps ps'" "fl = None \<longleftrightarrow> (\<forall>i < kMaxBackends. p_pid (ps ! i) \<noteq> 0)"
    "fl = Some i \<Longrightarrow> i < kMaxBackends \<and> p_pid (ps ! i) = 0" by auto
qed

subsection \<open>Processes\<close>

text \<open>
  The steps of the processes of a server on the shared state: a process that has no slot starts, a
  process ends, a process publishes or clears the transaction identifier in its slot. The process
  identifiers the operating system hands out are not 0.
\<close>

inductive proc_step :: "ProcShared \<times> (nat \<Rightarrow> ProcLocal) \<Rightarrow> ProcShared \<times> (nat \<Rightarrow> ProcLocal) \<Rightarrow> bool" where
  start: "MyProcPtr (locs k) = None \<Longrightarrow> pid \<noteq> 0 \<Longrightarrow> InitProcess pid sh (locs k) = (r, sh', loc') \<Longrightarrow>
    proc_step (sh, locs) (sh', locs(k := loc'))"
| stop: "ProcKill sh (locs k) = (sh', loc') \<Longrightarrow> proc_step (sh, locs) (sh', locs(k := loc'))"
| publish: "proc_step (sh, locs) (set_my_xid xid (locs k) sh, locs)"

definition proc_boot :: "ProcShared \<times> (nat \<Rightarrow> ProcLocal)" where
  "proc_boot = (\<lparr>g_proc_base = None, g_pgxact_base = None, g_procarray = None\<rparr>,
     \<lambda>_. \<lparr>g_proc_freelist = None, MyProcPtr = None, NextLxid = 1\<rparr>)"

abbreviation proc_reach :: "ProcShared \<times> (nat \<Rightarrow> ProcLocal) \<Rightarrow> bool" where
  "proc_reach s \<equiv> proc_step\<^sup>*\<^sup>* proc_boot s"

definition live :: "PGPROC list \<Rightarrow> nat set" where
  "live ps = {i. i < kMaxBackends \<and> p_pid (ps ! i) \<noteq> 0}"

definition pool_ok :: "PGPROC list \<Rightarrow> PGXACT list \<Rightarrow> ProcArrayStruct \<Rightarrow> bool" where
  "pool_ok ps xs pa \<longleftrightarrow>
    length ps = kMaxBackends \<and> (\<forall>i < kMaxBackends. p_pgprocno (ps ! i) = int i) \<and>
    length xs = kMaxBackends \<and>
    length (pgprocnos pa) = kMaxBackends \<and> numProcs pa \<le> kMaxBackends \<and>
    distinct (registered pa) \<and> set (registered pa) = int ` live ps"

definition procs_ok :: "PGPROC list \<Rightarrow> (nat \<Rightarrow> ProcLocal) \<Rightarrow> bool" where
  "procs_ok ps locs \<longleftrightarrow>
    (\<forall>k i. MyProcPtr (locs k) = Some i \<longrightarrow> i \<in> live ps) \<and>
    (\<forall>k k' i. MyProcPtr (locs k) = Some i \<and> MyProcPtr (locs k') = Some i \<longrightarrow> k = k')"

fun proc_inv :: "ProcShared \<times> (nat \<Rightarrow> ProcLocal) \<Rightarrow> bool" where
  "proc_inv (sh, locs) \<longleftrightarrow>
    (g_proc_base sh = None \<and> g_pgxact_base sh = None \<and> g_procarray sh = None \<and>
      (\<forall>k. MyProcPtr (locs k) = None)) \<or>
    (\<exists>ps xs pa. g_proc_base sh = Some ps \<and> g_pgxact_base sh = Some xs \<and> g_procarray sh = Some pa \<and>
      pool_ok ps xs pa \<and> procs_ok ps locs)"

lemma live_update:
  assumes "i < kMaxBackends" "length ps = kMaxBackends"
  shows "live (ps[i := p]) = (if p_pid p = 0 then live ps - {i} else insert i (live ps))"
  using assms by (auto simp: live_def nth_list_update)

lemma numProcs_live:
  assumes "pool_ok ps xs pa"
  shows "numProcs pa = card (live ps)"
proof -
  have "length (registered pa) = card (int ` live ps)"
    using assms distinct_card unfolding pool_ok_def by metis
  then show ?thesis using assms by (simp add: pool_ok_def card_image)
qed

lemma pool_ok_add:
  assumes ok: "pool_ok ps xs pa" and i: "i < kMaxBackends" "i \<notin> live ps"
    and p: "p_pid p \<noteq> 0" "p_pgprocno p = int i"
  shows "numProcs pa < kMaxBackends"
    "pool_ok (ps[i := p]) (xs[i := x]) (pa\<lparr>pgprocnos := (pgprocnos pa)[numProcs pa := int i],
      numProcs := numProcs pa + 1\<rparr>)"
proof -
  have "live ps \<subset> {..<kMaxBackends}" using i by (auto simp: live_def)
  then have "card (live ps) < kMaxBackends" using psubset_card_mono [of "{..<kMaxBackends}" "live ps"] by simp
  then show n: "numProcs pa < kMaxBackends" using numProcs_live [OF ok] by simp
  have reg: "take (numProcs pa + 1) ((pgprocnos pa)[numProcs pa := int i]) = registered pa @ [int i]"
    using n ok by (simp add: pool_ok_def take_Suc_conv_app_nth)
  have "int i \<notin> set (registered pa)" using ok i(2) by (auto simp: pool_ok_def)
  then show "pool_ok (ps[i := p]) (xs[i := x]) (pa\<lparr>pgprocnos := (pgprocnos pa)[numProcs pa := int i],
      numProcs := numProcs pa + 1\<rparr>)"
    using ok n p i reg unfolding pool_ok_def by (auto simp: live_update nth_list_update)
qed

lemma pool_ok_remove:
  assumes ok: "pool_ok ps xs pa" and i: "i \<in> live ps" and p: "p_pid p = 0" "p_pgprocno p = int i"
  shows "pool_ok (ps[i := p]) (xs[i := x]) (remove_loop (int i) 0 pa)"
proof -
  let ?pa = "remove_loop (int i) 0 pa"
  have i': "i < kMaxBackends" using i by (simp add: live_def)
  have m: "int i \<in> set (registered pa)" "numProcs pa \<le> length (pgprocnos pa)"
    using ok i by (auto simp: pool_ok_def)
  note r = remove_loop_spec [OF m]
  have d: "distinct (registered pa)" using ok by (simp add: pool_ok_def)
  have e: "mset (registered ?pa) = mset (remove1 (int i) (registered pa))" using r(3) by simp
  have "set (registered ?pa) = int ` (live ps - {i})"
    using mset_eq_setD [OF e] d ok by (auto simp: pool_ok_def)
  moreover have "distinct (registered ?pa)"
    using mset_eq_imp_distinct_iff [OF e] d by simp
  ultimately show ?thesis using ok p i' r(1,2) unfolding pool_ok_def
    by (auto simp: live_update nth_list_update)
qed

lemma procs_ok_live: "live ps' = live ps \<Longrightarrow> procs_ok ps' locs = procs_ok ps locs"
  by (simp add: procs_ok_def)

abbreviation procarray_of :: "ProcShared \<Rightarrow> ProcArrayStruct" where
  "procarray_of sh \<equiv> case g_procarray sh of None \<Rightarrow> empty_procarray | Some pa \<Rightarrow> pa"

lemma global_init_spec:
  assumes "proc_inv (sh, locs)" "ProcGlobalInit sh loc = (sh1, loc1)"
  obtains ps xs where "g_proc_base sh1 = Some ps" "g_pgxact_base sh1 = Some xs"
    "g_procarray sh1 = g_procarray sh" "pool_ok ps xs (procarray_of sh)" "procs_ok ps locs"
    "MyProcPtr loc1 = MyProcPtr loc" "g_proc_freelist loc1 = None \<longleftrightarrow> live ps = {..<kMaxBackends}"
    "\<And>i. g_proc_freelist loc1 = Some i \<Longrightarrow> i < kMaxBackends \<and> i \<notin> live ps"
    "g_procarray sh = None \<Longrightarrow> live ps = {}"
proof (cases "g_proc_base sh")
  case None
  then have none: "g_pgxact_base sh = None" "g_procarray sh = None" "\<forall>k. MyProcPtr (locs k) = None"
    using assms(1) by auto
  have l: "live fresh_pool = {}" by (auto simp: live_def fresh_pool_def PGPROC_zero_def)
  have "pool_ok fresh_pool (replicate kMaxBackends PGXACT_zero) empty_procarray"
    using l by (simp add: pool_ok_def empty_procarray_def) (simp add: fresh_pool_def)
  moreover have "{} \<noteq> {..<kMaxBackends}" "0 < kMaxBackends"
    using lessThan_empty_iff [of kMaxBackends] by (auto simp: kMaxBackends_def)
  ultimately show thesis using None none l assms(2)
    by (intro that [of fresh_pool "replicate kMaxBackends PGXACT_zero"])
      (auto simp: ProcGlobalInit_def procs_ok_def)
next
  case (Some ps)
  then obtain xs pa where b: "g_pgxact_base sh = Some xs" "g_procarray sh = Some pa" "pool_ok ps xs pa"
    "procs_ok ps locs" using assms(1) by auto
  let ?ps = "map2 (\<lambda>i p. p\<lparr>p_pgprocno := int i\<rparr>) [0..<kMaxBackends] ps"
  have "?ps = ps" using b(3) by (auto simp: pool_ok_def list_eq_iff_nth_eq)
  then obtain ps' fl where r: "rebuild_freelist ?ps = (ps', fl)" "rebuild_freelist ps = (ps', fl)"
    by (cases "rebuild_freelist ps") simp
  have len: "length ps = kMaxBackends" using b(3) by (simp add: pool_ok_def)
  note spec = rebuild_spec [OF r(2) len]
  have live: "live ps' = live ps"
    using same_slots_nth [OF spec(1)] len by (auto simp: live_def)
  then have ok: "pool_ok ps' xs pa"
    using b(3) same_slots_nth [OF spec(1)] same_slots_length [OF spec(1)] unfolding pool_ok_def by simp
  have full: "(fl = None) = (live ps' = {..<kMaxBackends})" and free: "\<And>i. fl = Some i \<Longrightarrow> i < kMaxBackends \<and> i \<notin> live ps'"
    using spec(2,3) live by (auto simp: live_def)
  show thesis using Some b r(1) assms(2) ok live full free procs_ok_live [OF live]
    by (intro that [of ps' xs]) (auto simp: ProcGlobalInit_def)
qed

lemma InitProcess_inv:
  assumes "proc_inv (sh, locs)" "MyProcPtr (locs k) = None" "pid \<noteq> 0"
    and "InitProcess pid sh (locs k) = (r, sh', loc')"
  shows "proc_inv (sh', locs(k := loc'))"
proof -
  obtain sh1 loc1 where g: "ProcGlobalInit sh (locs k) = (sh1, loc1)" by force
  then obtain ps xs where p: "g_proc_base sh1 = Some ps" "g_pgxact_base sh1 = Some xs"
    "g_procarray sh1 = g_procarray sh" "pool_ok ps xs (procarray_of sh)" "procs_ok ps locs"
    "MyProcPtr loc1 = MyProcPtr (locs k)" "g_proc_freelist loc1 = None \<longleftrightarrow> live ps = {..<kMaxBackends}"
    "\<And>i. g_proc_freelist loc1 = Some i \<Longrightarrow> i < kMaxBackends \<and> i \<notin> live ps"
    "g_procarray sh = None \<Longrightarrow> live ps = {}"
    using global_init_spec [OF assms(1) g] by metis
  show ?thesis
  proof (cases "g_proc_freelist loc1")
    case None
    then have "live ps \<noteq> {}" using p(7) lessThan_empty_iff [of kMaxBackends] by (simp add: kMaxBackends_def)
    then obtain pa where pa: "g_procarray sh = Some pa" using p(9) by auto
    have "sh' = sh1" "loc' = loc1" using assms(4) g None by (simp_all add: InitProcess_def)
    moreover have "procs_ok ps (locs(k := loc1))" using p(5,6) assms(2) by (simp add: procs_ok_def)
    ultimately show ?thesis using p(1-4) pa by simp
  next
    case (Some i)
    let ?pa = "procarray_of sh" and ?p = "(ps ! i)\<lparr>p_next := None, p_pid := pid, p_lxid := NextLxid loc1,
        p_xid := kInvalidTransactionId, p_xmin := kInvalidTransactionId, p_status := kIdle, p_latch := None,
        p_backend_id := [], p_backend_id_num := 0, p_is_aux := False\<rparr>"
    have i: "i < kMaxBackends" "i \<notin> live ps" using p(8) Some by auto
    have no: "p_pgprocno (ps ! i) = int i" using p(4) i by (simp add: pool_ok_def)
    note ok = pool_ok_add [OF p(4) i, of ?p]
    have "g_proc_base sh' = Some (ps[i := ?p])" "g_pgxact_base sh' = Some (xs[i := PGXACT_zero])"
      "g_procarray sh' = Some (?pa\<lparr>pgprocnos := (pgprocnos ?pa)[numProcs ?pa := int i], numProcs := numProcs ?pa + 1\<rparr>)"
      using assms(3,4) g Some p(1,2,3) no ok(1)
      by (auto simp: InitProcess_def ProcArrayAdd_def InitializeProcArray_def clear_pgxact_def Let_def
          split: option.splits if_splits)
    moreover have "procs_ok (ps[i := ?p]) (locs(k := loc'))"
      using assms(3,4) g Some p(1,5) i p(4)
      by (auto simp: InitProcess_def Let_def procs_ok_def live_update pool_ok_def)
    ultimately show ?thesis using ok(2) assms(3) no by auto
  qed
qed

lemma ProcKill_inv:
  assumes "proc_inv (sh, locs)" "ProcKill sh (locs k) = (sh', loc')"
  shows "proc_inv (sh', locs(k := loc'))"
proof (cases "MyProcPtr (locs k)")
  case None
  then have "sh' = sh" "loc' = locs k" using assms(2) by (auto simp: ProcKill_def)
  then show ?thesis using assms(1) by simp
next
  case (Some i)
  then obtain ps xs pa where b: "g_proc_base sh = Some ps" "g_pgxact_base sh = Some xs"
    "g_procarray sh = Some pa" "pool_ok ps xs pa" "procs_ok ps locs"
    using assms(1) by auto
  have i: "i \<in> live ps" using b(5) Some by (simp add: procs_ok_def)
  then have i': "i < kMaxBackends" "length ps = kMaxBackends" using b(4) by (simp_all add: live_def pool_ok_def)
  let ?p = "(ps ! i)\<lparr>p_pid := 0, p_xid := kInvalidTransactionId, p_xmin := kInvalidTransactionId,
      p_next := g_proc_freelist (locs k)\<rparr>"
  have no: "p_pgprocno (ps ! i) = int i" using b(4) i' by (simp add: pool_ok_def)
  have r: "g_proc_base sh' = Some (ps[i := ?p])" "g_pgxact_base sh' = Some (xs[i := PGXACT_zero])"
    "g_procarray sh' = Some (remove_loop (int i) 0 pa)" "MyProcPtr loc' = None"
    using assms(2) Some b no by (auto simp: ProcKill_def ProcArrayRemove_def clear_pgxact_def Let_def)
  have "pool_ok (ps[i := ?p]) (xs[i := PGXACT_zero]) (remove_loop (int i) 0 pa)"
    by (rule pool_ok_remove [OF b(4) i]) (simp_all add: no)
  moreover have "procs_ok (ps[i := ?p]) (locs(k := loc'))"
    using b(5) r(4) Some i' by (auto simp: procs_ok_def live_update split: if_splits)
  ultimately show ?thesis using r by simp
qed

lemma set_my_xid_inv: "proc_inv (sh, locs) \<Longrightarrow> proc_inv (set_my_xid x (locs k) sh, locs)"
  by (auto simp: set_my_xid_def my_pgxact_index_def pool_ok_def split: option.splits)

lemma proc_reach_inv: "proc_reach s \<Longrightarrow> proc_inv s"
proof (induction rule: rtranclp_induct)
  case base
  show ?case by (simp add: proc_boot_def)
next
  case (step s s')
  from step(2,3) show ?case
    by cases (auto simp del: proc_inv.simps intro: InitProcess_inv ProcKill_inv set_my_xid_inv)
qed

subsection \<open>What a scan sees\<close>

text \<open>The identifiers that the slots of live processes publish.\<close>

definition published :: "ProcShared \<Rightarrow> TransactionId set" where
  "published sh = {x. TransactionIdIsValid x \<and>
    (\<exists>i \<in> set (AllProcs sh). map_option px_xid (GetPgXactByIndex (int i) sh) = Some x)}"

lemma set_AllProcs: "g_proc_base sh = Some ps \<Longrightarrow> set (AllProcs sh) = live ps"
  by (auto simp: AllProcs_def live_def)

lemma NumProcs_AllProcs: "NumProcs sh = card (set (AllProcs sh))"
  by (auto simp: NumProcs_def AllProcs_def distinct_card [symmetric] split: option.split)

lemma scan_running_registered:
  assumes "g_procarray sh = Some pa" "g_pgxact_base sh = Some xs" "pool_ok ps xs pa"
  shows "scan_running sh = filter TransactionIdIsValid (map (\<lambda>i. px_xid (xs ! nat i)) (registered pa))"
proof -
  have "foldl (\<lambda>xip pgprocno. case GetPgXactByIndex pgprocno sh of
          None \<Rightarrow> xip
        | Some pgxact \<Rightarrow> if TransactionIdIsValid (px_xid pgxact) then xip @ [px_xid pgxact] else xip) acc is =
      acc @ filter TransactionIdIsValid (map (\<lambda>i. px_xid (xs ! nat i)) is)"
    if "set is \<subseteq> int ` live ps" for acc "is"
    using that
  proof (induction "is" arbitrary: acc)
    case (Cons i "is")
    then have "GetPgXactByIndex i sh = Some (xs ! nat i)"
      using assms(2) by (auto simp: GetPgXactByIndex_def live_def)
    then show ?case using Cons by simp
  qed simp
  then show ?thesis using assms by (simp add: scan_running_def pool_ok_def)
qed

lemma set_scan_running:
  assumes "proc_inv (sh, locs)"
  shows "set (scan_running sh) = published sh"
proof (cases "g_proc_base sh")
  case None
  then show ?thesis using assms by (auto simp: scan_running_def published_def AllProcs_def)
next
  case (Some ps)
  then obtain xs pa where b: "g_pgxact_base sh = Some xs" "g_procarray sh = Some pa" "pool_ok ps xs pa"
    using assms by auto
  have "set (registered pa) = int ` live ps" using b(3) by (simp add: pool_ok_def)
  then have "set (scan_running sh) = {x. TransactionIdIsValid x \<and> (\<exists>i \<in> live ps. px_xid (xs ! i) = x)}"
    by (auto simp: scan_running_registered [OF b(2,1,3)] image_image)
  then show ?thesis
    by (auto simp: published_def set_AllProcs [OF Some] GetPgXactByIndex_def b(1) live_def)
qed

lemma foldl_oldest:
  assumes "\<forall>x \<in> insert a (set xs). TransactionIdIsValid x \<and> xid_window base x"
  shows "foldl oldest_step a xs \<in> insert a (set xs) \<and>
    (\<forall>x \<in> insert a (set xs). \<not> TransactionIdPrecedes x (foldl oldest_step a xs))"
  using assms
proof (induction xs arbitrary: a)
  case Nil
  then show ?case using xid_order.prec_irrefl by auto
next
  case (Cons y ys)
  let ?a = "oldest_step a y"
  have a: "?a \<in> {a, y}" "\<not> TransactionIdPrecedes a ?a" "\<not> TransactionIdPrecedes y ?a"
    using Cons.prems xid_order.prec_irrefl [of base] xid_order.prec_asym [of base]
    by (auto simp: oldest_step_def TransactionIdIsValid_def)
  let ?r = "foldl oldest_step ?a ys"
  have IH: "?r \<in> insert ?a (set ys)" "\<forall>x \<in> insert ?a (set ys). \<not> TransactionIdPrecedes x ?r"
    using Cons.IH [of ?a] Cons.prems a(1) by auto
  have w: "xid_window base ?r" "xid_window base ?a" "xid_window base a" "xid_window base y"
    using IH(1) a(1) Cons.prems by auto
  have "\<not> TransactionIdPrecedes x ?r" if "x \<in> {a, y}" for x
    using that IH(2) a xid_order.prec_trans [of base x ?r ?a] xid_order.prec_total [of base ?r ?a] w by auto
  then show ?case using IH a(1) by auto
qed

lemma oldest_first: "TransactionIdIsValid x \<Longrightarrow> oldest_step kInvalidTransactionId x = x"
  by (simp add: oldest_step_def)

lemma oldest_running:
  assumes "\<forall>x \<in> set xip. TransactionIdIsValid x \<and> xid_window base x"
  defines "r \<equiv> foldl oldest_step kInvalidTransactionId xip"
  shows "if xip = [] then r = kInvalidTransactionId
    else TransactionIdIsValid r \<and> r \<in> set xip \<and> (\<forall>x \<in> set xip. \<not> TransactionIdPrecedes x r)"
proof (cases xip)
  case (Cons y ys)
  then show ?thesis using assms(1) foldl_oldest [of y ys base] by (auto simp: r_def oldest_first)
qed (simp add: r_def)

lemma GetOldestXmin_scan:
  assumes "g_procarray sh = Some pa"
  shows "GetOldestXmin kInvalidTransactionId sh =
    (let r = foldl oldest_step kInvalidTransactionId (scan_running sh)
     in if r = kInvalidTransactionId then kFrozenTransactionId else r)"
proof -
  let ?f = "\<lambda>oldest pgprocno. case GetPgXactByIndex pgprocno sh of
                None \<Rightarrow> oldest
              | Some pgxact \<Rightarrow>
                  let xid = px_xid pgxact in
                  if \<not> TransactionIdIsValid xid then oldest
                  else if kInvalidTransactionId \<noteq> kInvalidTransactionId \<and> xid = kInvalidTransactionId then oldest
                  else oldest_step oldest xid"
  let ?g = "\<lambda>xip pgprocno. case GetPgXactByIndex pgprocno sh of
          None \<Rightarrow> xip
        | Some pgxact \<Rightarrow> if TransactionIdIsValid (px_xid pgxact) then xip @ [px_xid pgxact] else xip"
  have "foldl ?f (foldl oldest_step kInvalidTransactionId acc) is =
      foldl oldest_step kInvalidTransactionId (foldl ?g acc is)" for acc "is"
    by (induction "is" rule: rev_induct) (auto simp: Let_def split: option.split)
  from this [of "[]"] show ?thesis using assms by (simp add: GetOldestXmin_def scan_running_def)
qed

subsection \<open>Properties\<close>


text \<open>
  A snapshot scan sees exactly the valid identifiers that live backends publish, and a
  backend's own published identifier is among them until it is cleared. When these identifiers
  lie within half a circle, \<open>xmin\<close> is the oldest of them (the frozen identifier when there
  is none), \<open>GetOldestXmin\<close> returns the same, and \<open>xmax\<close> is the next identifier.
\<close>

theorem running_scan_correct:
  assumes "proc_reach (sh, locs)" "\<forall>x \<in> published sh. xid_window base x"
  shows "let (xip, xmax, xmin) = GetRunningTransactionData sh clog in
    set xip = published sh \<and> xmax = GetNextTransactionId clog + 1 \<and>
    (if published sh = {} then xmin = kFrozenTransactionId
     else xmin \<in> published sh \<and> (\<forall>x \<in> published sh. \<not> TransactionIdPrecedes x xmin)) \<and>
    GetOldestXmin kInvalidTransactionId sh = xmin \<and>
    (\<forall>x. TransactionIdIsValid x \<longrightarrow> ProcArrayContains x sh = (x \<in> published sh))"
proof -
  have inv: "proc_inv (sh, locs)" using proc_reach_inv [OF assms(1)] .
  have scan: "set (scan_running sh) = published sh" by (rule set_scan_running [OF inv])
  let ?r = "foldl oldest_step kInvalidTransactionId (scan_running sh)"
  have r: "if scan_running sh = [] then ?r = kInvalidTransactionId
    else TransactionIdIsValid ?r \<and> ?r \<in> set (scan_running sh) \<and>
      (\<forall>x \<in> set (scan_running sh). \<not> TransactionIdPrecedes x ?r)"
    using assms(2) scan by (intro oldest_running [of _ base]) (auto simp: published_def)
  have contains: "ProcArrayContains x sh = (x \<in> published sh)" if "TransactionIdIsValid x" for x
  proof (cases "g_procarray sh")
    case None
    then show ?thesis using inv by (auto simp: ProcArrayContains_def published_def AllProcs_def)
  next
    case (Some pa)
    then obtain ps xs where "g_proc_base sh = Some ps" "pool_ok ps xs pa" using inv by auto
    then show ?thesis using that Some
      by (fastforce simp: ProcArrayContains_def published_def list_ex_iff set_AllProcs pool_ok_def split: option.splits)
  qed
  show ?thesis
  proof (cases "g_procarray sh")
    case None
    then have "published sh = {}" using scan by (simp add: scan_running_def)
    then show ?thesis using None contains by (simp add: GetRunningTransactionData_def GetOldestXmin_def)
  next
    case (Some pa)
    then show ?thesis using r scan contains
      by (auto simp: GetRunningTransactionData_def GetOldestXmin_scan [OF Some] Let_def TransactionIdIsValid_def
        split: if_splits)
  qed
qed

text \<open>Process 0 starts and publishes identifier 5.\<close>

definition proc_ex1 :: "nat option \<times> ProcShared \<times> ProcLocal" where
  "proc_ex1 = InitProcess 7 (fst proc_boot) (snd proc_boot 0)"

definition proc_ex2 :: ProcShared where
  "proc_ex2 = set_my_xid 5 (snd (snd proc_ex1)) (fst (snd proc_ex1))"

definition proc_exl :: "nat \<Rightarrow> ProcLocal" where
  "proc_exl = (snd proc_boot)(0 := snd (snd proc_ex1))"

lemma proc_ex_reach: "proc_reach (proc_ex2, proc_exl)"
proof -
  have "proc_step proc_boot (fst (snd proc_ex1), proc_exl)"
    using proc_step.start [of "snd proc_boot" 0 7 "fst proc_boot" "fst proc_ex1" "fst (snd proc_ex1)" "snd (snd proc_ex1)"]
    by (simp add: proc_ex1_def proc_exl_def) (simp add: proc_boot_def)
  moreover have "proc_step (fst (snd proc_ex1), proc_exl) (proc_ex2, proc_exl)"
    using proc_step.publish [of "fst (snd proc_ex1)" proc_exl 5 0] by (simp add: proc_ex2_def proc_exl_def)
  ultimately show ?thesis by (meson converse_rtranclp_into_rtranclp rtranclp.rtrancl_refl)
qed

lemma proc_ex_scan: "scan_running proc_ex2 = [5]" by code_simp


lemma running_scan_correct_witness:
  "proc_reach (proc_ex2, proc_exl) \<and> published proc_ex2 = {5} \<and>
   GetOldestXmin kInvalidTransactionId proc_ex2 = 5 \<and> ProcArrayContains 5 proc_ex2"
proof -
  have p: "published proc_ex2 = {5}"
    using set_scan_running [OF proc_reach_inv [OF proc_ex_reach]] proc_ex_scan by simp
  then have "\<forall>x \<in> published proc_ex2. xid_window 0 x" by (simp add: xid_window_def)
  from running_scan_correct [OF proc_ex_reach this, of clog_start] p proc_ex_reach
  show ?thesis by (auto simp: TransactionIdIsValid_def kInvalidTransactionId_def split: prod.splits)
qed

end
