(* ===== verification/TwoPhase.thy ===== *)
theory TwoPhase
  imports CommitLog
begin

text \<open>
  Prepared transactions (\<open>src/transaction/twophase.cpp\<close>): the list of prepared
  transactions in memory and one text file per transaction under \<open>pg_twophase/\<close>.

  The directory is part of the state (\<open>None\<close> when it does not exist); its files are listed in
  the order in which a directory iteration visits them. As in the theory of the commit log, the
  effect of the operating system on a file is a parameter: \<open>wr name text\<close> is the content
  after the file has been opened, truncated and written, \<open>None\<close> when it cannot be opened, and
  \<open>rd name text\<close> is what is read back.
\<close>

subsection \<open>State\<close>

datatype IsolationLevel = kReadUncommitted | kReadCommitted | kRepeatableRead | kSerializable

definition IsolationLevelName :: "IsolationLevel \<Rightarrow> string" where
  "IsolationLevelName level = (case level of
      kReadUncommitted \<Rightarrow> ''read uncommitted''
    | kReadCommitted \<Rightarrow> ''read committed''
    | kRepeatableRead \<Rightarrow> ''repeatable read''
    | kSerializable \<Rightarrow> ''serializable'')"

definition ParseIsolationLevelName :: "string \<Rightarrow> IsolationLevel" where
  "ParseIsolationLevelName name =
    (if name = ''serializable'' then kSerializable
     else if name = ''repeatable read'' then kRepeatableRead
     else if name = ''read uncommitted'' then kReadUncommitted
     else kReadCommitted)"

record TwoPhaseState =
  tp_gid :: string
  tp_xid :: TransactionId
  tp_isolation_level :: IsolationLevel
  tp_read_only :: bool
  tp_deferrable :: bool

definition TwoPhaseState_default :: TwoPhaseState where
  "TwoPhaseState_default = \<lparr>tp_gid = [], tp_xid = kInvalidTransactionId,
    tp_isolation_level = kReadCommitted, tp_read_only = False, tp_deferrable = False\<rparr>"

type_synonym text_op = "string \<Rightarrow> string \<Rightarrow> string option"
type_synonym text_files = "(string \<times> string) list"

record TwoPhaseStore =
  StateList :: "TwoPhaseState list"
  Dir :: string
  disk :: "text_files option"

definition two_phase_start :: "string \<Rightarrow> TwoPhaseStore" where
  "two_phase_start d = \<lparr>StateList = [], Dir = d, disk = None\<rparr>"

subsection \<open>Files\<close>

text \<open>\<open>snprintf("%016X", xid)\<close>.\<close>

definition FormatXidHex :: "TransactionId \<Rightarrow> string" where
  "FormatXidHex xid = (let ds = hex_digits (unat xid) in replicate (16 - length ds) (CHR ''0'') @ ds)"

abbreviation NL :: char where "NL \<equiv> CHR 0x0A"

definition state_text :: "TwoPhaseState \<Rightarrow> string" where
  "state_text s =
     ''gid='' @ tp_gid s @ [NL] @
     ''xid='' @ dec_string (unat (tp_xid s)) @ [NL] @
     ''isolation='' @ IsolationLevelName (tp_isolation_level s) @ [NL] @
     ''read_only='' @ (if tp_read_only s then ''1'' else ''0'') @ [NL] @
     ''deferrable='' @ (if tp_deferrable s then ''1'' else ''0'') @ [NL]"

definition WriteStateFile :: "text_op \<Rightarrow> TwoPhaseState \<Rightarrow> TwoPhaseStore \<Rightarrow> TwoPhaseStore" where
  "WriteStateFile wr s st =
    (if Dir st = [] then st
     else let ents = (case disk st of None \<Rightarrow> [] | Some ents \<Rightarrow> ents);
              name = FormatXidHex (tp_xid s)
       in st\<lparr>disk := Some (case wr name (state_text s) of
              None \<Rightarrow> ents
            | Some c \<Rightarrow> AList.update name c ents)\<rparr>)"

definition RemoveStateFile :: "TransactionId \<Rightarrow> TwoPhaseStore \<Rightarrow> TwoPhaseStore" where
  "RemoveStateFile xid st =
    (if Dir st = [] then st
     else st\<lparr>disk := map_option (AList.delete (FormatXidHex xid)) (disk st)\<rparr>)"

text \<open>
  \<open>strtoul(s, nullptr, 10)\<close>: white space, a sign, digits; the value saturates at
  \<open>ULONG_MAX\<close>, and a minus sign negates modulo 2^64.
\<close>

definition strtoul :: "string \<Rightarrow> nat" where
  "strtoul str =
    (let s = dropWhile is_space str;
         neg = (s \<noteq> [] \<and> hd s = CHR ''-'');
         s1 = (if s \<noteq> [] \<and> (hd s = CHR ''-'' \<or> hd s = CHR ''+'') then tl s else s);
         v = dec_number (takeWhile is_digit s1)
     in if v \<ge> 2 ^ 64 then 2 ^ 64 - 1 else if neg then (2 ^ 64 - v) mod 2 ^ 64 else v)"

definition ParseLine :: "string \<Rightarrow> TwoPhaseState \<Rightarrow> bool \<times> TwoPhaseState" where
  "ParseLine line s =
    (if CHR ''='' \<notin> set line then (False, s)
     else let key = takeWhile (\<lambda>c. c \<noteq> CHR ''='') line;
              val = drop (length key + 1) line
       in (True,
           if key = ''gid'' then s\<lparr>tp_gid := val\<rparr>
           else if key = ''xid'' then s\<lparr>tp_xid := of_nat (strtoul val)\<rparr>
           else if key = ''isolation'' then s\<lparr>tp_isolation_level := ParseIsolationLevelName val\<rparr>
           else if key = ''read_only'' then s\<lparr>tp_read_only := (val = ''1'')\<rparr>
           else if key = ''deferrable'' then s\<lparr>tp_deferrable := (val = ''1'')\<rparr>
           else s))"

text \<open>The lines that repeated \<open>std::getline\<close> delivers.\<close>

fun getlines :: "string \<Rightarrow> string list" where
  "getlines [] = []"
| "getlines (c # cs) =
    (if c = NL then [] # getlines cs
     else case getlines cs of [] \<Rightarrow> [[c]] | l # ls \<Rightarrow> (c # l) # ls)"

definition ReadStateFile :: "string option \<Rightarrow> TwoPhaseState \<Rightarrow> bool \<times> TwoPhaseState" where
  "ReadStateFile file s = (case file of
      None \<Rightarrow> (False, s)
    | Some txt \<Rightarrow> (True, foldl (\<lambda>s line. snd (ParseLine line s)) s (getlines txt)))"

subsection \<open>Operations\<close>

text \<open>The message is printed into a buffer of 256 bytes.\<close>

definition gid_message :: "string \<Rightarrow> string \<Rightarrow> string \<Rightarrow> pg_error" where
  "gid_message pre gid post =
    Ereport (take 255 (pre @ takeWhile (\<lambda>c. c \<noteq> CHR 0x00) gid @ post))"

definition SaveTwoPhaseState :: "text_op \<Rightarrow> TwoPhaseState \<Rightarrow> TwoPhaseStore \<Rightarrow> unit result \<times> TwoPhaseStore" where
  "SaveTwoPhaseState wr state st =
    (if list_ex (\<lambda>s. tp_gid s = tp_gid state) (StateList st)
     then (Inl (gid_message ''transaction identifier \"'' (tp_gid state) ''\" is already in use''), st)
     else (Inr (), WriteStateFile wr state (st\<lparr>StateList := StateList st @ [state]\<rparr>)))"

fun LookupTwoPhaseState :: "string \<Rightarrow> TwoPhaseState list \<Rightarrow> TwoPhaseState option" where
  "LookupTwoPhaseState gid [] = None"
| "LookupTwoPhaseState gid (s # ss) = (if tp_gid s = gid then Some s else LookupTwoPhaseState gid ss)"

fun erase_gid :: "string \<Rightarrow> TwoPhaseState list \<Rightarrow> TwoPhaseState list" where
  "erase_gid gid [] = []"
| "erase_gid gid (s # ss) = (if tp_gid s = gid then ss else s # erase_gid gid ss)"

definition RemoveTwoPhaseState :: "string \<Rightarrow> TwoPhaseStore \<Rightarrow> bool \<times> TwoPhaseStore" where
  "RemoveTwoPhaseState gid st = (case LookupTwoPhaseState gid (StateList st) of
      None \<Rightarrow> (False, st)
    | Some s \<Rightarrow>
        let st1 = RemoveStateFile (tp_xid s) st
        in (True, st1\<lparr>StateList := erase_gid gid (StateList st1)\<rparr>))"

definition CommitPreparedTransaction ::
  "string \<Rightarrow> TwoPhaseStore \<Rightarrow> ClogState \<Rightarrow> bool result \<times> TwoPhaseStore \<times> ClogState" where
  "CommitPreparedTransaction gid st clog = (case LookupTwoPhaseState gid (StateList st) of
      None \<Rightarrow> (Inl (gid_message ''prepared transaction with identifier \"'' gid ''\" does not exist''), st, clog)
    | Some s \<Rightarrow> (case TransactionIdCommit (tp_xid s) clog of
          (Inl e, clog') \<Rightarrow> (Inl e, st, clog')
        | (Inr _, clog') \<Rightarrow> (Inr True, snd (RemoveTwoPhaseState gid st), clog')))"

definition RollbackPreparedTransaction ::
  "string \<Rightarrow> TwoPhaseStore \<Rightarrow> ClogState \<Rightarrow> bool result \<times> TwoPhaseStore \<times> ClogState" where
  "RollbackPreparedTransaction gid st clog = (case LookupTwoPhaseState gid (StateList st) of
      None \<Rightarrow> (Inl (gid_message ''prepared transaction with identifier \"'' gid ''\" does not exist''), st, clog)
    | Some s \<Rightarrow> (case TransactionIdAbort (tp_xid s) clog of
          (Inl e, clog') \<Rightarrow> (Inl e, st, clog')
        | (Inr _, clog') \<Rightarrow> (Inr True, snd (RemoveTwoPhaseState gid st), clog')))"

definition NumTwoPhaseStates :: "TwoPhaseStore \<Rightarrow> nat" where
  "NumTwoPhaseStates st = length (StateList st)"

definition SetTwoPhaseDirectory :: "string \<Rightarrow> TwoPhaseStore \<Rightarrow> TwoPhaseStore" where
  "SetTwoPhaseDirectory dir st = st\<lparr>Dir := dir\<rparr>"

definition load_entry :: "text_op \<Rightarrow> TwoPhaseState list \<Rightarrow> string \<times> string \<Rightarrow> TwoPhaseState list" where
  "load_entry rd ss ent =
    (let (ok, s) = ReadStateFile (rd (fst ent) (snd ent)) TwoPhaseState_default
     in if ok \<and> tp_gid s \<noteq> [] then ss @ [s] else ss)"

definition LoadTwoPhaseFiles :: "text_op \<Rightarrow> TwoPhaseStore \<Rightarrow> TwoPhaseStore" where
  "LoadTwoPhaseFiles rd st =
    (let st1 = st\<lparr>StateList := []\<rparr>
     in if Dir st1 = [] then st1
        else case disk st1 of
            None \<Rightarrow> st1
          | Some ents \<Rightarrow> st1\<lparr>StateList := foldl (load_entry rd) [] ents\<rparr>)"

definition FlushTwoPhaseFiles :: "text_op \<Rightarrow> TwoPhaseStore \<Rightarrow> TwoPhaseStore" where
  "FlushTwoPhaseFiles wr st =
    (if Dir st = [] \<or> disk st = None then st
     else foldl (\<lambda>st s. WriteStateFile wr s st) st (StateList st))"

definition ResetTwoPhaseState :: "TwoPhaseStore \<Rightarrow> TwoPhaseStore" where
  "ResetTwoPhaseState st = st\<lparr>StateList := [], disk := (if Dir st \<noteq> [] then None else disk st)\<rparr>"

subsection \<open>Reading back a file\<close>

lemma getlines_line: "NL \<notin> set l \<Longrightarrow> getlines (l @ NL # r) = l # getlines r"
  by (induction l) auto

lemma ParseLine_field:
  assumes "CHR ''='' \<notin> set key"
  shows "ParseLine (key @ CHR ''='' # val) s = (True,
      if key = ''gid'' then s\<lparr>tp_gid := val\<rparr>
      else if key = ''xid'' then s\<lparr>tp_xid := of_nat (strtoul val)\<rparr>
      else if key = ''isolation'' then s\<lparr>tp_isolation_level := ParseIsolationLevelName val\<rparr>
      else if key = ''read_only'' then s\<lparr>tp_read_only := (val = ''1'')\<rparr>
      else if key = ''deferrable'' then s\<lparr>tp_deferrable := (val = ''1'')\<rparr>
      else s)"
proof -
  have "takeWhile (\<lambda>c. c \<noteq> CHR ''='') (key @ CHR ''='' # val) = key"
    using assms by (subst takeWhile_append2) auto
  then show ?thesis by (simp add: ParseLine_def)
qed

lemma is_digit_not_space: "is_digit c \<Longrightarrow> \<not> is_space c \<and> c \<noteq> CHR ''-'' \<and> c \<noteq> CHR ''+'' \<and> c \<noteq> NL"
  by (auto simp: is_digit_def is_space_def Let_def)

lemma strtoul_dec_string: "n < 2 ^ 64 \<Longrightarrow> strtoul (dec_string n) = n"
proof -
  assume n: "n < 2 ^ 64"
  let ?s = "dec_string n"
  have hd: "is_digit (hd ?s)" using dec_string_digits [of "hd ?s" n] dec_string_nonempty by simp
  then have "dropWhile is_space ?s = ?s"
    using is_digit_not_space dec_string_nonempty [of n] by (cases ?s) auto
  moreover have t: "takeWhile is_digit ?s = ?s" using dec_string_digits by (simp add: takeWhile_eq_all_conv)
  ultimately show ?thesis
    using n is_digit_not_space [OF hd] by (simp add: strtoul_def dec_number_dec_string Let_def t del: takeWhile_eq_all_conv)
qed

lemma Parse_IsolationLevelName: "ParseIsolationLevelName (IsolationLevelName l) = l"
  by (cases l) (simp_all add: ParseIsolationLevelName_def IsolationLevelName_def)

lemma NL_IsolationLevelName: "NL \<notin> set (IsolationLevelName l)"
  by (cases l) (simp_all add: IsolationLevelName_def)

lemma NL_dec_string: "NL \<notin> set (dec_string n)"
  using dec_string_digits is_digit_not_space by blast

lemma read_state_text:
  assumes "NL \<notin> set (tp_gid s)"
  shows "ReadStateFile (Some (state_text s)) d = (True, s)"
proof -
  let ?l1 = "''gid'' @ CHR ''='' # tp_gid s"
  let ?l2 = "''xid'' @ CHR ''='' # dec_string (unat (tp_xid s))"
  let ?l3 = "''isolation'' @ CHR ''='' # IsolationLevelName (tp_isolation_level s)"
  let ?l4 = "''read_only'' @ CHR ''='' # (if tp_read_only s then ''1'' else ''0'')"
  let ?l5 = "''deferrable'' @ CHR ''='' # (if tp_deferrable s then ''1'' else ''0'')"
  have "state_text s = ?l1 @ NL # ?l2 @ NL # ?l3 @ NL # ?l4 @ NL # ?l5 @ NL # []"
    by (simp add: state_text_def)
  moreover have "NL \<notin> set ?l1" "NL \<notin> set ?l2" "NL \<notin> set ?l3" "NL \<notin> set ?l4" "NL \<notin> set ?l5"
    using assms NL_dec_string NL_IsolationLevelName by auto
  ultimately have lines: "getlines (state_text s) = [?l1, ?l2, ?l3, ?l4, ?l5]"
    by (simp only: getlines_line getlines.simps simp_thms)
  have "unat (tp_xid s) < 2 ^ 64" using unsigned_less [where ?'a = nat, of "tp_xid s"] by simp
  then have "strtoul (dec_string (unat (tp_xid s))) = unat (tp_xid s)" by (rule strtoul_dec_string)
  then show ?thesis unfolding ReadStateFile_def option.case lines foldl_Cons foldl_Nil
    by (simp add: ParseLine_field Parse_IsolationLevelName del: append_Cons append_Nil)
qed

lemma inj_FormatXidHex: "FormatXidHex x = FormatXidHex y \<longleftrightarrow> x = y"
proof -
  have "hex_number 0 (FormatXidHex z) = Some (unat z)" for z
    by (simp add: FormatXidHex_def hex_number_zeros hex_digits_val Let_def)
  then show ?thesis by (metis option.inject word_unat_eq_iff)
qed

subsection \<open>Durability\<close>

text \<open>
  The life of the store: preparing with a usable identifier and a transaction identifier that no
  other prepared transaction has, finishing by commit or rollback, flushing, and a restart that
  reads the directory into an empty list. Files are read back as they were written.
\<close>

definition gid_ok :: "string \<Rightarrow> bool" where
  "gid_ok gid \<longleftrightarrow> gid \<noteq> [] \<and> NL \<notin> set gid"

inductive tp_run :: "string \<Rightarrow> TwoPhaseStore \<Rightarrow> bool" for d where
  tp_start: "tp_run d (two_phase_start d)"
| tp_save: "tp_run d st \<Longrightarrow> gid_ok (tp_gid s) \<Longrightarrow> tp_xid s \<notin> tp_xid ` set (StateList st) \<Longrightarrow>
    tp_run d (snd (SaveTwoPhaseState (\<lambda>_. Some) s st))"
| tp_commit: "tp_run d st \<Longrightarrow> tp_run d (fst (snd (CommitPreparedTransaction gid st clog)))"
| tp_rollback: "tp_run d st \<Longrightarrow> tp_run d (fst (snd (RollbackPreparedTransaction gid st clog)))"
| tp_flush: "tp_run d st \<Longrightarrow> tp_run d (FlushTwoPhaseFiles (\<lambda>_. Some) st)"
| tp_restart: "tp_run d st \<Longrightarrow> tp_run d (LoadTwoPhaseFiles (\<lambda>_. Some) (st\<lparr>StateList := []\<rparr>))"

definition entry :: "TwoPhaseState \<Rightarrow> string \<times> string" where
  "entry s = (FormatXidHex (tp_xid s), state_text s)"

definition tp_inv :: "string \<Rightarrow> TwoPhaseStore \<Rightarrow> bool" where
  "tp_inv d st \<longleftrightarrow> Dir st = d \<and> distinct (map tp_gid (StateList st)) \<and> distinct (map tp_xid (StateList st)) \<and>
    (\<forall>s \<in> set (StateList st). gid_ok (tp_gid s)) \<and>
    (case disk st of None \<Rightarrow> [] | Some ents \<Rightarrow> ents) = map entry (StateList st)"

lemma update_fresh: "k \<notin> fst ` set al \<Longrightarrow> AList.update k v al = al @ [(k, v)]"
  by (induction al) auto

lemma update_same: "distinct (map fst al) \<Longrightarrow> (k, v) \<in> set al \<Longrightarrow> AList.update k v al = al"
proof (induction al)
  case (Cons a al)
  then show ?case by (cases a) force
qed simp

lemma erase_gid_filter: "distinct (map tp_gid ss) \<Longrightarrow> erase_gid g ss = filter (\<lambda>s. tp_gid s \<noteq> g) ss"
proof (induction ss)
  case (Cons a ss)
  show ?case
  proof (cases "tp_gid a = g")
    case True
    then have "\<forall>s \<in> set ss. tp_gid s \<noteq> g" using Cons.prems by (auto simp: image_iff)
    then show ?thesis using True by simp
  next
    case False
    then show ?thesis using Cons by simp
  qed
qed simp

lemma Lookup_Some: "LookupTwoPhaseState g ss = Some s \<Longrightarrow> s \<in> set ss \<and> tp_gid s = g"
  by (induction ss) (auto split: if_splits)

lemma Lookup_None: "LookupTwoPhaseState g ss = None \<longleftrightarrow> g \<notin> tp_gid ` set ss"
  by (induction ss) auto

lemma Lookup_in: "distinct (map tp_gid ss) \<Longrightarrow> s \<in> set ss \<Longrightarrow> LookupTwoPhaseState (tp_gid s) ss = Some s"
  by (induction ss) auto

lemma distinct_entry_names:
  "distinct (map tp_xid ss) \<Longrightarrow> distinct (map fst (map entry ss))"
  by (induction ss) (auto simp: entry_def inj_FormatXidHex)

lemma delete_entry:
  assumes "distinct (map tp_gid ss)" "distinct (map tp_xid ss)" "s \<in> set ss"
  shows "AList.delete (FormatXidHex (tp_xid s)) (map entry ss) = map entry (erase_gid (tp_gid s) ss)"
proof -
  have "tp_xid s = tp_xid s' \<longleftrightarrow> tp_gid s' = tp_gid s" if "s' \<in> set ss" for s'
    using assms that by (auto simp: distinct_map dest: inj_onD)
  then show ?thesis unfolding AList.delete_eq erase_gid_filter [OF assms(1)]
    by (simp add: filter_map comp_def entry_def inj_FormatXidHex cong: filter_cong)
qed

lemma tp_inv_remove: "tp_inv d st \<Longrightarrow> d \<noteq> [] \<Longrightarrow> tp_inv d (snd (RemoveTwoPhaseState gid st))"
proof (cases "LookupTwoPhaseState gid (StateList st)")
  case (Some s)
  assume inv: "tp_inv d st" and d: "d \<noteq> []"
  note s = Lookup_Some [OF Some]
  have "AList.delete (FormatXidHex (tp_xid s)) (map entry (StateList st)) = map entry (erase_gid gid (StateList st))"
    using delete_entry [of "StateList st" s] inv s by (simp add: tp_inv_def)
  moreover have "erase_gid gid (StateList st) = filter (\<lambda>s. tp_gid s \<noteq> gid) (StateList st)"
    using inv erase_gid_filter by (simp add: tp_inv_def)
  ultimately show ?thesis using inv d Some
    by (auto simp: RemoveTwoPhaseState_def RemoveStateFile_def tp_inv_def distinct_map_filter
        split: option.splits)
qed (simp add: RemoveTwoPhaseState_def)

lemma load_entries:
  assumes "\<forall>s \<in> set ss. gid_ok (tp_gid s)"
  shows "foldl (load_entry (\<lambda>_. Some)) acc (map entry ss) = acc @ ss"
  using assms
proof (induction ss arbitrary: acc)
  case (Cons s ss)
  then have "load_entry (\<lambda>_. Some) acc (entry s) = acc @ [s]"
    by (simp add: load_entry_def entry_def read_state_text gid_ok_def)
  then show ?case using Cons by simp
qed simp

lemma load_inv:
  assumes "tp_inv d st" "d \<noteq> []"
  shows "LoadTwoPhaseFiles (\<lambda>_. Some) (st\<lparr>StateList := ss\<rparr>) = st"
  using assms load_entries [of "StateList st" "[]"]
  by (cases "disk st") (auto simp: LoadTwoPhaseFiles_def tp_inv_def Let_def)

lemma flush_inv:
  assumes "tp_inv d st"
  shows "FlushTwoPhaseFiles (\<lambda>_. Some) st = st"
proof (cases "Dir st = [] \<or> disk st = None")
  case False
  then obtain ents where e: "disk st = Some ents" "ents = map entry (StateList st)" "Dir st \<noteq> []"
    using assms by (auto simp: tp_inv_def)
  have "WriteStateFile (\<lambda>_. Some) s st = st" if "s \<in> set (StateList st)" for s
  proof -
    have "AList.update (FormatXidHex (tp_xid s)) (state_text s) ents = ents"
      using that assms distinct_entry_names [of "StateList st"]
      by (intro update_same) (auto simp: e(2) tp_inv_def entry_def)
    then show ?thesis using e(1,3) by (simp add: WriteStateFile_def)
  qed
  then have "set ss \<subseteq> set (StateList st) \<Longrightarrow> foldl (\<lambda>st s. WriteStateFile (\<lambda>_. Some) s st) st ss = st" for ss
    by (induction ss) auto
  then show ?thesis by (simp add: FlushTwoPhaseFiles_def)
qed (auto simp: FlushTwoPhaseFiles_def)

lemma save_inv:
  assumes "tp_inv d st" "d \<noteq> []" "gid_ok (tp_gid s)" "tp_xid s \<notin> tp_xid ` set (StateList st)"
  shows "tp_inv d (snd (SaveTwoPhaseState (\<lambda>_. Some) s st))"
proof (cases "list_ex (\<lambda>s'. tp_gid s' = tp_gid s) (StateList st)")
  case True
  then show ?thesis using assms(1) by (simp add: SaveTwoPhaseState_def)
next
  case False
  have "FormatXidHex (tp_xid s) \<notin> fst ` set (map entry (StateList st))"
    using assms(4) by (auto simp: entry_def inj_FormatXidHex)
  then have "AList.update (FormatXidHex (tp_xid s)) (state_text s) (map entry (StateList st)) =
      map entry (StateList st) @ [entry s]"
    using update_fresh [of "FormatXidHex (tp_xid s)" "map entry (StateList st)" "state_text s"]
    by (simp only: entry_def [of s] not_False_eq_True)
  then show ?thesis using False assms
    by (auto simp: SaveTwoPhaseState_def WriteStateFile_def tp_inv_def list_ex_iff Let_def)
qed

lemma tp_run_inv: "tp_run d st \<Longrightarrow> d \<noteq> [] \<Longrightarrow> tp_inv d st"
proof (induction rule: tp_run.induct)
  case tp_start
  then show ?case by (simp add: tp_inv_def two_phase_start_def)
next
  case (tp_commit st gid clog)
  then show ?case using tp_inv_remove [of d st gid]
    by (auto simp: CommitPreparedTransaction_def split: option.splits prod.splits sum.splits)
next
  case (tp_rollback st gid clog)
  then show ?case using tp_inv_remove [of d st gid]
    by (auto simp: RollbackPreparedTransaction_def split: option.splits prod.splits sum.splits)
qed (simp_all add: save_inv load_inv flush_inv)

subsection \<open>Properties\<close>


definition tp_example :: TwoPhaseState where
  "tp_example = \<lparr>tp_gid = ''a=b'', tp_xid = 77, tp_isolation_level = kSerializable,
     tp_read_only = True, tp_deferrable = False\<rparr>"


text \<open>
  C30: Finishing a prepared transaction. With an identifier that is prepared with a normal
  transaction identifier inside the log, \<open>COMMIT PREPARED\<close> records the transaction as
  committed and \<open>ROLLBACK PREPARED\<close> as aborted, no other transaction changes its status, and
  exactly this identifier disappears from the list. With an unknown identifier both report an
  error and change nothing, as does preparing under an identifier that is already in use.
\<close>

theorem finish_prepared:
  assumes run: "tp_run d st" "d \<noteq> []" and clog: "clog_ready clog"
  shows "(gid \<notin> tp_gid ` set (StateList st) \<longrightarrow>
      (\<exists>e. CommitPreparedTransaction gid st clog = (Inl e, st, clog) \<and>
           RollbackPreparedTransaction gid st clog = (Inl e, st, clog))) \<and>
    (s \<in> set (StateList st) \<and> tp_gid s = gid \<longrightarrow>
      (\<exists>e. SaveTwoPhaseState wr (s'\<lparr>tp_gid := gid\<rparr>) st = (Inl e, st)) \<and>
      (clog_recordable (tp_xid s) \<longrightarrow>
        (case CommitPreparedTransaction gid st clog of (r, st', clog') \<Rightarrow>
          r = Inr True \<and> clog_status clog' = (clog_status clog)(tp_xid s := kCommitted) \<and>
          StateList st' = filter (\<lambda>s. tp_gid s \<noteq> gid) (StateList st)) \<and>
        (case RollbackPreparedTransaction gid st clog of (r, st', clog') \<Rightarrow>
          r = Inr True \<and> clog_status clog' = (clog_status clog)(tp_xid s := kAborted) \<and>
          StateList st' = filter (\<lambda>s. tp_gid s \<noteq> gid) (StateList st))))"
proof -
  have inv: "tp_inv d st" by (rule tp_run_inv [OF run])
  have "\<exists>e. CommitPreparedTransaction gid st clog = (Inl e, st, clog) \<and>
      RollbackPreparedTransaction gid st clog = (Inl e, st, clog)"
    if "gid \<notin> tp_gid ` set (StateList st)"
    using Lookup_None [of gid "StateList st"] that
    by (simp add: CommitPreparedTransaction_def RollbackPreparedTransaction_def)
  moreover have "\<exists>e. SaveTwoPhaseState wr (s'\<lparr>tp_gid := gid\<rparr>) st = (Inl e, st)"
    if "s \<in> set (StateList st)" "tp_gid s = gid"
    using that by (auto simp: SaveTwoPhaseState_def list_ex_iff)
  moreover have
    "case CommitPreparedTransaction gid st clog of (r, st', clog') \<Rightarrow>
      r = Inr True \<and> clog_status clog' = (clog_status clog)(tp_xid s := kCommitted) \<and>
      StateList st' = filter (\<lambda>s. tp_gid s \<noteq> gid) (StateList st)"
    "case RollbackPreparedTransaction gid st clog of (r, st', clog') \<Rightarrow>
      r = Inr True \<and> clog_status clog' = (clog_status clog)(tp_xid s := kAborted) \<and>
      StateList st' = filter (\<lambda>s. tp_gid s \<noteq> gid) (StateList st)"
    if s: "s \<in> set (StateList st)" "tp_gid s = gid" and rec: "clog_recordable (tp_xid s)"
  proof -
    have l: "LookupTwoPhaseState gid (StateList st) = Some s"
      using inv s Lookup_in by (auto simp: tp_inv_def)
    have "StateList (snd (RemoveTwoPhaseState gid st)) = filter (\<lambda>s. tp_gid s \<noteq> gid) (StateList st)"
      using l inv erase_gid_filter by (simp add: RemoveTwoPhaseState_def RemoveStateFile_def tp_inv_def)
    moreover have "TransactionIdIsNormal (tp_xid s)" using rec by (simp add: clog_recordable_def)
    moreover note clog_status_set_status [OF clog rec]
    ultimately show
      "case CommitPreparedTransaction gid st clog of (r, st', clog') \<Rightarrow>
        r = Inr True \<and> clog_status clog' = (clog_status clog)(tp_xid s := kCommitted) \<and>
        StateList st' = filter (\<lambda>s. tp_gid s \<noteq> gid) (StateList st)"
      "case RollbackPreparedTransaction gid st clog of (r, st', clog') \<Rightarrow>
        r = Inr True \<and> clog_status clog' = (clog_status clog)(tp_xid s := kAborted) \<and>
        StateList st' = filter (\<lambda>s. tp_gid s \<noteq> gid) (StateList st)"
      using l by (simp_all add: CommitPreparedTransaction_def RollbackPreparedTransaction_def
        TransactionIdCommit_def TransactionIdAbort_def)
  qed
  ultimately show ?thesis by (intro conjI impI) simp_all
qed

lemma finish_prepared_witness:
  "let st = snd (SaveTwoPhaseState (\<lambda>_. Some) tp_example (two_phase_start ''pg_twophase''));
       (r, st', clog') = CommitPreparedTransaction ''a=b'' st (clog_boot ''pg_xact'')
   in tp_run ''pg_twophase'' st \<and> r = Inr True \<and> clog_status clog' 77 = kCommitted \<and> StateList st' = []"
proof -
  let ?st = "snd (SaveTwoPhaseState (\<lambda>_. Some) tp_example (two_phase_start ''pg_twophase''))"
  have run: "tp_run ''pg_twophase'' ?st"
    by (rule tp_save [OF tp_start]) (simp_all add: gid_ok_def tp_example_def two_phase_start_def)
  have l: "StateList ?st = [tp_example]"
    by (simp add: SaveTwoPhaseState_def two_phase_start_def WriteStateFile_def)
  have g: "tp_gid tp_example = ''a=b''" "tp_xid tp_example = 77" by (simp_all add: tp_example_def)
  have "clog_ready (clog_boot ''pg_xact'')" by simp
  moreover have "clog_recordable 77"
    by (simp add: clog_recordable_def kMaxXids_def TransactionIdIsNormal_def kFirstNormalTransactionId_def)
  ultimately show ?thesis
    using finish_prepared [OF run, of "clog_boot ''pg_xact''" "''a=b''" tp_example "\<lambda>_. Some" tp_example] run l g
    by (auto split: prod.splits)
qed

text \<open>
  The file format has no quoting: a global identifier with a line break is read back as another
  one when what follows the line break looks like a field.
\<close>

lemma gid_line_break_changes_gid:
  assumes "NL \<notin> set g" "NL \<notin> set h"
  shows "ReadStateFile (Some (state_text (s\<lparr>tp_gid := g @ NL # ''gid='' @ h\<rparr>))) d = (True, s\<lparr>tp_gid := h\<rparr>)"
proof -
  let ?s = "s\<lparr>tp_gid := h\<rparr>"
  have "state_text (s\<lparr>tp_gid := g @ NL # ''gid='' @ h\<rparr>) = (''gid'' @ CHR ''='' # g) @ NL # state_text ?s"
    by (simp add: state_text_def)
  then have "getlines (state_text (s\<lparr>tp_gid := g @ NL # ''gid='' @ h\<rparr>)) = (''gid'' @ CHR ''='' # g) # getlines (state_text ?s)"
    using getlines_line [of "''gid'' @ CHR ''='' # g" "state_text ?s"] assms(1) by simp
  then show ?thesis using read_state_text [of ?s "snd (ParseLine (''gid'' @ CHR ''='' # g) d)"] assms(2)
    by (simp add: ReadStateFile_def)
qed

end
