(* ===== verification/Xact.thy ===== *)
theory Xact
  imports ProcArray TwoPhase
begin

text \<open>
  Transactions of one backend (\<open>src/transaction/xact.cpp\<close>) and the state of its snapshot
  manager (\<open>src/transaction/snapshot.cpp\<close>).

  \<open>BackendState\<close> holds the static variables of both files together with the parts of the
  server they change: the commit log, the shared arrays of backend slots, the prepared
  transactions. The stack of transaction states is a list whose head is the current
  (sub)transaction; the parent of an element is the next one, so the last element is the
  top-level transaction. Snapshots are reached through pointers: \<open>snaps\<close> is the memory of
  the snapshots allocated so far, and a pointer is an index into it.

  The calls into the catalog, its caches and the statistics collector are recorded in
  \<open>calls\<close>, in order, together with the warnings; what they do is not modelled.
  \<open>has_catalog\<close> and \<open>has_syscache\<close> tell whether \<open>GetCatalog()\<close> and
  \<open>GetSysCache()\<close> return an object.
\<close>

subsection \<open>State\<close>

type_synonym SubTransactionId = u32
type_synonym CommandId = u32

definition kInvalidSubTransactionId :: SubTransactionId where "kInvalidSubTransactionId = 0"
definition kTopSubTransactionId :: SubTransactionId where "kTopSubTransactionId = 1"
definition kFirstCommandId :: CommandId where "kFirstCommandId = 0"
definition kInvalidCommandId :: CommandId where "kInvalidCommandId = 0xFFFFFFFF"

datatype TransState = TS_kDefault | TS_kStart | TS_kInProgress | TS_kCommit | TS_kAbort | TS_kPrepare

datatype TBlockState =
    TB_kDefault | TB_kStarted | TB_kBegin | TB_kInProgress | TB_kEnd | TB_kAbort | TB_kAbortEnd
  | TB_kAbortPending | TB_kSubBegin | TB_kSubInProgress | TB_kSubRelease | TB_kSubCommit
  | TB_kSubAbort | TB_kSubAbortPending | TB_kSubRestart | TB_kSubAbortRestart

record TransactionStateData =
  transaction_id :: TransactionId
  sub_transaction_id :: SubTransactionId
  sp_name :: string
  savepoint_level :: int
  trans_state :: TransState
  block_state :: TBlockState
  nesting_level :: int
  command_id :: CommandId
  command_id_before_subxact :: CommandId
  isolation_level :: IsolationLevel
  read_only :: bool
  deferrable :: bool

definition TransactionStateData_default :: TransactionStateData where
  "TransactionStateData_default = \<lparr>transaction_id = kInvalidTransactionId,
    sub_transaction_id = kInvalidSubTransactionId, sp_name = [], savepoint_level = 0,
    trans_state = TS_kDefault, block_state = TB_kDefault, nesting_level = 0,
    command_id = kFirstCommandId, command_id_before_subxact = kFirstCommandId,
    isolation_level = kReadCommitted, read_only = False, deferrable = False\<rparr>"

datatype SnapshotType = SN_kMVCC | SN_kSelf | SN_kAny | SN_kToast

record SnapshotData =
  snapshot_type :: SnapshotType
  snap_xmin :: TransactionId
  snap_xmax :: TransactionId
  snap_xip :: "TransactionId list"
  snapshot_xid :: TransactionId
  snap_curcid :: CommandId
  taken_during_recovery :: bool

definition SnapshotData_default :: SnapshotData where
  "SnapshotData_default = \<lparr>snapshot_type = SN_kMVCC, snap_xmin = kInvalidTransactionId,
    snap_xmax = kInvalidTransactionId, snap_xip = [], snapshot_xid = kInvalidTransactionId,
    snap_curcid = kFirstCommandId, taken_during_recovery = False\<rparr>"

datatype outside_call =
    CatalogTakeSnapshot | CatalogCommitDirty | CatalogRestoreSnapshot | CatalogDiscardSnapshot
  | ResetRelcache | SysCacheInvalidate | ReportCommitCurrentDb | ReportAbortCurrentDb
  | InvalidateAllVisibilityCaches | Warning string

record BackendState =
  StateStack :: "TransactionStateData list"
  NextSubTransactionId :: SubTransactionId
  xclog :: ClogState
  xprocs :: ProcShared
  xlocal :: ProcLocal
  snaps :: "SnapshotData list"
  ActiveSnapshotStack :: "nat list"
  active_snapshot :: "nat option"
  catalog_snapshot :: "nat option"
  xtwophase :: TwoPhaseStore
  has_catalog :: bool
  has_syscache :: bool
  calls :: "outside_call list"

subsection \<open>The stack\<close>

definition CurrentState :: "BackendState \<Rightarrow> TransactionStateData option" where
  "CurrentState st = (case StateStack st of [] \<Rightarrow> None | s # _ \<Rightarrow> Some s)"

text \<open>Assignments through the pointer to the current element and to the top-level one.\<close>

definition upd_current :: "(TransactionStateData \<Rightarrow> TransactionStateData) \<Rightarrow> BackendState \<Rightarrow> BackendState" where
  "upd_current f st =
    st\<lparr>StateStack := (case StateStack st of [] \<Rightarrow> [] | s # rest \<Rightarrow> f s # rest)\<rparr>"

fun upd_last :: "('a \<Rightarrow> 'a) \<Rightarrow> 'a list \<Rightarrow> 'a list" where
  "upd_last f [] = []"
| "upd_last f [x] = [f x]"
| "upd_last f (x # y # xs) = x # upd_last f (y # xs)"

definition upd_top :: "(TransactionStateData \<Rightarrow> TransactionStateData) \<Rightarrow> BackendState \<Rightarrow> BackendState" where
  "upd_top f st = st\<lparr>StateStack := upd_last f (StateStack st)\<rparr>"

definition call_out :: "outside_call \<Rightarrow> BackendState \<Rightarrow> BackendState" where
  "call_out c st = st\<lparr>calls := calls st @ [c]\<rparr>"

definition PushState :: "BackendState \<Rightarrow> BackendState" where
  "PushState st =
    (let stack = StateStack st;
         state = TransactionStateData_default\<lparr>nesting_level := int (length stack) + 1\<rparr>;
         state' = (case stack of
             [] \<Rightarrow> state
           | p # _ \<Rightarrow> state\<lparr>command_id := command_id p, command_id_before_subxact := command_id p\<rparr>)
     in st\<lparr>StateStack := state' # stack\<rparr>)"

definition PopState :: "BackendState \<Rightarrow> BackendState" where
  "PopState st = st\<lparr>StateStack := (case StateStack st of [] \<Rightarrow> [] | _ # rest \<Rightarrow> rest)\<rparr>"

definition ResetTransactionSnapshot :: "BackendState \<Rightarrow> BackendState" where
  "ResetTransactionSnapshot st =
    st\<lparr>ActiveSnapshotStack := [], active_snapshot := None, catalog_snapshot := None\<rparr>"

definition GetActiveSnapshot :: "BackendState \<Rightarrow> nat option" where
  "GetActiveSnapshot st = (case ActiveSnapshotStack st of [] \<Rightarrow> None | p # _ \<Rightarrow> Some p)"

definition publish_xid :: "TransactionId \<Rightarrow> BackendState \<Rightarrow> BackendState" where
  "publish_xid xid st = st\<lparr>xprocs := set_my_xid xid (xlocal st) (xprocs st)\<rparr>"

definition StartTransaction :: "BackendState \<Rightarrow> BackendState" where
  "StartTransaction st =
    (let st1 = upd_current (\<lambda>s. s\<lparr>trans_state := TS_kInProgress, block_state := TB_kStarted,
           transaction_id := kInvalidTransactionId, sub_transaction_id := kTopSubTransactionId,
           command_id := kFirstCommandId\<rparr>) (PushState st)
     in if has_catalog st1 then call_out CatalogTakeSnapshot st1 else st1)"

definition CommitTransaction :: "BackendState \<Rightarrow> unit result \<times> BackendState" where
  "CommitTransaction st = (case CurrentState st of
      None \<Rightarrow> (Inr (), st)
    | Some s \<Rightarrow>
        let st1 = upd_current (\<lambda>s. s\<lparr>trans_state := TS_kCommit\<rparr>) st;
            (r, clog') = (if TransactionIdIsValid (transaction_id s)
               then TransactionIdCommit (transaction_id s) (xclog st1) else (Inr (), xclog st1));
            st2 = st1\<lparr>xclog := clog'\<rparr>
        in case r of
            Inl e \<Rightarrow> (Inl e, st2)
          | Inr _ \<Rightarrow>
              let st3 = ResetTransactionSnapshot (publish_xid kInvalidTransactionId st2);
                  st4 = (if has_catalog st3
                     then call_out CatalogDiscardSnapshot (call_out CatalogCommitDirty st3) else st3)
              in (Inr (), PopState (call_out ReportCommitCurrentDb st4)))"

definition AbortTransaction :: "BackendState \<Rightarrow> unit result \<times> BackendState" where
  "AbortTransaction st = (case CurrentState st of
      None \<Rightarrow> (Inr (), st)
    | Some s \<Rightarrow>
        let st1 = upd_current (\<lambda>s. s\<lparr>trans_state := TS_kAbort\<rparr>) st;
            (r, clog') = (if TransactionIdIsValid (transaction_id s)
               then TransactionIdAbort (transaction_id s) (xclog st1) else (Inr (), xclog st1));
            st2 = st1\<lparr>xclog := clog'\<rparr>
        in case r of
            Inl e \<Rightarrow> (Inl e, st2)
          | Inr _ \<Rightarrow>
              let st3 = ResetTransactionSnapshot (publish_xid kInvalidTransactionId st2);
                  st4 = (if has_catalog st3
                     then let st5 = call_out ResetRelcache
                              (call_out CatalogDiscardSnapshot (call_out CatalogRestoreSnapshot st3))
                          in if has_syscache st5 then call_out SysCacheInvalidate st5 else st5
                     else st3)
              in (Inr (), PopState (call_out ReportAbortCurrentDb st4)))"

definition StartSubTransaction :: "BackendState \<Rightarrow> unit result \<times> BackendState" where
  "StartSubTransaction st = (case CurrentState st of
      None \<Rightarrow> (Inl (Ereport ''cannot start subtransaction without a parent transaction''), st)
    | Some parent \<Rightarrow>
        (Inr (), upd_current (\<lambda>s. s\<lparr>trans_state := TS_kInProgress, block_state := TB_kSubInProgress,
             transaction_id := transaction_id parent, sub_transaction_id := NextSubTransactionId st,
             command_id := command_id parent, command_id_before_subxact := command_id parent\<rparr>)
           ((PushState st)\<lparr>NextSubTransactionId := NextSubTransactionId st + 1\<rparr>)))"

definition CommitSubTransaction :: "BackendState \<Rightarrow> BackendState" where
  "CommitSubTransaction st = (case StateStack st of
      s # p # rest \<Rightarrow> PopState (st\<lparr>StateStack := s # p\<lparr>command_id := command_id s\<rparr> # rest\<rparr>)
    | _ \<Rightarrow> st)"

definition AbortSubTransaction :: "BackendState \<Rightarrow> BackendState" where
  "AbortSubTransaction st = (case StateStack st of
      s # p # rest \<Rightarrow>
        PopState (st\<lparr>StateStack := s # p\<lparr>command_id := command_id_before_subxact s\<rparr> # rest\<rparr>)
    | _ \<Rightarrow> st)"

subsection \<open>Queries\<close>

definition IsTransactionBlock :: "BackendState \<Rightarrow> bool" where
  "IsTransactionBlock st = (case CurrentState st of
      None \<Rightarrow> False
    | Some s \<Rightarrow> block_state s \<noteq> TB_kDefault \<and> block_state s \<noteq> TB_kStarted)"

definition IsAbortedTransactionBlock :: "BackendState \<Rightarrow> bool" where
  "IsAbortedTransactionBlock st = (case CurrentState st of
      None \<Rightarrow> False
    | Some s \<Rightarrow> block_state s \<in> {TB_kAbort, TB_kAbortEnd, TB_kAbortPending, TB_kSubAbort,
        TB_kSubAbortPending, TB_kSubAbortRestart})"

definition IsTransactionOrTransactionBlock :: "BackendState \<Rightarrow> bool" where
  "IsTransactionOrTransactionBlock st = (case CurrentState st of
      None \<Rightarrow> False
    | Some s \<Rightarrow> trans_state s \<noteq> TS_kDefault)"

definition TransactionBlockStateAsString :: "BackendState \<Rightarrow> string" where
  "TransactionBlockStateAsString st = (case CurrentState st of
      None \<Rightarrow> ''default''
    | Some s \<Rightarrow> (case block_state s of
          TB_kDefault \<Rightarrow> ''default'' | TB_kStarted \<Rightarrow> ''started'' | TB_kBegin \<Rightarrow> ''begin''
        | TB_kInProgress \<Rightarrow> ''in progress'' | TB_kEnd \<Rightarrow> ''end'' | TB_kAbort \<Rightarrow> ''abort''
        | TB_kAbortEnd \<Rightarrow> ''abort end'' | TB_kAbortPending \<Rightarrow> ''abort pending''
        | TB_kSubBegin \<Rightarrow> ''sub begin'' | TB_kSubInProgress \<Rightarrow> ''sub in progress''
        | TB_kSubRelease \<Rightarrow> ''sub release'' | TB_kSubCommit \<Rightarrow> ''sub commit''
        | TB_kSubAbort \<Rightarrow> ''sub abort'' | TB_kSubAbortPending \<Rightarrow> ''sub abort pending''
        | TB_kSubRestart \<Rightarrow> ''sub restart'' | TB_kSubAbortRestart \<Rightarrow> ''sub abort restart''))"

definition GetCurrentTransactionIdIfAny :: "BackendState \<Rightarrow> TransactionId" where
  "GetCurrentTransactionIdIfAny st =
    (case CurrentState st of None \<Rightarrow> kInvalidTransactionId | Some s \<Rightarrow> transaction_id s)"

definition GetCurrentSubTransactionId :: "BackendState \<Rightarrow> SubTransactionId" where
  "GetCurrentSubTransactionId st =
    (case CurrentState st of None \<Rightarrow> kInvalidSubTransactionId | Some s \<Rightarrow> sub_transaction_id s)"

definition GetCurrentTransactionNestingLevel :: "BackendState \<Rightarrow> int" where
  "GetCurrentTransactionNestingLevel st =
    (case CurrentState st of None \<Rightarrow> 0 | Some s \<Rightarrow> nesting_level s)"

definition GetCurrentCommandId :: "BackendState \<Rightarrow> CommandId" where
  "GetCurrentCommandId st =
    (case CurrentState st of None \<Rightarrow> kFirstCommandId | Some s \<Rightarrow> command_id s)"

definition GetTopLevelTransactionIdIfAny :: "BackendState \<Rightarrow> TransactionId" where
  "GetTopLevelTransactionIdIfAny st =
    (if StateStack st = [] then kInvalidTransactionId else transaction_id (last (StateStack st)))"

definition TransactionIdIsCurrentTransactionId :: "TransactionId \<Rightarrow> BackendState \<Rightarrow> bool" where
  "TransactionIdIsCurrentTransactionId xid st =
    (StateStack st \<noteq> [] \<and>
     (list_ex (\<lambda>s. transaction_id s = xid) (StateStack st) \<or> GetCurrentTransactionIdIfAny st = xid))"

definition GetTransactionIsolationLevel :: "BackendState \<Rightarrow> IsolationLevel" where
  "GetTransactionIsolationLevel st =
    (if StateStack st = [] then kReadCommitted else isolation_level (last (StateStack st)))"

definition SetTransactionIsolationLevel :: "IsolationLevel \<Rightarrow> BackendState \<Rightarrow> BackendState" where
  "SetTransactionIsolationLevel level st = upd_top (\<lambda>s. s\<lparr>isolation_level := level\<rparr>) st"

definition SetTransactionReadOnly :: "bool \<Rightarrow> BackendState \<Rightarrow> BackendState" where
  "SetTransactionReadOnly b st = upd_top (\<lambda>s. s\<lparr>read_only := b\<rparr>) st"

definition SetTransactionDeferrable :: "bool \<Rightarrow> BackendState \<Rightarrow> BackendState" where
  "SetTransactionDeferrable b st = upd_top (\<lambda>s. s\<lparr>deferrable := b\<rparr>) st"

definition GetTransactionReadOnly :: "BackendState \<Rightarrow> bool" where
  "GetTransactionReadOnly st = (StateStack st \<noteq> [] \<and> read_only (last (StateStack st)))"

definition GetTransactionDeferrable :: "BackendState \<Rightarrow> bool" where
  "GetTransactionDeferrable st = (StateStack st \<noteq> [] \<and> deferrable (last (StateStack st)))"

subsection \<open>Identifiers and commands\<close>

definition GetCurrentTransactionId :: "BackendState \<Rightarrow> TransactionId result \<times> BackendState" where
  "GetCurrentTransactionId st = (case CurrentState st of
      None \<Rightarrow> (Inr kInvalidTransactionId, st)
    | Some s \<Rightarrow>
        if TransactionIdIsValid (transaction_id s) then (Inr (transaction_id s), st)
        else
          let top = last (StateStack st) in
          if TransactionIdIsValid (transaction_id top)
          then (Inr (transaction_id top), upd_current (\<lambda>s. s\<lparr>transaction_id := transaction_id top\<rparr>) st)
          else (case AllocateNextTransactionId (xclog st) of
              (Inl e, clog') \<Rightarrow> (Inl e, st\<lparr>xclog := clog'\<rparr>)
            | (Inr xid, clog') \<Rightarrow>
                (Inr xid, upd_current (\<lambda>s. s\<lparr>transaction_id := xid\<rparr>)
                  (publish_xid xid (upd_top (\<lambda>s. s\<lparr>transaction_id := xid\<rparr>) (st\<lparr>xclog := clog'\<rparr>))))))"

definition GetTopLevelTransactionId :: "BackendState \<Rightarrow> TransactionId result \<times> BackendState" where
  "GetTopLevelTransactionId st =
    (if StateStack st = [] then (Inr kInvalidTransactionId, st)
     else let top = last (StateStack st) in
       if TransactionIdIsValid (transaction_id top) then (Inr (transaction_id top), st)
       else (case AllocateNextTransactionId (xclog st) of
           (Inl e, clog') \<Rightarrow> (Inl e, st\<lparr>xclog := clog'\<rparr>)
         | (Inr xid, clog') \<Rightarrow> (Inr xid, upd_top (\<lambda>s. s\<lparr>transaction_id := xid\<rparr>) (st\<lparr>xclog := clog'\<rparr>))))"

definition CommandCounterIncrement :: "BackendState \<Rightarrow> BackendState" where
  "CommandCounterIncrement st = (case CurrentState st of
      None \<Rightarrow> st
    | Some s \<Rightarrow>
        let cid = (if command_id s < kInvalidCommandId - 1 then command_id s + 1 else command_id s);
            st1 = upd_current (\<lambda>s. s\<lparr>command_id := cid\<rparr>) st;
            st2 = (case GetActiveSnapshot st1 of
                None \<Rightarrow> st1
              | Some p \<Rightarrow> st1\<lparr>snaps := (snaps st1)[p := (snaps st1 ! p)\<lparr>snap_curcid := cid\<rparr>]\<rparr>)
        in call_out InvalidateAllVisibilityCaches st2)"

subsection \<open>Blocks, commands and savepoints\<close>

definition set_block :: "TBlockState \<Rightarrow> BackendState \<Rightarrow> BackendState" where
  "set_block b st = upd_current (\<lambda>s. s\<lparr>block_state := b\<rparr>) st"

definition BeginTransactionBlock :: "BackendState \<Rightarrow> bool result \<times> BackendState" where
  "BeginTransactionBlock st = (case CurrentState st of
      None \<Rightarrow>
        let st1 = StartTransaction st in
        (case CurrentState st1 of
            None \<Rightarrow> (Inl (Ereport ''BeginTransactionBlock: failed to start transaction''), st1)
          | Some _ \<Rightarrow> (Inr True, set_block TB_kBegin st1))
    | Some s \<Rightarrow>
        if block_state s = TB_kStarted then (Inr True, set_block TB_kInProgress st)
        else (Inr False, call_out (Warning ''there is already a transaction in progress'') st))"

definition returning :: "'a \<Rightarrow> unit result \<times> BackendState \<Rightarrow> 'a result \<times> BackendState" where
  "returning x rs = (case rs of (Inl e, st) \<Rightarrow> (Inl e, st) | (Inr _, st) \<Rightarrow> (Inr x, st))"

definition EndTransactionBlock :: "BackendState \<Rightarrow> bool result \<times> BackendState" where
  "EndTransactionBlock st = (case CurrentState st of
      None \<Rightarrow> (Inr False, call_out (Warning ''there is no transaction in progress'') st)
    | Some s \<Rightarrow> (case block_state s of
          TB_kStarted \<Rightarrow> returning True (CommitTransaction st)
        | TB_kInProgress \<Rightarrow> returning True (CommitTransaction (set_block TB_kEnd st))
        | TB_kBegin \<Rightarrow> returning True (CommitTransaction (set_block TB_kEnd st))
        | TB_kAbort \<Rightarrow> returning False (AbortTransaction st)
        | TB_kAbortEnd \<Rightarrow> returning False (AbortTransaction st)
        | TB_kAbortPending \<Rightarrow> returning False (AbortTransaction (set_block TB_kAbort st))
        | TB_kSubInProgress \<Rightarrow> (Inr False, call_out
            (Warning ''cannot commit a transaction block while a subtransaction is active'') st)
        | TB_kSubAbort \<Rightarrow> (Inr False, call_out
            (Warning ''cannot commit a transaction block while a subtransaction is active'') st)
        | _ \<Rightarrow> (Inr False, call_out (Warning
            (''unexpected state in EndTransactionBlock: '' @ TransactionBlockStateAsString st)) st)))"

text \<open>The loops that pop subtransactions until the stack has \<open>n\<close> elements.\<close>

lemma length_AbortSubTransaction [simp]:
  "length (StateStack (AbortSubTransaction st)) = (if 2 \<le> length (StateStack st) then length (StateStack st) - 1 else length (StateStack st))"
  by (auto simp: AbortSubTransaction_def PopState_def split: list.splits)

lemma length_CommitSubTransaction [simp]:
  "length (StateStack (CommitSubTransaction st)) = (if 2 \<le> length (StateStack st) then length (StateStack st) - 1 else length (StateStack st))"
  by (auto simp: CommitSubTransaction_def PopState_def split: list.splits)

function abort_until :: "nat \<Rightarrow> BackendState \<Rightarrow> BackendState" where
  "abort_until n st =
    (if n < length (StateStack st) \<and> 2 \<le> length (StateStack st)
     then abort_until n (AbortSubTransaction st) else st)"
  by pat_completeness auto
termination by (relation "measure (\<lambda>(_, st). length (StateStack st))") auto

function commit_until :: "nat \<Rightarrow> BackendState \<Rightarrow> BackendState" where
  "commit_until n st =
    (if n < length (StateStack st) \<and> 2 \<le> length (StateStack st)
     then commit_until n (CommitSubTransaction st) else st)"
  by pat_completeness auto
termination by (relation "measure (\<lambda>(_, st). length (StateStack st))") auto

declare abort_until.simps [simp del] commit_until.simps [simp del]

definition AbortTransactionBlock :: "BackendState \<Rightarrow> unit result \<times> BackendState" where
  "AbortTransactionBlock st = (case CurrentState st of
      None \<Rightarrow> (Inr (), call_out (Warning ''there is no transaction in progress'') st)
    | Some s \<Rightarrow> (case block_state s of
          TB_kStarted \<Rightarrow> AbortTransaction (set_block TB_kAbort st)
        | TB_kInProgress \<Rightarrow> AbortTransaction (set_block TB_kAbort st)
        | TB_kBegin \<Rightarrow> AbortTransaction (set_block TB_kAbort st)
        | TB_kSubInProgress \<Rightarrow> AbortTransaction (abort_until 1 st)
        | _ \<Rightarrow> AbortTransaction st))"

definition PrepareTransactionBlock :: "text_op \<Rightarrow> string \<Rightarrow> BackendState \<Rightarrow> bool result \<times> BackendState" where
  "PrepareTransactionBlock wr gid st = (case StateStack st of
      [] \<Rightarrow> (Inl (Ereport ''PREPARE TRANSACTION can only be used in transaction blocks''), st)
    | s # _ # _ \<Rightarrow>
        (Inl (Ereport ''cannot PREPARE a transaction that has performed subtransactions''), st)
    | [s] \<Rightarrow>
        let (r, st1) = (if TransactionIdIsValid (transaction_id s) then (Inr (transaction_id s), st)
           else (case AllocateNextTransactionId (xclog st) of
               (Inl e, clog') \<Rightarrow> (Inl e, st\<lparr>xclog := clog'\<rparr>)
             | (Inr xid, clog') \<Rightarrow> (Inr xid,
                 publish_xid xid (upd_top (\<lambda>s. s\<lparr>transaction_id := xid\<rparr>) (st\<lparr>xclog := clog'\<rparr>)))))
        in case r of
            Inl e \<Rightarrow> (Inl e, st1)
          | Inr xid \<Rightarrow>
              let state = \<lparr>tp_gid = gid, tp_xid = xid, tp_isolation_level = isolation_level s,
                    tp_read_only = read_only s, tp_deferrable = deferrable s\<rparr>;
                  (rs, tp) = SaveTwoPhaseState wr state (xtwophase st1)
              in (case rs of
                  Inl e \<Rightarrow> (Inl e, st1\<lparr>xtwophase := tp\<rparr>)
                | Inr _ \<Rightarrow>
                    let st2 = upd_top (\<lambda>s. s\<lparr>trans_state := TS_kPrepare\<rparr>) (st1\<lparr>xtwophase := tp\<rparr>);
                        st3 = ResetTransactionSnapshot (publish_xid kInvalidTransactionId st2);
                        st4 = (if has_catalog st3
                           then call_out CatalogDiscardSnapshot (call_out CatalogCommitDirty st3) else st3)
                    in (Inr True, PopState st4)))"

definition StartTransactionCommand :: "BackendState \<Rightarrow> BackendState" where
  "StartTransactionCommand st = (case CurrentState st of
      None \<Rightarrow> StartTransaction st
    | Some s \<Rightarrow> if block_state s = TB_kBegin then set_block TB_kInProgress st else st)"

definition CommitTransactionCommand :: "BackendState \<Rightarrow> unit result \<times> BackendState" where
  "CommitTransactionCommand st = (case CurrentState st of
      None \<Rightarrow> (Inr (), st)
    | Some s \<Rightarrow> (case block_state s of
          TB_kStarted \<Rightarrow> CommitTransaction st
        | TB_kInProgress \<Rightarrow> (Inr (), CommandCounterIncrement st)
        | TB_kEnd \<Rightarrow> CommitTransaction st
        | TB_kAbort \<Rightarrow> AbortTransaction st
        | TB_kAbortEnd \<Rightarrow> AbortTransaction st
        | _ \<Rightarrow> (Inr (), CommandCounterIncrement st)))"

definition AbortCurrentTransaction :: "BackendState \<Rightarrow> unit result \<times> BackendState" where
  "AbortCurrentTransaction st = (case CurrentState st of
      None \<Rightarrow> (Inr (), st)
    | Some s \<Rightarrow> (case block_state s of
          TB_kStarted \<Rightarrow> AbortTransaction st
        | TB_kInProgress \<Rightarrow> (Inr (), set_block TB_kAbortPending st)
        | TB_kBegin \<Rightarrow> (Inr (), set_block TB_kAbortPending st)
        | TB_kSubInProgress \<Rightarrow> (Inr (), AbortSubTransaction (set_block TB_kSubAbort st))
        | _ \<Rightarrow> (Inr (), st)))"

definition BeginSavepoint :: "string \<Rightarrow> BackendState \<Rightarrow> unit result \<times> BackendState" where
  "BeginSavepoint name st = (case CurrentState st of
      None \<Rightarrow> (Inl (Ereport ''SAVEPOINT can only be used in transaction blocks''), st)
    | Some _ \<Rightarrow> (case StartSubTransaction st of
          (Inl e, st1) \<Rightarrow> (Inl e, st1)
        | (Inr _, st1) \<Rightarrow> (Inr (), upd_current (\<lambda>s. s\<lparr>sp_name := name,
              savepoint_level := savepoint_level (StateStack st1 ! 1) + 1\<rparr>) st1)))"

text \<open>The part of the stack below and including the savepoint that is searched by name.\<close>

definition find_savepoint :: "string \<Rightarrow> BackendState \<Rightarrow> TransactionStateData list" where
  "find_savepoint name st = dropWhile (\<lambda>s. sp_name s \<noteq> name) (StateStack st)"

definition ReleaseSavepoint :: "string \<Rightarrow> BackendState \<Rightarrow> unit result \<times> BackendState" where
  "ReleaseSavepoint name st =
    (if length (StateStack st) < 2
     then (Inl (Ereport ''RELEASE SAVEPOINT can only be used in transaction blocks''), st)
     else let target = find_savepoint name st in
       if length target < 2
       then (Inl (gid_message ''savepoint \"'' name ''\" does not exist''), st)
       else (Inr (), CommitSubTransaction (commit_until (length target) st)))"

definition RollbackToSavepoint :: "string \<Rightarrow> BackendState \<Rightarrow> unit result \<times> BackendState" where
  "RollbackToSavepoint name st =
    (if length (StateStack st) < 2
     then (Inl (Ereport ''ROLLBACK TO SAVEPOINT can only be used in transaction blocks''), st)
     else let target = find_savepoint name st in
       if length target < 2
       then (Inl (gid_message ''savepoint \"'' name ''\" does not exist''), st)
       else (case StartSubTransaction (abort_until (length target - 1) st) of
           (Inl e, st1) \<Rightarrow> (Inl e, st1)
         | (Inr _, st1) \<Rightarrow> (Inr (), upd_current (\<lambda>s. s\<lparr>sp_name := name\<rparr>) st1)))"

definition InitializeTransactionSystem :: "BackendState \<Rightarrow> BackendState" where
  "InitializeTransactionSystem st = st\<lparr>StateStack := [], NextSubTransactionId := kTopSubTransactionId + 1,
     xclog := InitializeCommitLog (xclog st)\<rparr>"

subsection \<open>The shape of the stack\<close>

definition top_blocks :: "TBlockState set" where
  "top_blocks = {TB_kStarted, TB_kBegin, TB_kInProgress, TB_kAbortPending}"

text \<open>
  The top-level transaction has one of four block states and its nesting level is 1; above it
  are subtransactions in progress whose levels count up, and whose transaction identifier is the
  one of the top level or not yet assigned.
\<close>

fun stack_ok :: "TransactionStateData list \<Rightarrow> bool" where
  "stack_ok [] = True"
| "stack_ok [t] = (nesting_level t = 1 \<and> block_state t \<in> top_blocks \<and>
     sub_transaction_id t = kTopSubTransactionId \<and>
     (TransactionIdIsValid (transaction_id t) \<longrightarrow> TransactionIdIsNormal (transaction_id t)))"
| "stack_ok (s # p # r) = (nesting_level s = int (length (p # r)) + 1 \<and>
     block_state s = TB_kSubInProgress \<and>
     transaction_id s \<in> {kInvalidTransactionId, transaction_id (last (p # r))} \<and> stack_ok (p # r))"

lemma stack_ok_Cons:
  "r \<noteq> [] \<Longrightarrow> stack_ok (s # r) = (nesting_level s = int (length r) + 1 \<and> block_state s = TB_kSubInProgress \<and>
     transaction_id s \<in> {kInvalidTransactionId, transaction_id (last r)} \<and> stack_ok r)"
  by (cases r) auto

lemma stack_ok_tl: "stack_ok (s # r) \<Longrightarrow> stack_ok r"
  by (cases r) auto

lemma stack_ok_nesting: "stack_ok (s # r) \<Longrightarrow> nesting_level s = int (length r) + 1"
  by (cases r) auto

lemma stack_ok_last:
  "stack_ok st \<Longrightarrow> st \<noteq> [] \<Longrightarrow> block_state (last st) \<in> top_blocks \<and>
    (TransactionIdIsValid (transaction_id (last st)) \<longrightarrow> TransactionIdIsNormal (transaction_id (last st)))"
  by (induction st rule: stack_ok.induct) auto

text \<open>Changes of the current element that the invariant does not look at.\<close>

lemma stack_ok_current:
  assumes "stack_ok (s # r)" "nesting_level s' = nesting_level s" "block_state s' = block_state s"
    "transaction_id s' = transaction_id s" "sub_transaction_id s' = sub_transaction_id s"
  shows "stack_ok (s' # r)"
  using assms by (cases r) auto

lemma upd_last_Nil [simp]: "upd_last f xs = [] \<longleftrightarrow> xs = []"
  by (induction f xs rule: upd_last.induct) auto

lemma length_upd_last [simp]: "length (upd_last f xs) = length xs"
  by (induction f xs rule: upd_last.induct) auto

lemma last_upd_last [simp]: "xs \<noteq> [] \<Longrightarrow> last (upd_last f xs) = f (last xs)"
  by (induction f xs rule: upd_last.induct) auto

lemma stack_ok_upd_last:
  assumes "stack_ok st"
    and "\<And>t. nesting_level (f t) = nesting_level t \<and> block_state (f t) = block_state t \<and>
      sub_transaction_id (f t) = sub_transaction_id t \<and>
      (transaction_id (f t) = transaction_id t \<or>
       transaction_id (last st) = kInvalidTransactionId \<and> TransactionIdIsNormal (transaction_id (f t)))"
  shows "stack_ok (upd_last f st)"
  using assms
proof (induction st rule: stack_ok.induct)
  case (2 t)
  show ?case using 2(1) 2(2) [of t] by auto
next
  case (3 s p r)
  have "stack_ok (upd_last f (p # r))" using 3 by simp
  moreover have "transaction_id s \<in> {kInvalidTransactionId, transaction_id (f (last (p # r)))}"
    using 3(2) 3(3) [of "last (p # r)"] by auto
  ultimately show ?case using 3(2) by (simp add: stack_ok_Cons)
qed simp

abbreviation stack_inv :: "BackendState \<Rightarrow> bool" where
  "stack_inv st \<equiv> stack_ok (StateStack st)"

lemmas stack_defs = PushState_def PopState_def upd_current_def upd_top_def CurrentState_def
  ResetTransactionSnapshot_def publish_xid_def call_out_def set_block_def

lemma inv_StartTransaction: "StateStack st = [] \<Longrightarrow> stack_inv (StartTransaction st)"
  by (auto simp: StartTransaction_def stack_defs Let_def TransactionStateData_default_def top_blocks_def TransactionIdIsValid_def)

lemma StartTransaction_stack: "StateStack st = [] \<Longrightarrow> \<exists>t. StateStack (StartTransaction st) = [t] \<and>
    block_state t = TB_kStarted \<and> transaction_id t = kInvalidTransactionId \<and> nesting_level t = 1 \<and>
    sub_transaction_id t = kTopSubTransactionId \<and> command_id t = kFirstCommandId"
  by (auto simp: StartTransaction_def stack_defs Let_def TransactionStateData_default_def)

text \<open>A finished top-level transaction leaves an empty stack.\<close>

lemma CommitTransaction_normal:
  assumes "StateStack st = [t]" "TransactionIdIsValid (transaction_id t) \<longrightarrow> TransactionIdIsNormal (transaction_id t)"
  shows "fst (CommitTransaction st) = Inr ()" "StateStack (snd (CommitTransaction st)) = []"
    "xclog (snd (CommitTransaction st)) = (if TransactionIdIsValid (transaction_id t)
       then set_status kCommitted (transaction_id t) (xclog st) else xclog st)"
    "xprocs (snd (CommitTransaction st)) = set_my_xid kInvalidTransactionId (xlocal st) (xprocs st)"
    "ActiveSnapshotStack (snd (CommitTransaction st)) = []"
    "calls (snd (CommitTransaction st)) = calls st @
       (if has_catalog st then [CatalogCommitDirty, CatalogDiscardSnapshot] else []) @ [ReportCommitCurrentDb]"
  using assms by (auto simp: CommitTransaction_def stack_defs Let_def TransactionIdCommit_def)

lemma AbortTransaction_normal:
  assumes "StateStack st = [t]" "TransactionIdIsValid (transaction_id t) \<longrightarrow> TransactionIdIsNormal (transaction_id t)"
  shows "fst (AbortTransaction st) = Inr ()" "StateStack (snd (AbortTransaction st)) = []"
    "xclog (snd (AbortTransaction st)) = (if TransactionIdIsValid (transaction_id t)
       then set_status kAborted (transaction_id t) (xclog st) else xclog st)"
    "xprocs (snd (AbortTransaction st)) = set_my_xid kInvalidTransactionId (xlocal st) (xprocs st)"
    "ActiveSnapshotStack (snd (AbortTransaction st)) = []"
    "calls (snd (AbortTransaction st)) = calls st @
       (if has_catalog st then [CatalogRestoreSnapshot, CatalogDiscardSnapshot, ResetRelcache] @
         (if has_syscache st then [SysCacheInvalidate] else []) else []) @ [ReportAbortCurrentDb]"
  using assms by (auto simp: AbortTransaction_def stack_defs Let_def TransactionIdAbort_def)

lemma stack_AbortSub: "StateStack (AbortSubTransaction st) = (case StateStack st of
    s # p # r \<Rightarrow> p\<lparr>command_id := command_id_before_subxact s\<rparr> # r | xs \<Rightarrow> xs)"
  by (auto simp: AbortSubTransaction_def PopState_def split: list.splits)

lemma stack_CommitSub: "StateStack (CommitSubTransaction st) = (case StateStack st of
    s # p # r \<Rightarrow> p\<lparr>command_id := command_id s\<rparr> # r | xs \<Rightarrow> xs)"
  by (auto simp: CommitSubTransaction_def PopState_def split: list.splits)

lemma inv_AbortSub: "stack_inv st \<Longrightarrow> stack_inv (AbortSubTransaction st)"
  by (auto simp: stack_AbortSub split: list.splits intro: stack_ok_current)

lemma inv_CommitSub: "stack_inv st \<Longrightarrow> stack_inv (CommitSubTransaction st)"
  by (auto simp: stack_CommitSub split: list.splits intro: stack_ok_current)

lemma inv_abort_until: "stack_inv st \<Longrightarrow> stack_inv (abort_until n st)"
  by (induction n st rule: abort_until.induct) (subst abort_until.simps, auto simp: inv_AbortSub)

lemma inv_commit_until: "stack_inv st \<Longrightarrow> stack_inv (commit_until n st)"
  by (induction n st rule: commit_until.induct) (subst commit_until.simps, auto simp: inv_CommitSub)

lemma length_abort_until:
  "1 \<le> n \<Longrightarrow> n \<le> length (StateStack st) \<Longrightarrow> length (StateStack (abort_until n st)) = n"
  by (induction n st rule: abort_until.induct) (subst abort_until.simps, auto)

lemma length_commit_until:
  "1 \<le> n \<Longrightarrow> n \<le> length (StateStack st) \<Longrightarrow> length (StateStack (commit_until n st)) = n"
  by (induction n st rule: commit_until.induct) (subst commit_until.simps, auto)

text \<open>What a subtransaction leaves alone: everything but the stack.\<close>

definition same_but_stack :: "BackendState \<Rightarrow> BackendState \<Rightarrow> bool" where
  "same_but_stack st st' \<longleftrightarrow> st'\<lparr>StateStack := StateStack st\<rparr> = st"

lemma same_AbortSub: "same_but_stack st (AbortSubTransaction st)"
  by (auto simp: same_but_stack_def AbortSubTransaction_def PopState_def split: list.splits)

lemma same_CommitSub: "same_but_stack st (CommitSubTransaction st)"
  by (auto simp: same_but_stack_def CommitSubTransaction_def PopState_def split: list.splits)

lemma same_trans: "same_but_stack a b \<Longrightarrow> same_but_stack b c \<Longrightarrow> same_but_stack a c"
  by (cases a; cases b; cases c) (auto simp: same_but_stack_def)

lemma same_refl: "same_but_stack st st" by (simp add: same_but_stack_def)

lemma same_abort_until: "same_but_stack st (abort_until n st)"
proof (induction n st rule: abort_until.induct)
  case (1 n st)
  then show ?case using same_trans [OF same_AbortSub [of st]]
    by (subst abort_until.simps) (auto simp: same_refl)
qed

lemma same_commit_until: "same_but_stack st (commit_until n st)"
proof (induction n st rule: commit_until.induct)
  case (1 n st)
  then show ?case using same_trans [OF same_CommitSub [of st]]
    by (subst commit_until.simps) (auto simp: same_refl)
qed

lemma same_fields:
  "same_but_stack st st' \<Longrightarrow> xclog st' = xclog st \<and> xprocs st' = xprocs st \<and> xlocal st' = xlocal st \<and>
    calls st' = calls st \<and> snaps st' = snaps st \<and> ActiveSnapshotStack st' = ActiveSnapshotStack st \<and>
    xtwophase st' = xtwophase st \<and> has_catalog st' = has_catalog st \<and> has_syscache st' = has_syscache st \<and>
    NextSubTransactionId st' = NextSubTransactionId st"
  by (cases st; cases st') (auto simp: same_but_stack_def)

text \<open>The top-level transaction keeps everything but the command counter.\<close>

lemma abort_until_last:
  "StateStack st \<noteq> [] \<Longrightarrow> \<exists>c. last (StateStack (abort_until n st)) = (last (StateStack st))\<lparr>command_id := c\<rparr>"
proof (induction n st rule: abort_until.induct)
  case (1 n st)
  show ?case
  proof (cases "n < length (StateStack st) \<and> 2 \<le> length (StateStack st)")
    case True
    then obtain s p r where st: "StateStack st = s # p # r"
      by (metis One_nat_def Suc_1 Suc_le_length_iff)
    then have "\<exists>c. last (StateStack (AbortSubTransaction st)) = (last (StateStack st))\<lparr>command_id := c\<rparr>"
      by (cases r) (auto simp: stack_AbortSub intro: exI [of _ "command_id (last r)"])
    then show ?thesis using 1(1) [OF True] True st by (subst abort_until.simps) (auto simp: stack_AbortSub)
  next
    case False
    then show ?thesis by (subst abort_until.simps) (auto intro: exI [of _ "command_id (last (StateStack st))"])
  qed
qed

lemma inv_StartSub:
  assumes "stack_inv st" "StateStack st \<noteq> []"
  shows "fst (StartSubTransaction st) = Inr ()" "stack_inv (snd (StartSubTransaction st))"
    "\<exists>s. StateStack (snd (StartSubTransaction st)) = s # StateStack st \<and>
      block_state s = TB_kSubInProgress \<and> nesting_level s = int (length (StateStack st)) + 1 \<and>
      transaction_id s = transaction_id (hd (StateStack st)) \<and>
      command_id s = command_id (hd (StateStack st)) \<and>
      command_id_before_subxact s = command_id (hd (StateStack st)) \<and>
      sub_transaction_id s = NextSubTransactionId st \<and> savepoint_level s = 0"
proof -
  obtain p r where st: "StateStack st = p # r" using assms(2) by (cases "StateStack st") auto
  have "transaction_id p \<in> {kInvalidTransactionId, transaction_id (last (p # r))}"
    using assms(1) st by (cases r) auto
  then show "fst (StartSubTransaction st) = Inr ()" "stack_inv (snd (StartSubTransaction st))"
    "\<exists>s. StateStack (snd (StartSubTransaction st)) = s # StateStack st \<and>
      block_state s = TB_kSubInProgress \<and> nesting_level s = int (length (StateStack st)) + 1 \<and>
      transaction_id s = transaction_id (hd (StateStack st)) \<and>
      command_id s = command_id (hd (StateStack st)) \<and>
      command_id_before_subxact s = command_id (hd (StateStack st)) \<and>
      sub_transaction_id s = NextSubTransactionId st \<and> savepoint_level s = 0"
    using st assms(1)
    by (auto simp: StartSubTransaction_def stack_defs Let_def TransactionStateData_default_def)
qed

subsection \<open>Runs of a backend\<close>

text \<open>The counter has not reached its end: the next identifier is a normal one.\<close>

definition xid_supply :: "BackendState \<Rightarrow> bool" where
  "xid_supply st = (case g_variable_cache (xclog st) of
      None \<Rightarrow> False | Some vc \<Rightarrow> TransactionIdIsNormal (nextXid vc))"

inductive xact_step :: "BackendState \<Rightarrow> BackendState \<Rightarrow> bool" where
  x_begin: "xact_step st (snd (BeginTransactionBlock st))"
| x_end: "xact_step st (snd (EndTransactionBlock st))"
| x_abort: "xact_step st (snd (AbortTransactionBlock st))"
| x_prepare: "xid_supply st \<Longrightarrow> xact_step st (snd (PrepareTransactionBlock wr gid st))"
| x_start_command: "xact_step st (StartTransactionCommand st)"
| x_commit_command: "xact_step st (snd (CommitTransactionCommand st))"
| x_error: "xact_step st (snd (AbortCurrentTransaction st))"
| x_savepoint: "xact_step st (snd (BeginSavepoint name st))"
| x_release: "xact_step st (snd (ReleaseSavepoint name st))"
| x_rollback_to: "xact_step st (snd (RollbackToSavepoint name st))"
| x_get_xid: "xid_supply st \<Longrightarrow> xact_step st (snd (GetCurrentTransactionId st))"
| x_get_top_xid: "xid_supply st \<Longrightarrow> xact_step st (snd (GetTopLevelTransactionId st))"
| x_command: "xact_step st (CommandCounterIncrement st)"
| x_isolation: "xact_step st (SetTransactionIsolationLevel level st)"
| x_read_only: "xact_step st (SetTransactionReadOnly b st)"
| x_deferrable: "xact_step st (SetTransactionDeferrable b st)"

inductive xact_run :: "BackendState \<Rightarrow> bool" where
  x_init: "xact_run (InitializeTransactionSystem st)"
| x_next: "xact_run st \<Longrightarrow> xact_step st st' \<Longrightarrow> xact_run st'"

lemma stack_ok_single:
  assumes "stack_ok (s # r)" "block_state s \<noteq> TB_kSubInProgress"
  shows "r = [] \<and> block_state s \<in> top_blocks \<and>
    (TransactionIdIsValid (transaction_id s) \<longrightarrow> TransactionIdIsNormal (transaction_id s))"
  using assms by (cases r) auto

lemma set_block_stack: "StateStack st = s # r \<Longrightarrow> StateStack (set_block b st) = s\<lparr>block_state := b\<rparr> # r"
  by (simp add: set_block_def upd_current_def)

lemma call_out_stack [simp]: "StateStack (call_out c st) = StateStack st"
  by (simp add: call_out_def)

lemma CurrentState_Cons: "StateStack st = s # r \<Longrightarrow> CurrentState st = Some s"
  by (simp add: CurrentState_def)

lemma CurrentState_Nil: "StateStack st = [] \<Longrightarrow> CurrentState st = None"
  by (simp add: CurrentState_def)

lemma returning_simps [simp]:
  "snd (returning x rs) = snd rs" "fst rs = Inr () \<Longrightarrow> fst (returning x rs) = Inr x"
  by (cases rs; auto simp: returning_def split: sum.splits)+

lemma finish_single:
  assumes "StateStack st = [s]" "stack_inv st"
  shows "StateStack (snd (CommitTransaction st)) = []" "StateStack (snd (AbortTransaction st)) = []"
    "StateStack (snd (CommitTransaction (set_block b st))) = []"
    "StateStack (snd (AbortTransaction (set_block b st))) = []"
  using assms CommitTransaction_normal(2) AbortTransaction_normal(2) set_block_stack [OF assms(1), of b]
  by auto

lemma block_cases:
  assumes "stack_inv st" "StateStack st \<noteq> []"
  obtains (sub) s p r where "StateStack st = s # p # r" "CurrentState st = Some s" "block_state s = TB_kSubInProgress"
  | (top) s where "StateStack st = [s]" "CurrentState st = Some s"
      "block_state s = TB_kStarted \<or> block_state s = TB_kBegin \<or> block_state s = TB_kInProgress \<or>
       block_state s = TB_kAbortPending"
  using assms by (cases "StateStack st" rule: stack_ok.cases) (auto simp: CurrentState_def top_blocks_def)

lemma inv_End: "stack_inv st \<Longrightarrow> stack_inv (snd (EndTransactionBlock st))"
proof (cases "StateStack st = []")
  case False
  assume inv: "stack_inv st"
  from inv False show ?thesis
    by (cases rule: block_cases) (use inv in \<open>auto simp: EndTransactionBlock_def finish_single [OF _ inv]\<close>)
qed (simp add: EndTransactionBlock_def CurrentState_Nil)

lemma abort_until_single:
  assumes "stack_inv st" "StateStack st \<noteq> []"
  obtains t where "StateStack (abort_until 1 st) = [t]"
    "transaction_id t = transaction_id (last (StateStack st))" "stack_inv (abort_until 1 st)"
proof -
  have "length (StateStack (abort_until 1 st)) = 1"
    using assms(2) by (intro length_abort_until) (auto simp: Suc_le_eq)
  then obtain t where t: "StateStack (abort_until 1 st) = [t]" by (auto simp: length_Suc_conv)
  moreover have "transaction_id t = transaction_id (last (StateStack st))"
    using abort_until_last [OF assms(2), of 1] t by auto
  ultimately show thesis using that inv_abort_until [OF assms(1)] by blast
qed

lemma inv_Abort: "stack_inv st \<Longrightarrow> stack_inv (snd (AbortTransactionBlock st))"
proof (cases "StateStack st = []")
  case False
  assume inv: "stack_inv st"
  obtain t where "StateStack (abort_until 1 st) = [t]" "stack_inv (abort_until 1 st)"
    using abort_until_single [OF inv False] by blast
  then have "StateStack (snd (AbortTransaction (abort_until 1 st))) = []" by (rule finish_single)
  with inv False show ?thesis
    by (cases rule: block_cases) (auto simp: AbortTransactionBlock_def finish_single [OF _ inv])
qed (simp add: AbortTransactionBlock_def CurrentState_Nil)

lemma inv_CommandCounter: "stack_inv st \<Longrightarrow> stack_inv (CommandCounterIncrement st)"
  by (auto simp: CommandCounterIncrement_def stack_defs GetActiveSnapshot_def Let_def
      split: list.splits option.splits intro: stack_ok_current)

lemma inv_CommitCommand: "stack_inv st \<Longrightarrow> stack_inv (snd (CommitTransactionCommand st))"
proof (cases "StateStack st = []")
  case False
  assume inv: "stack_inv st"
  from inv False show ?thesis
    by (cases rule: block_cases)
      (auto simp: CommitTransactionCommand_def finish_single [OF _ inv] inv_CommandCounter [OF inv])
qed (simp add: CommitTransactionCommand_def CurrentState_Nil)

lemma inv_Error: "stack_inv st \<Longrightarrow> stack_inv (snd (AbortCurrentTransaction st))"
proof (cases "StateStack st = []")
  case False
  assume inv: "stack_inv st"
  from inv False show ?thesis
  proof (cases rule: block_cases)
    case (sub s p r)
    then have "StateStack (AbortSubTransaction (set_block TB_kSubAbort st)) =
        p\<lparr>command_id := command_id_before_subxact s\<rparr> # r"
      by (simp add: stack_AbortSub set_block_stack)
    then show ?thesis using sub inv by (auto simp: AbortCurrentTransaction_def intro: stack_ok_current)
  next
    case (top s)
    then show ?thesis using inv
      by (auto simp: AbortCurrentTransaction_def finish_single [OF _ inv] set_block_stack top_blocks_def)
  qed
qed (simp add: AbortCurrentTransaction_def CurrentState_Nil)

lemma inv_Begin: "stack_inv st \<Longrightarrow> stack_inv (snd (BeginTransactionBlock st))"
proof (cases "StateStack st = []")
  case True
  then obtain t where "StateStack (StartTransaction st) = [t]" "block_state t = TB_kStarted"
      "transaction_id t = kInvalidTransactionId" "nesting_level t = 1" "sub_transaction_id t = kTopSubTransactionId"
    using StartTransaction_stack by blast
  then show ?thesis using True
    by (simp add: BeginTransactionBlock_def CurrentState_def set_block_stack top_blocks_def Let_def TransactionIdIsValid_def)
next
  case False
  assume inv: "stack_inv st"
  from inv False show ?thesis
    by (cases rule: block_cases) (use inv in \<open>auto simp: BeginTransactionBlock_def set_block_stack top_blocks_def\<close>)
qed

lemma alloc_normal:
  assumes "xid_supply st"
  obtains xid clog' where "AllocateNextTransactionId (xclog st) = (Inr xid, clog')"
    "TransactionIdIsNormal xid" "TransactionIdIsValid xid"
proof -
  obtain vc where vc: "g_variable_cache (xclog st) = Some vc" "TransactionIdIsNormal (nextXid vc)"
    using assms by (auto simp: xid_supply_def split: option.splits)
  then have "nextXid vc \<noteq> kInvalidTransactionId" by auto
  then show thesis using vc
    by (intro that [of "nextXid vc"]) (auto simp: AllocateNextTransactionId_def TransactionIdIsValid_def)
qed

lemma inv_upd_top:
  assumes "stack_inv st"
    and "\<And>t. nesting_level (f t) = nesting_level t \<and> block_state (f t) = block_state t \<and>
      sub_transaction_id (f t) = sub_transaction_id t \<and>
      (transaction_id (f t) = transaction_id t \<or>
       transaction_id (last (StateStack st)) = kInvalidTransactionId \<and> TransactionIdIsNormal (transaction_id (f t)))"
  shows "stack_inv (upd_top f st)"
  using stack_ok_upd_last [OF assms] by (simp add: upd_top_def)

text \<open>The current element takes over the identifier of the top level.\<close>

lemma stack_ok_share_xid:
  "stack_ok (s # r) \<Longrightarrow> stack_ok (s\<lparr>transaction_id := transaction_id (last (s # r))\<rparr> # r)"
  by (cases r) auto

lemma inv_share_xid:
  assumes "stack_inv st" "x = transaction_id (last (StateStack st))"
  shows "stack_inv (upd_current (\<lambda>s. s\<lparr>transaction_id := x\<rparr>) st)"
  using assms stack_ok_share_xid by (cases "StateStack st") (auto simp: upd_current_def)

lemma publish_stack [simp]: "StateStack (publish_xid x st) = StateStack st"
  by (simp add: publish_xid_def)

lemma inv_GetXid: "stack_inv st \<Longrightarrow> xid_supply st \<Longrightarrow> stack_inv (snd (GetCurrentTransactionId st))"
proof -
  assume inv: "stack_inv st" and sup: "xid_supply st"
  obtain xid clog' where a: "AllocateNextTransactionId (xclog st) = (Inr xid, clog')"
    "TransactionIdIsNormal xid" "TransactionIdIsValid xid" using alloc_normal [OF sup] .
  let ?st = "publish_xid xid (upd_top (\<lambda>s. s\<lparr>transaction_id := xid\<rparr>) (st\<lparr>xclog := clog'\<rparr>))"
  have "stack_inv ?st" if "\<not> TransactionIdIsValid (transaction_id (last (StateStack st)))"
    using inv_upd_top [of "st\<lparr>xclog := clog'\<rparr>" "\<lambda>s. s\<lparr>transaction_id := xid\<rparr>"] inv a(2) that
    by (simp add: TransactionIdIsValid_def)
  moreover have "StateStack st \<noteq> [] \<Longrightarrow> transaction_id (last (StateStack ?st)) = xid"
    by (simp add: upd_top_def)
  ultimately show ?thesis using inv a
    by (auto simp: GetCurrentTransactionId_def CurrentState_def Let_def inv_share_xid split: list.splits)
qed

lemma inv_GetTopXid: "stack_inv st \<Longrightarrow> xid_supply st \<Longrightarrow> stack_inv (snd (GetTopLevelTransactionId st))"
proof -
  assume inv: "stack_inv st" and sup: "xid_supply st"
  obtain xid clog' where a: "AllocateNextTransactionId (xclog st) = (Inr xid, clog')"
    "TransactionIdIsNormal xid" "TransactionIdIsValid xid" using alloc_normal [OF sup] .
  then show ?thesis
    using inv_upd_top [of "st\<lparr>xclog := clog'\<rparr>" "\<lambda>s. s\<lparr>transaction_id := xid\<rparr>"] inv
    by (auto simp: GetTopLevelTransactionId_def TransactionIdIsValid_def Let_def)
qed

lemma inv_Prepare: "stack_inv st \<Longrightarrow> xid_supply st \<Longrightarrow> stack_inv (snd (PrepareTransactionBlock wr gid st))"
proof -
  assume inv: "stack_inv st" and sup: "xid_supply st"
  obtain xid clog' where a: "AllocateNextTransactionId (xclog st) = (Inr xid, clog')"
    "TransactionIdIsNormal xid" "TransactionIdIsValid xid" using alloc_normal [OF sup] .
  have "(case snd (SaveTwoPhaseState wr s tp) of _ \<Rightarrow> True)" for s tp by simp
  consider "length (StateStack st) \<noteq> 1" | s where "StateStack st = [s]" by (auto simp: length_Suc_conv)
  then show ?thesis
  proof cases
    case 1
    then have "snd (PrepareTransactionBlock wr gid st) = st"
      by (auto simp: PrepareTransactionBlock_def split: list.splits)
    then show ?thesis using inv by simp
  next
    case 2
    then show ?thesis using inv a
      by (auto simp: PrepareTransactionBlock_def stack_defs Let_def split: prod.splits sum.splits)
  qed
qed

lemma inv_Savepoint: "stack_inv st \<Longrightarrow> stack_inv (snd (BeginSavepoint name st))"
proof (cases "StateStack st = []")
  case False
  assume inv: "stack_inv st"
  note sub = inv_StartSub [OF inv False]
  obtain st1 where st1: "StartSubTransaction st = (Inr (), st1)" using sub(1) by (metis prod.collapse)
  obtain s r where "StateStack st1 = s # r" using sub(3) st1 by auto
  then show ?thesis using sub(2) st1 False
    by (auto simp: BeginSavepoint_def CurrentState_def upd_current_def split: list.splits intro: stack_ok_current)
qed (simp add: BeginSavepoint_def CurrentState_Nil)

lemma inv_Release: "stack_inv st \<Longrightarrow> stack_inv (snd (ReleaseSavepoint name st))"
  by (auto simp: ReleaseSavepoint_def Let_def inv_CommitSub inv_commit_until)

lemma inv_RollbackTo: "stack_inv st \<Longrightarrow> stack_inv (snd (RollbackToSavepoint name st))"
proof (cases "2 \<le> length (find_savepoint name st)")
  case True
  assume inv: "stack_inv st"
  let ?n = "length (find_savepoint name st) - 1" and ?st = "abort_until (length (find_savepoint name st) - 1) st"
  have "length (StateStack ?st) = ?n"
    using True length_dropWhile_le [of "\<lambda>s. sp_name s \<noteq> name" "StateStack st"]
    by (intro length_abort_until) (auto simp: find_savepoint_def)
  then have ne: "StateStack ?st \<noteq> []" using True by auto
  note sub = inv_StartSub [OF inv_abort_until [OF inv] ne]
  obtain st1 where st1: "StartSubTransaction ?st = (Inr (), st1)" using sub(1) by (metis prod.collapse)
  obtain s r where "StateStack st1 = s # r" using sub(3) st1 by auto
  then show ?thesis using sub(2) st1 True inv
    by (auto simp: RollbackToSavepoint_def upd_current_def Let_def intro: stack_ok_current)
qed (simp add: RollbackToSavepoint_def Let_def)

lemma xact_step_inv: "xact_step st st' \<Longrightarrow> stack_inv st \<Longrightarrow> stack_inv st'"
proof (induction rule: xact_step.induct)
  case (x_start_command st)
  show ?case
  proof (cases "StateStack st = []")
    case True
    then show ?thesis by (simp add: StartTransactionCommand_def CurrentState_Nil inv_StartTransaction)
  next
    case False
    with x_start_command show ?thesis
      by (cases rule: block_cases)
        (use x_start_command in \<open>auto simp: StartTransactionCommand_def set_block_stack top_blocks_def\<close>)
  qed
qed (simp_all add: inv_Begin inv_End inv_Abort inv_Prepare inv_CommitCommand inv_Error inv_Savepoint inv_Release
   inv_RollbackTo inv_GetXid inv_GetTopXid inv_CommandCounter inv_upd_top SetTransactionIsolationLevel_def
   SetTransactionReadOnly_def SetTransactionDeferrable_def)

lemma xact_run_inv: "xact_run st \<Longrightarrow> stack_inv st"
  by (induction rule: xact_run.induct) (auto simp: InitializeTransactionSystem_def intro: xact_step_inv)

subsection \<open>Savepoints\<close>

lemma AbortSub_above:
  assumes "StateStack st = us @ t # p # b" "us \<noteq> []"
  shows "\<exists>us' t'. StateStack (AbortSubTransaction st) = us' @ t' # p # b \<and> length us' = length us - 1 \<and>
    command_id_before_subxact t' = command_id_before_subxact t"
proof (cases us rule: stack_ok.cases)
  case (2 u)
  then show ?thesis using assms by (intro exI [of _ "[]"]) (auto simp: stack_AbortSub)
next
  case (3 u v vs)
  then show ?thesis using assms
    by (intro exI [of _ "v\<lparr>command_id := command_id_before_subxact u\<rparr> # vs"]) (auto simp: stack_AbortSub)
qed (use assms in auto)

lemma CommitSub_above:
  assumes "StateStack st = us @ t # p # b" "us \<noteq> []"
  shows "\<exists>us' t'. StateStack (CommitSubTransaction st) = us' @ t' # p # b \<and> length us' = length us - 1 \<and>
    command_id (hd (us' @ [t'])) = command_id (hd (us @ [t]))"
proof (cases us rule: stack_ok.cases)
  case (2 u)
  then show ?thesis using assms by (intro exI [of _ "[]"]) (auto simp: stack_CommitSub)
next
  case (3 u v vs)
  then show ?thesis using assms
    by (intro exI [of _ "v\<lparr>command_id := command_id u\<rparr> # vs"]) (auto simp: stack_CommitSub)
qed (use assms in auto)

lemma abort_until_stack:
  "StateStack st = us @ t # p # b \<Longrightarrow>
    StateStack (abort_until (length (p # b)) st) = p\<lparr>command_id := command_id_before_subxact t\<rparr> # b"
proof (induction "length us" arbitrary: us st t)
  case 0
  then have "StateStack (AbortSubTransaction st) = p\<lparr>command_id := command_id_before_subxact t\<rparr> # b"
    by (simp add: stack_AbortSub)
  then show ?case using 0
    by (subst abort_until.simps, simp) (subst abort_until.simps, simp)
next
  case (Suc k)
  then have "us \<noteq> []" by auto
  with Suc obtain us' t' where u: "StateStack (AbortSubTransaction st) = us' @ t' # p # b" "length us' = k"
    "command_id_before_subxact t' = command_id_before_subxact t"
    using AbortSub_above [OF Suc.prems \<open>us \<noteq> []\<close>] by (metis diff_Suc_1)
  have "abort_until (length (p # b)) st = abort_until (length (p # b)) (AbortSubTransaction st)"
    using Suc.prems by (subst abort_until.simps) simp
  then show ?case using Suc.hyps(1) [OF _ u(1)] u(2,3) by simp
qed

lemma commit_until_stack:
  "StateStack st = us @ t # p # b \<Longrightarrow>
    StateStack (CommitSubTransaction (commit_until (length (t # p # b)) st)) =
      p\<lparr>command_id := command_id (hd (us @ [t]))\<rparr> # b"
proof (induction "length us" arbitrary: us st t)
  case 0
  then show ?case by (subst commit_until.simps) (simp add: stack_CommitSub)
next
  case (Suc k)
  then have "us \<noteq> []" by auto
  with Suc obtain us' t' where u: "StateStack (CommitSubTransaction st) = us' @ t' # p # b" "length us' = k"
    "command_id (hd (us' @ [t'])) = command_id (hd (us @ [t]))"
    using CommitSub_above [OF Suc.prems \<open>us \<noteq> []\<close>] by (metis diff_Suc_1)
  have "commit_until (length (t # p # b)) st = commit_until (length (t # p # b)) (CommitSubTransaction st)"
    using Suc.prems Suc.hyps(2) by (subst commit_until.simps) auto
  then show ?case using Suc.hyps(1) [OF u(2) [symmetric] u(1)] by (simp only: u(3) list.size)
qed

lemma stack_ok_suffix: "stack_ok (us @ r) \<Longrightarrow> stack_ok r"
  by (induction us) (auto dest: stack_ok_tl)

lemma same_StartSub:
  "StateStack st \<noteq> [] \<Longrightarrow>
    same_but_stack (st\<lparr>NextSubTransactionId := NextSubTransactionId st + 1\<rparr>) (snd (StartSubTransaction st))"
  by (cases "StateStack st") (simp_all add: same_but_stack_def StartSubTransaction_def stack_defs Let_def)

lemma same_next: "same_but_stack st st' \<Longrightarrow> same_but_stack (st\<lparr>NextSubTransactionId := n\<rparr>) (st'\<lparr>NextSubTransactionId := n\<rparr>)"
  by (cases st; cases st') (auto simp: same_but_stack_def)

lemma find_savepoint_at:
  assumes "StateStack st = us @ t # b" "sp_name t = name" "\<forall>u \<in> set us. sp_name u \<noteq> name"
  shows "find_savepoint name st = t # b"
  using assms by (simp add: find_savepoint_def)

lemma find_savepoint_short:
  assumes "\<forall>s \<in> set (butlast (StateStack st)). sp_name s \<noteq> name"
  shows "length (find_savepoint name st) < 2"
proof (cases "StateStack st" rule: rev_cases)
  case (snoc ss t)
  then show ?thesis using assms by (simp add: find_savepoint_def dropWhile_append2)
qed (simp add: find_savepoint_def)

subsection \<open>Properties\<close>

text \<open>
  C31: Whatever sequence of BEGIN, COMMIT, ROLLBACK, PREPARE, savepoint, error and per-command
  calls a backend makes, its stack is well formed: one top-level transaction at the bottom in
  one of the states started, begin, in progress or abort pending, above it only subtransactions
  in progress, each with the transaction identifier of the top level or none yet; the nesting
  level reported is the height of the stack.
\<close>

theorem transaction_stack_invariant:
  assumes "xact_run st"
  shows "stack_ok (StateStack st) \<and>
    GetCurrentTransactionNestingLevel st = int (length (StateStack st)) \<and>
    (TransactionIdIsValid (GetCurrentTransactionIdIfAny st) \<longrightarrow>
      GetCurrentTransactionIdIfAny st = GetTopLevelTransactionIdIfAny st) \<and>
    IsTransactionBlock st = (StateStack st \<noteq> [] \<and> block_state (hd (StateStack st)) \<noteq> TB_kStarted) \<and>
    IsAbortedTransactionBlock st = (StateStack st \<noteq> [] \<and> block_state (hd (StateStack st)) = TB_kAbortPending)"
proof (cases "StateStack st")
  case Nil
  then show ?thesis
    by (simp add: GetCurrentTransactionNestingLevel_def CurrentState_def GetCurrentTransactionIdIfAny_def
      TransactionIdIsValid_def IsTransactionBlock_def IsAbortedTransactionBlock_def)
next
  case (Cons s r)
  have inv: "stack_ok (s # r)" using xact_run_inv [OF assms] Cons by simp
  have b: "block_state s = TB_kSubInProgress \<or> block_state s = TB_kStarted \<or> block_state s = TB_kBegin \<or>
      block_state s = TB_kInProgress \<or> block_state s = TB_kAbortPending"
    using inv by (cases r) (auto simp: top_blocks_def)
  have cur: "CurrentState st = Some s" using Cons by (simp add: CurrentState_def)
  have "transaction_id s = kInvalidTransactionId \<or> transaction_id s = transaction_id (last (s # r))"
    using inv by (cases r) auto
  then have "TransactionIdIsValid (GetCurrentTransactionIdIfAny st) \<longrightarrow>
      GetCurrentTransactionIdIfAny st = GetTopLevelTransactionIdIfAny st"
    using Cons cur by (auto simp: GetCurrentTransactionIdIfAny_def GetTopLevelTransactionIdIfAny_def TransactionIdIsValid_def)
  moreover have "GetCurrentTransactionNestingLevel st = int (length (StateStack st))"
    using stack_ok_nesting [OF inv] Cons cur by (simp add: GetCurrentTransactionNestingLevel_def)
  moreover have "IsTransactionBlock st = (block_state s \<noteq> TB_kStarted)"
    "IsAbortedTransactionBlock st = (block_state s = TB_kAbortPending)"
    using b cur by (auto simp: IsTransactionBlock_def IsAbortedTransactionBlock_def)
  ultimately show ?thesis using inv Cons by simp
qed

definition xact_boot :: BackendState where
  "xact_boot = InitializeTransactionSystem \<lparr>StateStack = [], NextSubTransactionId = 0,
    xclog = clog_boot ''pg_xact'', xprocs = fst proc_boot, xlocal = snd proc_boot 0, snaps = [],
    ActiveSnapshotStack = [], active_snapshot = None, catalog_snapshot = None,
    xtwophase = two_phase_start ''pg_twophase'', has_catalog = True, has_syscache = False, calls = []\<rparr>"

lemma xact_boot_simps [simp]:
  "StateStack xact_boot = []" "NextSubTransactionId xact_boot = 2" "ActiveSnapshotStack xact_boot = []"
  "g_variable_cache (xclog xact_boot) = Some \<lparr>nextXid = 3, oldestXid = 3\<rparr>" "clog_ready (xclog xact_boot)"
  "has_catalog xact_boot" "calls xact_boot = []"
  by (auto simp: xact_boot_def InitializeTransactionSystem_def kTopSubTransactionId_def clog_ready_def
      cache_ok_Initialize clog_boot_def SetClogDirectory_def clog_start_def InitializeCommitLog_def xid_consts
      cache_ok_def TransactionIdIsNormal_def)

text \<open>BEGIN, a write, SAVEPOINT a.\<close>

definition xact_ex :: BackendState where
  "xact_ex = snd (BeginSavepoint ''a'' (snd (GetCurrentTransactionId (snd (BeginTransactionBlock xact_boot)))))"

lemmas xact_eval = BeginTransactionBlock_def StartTransaction_def stack_defs GetCurrentTransactionId_def
  AllocateNextTransactionId_def BeginSavepoint_def StartSubTransaction_def TransactionStateData_default_def
  TransactionIdIsNormal_def TransactionIdIsValid_def xid_consts Let_def

lemma xact_ex_run: "xact_run xact_ex"
proof -
  have 1: "xact_run (snd (BeginTransactionBlock xact_boot))"
    unfolding xact_boot_def by (rule x_next [OF x_init x_begin])
  have "xid_supply (snd (BeginTransactionBlock xact_boot))"
    by (simp add: xid_supply_def BeginTransactionBlock_def StartTransaction_def stack_defs TransactionIdIsNormal_def xid_consts)
  from x_next [OF x_next [OF 1 x_get_xid [OF this]] x_savepoint] show ?thesis
    unfolding xact_ex_def .
qed

lemma transaction_stack_invariant_witness:
  "xact_run xact_ex \<and> stack_ok (StateStack xact_ex) \<and> length (StateStack xact_ex) = 2 \<and>
   GetCurrentTransactionNestingLevel xact_ex = 2"
proof -
  have "length (StateStack xact_ex) = 2"
    by (simp add: xact_ex_def xact_eval)
  then show ?thesis using transaction_stack_invariant [OF xact_ex_run] xact_ex_run by simp
qed

text \<open>What is left of a transaction that has finished with the given status.\<close>

definition finished_as :: "XidStatus \<Rightarrow> BackendState \<Rightarrow> BackendState \<Rightarrow> bool" where
  "finished_as status st st' \<longleftrightarrow> StateStack st' = [] \<and> ActiveSnapshotStack st' = [] \<and>
    xprocs st' = set_my_xid kInvalidTransactionId (xlocal st) (xprocs st) \<and>
    clog_status (xclog st') =
      (let x = GetTopLevelTransactionIdIfAny st in
       if TransactionIdIsValid x then (clog_status (xclog st))(x := status) else clog_status (xclog st))"

lemma finished_commit:
  assumes "StateStack st = [t]" "clog_ready (xclog st)"
    and "TransactionIdIsValid (transaction_id t) \<longrightarrow> clog_recordable (transaction_id t)"
  shows "fst (CommitTransaction st) = Inr ()" "finished_as kCommitted st (snd (CommitTransaction st))"
proof -
  note c = CommitTransaction_normal [OF assms(1)]
  have n: "TransactionIdIsValid (transaction_id t) \<longrightarrow> TransactionIdIsNormal (transaction_id t)"
    using assms(3) by (simp add: clog_recordable_def)
  show "fst (CommitTransaction st) = Inr ()" "finished_as kCommitted st (snd (CommitTransaction st))"
    using c [OF n] assms clog_status_set_status
    by (auto simp: finished_as_def GetTopLevelTransactionIdIfAny_def Let_def)
qed

lemma finished_abort:
  assumes "StateStack st = [t]" "clog_ready (xclog st)"
    and "TransactionIdIsValid (transaction_id t) \<longrightarrow> clog_recordable (transaction_id t)"
  shows "fst (AbortTransaction st) = Inr ()" "finished_as kAborted st (snd (AbortTransaction st))"
proof -
  note c = AbortTransaction_normal [OF assms(1)]
  have n: "TransactionIdIsValid (transaction_id t) \<longrightarrow> TransactionIdIsNormal (transaction_id t)"
    using assms(3) by (simp add: clog_recordable_def)
  show "fst (AbortTransaction st) = Inr ()" "finished_as kAborted st (snd (AbortTransaction st))"
    using c [OF n] assms clog_status_set_status
    by (auto simp: finished_as_def GetTopLevelTransactionIdIfAny_def Let_def)
qed

text \<open>The block state and the command counters do not matter for the outcome.\<close>

lemma finished_as_cong:
  assumes "finished_as status st1 st'" "xprocs st1 = xprocs st" "xlocal st1 = xlocal st" "xclog st1 = xclog st"
    "GetTopLevelTransactionIdIfAny st1 = GetTopLevelTransactionIdIfAny st"
  shows "finished_as status st st'"
  using assms by (simp add: finished_as_def Let_def)

lemma set_block_fields:
  "xprocs (set_block b st) = xprocs st" "xlocal (set_block b st) = xlocal st" "xclog (set_block b st) = xclog st"
  "StateStack st = [t] \<Longrightarrow> GetTopLevelTransactionIdIfAny (set_block b st) = GetTopLevelTransactionIdIfAny st"
  by (auto simp: set_block_def upd_current_def GetTopLevelTransactionIdIfAny_def)

text \<open>
  C5: How a transaction ends. ROLLBACK, in whatever state of the block and under any number of
  savepoints, records the transaction as aborted; COMMIT of a block without open savepoints
  records it as committed and returns true; COMMIT of a block in which a command has failed records it
  as aborted and returns false; COMMIT under an open savepoint is refused with a warning and
  changes nothing else. A transaction that never wrote has no entry in the log and changes no
  status; in every case where the transaction ends, the stack is empty, the snapshots are
  released, the published identifier is cleared, and no other status changes.
\<close>

theorem transaction_outcome:
  assumes run: "xact_run st" "StateStack st \<noteq> []" and log: "clog_ready (xclog st)"
    and rec: "TransactionIdIsValid (GetTopLevelTransactionIdIfAny st) \<longrightarrow>
      clog_recordable (GetTopLevelTransactionIdIfAny st)"
  shows "(case AbortTransactionBlock st of (r, st') \<Rightarrow> r = Inr () \<and> finished_as kAborted st st') \<and>
    (case EndTransactionBlock st of (r, st') \<Rightarrow>
      if length (StateStack st) > 1 then r = Inr False \<and> st' = call_out
        (Warning ''cannot commit a transaction block while a subtransaction is active'') st
      else if IsAbortedTransactionBlock st then r = Inr False \<and> finished_as kAborted st st'
      else r = Inr True \<and> finished_as kCommitted st st')"
proof -
  have inv: "stack_inv st" using xact_run_inv [OF run(1)] .
  obtain t where t: "StateStack (abort_until 1 st) = [t]" "transaction_id t = transaction_id (last (StateStack st))"
    "stack_inv (abort_until 1 st)" using abort_until_single [OF inv run(2)] .
  note same = same_fields [OF same_abort_until [of st 1]]
  have top: "GetTopLevelTransactionIdIfAny (abort_until 1 st) = GetTopLevelTransactionIdIfAny st"
    using t run(2) by (simp add: GetTopLevelTransactionIdIfAny_def)
  have rec': "TransactionIdIsValid (transaction_id (last (StateStack st))) \<longrightarrow>
      clog_recordable (transaction_id (last (StateStack st)))"
    using rec run(2) by (simp add: GetTopLevelTransactionIdIfAny_def)
  have sub: "fst (AbortTransaction (abort_until 1 st)) = Inr ()"
      "finished_as kAborted st (snd (AbortTransaction (abort_until 1 st)))"
    using finished_abort [OF t(1)] finished_as_cong [of kAborted "abort_until 1 st"] same top log rec' t(2)
    by auto
  from inv run(2) show ?thesis
  proof (cases rule: block_cases)
    case (sub s p r)
    then show ?thesis using \<open>fst (AbortTransaction (abort_until 1 st)) = Inr ()\<close>
        \<open>finished_as kAborted st (snd (AbortTransaction (abort_until 1 st)))\<close>
      by (auto simp: AbortTransactionBlock_def EndTransactionBlock_def case_prod_beta)
  next
    case (top s)
    have b: "fst (AbortTransaction (set_block b st)) = Inr ()" "finished_as kAborted st (snd (AbortTransaction (set_block b st)))"
      "fst (CommitTransaction (set_block b st)) = Inr ()" "finished_as kCommitted st (snd (CommitTransaction (set_block b st)))"
      for b
      using finished_abort [OF set_block_stack [OF top(1), of b]] finished_commit [OF set_block_stack [OF top(1), of b]]
        finished_as_cong [of _ "set_block b st" _ st] set_block_fields(1-3) [where b = b and st = st] set_block_fields(4) [OF top(1), of b]
        log rec' top(1)
      by auto
    have "fst (AbortTransaction st) = Inr ()" "finished_as kAborted st (snd (AbortTransaction st))"
      "fst (CommitTransaction st) = Inr ()" "finished_as kCommitted st (snd (CommitTransaction st))"
      using finished_abort [OF top(1) log] finished_commit [OF top(1) log] rec' top(1) by auto
    then show ?thesis using top b
      by (auto simp: AbortTransactionBlock_def EndTransactionBlock_def IsAbortedTransactionBlock_def case_prod_beta)
  qed
qed

lemma xact_ex_log: "clog_ready (xclog xact_ex)" "GetTopLevelTransactionIdIfAny xact_ex = 3"
  "clog_recordable (GetTopLevelTransactionIdIfAny xact_ex)" "TransactionIdIsValid (GetTopLevelTransactionIdIfAny xact_ex)"
proof -
  have b: "clog_ready (xclog xact_boot)" by simp
  show "clog_ready (xclog xact_ex)"
    using clog_ready_set_status b by (simp add: xact_ex_def xact_eval TransactionIdSetInProgress_def)
  show top: "GetTopLevelTransactionIdIfAny xact_ex = 3"
    by (simp add: xact_ex_def xact_eval GetTopLevelTransactionIdIfAny_def)
  show "clog_recordable (GetTopLevelTransactionIdIfAny xact_ex)" "TransactionIdIsValid (GetTopLevelTransactionIdIfAny xact_ex)"
    by (simp_all add: top clog_recordable_def TransactionIdIsNormal_def TransactionIdIsValid_def kMaxXids_def xid_consts)
qed

lemma transaction_outcome_witness:
  "case AbortTransactionBlock xact_ex of (r, st') \<Rightarrow>
     r = Inr () \<and> StateStack st' = [] \<and> clog_status (xclog st') 3 = kAborted"
proof -
  have "StateStack xact_ex \<noteq> []" by (simp add: xact_ex_def xact_eval)
  from transaction_outcome [OF xact_ex_run this xact_ex_log(1)] xact_ex_log(2,3,4) show ?thesis
    by (simp add: case_prod_beta finished_as_def Let_def)
qed

lemma rollback_to_savepoint:
  assumes inv: "stack_inv st"
    and a: "StateStack st = us @ t # p # b" "sp_name t = name" "\<forall>u \<in> set us. sp_name u \<noteq> name"
  shows "case RollbackToSavepoint name st of (r, st') \<Rightarrow>
        r = Inr () \<and> same_but_stack (st\<lparr>NextSubTransactionId := NextSubTransactionId st + 1\<rparr>) st' \<and>
        (\<exists>s. StateStack st' = s # p\<lparr>command_id := command_id_before_subxact t\<rparr> # b \<and> sp_name s = name \<and>
          block_state s = TB_kSubInProgress \<and> nesting_level s = nesting_level t \<and>
          transaction_id s = transaction_id p \<and> command_id s = command_id_before_subxact t \<and>
          command_id_before_subxact s = command_id_before_subxact t)"
proof -
  have f: "find_savepoint name st = t # p # b" by (rule find_savepoint_at [OF a])
  let ?st = "abort_until (length (p # b)) st"
  have stack: "StateStack ?st = p\<lparr>command_id := command_id_before_subxact t\<rparr> # b" by (rule abort_until_stack [OF a(1)])
  have ne: "StateStack ?st \<noteq> []" using stack by simp
  note sub = inv_StartSub [OF inv_abort_until [OF inv] ne]
  obtain st1 where st1: "StartSubTransaction ?st = (Inr (), st1)" using sub(1) by (metis prod.collapse)
  obtain s where s: "StateStack st1 = s # StateStack ?st" "block_state s = TB_kSubInProgress"
    "nesting_level s = int (length (StateStack ?st)) + 1" "transaction_id s = transaction_id (hd (StateStack ?st))"
    "command_id s = command_id (hd (StateStack ?st))" "command_id_before_subxact s = command_id (hd (StateStack ?st))"
    using sub(3) st1 by auto
  have "stack_ok (t # p # b)" using stack_ok_suffix inv a(1) by metis
  then have n: "nesting_level t = int (length (p # b)) + 1" by simp
  have "same_but_stack (st\<lparr>NextSubTransactionId := NextSubTransactionId st + 1\<rparr>) st1"
    using same_StartSub [OF ne] st1 same_fields [OF same_abort_until [of st "length (p # b)"]]
      same_abort_until [of st "length (p # b)"] by (auto intro: same_trans same_next)
  then have "same_but_stack (st\<lparr>NextSubTransactionId := NextSubTransactionId st + 1\<rparr>)
      (upd_current (\<lambda>s. s\<lparr>sp_name := name\<rparr>) st1)"
    by (rule same_trans) (simp add: same_but_stack_def upd_current_def)
  moreover have "StateStack (upd_current (\<lambda>s. s\<lparr>sp_name := name\<rparr>) st1) =
      s\<lparr>sp_name := name\<rparr> # p\<lparr>command_id := command_id_before_subxact t\<rparr> # b"
    using s(1) stack by (simp add: upd_current_def)
  ultimately show ?thesis using a(1) f st1 s n stack by (simp add: RollbackToSavepoint_def)
qed

text \<open>
  C11: Savepoints are found by name from the innermost outwards. RELEASE pops the savepoint and
  everything above it and keeps the current command counter; ROLLBACK TO pops the same, puts
  the command counter back to its value when the savepoint was set, and sets a new savepoint of
  the same name and level in its place; both touch nothing outside the stack (except the
  counter of subtransactions for ROLLBACK TO). With no savepoint of that name both report an error and
  change nothing.
\<close>

theorem savepoint_semantics:
  assumes "xact_run st"
  shows "(StateStack st = us @ t # p # b \<and> sp_name t = name \<and> (\<forall>u \<in> set us. sp_name u \<noteq> name) \<longrightarrow>
      (case ReleaseSavepoint name st of (r, st') \<Rightarrow>
        r = Inr () \<and> StateStack st' = p\<lparr>command_id := GetCurrentCommandId st\<rparr> # b \<and> same_but_stack st st') \<and>
      (case RollbackToSavepoint name st of (r, st') \<Rightarrow>
        r = Inr () \<and> same_but_stack (st\<lparr>NextSubTransactionId := NextSubTransactionId st + 1\<rparr>) st' \<and>
        (\<exists>s. StateStack st' = s # p\<lparr>command_id := command_id_before_subxact t\<rparr> # b \<and> sp_name s = name \<and>
          block_state s = TB_kSubInProgress \<and> nesting_level s = nesting_level t \<and>
          transaction_id s = transaction_id p \<and> command_id s = command_id_before_subxact t \<and>
          command_id_before_subxact s = command_id_before_subxact t))) \<and>
    ((\<forall>s \<in> set (butlast (StateStack st)). sp_name s \<noteq> name) \<longrightarrow>
      (\<exists>e. ReleaseSavepoint name st = (Inl e, st)) \<and> (\<exists>e. RollbackToSavepoint name st = (Inl e, st)))"
proof -
  have inv: "stack_inv st" using xact_run_inv [OF assms] .
  have missing: "(\<exists>e. ReleaseSavepoint name st = (Inl e, st)) \<and> (\<exists>e. RollbackToSavepoint name st = (Inl e, st))"
    if "\<forall>s \<in> set (butlast (StateStack st)). sp_name s \<noteq> name"
    using find_savepoint_short [OF that] by (simp add: ReleaseSavepoint_def RollbackToSavepoint_def Let_def)
  have release: "case ReleaseSavepoint name st of (r, st') \<Rightarrow>
        r = Inr () \<and> StateStack st' = p\<lparr>command_id := GetCurrentCommandId st\<rparr> # b \<and> same_but_stack st st'"
    if a: "StateStack st = us @ t # p # b" "sp_name t = name" "\<forall>u \<in> set us. sp_name u \<noteq> name"
  proof -
    have f: "find_savepoint name st = t # p # b" by (rule find_savepoint_at [OF a])
    have "GetCurrentCommandId st = command_id (hd (us @ [t]))"
      using a(1) by (cases us) (simp_all add: GetCurrentCommandId_def CurrentState_def)
    then show ?thesis
      using a(1) f commit_until_stack [OF a(1)] same_trans [OF same_commit_until same_CommitSub]
      by (simp add: ReleaseSavepoint_def)
  qed
  show ?thesis
    by (intro conjI impI)
      (elim conjE, rule release; assumption | elim conjE, rule rollback_to_savepoint [OF inv]; assumption | simp add: missing)+
qed

lemma savepoint_semantics_witness:
  "case RollbackToSavepoint ''a'' xact_ex of (r, st') \<Rightarrow> r = Inr () \<and> length (StateStack st') = 2 \<and>
     clog_status (xclog st') = clog_status (xclog xact_ex)"
proof -
  obtain t p where s: "StateStack xact_ex = [] @ t # p # []" "sp_name t = ''a''"
    by (simp add: xact_ex_def xact_eval)
  then show ?thesis using savepoint_semantics [OF xact_ex_run, of "[]" t p "[]" "''a''"]
    by (auto simp: case_prod_beta dest: same_fields)
qed

text \<open>
  PREPARE TRANSACTION does not look at the state of the block. A block in which a command has
  failed, and which COMMIT would roll back, is prepared without complaint, and COMMIT PREPARED then
  records the failed transaction as committed.
\<close>

theorem failed_block_can_be_prepared:
  assumes "StateStack st = [t]" "block_state t = TB_kAbortPending" "clog_recordable (transaction_id t)"
    and "clog_ready (xclog st)" "gid \<notin> tp_gid ` set (StateList (xtwophase st))"
  shows "IsAbortedTransactionBlock st \<and> fst (EndTransactionBlock st) = Inr False \<and>
    (case PrepareTransactionBlock wr gid st of (r, st') \<Rightarrow>
      r = Inr True \<and> StateStack st' = [] \<and>
      (case CommitPreparedTransaction gid (xtwophase st') (xclog st') of (r', tp', clog') \<Rightarrow>
        r' = Inr True \<and> clog_status clog' (transaction_id t) = kCommitted))"
proof -
  have v: "TransactionIdIsValid (transaction_id t)" "TransactionIdIsNormal (transaction_id t)"
    using assms(3) by (auto simp: clog_recordable_def TransactionIdIsValid_def)
  have dup: "\<not> list_ex (\<lambda>s. tp_gid s = gid) (StateList (xtwophase st))"
    using assms(5) by (auto simp: list_ex_iff)
  let ?s = "\<lparr>tp_gid = gid, tp_xid = transaction_id t, tp_isolation_level = isolation_level t,
      tp_read_only = read_only t, tp_deferrable = deferrable t\<rparr>"
  have "gid \<notin> tp_gid ` set ss \<Longrightarrow> LookupTwoPhaseState gid (ss @ [?s]) = Some ?s" for ss by (induction ss) auto
  then have lookup: "LookupTwoPhaseState gid (StateList (xtwophase st) @ [?s]) = Some ?s" using assms(5) .
  have "StateList (WriteStateFile wr ?s tp) = StateList tp" for tp by (simp add: WriteStateFile_def Let_def)
  then have p: "fst (PrepareTransactionBlock wr gid st) = Inr True"
    "StateStack (snd (PrepareTransactionBlock wr gid st)) = []"
    "xclog (snd (PrepareTransactionBlock wr gid st)) = xclog st"
    "StateList (xtwophase (snd (PrepareTransactionBlock wr gid st))) = StateList (xtwophase st) @ [?s]"
    using assms(1) v(1) dup by (simp_all add: PrepareTransactionBlock_def SaveTwoPhaseState_def stack_defs Let_def)
  have "fst (EndTransactionBlock st) = Inr False"
    using assms finished_abort(1) [OF set_block_stack [OF assms(1), of TB_kAbort]]
    by (simp add: EndTransactionBlock_def CurrentState_def set_block_fields)
  then show ?thesis
    using assms(1,2) v(2) p lookup clog_status_set_status [OF assms(4,3)]
    by (simp add: IsAbortedTransactionBlock_def CurrentState_def CommitPreparedTransaction_def
      TransactionIdCommit_def case_prod_beta)
qed

definition xact_failed :: BackendState where
  "xact_failed = snd (AbortCurrentTransaction (snd (GetCurrentTransactionId (snd (BeginTransactionBlock xact_boot)))))"

lemma failed_block_can_be_prepared_witness:
  "IsAbortedTransactionBlock xact_failed \<and>
   (case PrepareTransactionBlock (\<lambda>_. Some) ''g'' xact_failed of (r, st') \<Rightarrow> r = Inr True \<and>
     (case CommitPreparedTransaction ''g'' (xtwophase st') (xclog st') of (r', tp', clog') \<Rightarrow>
        r' = Inr True \<and> clog_status clog' 3 = kCommitted))"
proof -
  obtain t where t: "StateStack xact_failed = [t]" "block_state t = TB_kAbortPending" "transaction_id t = 3"
    by (simp add: xact_failed_def xact_eval AbortCurrentTransaction_def)
  have rec: "clog_recordable (transaction_id t)"
    by (simp add: t(3) clog_recordable_def TransactionIdIsNormal_def kMaxXids_def xid_consts)
  have "clog_ready (xclog xact_boot)" by simp
  then have "clog_ready (xclog xact_failed)"
    using clog_ready_set_status
    by (simp add: xact_failed_def xact_eval AbortCurrentTransaction_def TransactionIdSetInProgress_def)
  moreover have "StateList (xtwophase xact_failed) = []"
    by (simp add: xact_failed_def xact_eval AbortCurrentTransaction_def)
      (simp add: xact_boot_def InitializeTransactionSystem_def two_phase_start_def)
  ultimately show ?thesis
    using failed_block_can_be_prepared [OF t(1,2) rec, of "''g''" "\<lambda>_. Some"] t(3)
    by (auto simp: case_prod_beta)
qed

end
