(* ===== verification/Snapshots.thy ===== *)
theory Snapshots
  imports Xact
begin

text \<open>
  Snapshots (\<open>include/transaction/snapshot.hpp\<close>, \<open>src/transaction/snapshot.cpp\<close>): what a
  snapshot says about a transaction identifier, how it is computed from the array of running
  backends, and the stack of active snapshots of a backend. A snapshot pointer is an index into
  the snapshots allocated so far; the head of \<open>ActiveSnapshotStack\<close> is the top.
\<close>

subsection \<open>Predicates\<close>

definition XidInSnapshot :: "TransactionId \<Rightarrow> SnapshotData \<Rightarrow> bool" where
  "XidInSnapshot xid snap = list_ex (\<lambda>x. x = xid) (snap_xip snap)"

definition XidLtXmin :: "TransactionId \<Rightarrow> SnapshotData \<Rightarrow> bool" where
  "XidLtXmin xid snap = (TransactionIdIsValid (snap_xmin snap) \<and> TransactionIdPrecedes xid (snap_xmin snap))"

definition XidGeXmax :: "TransactionId \<Rightarrow> SnapshotData \<Rightarrow> bool" where
  "XidGeXmax xid snap =
    (TransactionIdIsValid (snap_xmax snap) \<and> TransactionIdFollowsOrEquals xid (snap_xmax snap))"

subsection \<open>The snapshot manager\<close>

definition GetSnapshotData :: "BackendState \<Rightarrow> SnapshotData \<Rightarrow> SnapshotData" where
  "GetSnapshotData st snap =
    (let (xip, xmax, xmin) = GetRunningTransactionData (xprocs st) (xclog st)
     in snap\<lparr>snapshot_type := SN_kMVCC, snap_xip := xip, snap_xmax := xmax, snap_xmin := xmin,
          snapshot_xid := GetCurrentTransactionIdIfAny st, snap_curcid := GetCurrentCommandId st,
          taken_during_recovery := False\<rparr>)"

definition GetLatestSnapshot :: "BackendState \<Rightarrow> nat \<times> BackendState" where
  "GetLatestSnapshot st =
    (length (snaps st), st\<lparr>snaps := snaps st @ [GetSnapshotData st SnapshotData_default]\<rparr>)"

definition GetTransactionSnapshot :: "BackendState \<Rightarrow> nat \<times> BackendState" where
  "GetTransactionSnapshot st = (case ActiveSnapshotStack st of
      p # _ \<Rightarrow> (p, st)
    | [] \<Rightarrow>
        let (p, st1) = GetLatestSnapshot st
        in (p, st1\<lparr>active_snapshot := Some p, ActiveSnapshotStack := p # ActiveSnapshotStack st1\<rparr>))"

definition PushActiveSnapshot :: "nat \<Rightarrow> BackendState \<Rightarrow> BackendState" where
  "PushActiveSnapshot p st = st\<lparr>ActiveSnapshotStack := p # ActiveSnapshotStack st\<rparr>"

definition PushCopiedSnapshot :: "nat \<Rightarrow> BackendState \<Rightarrow> BackendState" where
  "PushCopiedSnapshot p st =
    st\<lparr>snaps := snaps st @ [snaps st ! p], ActiveSnapshotStack := length (snaps st) # ActiveSnapshotStack st\<rparr>"

definition PopActiveSnapshot :: "BackendState \<Rightarrow> BackendState" where
  "PopActiveSnapshot st =
    st\<lparr>ActiveSnapshotStack := (case ActiveSnapshotStack st of [] \<Rightarrow> [] | _ # ps \<Rightarrow> ps)\<rparr>"

definition ActiveSnapshotSet :: "BackendState \<Rightarrow> bool" where
  "ActiveSnapshotSet st = (ActiveSnapshotStack st \<noteq> [])"

definition GetCatalogSnapshot :: "BackendState \<Rightarrow> nat \<times> BackendState" where
  "GetCatalogSnapshot st = (case catalog_snapshot st of
      Some p \<Rightarrow> (p, st)
    | None \<Rightarrow> let (p, st1) = GetLatestSnapshot st in (p, st1\<lparr>catalog_snapshot := Some p\<rparr>))"

definition InvalidateCatalogSnapshot :: "BackendState \<Rightarrow> BackendState" where
  "InvalidateCatalogSnapshot st = st\<lparr>catalog_snapshot := None\<rparr>"

definition GetNonHistoricCatalogSnapshot :: "BackendState \<Rightarrow> nat option" where
  "GetNonHistoricCatalogSnapshot st =
    (case catalog_snapshot st of Some p \<Rightarrow> Some p | None \<Rightarrow> GetActiveSnapshot st)"

definition InitializeSnapshotManager :: "BackendState \<Rightarrow> BackendState" where
  "InitializeSnapshotManager st =
    st\<lparr>ActiveSnapshotStack := [], active_snapshot := None, catalog_snapshot := None\<rparr>"

definition MakeSnapshot ::
  "TransactionId \<Rightarrow> TransactionId \<Rightarrow> TransactionId list \<Rightarrow> BackendState \<Rightarrow> SnapshotData" where
  "MakeSnapshot xmin xmax xip st = SnapshotData_default\<lparr>snapshot_type := SN_kMVCC, snap_xmin := xmin,
     snap_xmax := xmax, snap_xip := xip, snapshot_xid := GetCurrentTransactionIdIfAny st,
     snap_curcid := GetCurrentCommandId st\<rparr>"

subsection \<open>What a snapshot tells\<close>

text \<open>
  The finished transactions of a snapshot: those below \<open>xmax\<close> that are not listed as running.
\<close>

definition finished_before :: "SnapshotData \<Rightarrow> TransactionId \<Rightarrow> bool" where
  "finished_before snap xid \<longleftrightarrow> \<not> TransactionIdIsNormal xid \<or> (\<not> XidGeXmax xid snap \<and> \<not> XidInSnapshot xid snap)"

text \<open>No identifier that is listed as running lies below \<open>xmin\<close>.\<close>

definition snapshot_wf :: "SnapshotData \<Rightarrow> bool" where
  "snapshot_wf snap \<longleftrightarrow> (\<forall>x \<in> set (snap_xip snap). \<not> XidLtXmin x snap)"

lemma XidInSnapshot_set: "XidInSnapshot x snap \<longleftrightarrow> x \<in> set (snap_xip snap)"
  by (auto simp: XidInSnapshot_def list_ex_iff)

lemma snapshot_wf_lt: "snapshot_wf snap \<Longrightarrow> XidLtXmin x snap \<Longrightarrow> \<not> XidInSnapshot x snap"
  by (auto simp: snapshot_wf_def XidInSnapshot_set)

lemma GetSnapshotData_fields:
  "snap_xip (GetSnapshotData st snap) = fst (GetRunningTransactionData (xprocs st) (xclog st))"
  "snap_xmax (GetSnapshotData st snap) = fst (snd (GetRunningTransactionData (xprocs st) (xclog st)))"
  "snap_xmin (GetSnapshotData st snap) = snd (snd (GetRunningTransactionData (xprocs st) (xclog st)))"
  "snap_curcid (GetSnapshotData st snap) = GetCurrentCommandId st"
  by (simp_all add: GetSnapshotData_def case_prod_beta)

lemma running_props:
  assumes "proc_inv (sh, locs)" "\<forall>x \<in> published sh. xid_window base x"
  shows "set (fst (GetRunningTransactionData sh clog)) = published sh"
    "fst (snd (GetRunningTransactionData sh clog)) = GetNextTransactionId clog + 1"
    "published sh \<noteq> {} \<Longrightarrow> snd (snd (GetRunningTransactionData sh clog)) \<in> published sh \<and>
       (\<forall>x \<in> published sh. \<not> TransactionIdPrecedes x (snd (snd (GetRunningTransactionData sh clog))))"
proof -
  have scan: "set (scan_running sh) = published sh" by (rule set_scan_running [OF assms(1)])
  have valid: "\<forall>x \<in> set (scan_running sh). TransactionIdIsValid x \<and> xid_window base x"
    using assms(2) scan by (auto simp: published_def)
  show "set (fst (GetRunningTransactionData sh clog)) = published sh"
    "fst (snd (GetRunningTransactionData sh clog)) = GetNextTransactionId clog + 1"
    using scan by (auto simp: GetRunningTransactionData_def Let_def scan_running_def)
  show "snd (snd (GetRunningTransactionData sh clog)) \<in> published sh \<and>
       (\<forall>x \<in> published sh. \<not> TransactionIdPrecedes x (snd (snd (GetRunningTransactionData sh clog))))"
    if "published sh \<noteq> {}"
  proof -
    have ne: "scan_running sh \<noteq> []" using that scan by auto
    then obtain arr where "g_procarray sh = Some arr" by (cases "g_procarray sh") (simp_all add: scan_running_def)
    with ne show ?thesis using oldest_running [OF valid] scan
      by (simp add: GetRunningTransactionData_def Let_def TransactionIdIsValid_def)
  qed
qed

lemma GetSnapshotData_wf:
  assumes "proc_inv (xprocs st, locs)" "\<forall>x \<in> published (xprocs st). xid_window base x"
  shows "snapshot_wf (GetSnapshotData st snap)"
  using running_props [OF assms, of "xclog st"]
  by (auto simp: snapshot_wf_def GetSnapshotData_fields XidLtXmin_def)

end
