(* ===== verification/Visibility.thy ===== *)
theory Visibility
  imports Snapshots
begin

text \<open>
  Tuple headers (\<open>include/transaction/heap_tuple.hpp\<close>) and the visibility of tuple versions
  (\<open>src/transaction/visibility.cpp\<close>). The checks set hint bits in the header and use the
  commit log through its cache, so they return the header and the backend state.
\<close>

subsection \<open>Tuple headers\<close>

record ItemPointerData =
  ip_blkid :: BlockNumber
  ip_posid :: u16

record HeapTupleHeaderData =
  t_xmin :: TransactionId
  t_xmax :: TransactionId
  t_cid :: u32
  t_ctid :: ItemPointerData
  t_infomask2 :: u16
  t_infomask :: u16
  t_hoff :: u8

definition kHeapXminCommitted :: u16 where "kHeapXminCommitted = 0x0100"
definition kHeapXminInvalid :: u16 where "kHeapXminInvalid = 0x0200"
definition kHeapXminFrozen :: u16 where "kHeapXminFrozen = 0x0400"
definition kHeapXmaxLocked :: u16 where "kHeapXmaxLocked = 0x0080"
definition kHeapXmaxCommitted :: u16 where "kHeapXmaxCommitted = 0x0400"
definition kHeapXmaxInvalid :: u16 where "kHeapXmaxInvalid = 0x0800"
definition kHeapHasNull :: u16 where "kHeapHasNull = 0x0001"
definition kHeapUpdated :: u16 where "kHeapUpdated = 0x2000"
definition kHeapNattsMask :: u16 where "kHeapNattsMask = 0x07FF"

lemmas infomask_defs = kHeapXminCommitted_def kHeapXminInvalid_def kHeapXminFrozen_def kHeapXmaxLocked_def
  kHeapXmaxCommitted_def kHeapXmaxInvalid_def kHeapHasNull_def kHeapUpdated_def

datatype XactStatus = XS_kInProgress | XS_kCommitted | XS_kAborted | XS_kFrozen

definition HeapTupleHeaderGetXmin :: "HeapTupleHeaderData \<Rightarrow> TransactionId" where
  "HeapTupleHeaderGetXmin tup = t_xmin tup"

definition HeapTupleHeaderGetXmax :: "HeapTupleHeaderData \<Rightarrow> TransactionId" where
  "HeapTupleHeaderGetXmax tup = t_xmax tup"

definition HeapTupleHeaderGetCid :: "HeapTupleHeaderData \<Rightarrow> u32" where
  "HeapTupleHeaderGetCid tup = t_cid tup"

lemmas header_accessors = HeapTupleHeaderGetXmin_def HeapTupleHeaderGetXmax_def HeapTupleHeaderGetCid_def

definition has_flag :: "u16 \<Rightarrow> HeapTupleHeaderData \<Rightarrow> bool" where
  "has_flag f tup \<longleftrightarrow> t_infomask tup AND f \<noteq> 0"

definition HeapTupleHeaderGetXminStatus :: "HeapTupleHeaderData \<Rightarrow> XactStatus" where
  "HeapTupleHeaderGetXminStatus tup =
    (if has_flag kHeapXminCommitted tup then XS_kCommitted
     else if has_flag kHeapXminInvalid tup then XS_kAborted
     else if has_flag kHeapXminFrozen tup then XS_kFrozen
     else XS_kInProgress)"

definition HeapTupleHeaderGetXmaxStatus :: "HeapTupleHeaderData \<Rightarrow> XactStatus" where
  "HeapTupleHeaderGetXmaxStatus tup =
    (if has_flag kHeapXmaxCommitted tup then XS_kCommitted
     else if has_flag kHeapXmaxInvalid tup then XS_kAborted
     else XS_kInProgress)"

definition set_clear :: "u16 \<Rightarrow> u16 \<Rightarrow> HeapTupleHeaderData \<Rightarrow> HeapTupleHeaderData" where
  "set_clear f g tup = tup\<lparr>t_infomask := (t_infomask tup OR f) AND NOT g\<rparr>"

definition HeapTupleHeaderSetXminCommitted :: "HeapTupleHeaderData \<Rightarrow> HeapTupleHeaderData" where
  "HeapTupleHeaderSetXminCommitted tup = set_clear kHeapXminCommitted kHeapXminInvalid tup"

definition HeapTupleHeaderSetXminInvalid :: "HeapTupleHeaderData \<Rightarrow> HeapTupleHeaderData" where
  "HeapTupleHeaderSetXminInvalid tup = set_clear kHeapXminInvalid kHeapXminCommitted tup"

definition HeapTupleHeaderSetXmaxCommitted :: "HeapTupleHeaderData \<Rightarrow> HeapTupleHeaderData" where
  "HeapTupleHeaderSetXmaxCommitted tup = set_clear kHeapXmaxCommitted kHeapXmaxInvalid tup"

definition HeapTupleHeaderSetXmaxInvalid :: "HeapTupleHeaderData \<Rightarrow> HeapTupleHeaderData" where
  "HeapTupleHeaderSetXmaxInvalid tup = set_clear kHeapXmaxInvalid kHeapXmaxCommitted tup"

definition HeapTupleHeaderGetNatts :: "HeapTupleHeaderData \<Rightarrow> nat" where
  "HeapTupleHeaderGetNatts tup = unat (t_infomask2 tup AND kHeapNattsMask)"

definition HeapTupleHeaderSetNatts :: "int \<Rightarrow> HeapTupleHeaderData \<Rightarrow> HeapTupleHeaderData" where
  "HeapTupleHeaderSetNatts natts tup = tup\<lparr>t_infomask2 :=
     (t_infomask2 tup AND NOT kHeapNattsMask) OR (of_int natts AND kHeapNattsMask)\<rparr>"

definition HeapTupleHeaderHasNulls :: "HeapTupleHeaderData \<Rightarrow> bool" where
  "HeapTupleHeaderHasNulls tup = has_flag kHeapHasNull tup"

subsection \<open>Checks\<close>

definition did_commit :: "TransactionId \<Rightarrow> BackendState \<Rightarrow> bool \<times> BackendState" where
  "did_commit xid st = (let (b, clog) = TransactionIdDidCommit xid (xclog st) in (b, st\<lparr>xclog := clog\<rparr>))"

definition did_abort :: "TransactionId \<Rightarrow> BackendState \<Rightarrow> bool \<times> BackendState" where
  "did_abort xid st = (let (b, clog) = TransactionIdDidAbort xid (xclog st) in (b, st\<lparr>xclog := clog\<rparr>))"

text \<open>The result is the pair of the returned value and \<open>*hint_committed\<close>.\<close>

definition XidVisibleInSnapshot ::
  "TransactionId \<Rightarrow> SnapshotData \<Rightarrow> BackendState \<Rightarrow> (bool \<times> bool) \<times> BackendState" where
  "XidVisibleInSnapshot xid snap st =
    (if \<not> TransactionIdIsNormal xid then ((True, True), st)
     else if XidGeXmax xid snap then ((False, False), st)
     else if XidLtXmin xid snap then
       (let (c, st1) = did_commit xid st in if c then ((True, True), st1) else ((False, False), st1))
     else if XidInSnapshot xid snap then ((False, False), st)
     else let (c, st1) = did_commit xid st in if c then ((True, True), st1) else ((False, False), st1))"

text \<open>The second step of \<open>HeapTupleSatisfiesMVCC\<close>: the deleting transaction.\<close>

definition mvcc_xmax_check ::
  "HeapTupleHeaderData \<Rightarrow> SnapshotData \<Rightarrow> BackendState \<Rightarrow> bool \<times> HeapTupleHeaderData \<times> BackendState" where
  "mvcc_xmax_check tup snap st =
    (let xmax = HeapTupleHeaderGetXmax tup in
     if \<not> TransactionIdIsValid xmax then (True, tup, st)
     else if has_flag kHeapXmaxLocked tup then (True, tup, st)
     else case HeapTupleHeaderGetXmaxStatus tup of
         XS_kCommitted \<Rightarrow>
           if XidLtXmin xmax snap then (False, tup, st)
           else if XidGeXmax xmax snap then (True, tup, st)
           else if XidInSnapshot xmax snap then (True, tup, st)
           else (False, tup, st)
       | XS_kAborted \<Rightarrow> (True, tup, st)
       | XS_kInProgress \<Rightarrow>
           if TransactionIdIsCurrentTransactionId xmax st then
             (HeapTupleHeaderGetCid tup > snap_curcid snap, tup, st)
           else if XidLtXmin xmax snap then
             (let (c, st1) = did_commit xmax st in
              if c then (False, HeapTupleHeaderSetXmaxCommitted tup, st1)
              else (True, HeapTupleHeaderSetXmaxInvalid tup, st1))
           else if XidGeXmax xmax snap then (True, tup, st)
           else if XidInSnapshot xmax snap then
             (let (c, st1) = did_commit xmax st in
              if c then (True, tup, st1) else (True, HeapTupleHeaderSetXmaxInvalid tup, st1))
           else
             (let (c, st1) = did_commit xmax st in
              if c then (False, HeapTupleHeaderSetXmaxCommitted tup, st1)
              else (True, HeapTupleHeaderSetXmaxInvalid tup, st1))
       | XS_kFrozen \<Rightarrow> (True, tup, st))"

definition HeapTupleSatisfiesMVCC ::
  "HeapTupleHeaderData \<Rightarrow> SnapshotData \<Rightarrow> BackendState \<Rightarrow> bool \<times> HeapTupleHeaderData \<times> BackendState" where
  "HeapTupleSatisfiesMVCC tup snap st =
    (let xmin = HeapTupleHeaderGetXmin tup; xmax = HeapTupleHeaderGetXmax tup in
     case HeapTupleHeaderGetXminStatus tup of
       XS_kCommitted \<Rightarrow> mvcc_xmax_check tup snap st
     | XS_kAborted \<Rightarrow> (False, tup, st)
     | XS_kFrozen \<Rightarrow> mvcc_xmax_check tup snap st
     | XS_kInProgress \<Rightarrow>
         if \<not> TransactionIdIsValid xmin then (False, tup, st)
         else if TransactionIdIsCurrentTransactionId xmin st then
           if HeapTupleHeaderGetCid tup > snap_curcid snap then (False, tup, st)
           else if has_flag kHeapUpdated tup \<and> xmin = xmax then (False, tup, st)
           else mvcc_xmax_check tup snap st
         else
           let ((visible, hint), st1) = XidVisibleInSnapshot xmin snap st in
           if hint then
             (let tup1 = HeapTupleHeaderSetXminCommitted tup in
              if visible then mvcc_xmax_check tup1 snap st1 else (False, tup1, st1))
           else if \<not> visible then
             (let (a, st2) = did_abort xmin st1
              in (False, if a then HeapTupleHeaderSetXminInvalid tup else tup, st2))
           else mvcc_xmax_check tup snap st1)"

definition HeapTupleSatisfiesSelf :: "HeapTupleHeaderData \<Rightarrow> BackendState \<Rightarrow> bool \<times> BackendState" where
  "HeapTupleSatisfiesSelf tup st =
    (let xmin = HeapTupleHeaderGetXmin tup; xmax = HeapTupleHeaderGetXmax tup;
         check_xmax = (\<lambda>st.
           if \<not> TransactionIdIsValid xmax then (True, st)
           else if TransactionIdIsCurrentTransactionId xmax st then
             (HeapTupleHeaderGetCid tup > GetCurrentCommandId st, st)
           else let (c, st1) = did_commit xmax st in (\<not> c, st1))
     in if \<not> TransactionIdIsValid xmin then (False, st)
        else if TransactionIdIsCurrentTransactionId xmin st then
          if HeapTupleHeaderGetCid tup > GetCurrentCommandId st then (False, st) else check_xmax st
        else let (c, st1) = did_commit xmin st in if \<not> c then (False, st1) else check_xmax st1)"

definition HeapTupleIsSurelyDead :: "HeapTupleHeaderData \<Rightarrow> SnapshotData \<Rightarrow> BackendState \<Rightarrow> bool \<times> BackendState" where
  "HeapTupleIsSurelyDead tup snap st =
    (let xmax = HeapTupleHeaderGetXmax tup in
     if \<not> TransactionIdIsValid xmax then (False, st)
     else let (c, st1) = did_commit xmax st in
       if \<not> c then (False, st1)
       else (TransactionIdPrecedes xmax (snap_xmin snap), st1))"


subsection \<open>Reference definition\<close>

text \<open>
  A transaction counts for a snapshot when it committed and was finished when the snapshot was
  taken. A version is visible when its creator counts, or is the own transaction at an earlier
  command, and its deleter, if it has one, does not.
\<close>

definition counts :: "BackendState \<Rightarrow> SnapshotData \<Rightarrow> TransactionId \<Rightarrow> bool" where
  "counts st snap xid \<longleftrightarrow> clog_status (xclog st) xid = kCommitted \<and> finished_before snap xid"

definition created :: "BackendState \<Rightarrow> SnapshotData \<Rightarrow> HeapTupleHeaderData \<Rightarrow> bool" where
  "created st snap tup \<longleftrightarrow> TransactionIdIsValid (t_xmin tup) \<and>
    (if TransactionIdIsCurrentTransactionId (t_xmin tup) st
     then t_cid tup \<le> snap_curcid snap \<and> \<not> (has_flag kHeapUpdated tup \<and> t_xmin tup = t_xmax tup)
     else counts st snap (t_xmin tup))"

definition deleted :: "BackendState \<Rightarrow> SnapshotData \<Rightarrow> HeapTupleHeaderData \<Rightarrow> bool" where
  "deleted st snap tup \<longleftrightarrow> TransactionIdIsValid (t_xmax tup) \<and> \<not> has_flag kHeapXmaxLocked tup \<and>
    (if TransactionIdIsCurrentTransactionId (t_xmax tup) st
     then t_cid tup \<le> snap_curcid snap else counts st snap (t_xmax tup))"

definition visible_ref :: "BackendState \<Rightarrow> SnapshotData \<Rightarrow> HeapTupleHeaderData \<Rightarrow> bool" where
  "visible_ref st snap tup \<longleftrightarrow> created st snap tup \<and> \<not> deleted st snap tup"

text \<open>The hint bits agree with the reference under this snapshot.\<close>

definition xmin_hint_ok :: "BackendState \<Rightarrow> SnapshotData \<Rightarrow> HeapTupleHeaderData \<Rightarrow> bool" where
  "xmin_hint_ok st snap tup = (case HeapTupleHeaderGetXminStatus tup of
      XS_kInProgress \<Rightarrow> True | XS_kAborted \<Rightarrow> \<not> created st snap tup | _ \<Rightarrow> created st snap tup)"

definition xmax_hint_ok :: "BackendState \<Rightarrow> SnapshotData \<Rightarrow> HeapTupleHeaderData \<Rightarrow> bool" where
  "xmax_hint_ok st snap tup = (TransactionIdIsValid (t_xmax tup) \<and> \<not> has_flag kHeapXmaxLocked tup \<longrightarrow>
    (case HeapTupleHeaderGetXmaxStatus tup of
      XS_kCommitted \<Rightarrow> clog_status (xclog st) (t_xmax tup) = kCommitted \<and>
        \<not> TransactionIdIsCurrentTransactionId (t_xmax tup) st
    | XS_kAborted \<Rightarrow> \<not> deleted st snap tup | _ \<Rightarrow> True))"

definition hints_ok :: "BackendState \<Rightarrow> SnapshotData \<Rightarrow> HeapTupleHeaderData \<Rightarrow> bool" where
  "hints_ok st snap tup \<longleftrightarrow> xmin_hint_ok st snap tup \<and> xmax_hint_ok st snap tup"

text \<open>The deleter, when there is one, is a normal identifier on one side of the snapshot.\<close>

definition deleter_ok :: "SnapshotData \<Rightarrow> HeapTupleHeaderData \<Rightarrow> bool" where
  "deleter_ok snap tup \<longleftrightarrow> (TransactionIdIsValid (t_xmax tup) \<longrightarrow> TransactionIdIsNormal (t_xmax tup) \<and>
    \<not> (XidLtXmin (t_xmax tup) snap \<and> XidGeXmax (t_xmax tup) snap))"

subsection \<open>Hint bits\<close>

lemma has_flag_bit: "has_flag (2 ^ n) tup = bit (t_infomask tup) n"
  by (simp add: has_flag_def and_exp_eq_0_iff_not_bit)

lemma infomask_exp:
  "kHeapXminCommitted = 2 ^ 8" "kHeapXminInvalid = 2 ^ 9" "kHeapXminFrozen = 2 ^ 10" "kHeapXmaxLocked = 2 ^ 7"
  "kHeapXmaxCommitted = 2 ^ 10" "kHeapXmaxInvalid = 2 ^ 11" "kHeapHasNull = 2 ^ 0" "kHeapUpdated = 2 ^ 13"
  by (simp_all add: infomask_defs)

lemma set_clear_bit:
  "n < 16 \<Longrightarrow> m < 16 \<Longrightarrow> k < 16 \<Longrightarrow> bit (t_infomask (set_clear (2 ^ n) (2 ^ m) tup)) k =
     ((bit (t_infomask tup) k \<or> k = n) \<and> k \<noteq> m)"
  by (auto simp: set_clear_def bit_simps)

lemma flag_bits:
  "has_flag kHeapXminCommitted tup = bit (t_infomask tup) 8" "has_flag kHeapXminInvalid tup = bit (t_infomask tup) 9"
  "has_flag kHeapXminFrozen tup = bit (t_infomask tup) 10" "has_flag kHeapXmaxLocked tup = bit (t_infomask tup) 7"
  "has_flag kHeapXmaxCommitted tup = bit (t_infomask tup) 10" "has_flag kHeapXmaxInvalid tup = bit (t_infomask tup) 11"
  "has_flag kHeapUpdated tup = bit (t_infomask tup) 13"
  by (simp_all only: infomask_exp has_flag_bit)

lemma set_clear_fields [simp]:
  "t_xmin (set_clear f g tup) = t_xmin tup" "t_xmax (set_clear f g tup) = t_xmax tup"
  "t_cid (set_clear f g tup) = t_cid tup" "t_ctid (set_clear f g tup) = t_ctid tup"
  "t_infomask2 (set_clear f g tup) = t_infomask2 tup" "t_hoff (set_clear f g tup) = t_hoff tup"
  by (simp_all add: set_clear_def)

lemmas setter_defs = HeapTupleHeaderSetXminCommitted_def HeapTupleHeaderSetXminInvalid_def
  HeapTupleHeaderSetXmaxCommitted_def HeapTupleHeaderSetXmaxInvalid_def

lemmas status_defs = HeapTupleHeaderGetXminStatus_def HeapTupleHeaderGetXmaxStatus_def

lemma setter_bits:
  "k < 16 \<Longrightarrow> bit (t_infomask (HeapTupleHeaderSetXminCommitted tup)) k = ((bit (t_infomask tup) k \<or> k = 8) \<and> k \<noteq> 9)"
  "k < 16 \<Longrightarrow> bit (t_infomask (HeapTupleHeaderSetXminInvalid tup)) k = ((bit (t_infomask tup) k \<or> k = 9) \<and> k \<noteq> 8)"
  "k < 16 \<Longrightarrow> bit (t_infomask (HeapTupleHeaderSetXmaxCommitted tup)) k = ((bit (t_infomask tup) k \<or> k = 10) \<and> k \<noteq> 11)"
  "k < 16 \<Longrightarrow> bit (t_infomask (HeapTupleHeaderSetXmaxInvalid tup)) k = ((bit (t_infomask tup) k \<or> k = 11) \<and> k \<noteq> 10)"
  unfolding setter_defs infomask_exp by (rule set_clear_bit; simp)+

lemma setter_fields [simp]:
  "t_xmin (HeapTupleHeaderSetXminCommitted tup) = t_xmin tup" "t_xmax (HeapTupleHeaderSetXminCommitted tup) = t_xmax tup"
  "t_cid (HeapTupleHeaderSetXminCommitted tup) = t_cid tup"
  "t_xmax (HeapTupleHeaderSetXmaxCommitted tup) = t_xmax tup" "t_xmax (HeapTupleHeaderSetXmaxInvalid tup) = t_xmax tup"
  by (simp_all add: setter_defs)

lemmas hint_simps = status_defs flag_bits setter_bits

text \<open>A check may only set hint bits.\<close>

definition same_version :: "HeapTupleHeaderData \<Rightarrow> HeapTupleHeaderData \<Rightarrow> bool" where
  "same_version a b \<longleftrightarrow> t_xmin a = t_xmin b \<and> t_xmax a = t_xmax b \<and> t_cid a = t_cid b \<and> t_ctid a = t_ctid b \<and>
    t_infomask2 a = t_infomask2 b \<and> t_hoff a = t_hoff b \<and>
    (\<forall>k < 16. k \<notin> {8, 9, 10, 11} \<longrightarrow> bit (t_infomask a) k = bit (t_infomask b) k)"

definition same_status :: "BackendState \<Rightarrow> BackendState \<Rightarrow> bool" where
  "same_status a b \<longleftrightarrow> (\<exists>c. b = a\<lparr>xclog := c\<rparr> \<and> clog_ready c \<and> clog_status c = clog_status (xclog a))"

lemma same_version_refl [simp]: "same_version a a"
  by (simp add: same_version_def)

lemma same_version_trans: "same_version a b \<Longrightarrow> same_version b c \<Longrightarrow> same_version a c"
  by (auto simp: same_version_def)

lemma same_version_set [simp]:
  "same_version tup (HeapTupleHeaderSetXminCommitted tup)" "same_version tup (HeapTupleHeaderSetXminInvalid tup)"
  "same_version tup (HeapTupleHeaderSetXmaxCommitted tup)" "same_version tup (HeapTupleHeaderSetXmaxInvalid tup)"
  by (auto simp: same_version_def setter_bits) (simp_all add: setter_defs)

lemma same_status_refl: "clog_ready (xclog st) \<Longrightarrow> same_status st st"
  unfolding same_status_def by (rule exI [of _ "xclog st"]) simp

lemma same_status_trans: "same_status a b \<Longrightarrow> same_status b c \<Longrightarrow> same_status a c"
  by (auto simp: same_status_def)

lemma same_status_clog: "same_status a b \<Longrightarrow> clog_status (xclog b) = clog_status (xclog a)"
  by (auto simp: same_status_def)

lemma current_status: "same_status a b \<Longrightarrow> TransactionIdIsCurrentTransactionId x b = TransactionIdIsCurrentTransactionId x a"
  by (auto simp: same_status_def TransactionIdIsCurrentTransactionId_def GetCurrentTransactionIdIfAny_def CurrentState_def)

lemma same_version_ref:
  assumes "same_version a b" "same_status st st'"
  shows "created st' snap b = created st snap a" "deleted st' snap b = deleted st snap a"
    "visible_ref st' snap b = visible_ref st snap a"
proof -
  have f: "has_flag kHeapUpdated b = has_flag kHeapUpdated a" "has_flag kHeapXmaxLocked b = has_flag kHeapXmaxLocked a"
    using assms(1) by (auto simp: same_version_def flag_bits)
  have c: "counts st' snap x = counts st snap x" for x
    using assms(2) by (auto simp: counts_def same_status_def)
  show "created st' snap b = created st snap a" "deleted st' snap b = deleted st snap a"
    using assms(1) by (simp_all add: created_def deleted_def f c current_status [OF assms(2)] same_version_def)
  then show "visible_ref st' snap b = visible_ref st snap a" by (simp add: visible_ref_def)
qed

lemma did_commit_status:
  assumes "clog_ready (xclog st)"
  shows "\<exists>st'. did_commit x st = (clog_status (xclog st) x = kCommitted, st') \<and> same_status st st'"
  using assms clog.get_status [of "xclog st" x]
  by (auto simp: did_commit_def TransactionIdDidCommit_def same_status_def split: prod.splits)

lemma did_abort_status:
  assumes "clog_ready (xclog st)"
  shows "\<exists>st'. did_abort x st = (clog_status (xclog st) x = kAborted, st') \<and> same_status st st'"
proof (cases "TransactionIdIsNormal x")
  case True
  then show ?thesis using assms clog.get_status [of "xclog st" x]
    by (auto simp: did_abort_def TransactionIdDidAbort_def same_status_def split: prod.splits)
next
  case False
  then have "did_abort x st = (clog_status (xclog st) x = kAborted, st)"
    by (simp add: did_abort_def TransactionIdDidAbort_def clog_status_def)
  with same_status_refl [OF assms] show ?thesis by blast
qed

subsection \<open>The check implements the reference\<close>

lemma normal_valid: "TransactionIdIsNormal x \<Longrightarrow> TransactionIdIsValid x"
  by (auto simp: TransactionIdIsNormal_def TransactionIdIsValid_def xid_consts)

lemma XidVisibleInSnapshot_ref:
  assumes "clog_ready (xclog st)" "snapshot_wf snap"
  shows "\<exists>st'. XidVisibleInSnapshot x snap st = ((counts st snap x, counts st snap x), st') \<and> same_status st st'"
proof -
  obtain st' where d: "did_commit x st = (clog_status (xclog st) x = kCommitted, st')" "same_status st st'"
    using did_commit_status [OF assms(1)] by blast
  note r = same_status_refl [OF assms(1)]
  have lt: "XidLtXmin x snap \<Longrightarrow> \<not> XidInSnapshot x snap" by (rule snapshot_wf_lt [OF assms(2)])
  consider "\<not> TransactionIdIsNormal x" | "TransactionIdIsNormal x" "XidGeXmax x snap \<or> XidInSnapshot x snap"
    | "TransactionIdIsNormal x" "\<not> XidGeXmax x snap" "\<not> XidInSnapshot x snap" by blast
  then show ?thesis
  proof cases
    case 1
    then show ?thesis using r by (auto simp: XidVisibleInSnapshot_def counts_def finished_before_def clog_status_def)
  next
    case 2
    then show ?thesis using r lt by (auto simp: XidVisibleInSnapshot_def counts_def finished_before_def)
  next
    case 3
    then show ?thesis using d by (auto simp: XidVisibleInSnapshot_def counts_def finished_before_def)
  qed
qed

definition refines ::
  "bool \<Rightarrow> HeapTupleHeaderData \<Rightarrow> SnapshotData \<Rightarrow> BackendState \<Rightarrow> bool \<times> HeapTupleHeaderData \<times> BackendState \<Rightarrow> bool" where
  "refines v tup snap st r = (case r of (v', tup', st') \<Rightarrow>
     v' = v \<and> same_version tup tup' \<and> same_status st st' \<and> hints_ok st' snap tup')"

lemma refines_unchanged:
  "same_status st st' \<Longrightarrow> hints_ok st snap tup \<Longrightarrow> v' = v \<Longrightarrow> refines v tup snap st (v', tup, st')"
  using same_version_ref(1,2) [OF same_version_refl, of st st' snap tup] current_status [of st st']
  by (simp add: refines_def hints_ok_def xmin_hint_ok_def xmax_hint_ok_def same_status_clog cong del: XactStatus.case_cong_weak)

lemma refines_xmax_hint:
  assumes c: "created st snap tup" and h: "hints_ok st snap tup" and s: "same_status st st'"
    and i: "HeapTupleHeaderGetXmaxStatus tup = XS_kInProgress" and nc: "\<not> TransactionIdIsCurrentTransactionId (t_xmax tup) st"
  shows "clog_status (xclog st) (t_xmax tup) = kCommitted \<Longrightarrow>
      refines v tup snap st (v, HeapTupleHeaderSetXmaxCommitted tup, st')"
    and "\<not> deleted st snap tup \<Longrightarrow> refines v tup snap st (v, HeapTupleHeaderSetXmaxInvalid tup, st')"
proof -
  have x: "HeapTupleHeaderGetXminStatus tup \<noteq> XS_kAborted" using c h by (auto simp: hints_ok_def xmin_hint_ok_def)
  have m: "HeapTupleHeaderGetXminStatus (HeapTupleHeaderSetXmaxCommitted tup) \<noteq> XS_kAborted"
    "HeapTupleHeaderGetXminStatus (HeapTupleHeaderSetXmaxInvalid tup) \<noteq> XS_kAborted"
    using x by (auto simp: hint_simps split: if_splits)
  have n: "HeapTupleHeaderGetXmaxStatus (HeapTupleHeaderSetXmaxCommitted tup) = XS_kCommitted"
    "HeapTupleHeaderGetXmaxStatus (HeapTupleHeaderSetXmaxInvalid tup) = XS_kAborted"
    by (auto simp: hint_simps)
  have cl: "clog_status (xclog st') = clog_status (xclog st)" using s by (auto simp: same_status_def)
  note k = same_version_ref(1,2) [OF same_version_set(3) s, of snap tup] same_version_ref(1,2) [OF same_version_set(4) s, of snap tup]
  show "clog_status (xclog st) (t_xmax tup) = kCommitted \<Longrightarrow>
      refines v tup snap st (v, HeapTupleHeaderSetXmaxCommitted tup, st')"
    using m n k c nc s by (simp add: refines_def hints_ok_def xmin_hint_ok_def xmax_hint_ok_def cl current_status [OF s] split: XactStatus.split)
  show "\<not> deleted st snap tup \<Longrightarrow> refines v tup snap st (v, HeapTupleHeaderSetXmaxInvalid tup, st')"
    using m n k c s by (simp add: refines_def hints_ok_def xmin_hint_ok_def xmax_hint_ok_def split: XactStatus.split)
qed

lemma xmax_check_ref:
  assumes r: "clog_ready (xclog st)" and w: "snapshot_wf snap" and d: "deleter_ok snap tup"
    and h: "hints_ok st snap tup" and c: "created st snap tup"
  shows "refines (\<not> deleted st snap tup) tup snap st (mvcc_xmax_check tup snap st)"
proof (cases "TransactionIdIsValid (t_xmax tup) \<and> \<not> has_flag kHeapXmaxLocked tup")
  case False
  then show ?thesis using refines_unchanged [OF same_status_refl [OF r] h]
    by (auto simp: mvcc_xmax_check_def Let_def header_accessors deleted_def)
next
  case True
  let ?x = "t_xmax tup"
  have norm: "TransactionIdIsNormal ?x" "XidLtXmin ?x snap \<Longrightarrow> \<not> XidGeXmax ?x snap" "XidLtXmin ?x snap \<Longrightarrow> \<not> XidInSnapshot ?x snap"
    using True d snapshot_wf_lt [OF w] by (auto simp: deleter_ok_def)
  have del: "deleted st snap tup \<longleftrightarrow> (if TransactionIdIsCurrentTransactionId ?x st then t_cid tup \<le> snap_curcid snap
     else clog_status (xclog st) ?x = kCommitted \<and> \<not> XidGeXmax ?x snap \<and> \<not> XidInSnapshot ?x snap)"
    using True norm by (auto simp: deleted_def counts_def finished_before_def)
  note u = refines_unchanged [OF same_status_refl [OF r] h]
  show ?thesis
  proof (cases "HeapTupleHeaderGetXmaxStatus tup")
    case XS_kCommitted
    then have "clog_status (xclog st) ?x = kCommitted" "\<not> TransactionIdIsCurrentTransactionId ?x st"
      using h True by (auto simp: hints_ok_def xmax_hint_ok_def)
    then show ?thesis using True XS_kCommitted norm del
      by (simp add: mvcc_xmax_check_def Let_def header_accessors u)
  next
    case XS_kAborted
    then have "\<not> deleted st snap tup" using h True by (auto simp: hints_ok_def xmax_hint_ok_def)
    then show ?thesis using True XS_kAborted by (simp add: mvcc_xmax_check_def Let_def header_accessors u)
  next
    case XS_kInProgress
    obtain st' where s: "did_commit ?x st = (clog_status (xclog st) ?x = kCommitted, st')" "same_status st st'"
      using did_commit_status [OF r] by blast
    note k = refines_xmax_hint [OF c h s(2) XS_kInProgress] refines_unchanged [OF s(2) h]
    show ?thesis
    proof (cases "TransactionIdIsCurrentTransactionId ?x st")
      case cur: True
      then have "refines (\<not> deleted st snap tup) tup snap st (t_cid tup > snap_curcid snap, tup, st)"
        using del by (intro u) auto
      then show ?thesis using True XS_kInProgress cur by (simp add: mvcc_xmax_check_def Let_def header_accessors)
    next
      case False
      then show ?thesis using True XS_kInProgress norm del s(1) k
        by (simp add: mvcc_xmax_check_def Let_def header_accessors u)
    qed
  next
    case XS_kFrozen
    then show ?thesis by (simp add: HeapTupleHeaderGetXmaxStatus_def split: if_splits)
  qed
qed

lemma xmax_hint_keep:
  assumes "same_version tup tup'" "same_status st st'" "xmax_hint_ok st snap tup"
    "HeapTupleHeaderGetXmaxStatus tup' = HeapTupleHeaderGetXmaxStatus tup"
  shows "xmax_hint_ok st' snap tup'"
proof -
  have "t_xmax tup' = t_xmax tup" "has_flag kHeapXmaxLocked tup' = has_flag kHeapXmaxLocked tup"
    using assms(1) by (simp_all add: same_version_def flag_bits)
  then show ?thesis
    using assms(3,4) same_version_ref(2) [OF assms(1,2)] same_status_clog [OF assms(2)] current_status [OF assms(2)]
    by (simp add: xmax_hint_ok_def cong del: XactStatus.case_cong_weak)
qed

lemma refines_xmin_hint:
  assumes "\<not> created st snap tup" "same_status st st'" "hints_ok st snap tup"
  shows "refines False tup snap st (False, HeapTupleHeaderSetXminInvalid tup, st')"
proof -
  let ?t = "HeapTupleHeaderSetXminInvalid tup"
  have "xmax_hint_ok st' snap ?t"
    using assms(3) by (intro xmax_hint_keep [OF same_version_set(2) assms(2)]) (simp_all add: hints_ok_def hint_simps)
  moreover have "HeapTupleHeaderGetXminStatus ?t = XS_kAborted" by (simp add: hint_simps)
  ultimately show ?thesis using assms(1,2) same_version_ref(1) [OF same_version_set(2) assms(2)]
    by (simp add: refines_def hints_ok_def xmin_hint_ok_def)
qed

lemma xmin_committed_hint:
  assumes "created st snap tup" "same_status st st'" "hints_ok st snap tup"
  shows "hints_ok st' snap (HeapTupleHeaderSetXminCommitted tup)"
proof -
  let ?t = "HeapTupleHeaderSetXminCommitted tup"
  have "xmax_hint_ok st' snap ?t"
    using assms(3) by (intro xmax_hint_keep [OF same_version_set(1) assms(2)]) (simp_all add: hints_ok_def hint_simps)
  moreover have "HeapTupleHeaderGetXminStatus ?t = XS_kCommitted" by (simp add: hint_simps)
  ultimately show ?thesis using assms(1) same_version_ref(1) [OF same_version_set(1) assms(2)]
    by (simp add: hints_ok_def xmin_hint_ok_def)
qed

lemma refines_via:
  assumes "same_version tup tup1" "same_status st st1" "refines v tup1 snap st1 r"
  shows "refines v tup snap st r"
  using assms same_version_trans same_status_trans by (fastforce simp: refines_def)

lemma mvcc_ref:
  assumes r: "clog_ready (xclog st)" and w: "snapshot_wf snap" and d: "deleter_ok snap tup" and h: "hints_ok st snap tup"
  shows "refines (visible_ref st snap tup) tup snap st (HeapTupleSatisfiesMVCC tup snap st)"
proof -
  note u = refines_unchanged [OF same_status_refl [OF r] h]
  have vis: "refines (visible_ref st snap tup) tup snap st (mvcc_xmax_check tup snap st)" if "created st snap tup"
    using xmax_check_ref [OF r w d h that] that by (simp add: visible_ref_def)
  have inv: "refines (visible_ref st snap tup) tup snap st (False, tup, st)" if "\<not> created st snap tup"
    using that by (simp add: visible_ref_def u)
  show ?thesis
  proof (cases "HeapTupleHeaderGetXminStatus tup")
    case XS_kCommitted
    then have "created st snap tup" using h by (simp add: hints_ok_def xmin_hint_ok_def)
    then show ?thesis using XS_kCommitted vis by (simp add: HeapTupleSatisfiesMVCC_def)
  next
    case XS_kAborted
    then have "\<not> created st snap tup" using h by (simp add: hints_ok_def xmin_hint_ok_def)
    then show ?thesis using XS_kAborted inv by (simp add: HeapTupleSatisfiesMVCC_def)
  next
    case XS_kFrozen
    then have "created st snap tup" using h by (simp add: hints_ok_def xmin_hint_ok_def)
    then show ?thesis using XS_kFrozen vis by (simp add: HeapTupleSatisfiesMVCC_def)
  next
    case XS_kInProgress
    consider (own) "\<not> TransactionIdIsValid (t_xmin tup) \<or> TransactionIdIsCurrentTransactionId (t_xmin tup) st"
      | (other) "TransactionIdIsValid (t_xmin tup)" "\<not> TransactionIdIsCurrentTransactionId (t_xmin tup) st" by blast
    then show ?thesis
    proof cases
      case own
      then have "HeapTupleSatisfiesMVCC tup snap st =
          (if created st snap tup then mvcc_xmax_check tup snap st else (False, tup, st))"
        using XS_kInProgress by (auto simp: HeapTupleSatisfiesMVCC_def header_accessors Let_def created_def)
      then show ?thesis using vis inv by simp
    next
      case other
      obtain st1 where x: "XidVisibleInSnapshot (t_xmin tup) snap st =
          ((counts st snap (t_xmin tup), counts st snap (t_xmin tup)), st1)" "same_status st st1"
        using XidVisibleInSnapshot_ref [OF r w] by blast
      have r1: "clog_ready (xclog st1)" using x(2) by (auto simp: same_status_def)
      obtain st2 where a: "did_abort (t_xmin tup) st1 = (clog_status (xclog st1) (t_xmin tup) = kAborted, st2)" "same_status st1 st2"
        using did_abort_status [OF r1] by blast
      have cr: "created st snap tup = counts st snap (t_xmin tup)" using other by (simp add: created_def)
      show ?thesis
      proof (cases "created st snap tup")
        case True
        let ?t = "HeapTupleHeaderSetXminCommitted tup"
        have e: "HeapTupleSatisfiesMVCC tup snap st = mvcc_xmax_check ?t snap st1"
          using True XS_kInProgress other x(1) cr by (simp add: HeapTupleSatisfiesMVCC_def header_accessors Let_def)
        have "refines (\<not> deleted st1 snap ?t) ?t snap st1 (mvcc_xmax_check ?t snap st1)"
          using xmin_committed_hint [OF True x(2) h] d True same_version_ref(1) [OF same_version_set(1) x(2)]
          by (intro xmax_check_ref [OF r1 w]) (simp_all add: deleter_ok_def)
        then show ?thesis
          using refines_via [OF same_version_set(1) x(2)] True same_version_ref(2) [OF same_version_set(1) x(2)]
          by (simp add: e visible_ref_def)
      next
        case False
        note s2 = same_status_trans [OF x(2) a(2)]
        have "HeapTupleSatisfiesMVCC tup snap st = (False, if clog_status (xclog st1) (t_xmin tup) = kAborted
            then HeapTupleHeaderSetXminInvalid tup else tup, st2)"
          using False XS_kInProgress other x(1) a(1) cr by (simp add: HeapTupleSatisfiesMVCC_def header_accessors Let_def)
        then show ?thesis using refines_xmin_hint [OF False s2 h] refines_unchanged [OF s2 h] False
          by (simp add: visible_ref_def)
      qed
    qed
  qed
qed


text \<open>Transaction 3 has committed, 4 and 5 are running; a snapshot of that moment, and a row of 3.\<close>

definition vis_st :: BackendState where
  "vis_st = xact_boot\<lparr>xclog := set_status kCommitted 3 (xclog xact_boot)\<rparr>"

definition vis_snap :: SnapshotData where
  "vis_snap = MakeSnapshot 4 6 [4, 5] xact_boot"

definition vis_row :: "TransactionId \<Rightarrow> TransactionId \<Rightarrow> HeapTupleHeaderData" where
  "vis_row xmin xmax = \<lparr>t_xmin = xmin, t_xmax = xmax, t_cid = 0, t_ctid = \<lparr>ip_blkid = 0, ip_posid = 1\<rparr>,
     t_infomask2 = 2, t_infomask = 0, t_hoff = 24\<rparr>"

lemma vis_row_simps [simp]:
  "t_xmin (vis_row a b) = a" "t_xmax (vis_row a b) = b" "t_infomask (vis_row a b) = 0" "t_cid (vis_row a b) = 0"
  "HeapTupleHeaderGetXminStatus (vis_row a b) = XS_kInProgress" "HeapTupleHeaderGetXmaxStatus (vis_row a b) = XS_kInProgress"
  "has_flag f (vis_row a b) = False" "hints_ok st snap (vis_row a b)"
  by (simp_all add: vis_row_def status_defs has_flag_def hints_ok_def xmin_hint_ok_def xmax_hint_ok_def)

lemma vis_snap_simps [simp]: "snap_xmin vis_snap = 4" "snap_xmax vis_snap = 6" "snap_xip vis_snap = [4, 5]"
  "snapshot_wf vis_snap"
  by (simp_all add: vis_snap_def MakeSnapshot_def snapshot_wf_def XidLtXmin_def TransactionIdPrecedes_def TransactionIdIsNormal_def xid_consts)

definition vis_st2 :: BackendState where
  "vis_st2 = xact_boot\<lparr>xclog := set_status kCommitted 4 (xclog xact_boot)\<rparr>"

lemma vis_st_simps [simp]: "clog_ready (xclog vis_st)" "StateStack vis_st = []"
  "clog_status (xclog vis_st) = (clog_status (xclog xact_boot))(3 := kCommitted)"
  "clog_ready (xclog vis_st2)" "StateStack vis_st2 = []"
  "clog_status (xclog vis_st2) = (clog_status (xclog xact_boot))(4 := kCommitted)"
  by (simp_all add: vis_st_def vis_st2_def clog_ready_set_status clog_status_set_status clog_recordable_def kMaxXids_def
      TransactionIdIsNormal_def xid_consts)

lemma xact_boot_log [simp]: "clog_status (xclog xact_boot) 5 = kInProgress"
  by (simp add: clog_status_def FetchFromCommitLog_def xact_boot_def InitializeTransactionSystem_def kMaxXids_def TransactionIdIsNormal_def
      clog_boot_def SetClogDirectory_def clog_start_def InitializeCommitLog_def fresh_clog_def xid_consts)

lemma vis_no_current [simp]: "\<not> TransactionIdIsCurrentTransactionId x vis_st" "\<not> TransactionIdIsCurrentTransactionId x vis_st2"
  by (simp_all add: TransactionIdIsCurrentTransactionId_def)

lemmas vis_eval = deleter_ok_def XidLtXmin_def XidGeXmax_def TransactionIdPrecedes_def TransactionIdFollowsOrEquals_def
  TransactionIdIsNormal_def TransactionIdIsValid_def xid_consts counts_def finished_before_def XidInSnapshot_set





text \<open>
  The committed hint replaces the snapshot. Take a row whose inserting transaction does not
  count for an old snapshot (it was running when that was taken) but counts for a new one. Under
  the old snapshot the row is invisible; a check under the new snapshot, by anybody, sets the
  committed hint; from then on the row is visible under the old snapshot as well. Reads under one
  snapshot are not repeatable.
\<close>

theorem committed_hint_overrides_snapshot:
  assumes "clog_ready (xclog st)" "snapshot_wf old" "snapshot_wf new"
    "HeapTupleHeaderGetXminStatus tup = XS_kInProgress" "TransactionIdIsNormal (t_xmin tup)" "t_xmax tup = kInvalidTransactionId"
    "\<not> TransactionIdIsCurrentTransactionId (t_xmin tup) st" "\<not> counts st old (t_xmin tup)" "counts st new (t_xmin tup)"
  shows "\<not> fst (HeapTupleSatisfiesMVCC tup old st) \<and>
    (case HeapTupleSatisfiesMVCC tup new st of (v, tup', st') \<Rightarrow> v \<and> fst (HeapTupleSatisfiesMVCC tup' old st'))"
proof -
  obtain s1 where 1: "XidVisibleInSnapshot (t_xmin tup) old st = ((False, False), s1)"
    using XidVisibleInSnapshot_ref [OF assms(1,2), of "t_xmin tup"] assms(8) by auto
  obtain s2 where 2: "XidVisibleInSnapshot (t_xmin tup) new st = ((True, True), s2)"
    using XidVisibleInSnapshot_ref [OF assms(1,3), of "t_xmin tup"] assms(9) by auto
  have v: "TransactionIdIsValid (t_xmin tup)" using assms(5) by (rule normal_valid)
  have x: "mvcc_xmax_check t s u = (True, t, u)" if "t_xmax t = kInvalidTransactionId" for t s u
    using that by (simp add: mvcc_xmax_check_def header_accessors TransactionIdIsValid_def)
  have h: "HeapTupleHeaderGetXminStatus (HeapTupleHeaderSetXminCommitted tup) = XS_kCommitted" by (simp add: hint_simps)
  have "HeapTupleSatisfiesMVCC tup new st = (True, HeapTupleHeaderSetXminCommitted tup, s2)"
    using assms(4,6,7) 2 v by (simp add: HeapTupleSatisfiesMVCC_def header_accessors x)
  moreover have "fst (HeapTupleSatisfiesMVCC (HeapTupleHeaderSetXminCommitted tup) old s2)"
    using assms(6) h by (simp add: HeapTupleSatisfiesMVCC_def x)
  moreover have "\<not> fst (HeapTupleSatisfiesMVCC tup old st)"
    using assms(4,7) 1 v by (simp add: HeapTupleSatisfiesMVCC_def header_accessors case_prod_beta Let_def)
  ultimately show ?thesis by simp
qed

lemma committed_hint_overrides_snapshot_witness:
  "\<not> fst (HeapTupleSatisfiesMVCC (vis_row 4 0) vis_snap vis_st2) \<and>
   (case HeapTupleSatisfiesMVCC (vis_row 4 0) (MakeSnapshot 5 6 [5] xact_boot) vis_st2 of
     (v, tup', st') \<Rightarrow> v \<and> fst (HeapTupleSatisfiesMVCC tup' vis_snap st'))"
  by (rule committed_hint_overrides_snapshot) (simp_all add: snapshot_wf_def MakeSnapshot_def vis_eval)

text \<open>
  C32: A delete can be lost. When a row of a committed transaction is checked while its deleter is
  still running (listed in the snapshot, no outcome in the log yet), the check marks the deleter as
  aborted in the header. Every later check, under every snapshot and in every state, finds the row
  visible: also after the deleter has committed.
\<close>

theorem running_delete_is_lost:
  assumes "clog_ready (xclog st)" "snapshot_wf snap" "HeapTupleHeaderGetXminStatus tup = XS_kInProgress"
    "HeapTupleHeaderGetXmaxStatus tup = XS_kInProgress" "\<not> has_flag kHeapXmaxLocked tup"
    "TransactionIdIsNormal (t_xmin tup)" "TransactionIdIsNormal (t_xmax tup)"
    "\<not> TransactionIdIsCurrentTransactionId (t_xmin tup) st" "\<not> TransactionIdIsCurrentTransactionId (t_xmax tup) st"
    "counts st snap (t_xmin tup)" "XidInSnapshot (t_xmax tup) snap" "\<not> XidGeXmax (t_xmax tup) snap"
    "clog_status (xclog st) (t_xmax tup) = kInProgress"
  shows "case HeapTupleSatisfiesMVCC tup snap st of (v, tup', st') \<Rightarrow>
    v \<and> t_xmax tup' = t_xmax tup \<and> (\<forall>snap2 st2. HeapTupleSatisfiesMVCC tup' snap2 st2 = (True, tup', st2))"
proof -
  let ?t = "HeapTupleHeaderSetXminCommitted tup"
  let ?u = "HeapTupleHeaderSetXmaxInvalid ?t"
  obtain s1 where 1: "XidVisibleInSnapshot (t_xmin tup) snap st = ((True, True), s1)" "same_status st s1"
    using XidVisibleInSnapshot_ref [OF assms(1,2), of "t_xmin tup"] assms(10) by auto
  have "clog_ready (xclog s1)" using 1(2) by (auto simp: same_status_def)
  from did_commit_status [OF this, of "t_xmax tup"] obtain s2 where 2: "did_commit (t_xmax tup) s1 = (False, s2)"
    using assms(13) same_status_clog [OF 1(2)] by auto
  have v: "TransactionIdIsValid (t_xmin tup)" "TransactionIdIsValid (t_xmax tup)"
    using assms(6,7) by (simp_all add: normal_valid)
  have lt: "\<not> XidLtXmin (t_xmax tup) snap" using assms(2,11) by (auto dest: snapshot_wf_lt)
  have t: "HeapTupleHeaderGetXmaxStatus ?t = XS_kInProgress" "\<not> has_flag kHeapXmaxLocked ?t"
    using assms(4,5) by (auto simp: hint_simps split: if_splits)
  have "mvcc_xmax_check ?t snap s1 = (True, ?u, s2)"
    using t v(2) assms(9,11,12) lt 2 current_status [OF 1(2)] by (simp add: mvcc_xmax_check_def header_accessors)
  then have e: "HeapTupleSatisfiesMVCC tup snap st = (True, ?u, s2)"
    using assms(3,8) 1(1) v(1) by (simp add: HeapTupleSatisfiesMVCC_def header_accessors)
  have u: "HeapTupleHeaderGetXminStatus ?u = XS_kCommitted" "HeapTupleHeaderGetXmaxStatus ?u = XS_kAborted"
    by (simp_all add: hint_simps)
  have "HeapTupleSatisfiesMVCC ?u snap2 st2 = (True, ?u, st2)" for snap2 st2
    using u by (simp add: HeapTupleSatisfiesMVCC_def mvcc_xmax_check_def Let_def)
  then show ?thesis by (simp add: e)
qed

lemma running_delete_is_lost_witness:
  "case HeapTupleSatisfiesMVCC (vis_row 3 5) vis_snap vis_st of (v, tup', st') \<Rightarrow> v \<and>
     fst (HeapTupleSatisfiesMVCC tup' (MakeSnapshot 6 6 [] xact_boot) (vis_st\<lparr>xclog := set_status kCommitted 5 (xclog vis_st)\<rparr>))"
  using running_delete_is_lost [of vis_st vis_snap "vis_row 3 5"]
  by (simp add: case_prod_beta) (simp add: vis_eval)

text \<open>
  ROLLBACK TO SAVEPOINT does not hide what the subtransaction wrote. Subtransactions carry
  the identifier of the top-level transaction, and rolling back leaves the identifier current and
  the commit log as it is: a row inserted after the savepoint stays visible to the transaction
  under every snapshot whose command counter has reached the command that wrote it.
\<close>

theorem rolled_back_insert_stays_visible:
  assumes "xact_run st" "StateStack st = us @ t # p # b" "sp_name t = name" "\<forall>u \<in> set us. sp_name u \<noteq> name"
    "t_xmin tup = transaction_id t" "TransactionIdIsValid (transaction_id t)" "t_xmax tup = kInvalidTransactionId"
    "HeapTupleHeaderGetXminStatus tup = XS_kInProgress" "t_cid tup \<le> snap_curcid snap"
  shows "case RollbackToSavepoint name st of (r, st') \<Rightarrow> r = Inr () \<and>
    clog_status (xclog st') = clog_status (xclog st) \<and> HeapTupleSatisfiesMVCC tup snap st' = (True, tup, st')"
proof -
  have inv: "stack_inv st" using xact_run_inv [OF assms(1)] .
  obtain st' s where r: "RollbackToSavepoint name st = (Inr (), st')"
    "same_but_stack (st\<lparr>NextSubTransactionId := NextSubTransactionId st + 1\<rparr>) st'"
    "StateStack st' = s # p\<lparr>command_id := command_id_before_subxact t\<rparr> # b"
    using rollback_to_savepoint [OF inv assms(2-4)] by (auto split: prod.splits)
  have "stack_ok (t # p # b)" using stack_ok_suffix inv assms(2) by metis
  then have "transaction_id t = transaction_id (last (p # b))"
    using assms(6) by (auto simp: TransactionIdIsValid_def)
  then have "transaction_id t \<in> transaction_id ` set (StateStack st')"
    using r(3) by (cases "b = []") auto
  then have "TransactionIdIsCurrentTransactionId (t_xmin tup) st'"
    using assms(5) r(3) by (auto simp: TransactionIdIsCurrentTransactionId_def list_ex_iff)
  then have "HeapTupleSatisfiesMVCC tup snap st' = (True, tup, st')"
    using assms(5-9) by (auto simp: HeapTupleSatisfiesMVCC_def mvcc_xmax_check_def header_accessors Let_def TransactionIdIsValid_def)
  then show ?thesis using r(1) same_fields [OF r(2)] by simp
qed

lemma rolled_back_insert_stays_visible_witness:
  "case RollbackToSavepoint ''a'' xact_ex of (r, st') \<Rightarrow> r = Inr () \<and>
     fst (HeapTupleSatisfiesMVCC (vis_row 3 0) vis_snap st')"
proof -
  obtain t p where s: "StateStack xact_ex = [] @ t # p # []" "sp_name t = ''a''" "transaction_id t = 3"
    by (simp add: xact_ex_def xact_eval)
  then show ?thesis using rolled_back_insert_stays_visible [OF xact_ex_run s(1,2), of "vis_row 3 0" vis_snap]
    by (simp add: case_prod_beta TransactionIdIsValid_def xid_consts)
qed

end
