(* ===== verification/BufPage.thy ===== *)
theory BufPage
  imports PgPrelude "HOL-Library.Multiset"
begin

text \<open>
  Pages (\<open>include/storage/bufpage.hpp\<close>, \<open>src/storage/buffer/bufpage.cpp\<close>): a header, an
  array of line pointers that grows towards higher addresses, and the bytes of the items, which
  grow from the special area towards lower addresses. The three parts of the block are separate
  fields of the model: \<open>linp n\<close> is line pointer number \<open>n\<close> (at byte \<open>24 + 4 (n - 1)\<close>), and
  \<open>bytes a\<close> the byte at address \<open>a\<close>. The invariant \<open>page_ok\<close> keeps the line pointers below
  \<open>pd_upper\<close> and all items at or above it, so the parts do not overlap.
\<close>

subsection \<open>Layout\<close>

type_synonym LocationIndex = u16
type_synonym OffsetNumber = u16

definition kInvalidOffsetNumber :: OffsetNumber where "kInvalidOffsetNumber = 0"

definition kLPUnused :: "2 word" where "kLPUnused = 0"
definition kLPNormal :: "2 word" where "kLPNormal = 1"
definition kLPRedirect :: "2 word" where "kLPRedirect = 2"
definition kLPDead :: "2 word" where "kLPDead = 3"

record ItemIdData =
  li_off :: "15 word"
  li_flags :: "2 word"
  li_len :: "15 word"

definition kBlckSz :: int where "kBlckSz = 8192"
definition kPageHeaderSize :: int where "kPageHeaderSize = 24"
definition kPageLayoutVersion :: u16 where "kPageLayoutVersion = 4"
definition kPageSizeVersion :: u16 where "kPageSizeVersion = of_int kBlckSz OR kPageLayoutVersion"
definition kPageHasFreeLines :: u16 where "kPageHasFreeLines = 1"

text \<open>\<open>sizeof(ItemIdData)\<close>.\<close>

definition kItemAlign :: int where "kItemAlign = 4"

record PageData =
  pd_lsn :: u64
  pd_checksum :: u16
  pd_flags :: u16
  pd_lower :: LocationIndex
  pd_upper :: LocationIndex
  pd_special :: LocationIndex
  pd_pagesize_version :: u16
  pd_prune_xid :: TransactionId
  linp :: "nat \<Rightarrow> ItemIdData"
  bytes :: "nat \<Rightarrow> u8"

lemmas page_consts = kInvalidOffsetNumber_def kLPUnused_def kLPNormal_def kLPRedirect_def kLPDead_def kBlckSz_def
  kPageHeaderSize_def kPageLayoutVersion_def kPageSizeVersion_def kPageHasFreeLines_def kItemAlign_def

subsection \<open>Access\<close>

definition PageGetItemId :: "PageData \<Rightarrow> OffsetNumber \<Rightarrow> ItemIdData" where
  "PageGetItemId page off = linp page (unat off)"

text \<open>The subtraction is one of \<open>int\<close>, the division one of \<open>size_t\<close>.\<close>

definition PageGetMaxOffsetNumber :: "PageData \<Rightarrow> OffsetNumber" where
  "PageGetMaxOffsetNumber page = ucast ((of_int (uint (pd_lower page) - kPageHeaderSize) :: u64) div of_int kItemAlign)"

text \<open>The bytes that \<open>PageGetItem\<close> points to, as long as the line pointer says.\<close>

definition PageGetItem :: "PageData \<Rightarrow> ItemIdData \<Rightarrow> u8 list" where
  "PageGetItem page lp = map (\<lambda>k. bytes page (unat (li_off lp) + k)) [0..<unat (li_len lp)]"

definition ItemIdIsUsed :: "ItemIdData \<Rightarrow> bool" where "ItemIdIsUsed lp \<longleftrightarrow> li_flags lp \<noteq> kLPUnused"
definition ItemIdIsNormal :: "ItemIdData \<Rightarrow> bool" where "ItemIdIsNormal lp \<longleftrightarrow> li_flags lp = kLPNormal"
definition ItemIdIsDead :: "ItemIdData \<Rightarrow> bool" where "ItemIdIsDead lp \<longleftrightarrow> li_flags lp = kLPDead"

definition PageGetPageSize :: "PageData \<Rightarrow> int" where
  "PageGetPageSize page = uint (pd_pagesize_version page AND NOT kPageLayoutVersion)"

definition PageGetPageLayoutVersion :: "PageData \<Rightarrow> int" where
  "PageGetPageLayoutVersion page = uint (pd_pagesize_version page AND kPageLayoutVersion)"

subsection \<open>Memory\<close>

definition memcpy_at :: "nat \<Rightarrow> u8 list \<Rightarrow> nat \<Rightarrow> (nat \<Rightarrow> u8) \<Rightarrow> nat \<Rightarrow> u8" where
  "memcpy_at dst src n mem = (\<lambda>a. if dst \<le> a \<and> a < dst + n then src ! (a - dst) else mem a)"

definition memmove_at :: "nat \<Rightarrow> nat \<Rightarrow> nat \<Rightarrow> (nat \<Rightarrow> u8) \<Rightarrow> nat \<Rightarrow> u8" where
  "memmove_at dst src n mem = (\<lambda>a. if dst \<le> a \<and> a < dst + n then mem (a - dst + src) else mem a)"

definition MaxAlignDown :: "int \<Rightarrow> int" where
  "MaxAlignDown sz = sz AND NOT (kItemAlign - 1)"

definition MaxAlignUp :: "int \<Rightarrow> int" where
  "MaxAlignUp sz = (sz + (kItemAlign - 1)) AND NOT (kItemAlign - 1)"

definition unused_item :: ItemIdData where
  "unused_item = \<lparr>li_off = 0, li_flags = kLPUnused, li_len = 0\<rparr>"

subsection \<open>Operations\<close>

definition PageInit :: "int \<Rightarrow> int \<Rightarrow> PageData" where
  "PageInit page_size special_size = \<lparr>pd_lsn = 0, pd_checksum = 0, pd_flags = 0,
     pd_lower = of_int kPageHeaderSize, pd_upper = of_int (page_size - special_size),
     pd_special = of_int (page_size - special_size), pd_pagesize_version = kPageSizeVersion,
     pd_prune_xid = 0, linp = (\<lambda>_. unused_item), bytes = (\<lambda>_. 0)\<rparr>"

text \<open>The size is a \<open>size_t\<close> that is cast to \<open>int\<close> and rounded up in 32 bits.\<close>

definition PageAddItem :: "PageData \<Rightarrow> u8 list option \<Rightarrow> nat \<Rightarrow> OffsetNumber \<Rightarrow> OffsetNumber \<times> PageData" where
  "PageAddItem page item sz offset_number =
    (let lower = uint (pd_lower page); upper = uint (pd_upper page);
         line_off = (if offset_number = kInvalidOffsetNumber then PageGetMaxOffsetNumber page + 1 else offset_number);
         new_lower = kPageHeaderSize + uint line_off * kItemAlign;
         aligned_size = sint (((of_nat sz :: u32) + of_int (kItemAlign - 1)) AND NOT (of_int (kItemAlign - 1)));
         item_offset = upper - aligned_size
     in if lower + aligned_size > upper \<or> new_lower > upper - aligned_size then (kInvalidOffsetNumber, page)
        else (line_off, page\<lparr>
          bytes := (case item of Some src \<Rightarrow> memcpy_at (nat item_offset) src sz (bytes page) | None \<Rightarrow> bytes page),
          linp := (linp page)(unat line_off := \<lparr>li_off = of_int item_offset, li_flags = kLPNormal, li_len = of_nat sz\<rparr>),
          pd_lower := of_int new_lower, pd_upper := of_int item_offset\<rparr>))"

definition PageGetExactFreeSpace :: "PageData \<Rightarrow> int" where
  "PageGetExactFreeSpace page = uint (pd_upper page) - uint (pd_lower page)"

definition PageGetHeapFreeSpace :: "PageData \<Rightarrow> int" where
  "PageGetHeapFreeSpace page =
    (let space = (uint (pd_upper page) - uint (pd_lower page) - kItemAlign) AND NOT (kItemAlign - 1)
     in if space < 0 then 0 else space)"

definition PageGetFreeSpace :: "PageData \<Rightarrow> int" where
  "PageGetFreeSpace page =
    (let space = MaxAlignDown (uint (pd_upper page) - uint (pd_lower page) - kItemAlign)
     in if space < 0 then 0 else space)"

definition PageGetFreeSpaceForMultipleTuples :: "PageData \<Rightarrow> int \<Rightarrow> int" where
  "PageGetFreeSpaceForMultipleTuples page n =
    (let space = MaxAlignDown (uint (pd_upper page) - uint (pd_lower page) - n * kItemAlign)
     in if space < 0 then 0 else space)"

text \<open>The offset numbers of the normal line pointers up to \<open>n\<close>.\<close>

definition normals :: "PageData \<Rightarrow> nat \<Rightarrow> nat list" where
  "normals page n = filter (\<lambda>i. li_flags (linp page i) = kLPNormal) [1..<Suc n]"

text \<open>
  \<open>std::sort\<close> by descending \<open>li_off\<close>. Only items of length 0 can share an offset, and moving those
  moves no bytes.
\<close>

definition sort_desc :: "('a \<Rightarrow> 15 word) \<Rightarrow> 'a list \<Rightarrow> 'a list" where
  "sort_desc f xs = sort_key (\<lambda>x. - int (unat (f x))) xs"

record ItemEntry =
  ie_offset :: nat
  ie_item_off :: LocationIndex
  ie_aligned_len :: int
  ie_raw_len :: nat

definition compact_step :: "ItemEntry \<Rightarrow> LocationIndex \<times> PageData \<Rightarrow> LocationIndex \<times> PageData" where
  "compact_step e = (\<lambda>(new_upper, page).
    let new_upper' = new_upper - of_int (ie_aligned_len e)
    in (new_upper', page\<lparr>
      bytes := memmove_at (unat new_upper') (unat (ie_item_off e)) (ie_raw_len e) (bytes page),
      linp := (linp page)(ie_offset e := (linp page (ie_offset e))\<lparr>li_off := ucast new_upper'\<rparr>)\<rparr>))"

definition compactify_tuples :: "PageData \<Rightarrow> PageData" where
  "compactify_tuples page =
    (let nline = unat (PageGetMaxOffsetNumber page);
         items = map (\<lambda>i. let lp = linp page i in \<lparr>ie_offset = i, ie_item_off = ucast (li_off lp),
                   ie_aligned_len = MaxAlignUp (uint (li_len lp)), ie_raw_len = unat (li_len lp)\<rparr>) (normals page nline)
     in if items = [] then page\<lparr>pd_upper := pd_special page\<rparr>
        else let sorted = sort_key (\<lambda>e. - uint (ie_item_off e)) items;
                 (new_upper, page') = fold compact_step sorted (pd_special page, page)
             in page'\<lparr>pd_upper := new_upper\<rparr>)"

text \<open>\<open>while (nline > 0 && PageGetItemId(page, nline)->li_flags == kLPUnused) --nline;\<close>\<close>

fun trim_lines :: "PageData \<Rightarrow> nat \<Rightarrow> nat" where
  "trim_lines page 0 = 0"
| "trim_lines page (Suc n) = (if li_flags (linp page (Suc n)) = kLPUnused then trim_lines page n else Suc n)"

definition set_lines :: "nat \<Rightarrow> PageData \<Rightarrow> PageData" where
  "set_lines n page = page\<lparr>pd_lower := of_int (kPageHeaderSize + int n * kItemAlign)\<rparr>"

definition mark_unused :: "nat \<Rightarrow> PageData \<Rightarrow> PageData" where
  "mark_unused i page = page\<lparr>linp := (linp page)(i := unused_item)\<rparr>"

text \<open>One round of the loop that closes a gap of \<open>d\<close> bytes.\<close>

definition move_up :: "int \<Rightarrow> nat \<Rightarrow> PageData \<Rightarrow> PageData" where
  "move_up d i page = (let lp = linp page i; dst = uint (li_off lp) + d in page\<lparr>
     bytes := memmove_at (nat dst) (unat (li_off lp)) (unat (li_len lp)) (bytes page),
     linp := (linp page)(i := lp\<lparr>li_off := of_int dst\<rparr>)\<rparr>)"

definition PageIndexTupleDelete :: "PageData \<Rightarrow> OffsetNumber \<Rightarrow> PageData result" where
  "PageIndexTupleDelete page offset =
    (let nline = PageGetMaxOffsetNumber page; lp = PageGetItemId page offset in
     if offset < 1 \<or> offset > nline then Inl (Ereport ''PageIndexTupleDelete: invalid offset'')
     else if li_flags lp \<noteq> kLPNormal then Inl (Ereport ''PageIndexTupleDelete: line pointer is not normal'')
     else
       let deleted_off = li_off lp;
           deleted_aligned = MaxAlignUp (uint (li_len lp));
           page1 = mark_unused (unat offset) page;
           page2 = (if offset = nline then set_lines (trim_lines page1 (unat nline)) page1 else page1)
       in if deleted_aligned = 0 then Inr page2
          else
            let to_move = filter (\<lambda>i. li_off (linp page2 i) < deleted_off) (normals page2 (unat (PageGetMaxOffsetNumber page2)));
                page3 = fold (move_up deleted_aligned) (sort_desc (\<lambda>i. li_off (linp page2 i)) to_move) page2
            in Inr (page3\<lparr>pd_upper := of_int (uint (pd_upper page3) + deleted_aligned)\<rparr>))"

definition PageIndexMultiDelete :: "PageData \<Rightarrow> OffsetNumber list \<Rightarrow> PageData" where
  "PageIndexMultiDelete page itemids =
    (let nline = PageGetMaxOffsetNumber page;
         page1 = fold (\<lambda>off page. if off < 1 \<or> off > nline then page else mark_unused (unat off) page) itemids page;
         page2 = set_lines (trim_lines page1 (unat nline)) page1;
         page3 = compactify_tuples page2
     in page3\<lparr>pd_flags := pd_flags page3 OR kPageHasFreeLines\<rparr>)"

definition PageIndexTupleDeleteNoCompact :: "PageData \<Rightarrow> OffsetNumber \<Rightarrow> PageData" where
  "PageIndexTupleDeleteNoCompact page offset =
    (let nline = PageGetMaxOffsetNumber page in
     if offset < 1 \<or> offset > nline then page
     else let page1 = mark_unused (unat offset) page
          in if offset = nline then set_lines (trim_lines page1 (unat nline)) page1
             else page1\<lparr>pd_flags := pd_flags page1 OR kPageHasFreeLines\<rparr>)"

definition PageIndexTupleOverwrite :: "PageData \<Rightarrow> OffsetNumber \<Rightarrow> u8 list option \<Rightarrow> nat \<Rightarrow> bool \<times> PageData" where
  "PageIndexTupleOverwrite page offnum newitem newsize =
    (let nline = PageGetMaxOffsetNumber page; lp = PageGetItemId page offnum in
     if offnum < 1 \<or> offnum > nline then (False, page)
     else if li_flags lp \<noteq> kLPNormal then (False, page)
     else
       let old_raw = uint (li_len lp); old_aligned = MaxAlignUp old_raw;
           sz = sint (of_nat newsize :: u32); new_aligned = MaxAlignUp sz
       in if sz > old_raw then (False, page)
          else
            let page1 = page\<lparr>
                  bytes := (case newitem of Some src \<Rightarrow> memcpy_at (unat (li_off lp)) src newsize (bytes page) | None \<Rightarrow> bytes page),
                  linp := (linp page)(unat offnum := lp\<lparr>li_len := of_nat newsize\<rparr>)\<rparr>
            in if new_aligned < old_aligned then
                 let diff = old_aligned - new_aligned;
                     to_move = filter (\<lambda>i. i \<noteq> unat offnum \<and> li_off (linp page1 i) < li_off lp) (normals page1 (unat nline));
                     page2 = fold (move_up diff) (sort_desc (\<lambda>i. li_off (linp page1 i)) to_move) page1
                 in (True, page2\<lparr>pd_upper := of_int (uint (pd_upper page2) + diff)\<rparr>)
               else (True, page1))"

text \<open>One round of the loop that packs the line pointers.\<close>

definition pack_step :: "nat \<Rightarrow> nat \<times> PageData \<Rightarrow> nat \<times> PageData" where
  "pack_step i = (\<lambda>(new_idx, page).
    let lp = linp page i in
    if li_flags lp = kLPNormal then
      let new_idx' = Suc new_idx in
      if new_idx' \<noteq> i then (new_idx', mark_unused i (page\<lparr>linp := (linp page)(new_idx' := lp)\<rparr>))
      else (new_idx', page)
    else (new_idx, mark_unused i page))"

definition PageRepairFragmentation :: "PageData \<Rightarrow> PageData" where
  "PageRepairFragmentation page =
    (let nline = unat (PageGetMaxOffsetNumber page) in
     if normals page nline = [] then
       let page1 = set_lines 0 (page\<lparr>pd_upper := pd_special page\<rparr>);
           page2 = fold mark_unused [1..<Suc nline] page1
       in page2\<lparr>pd_flags := pd_flags page2 AND NOT kPageHasFreeLines\<rparr>
     else
       let page1 = compactify_tuples page;
           (new_idx, page2) = fold pack_step [1..<Suc nline] (0, page1);
           page3 = set_lines new_idx page2
       in page3\<lparr>pd_flags := pd_flags page3 AND NOT kPageHasFreeLines\<rparr>)"

definition PageGetTempPage :: "PageData \<Rightarrow> PageData" where
  "PageGetTempPage page =
    (let special_size = PageGetPageSize page - uint (pd_special page) in
     page\<lparr>linp := (\<lambda>_. unused_item),
       bytes := (if special_size > 0
         then memcpy_at (unat (pd_special page)) (map (\<lambda>k. bytes page (unat (pd_special page) + k)) [0..<nat special_size])
                (nat special_size) (\<lambda>_. 0)
         else (\<lambda>_. 0)),
       pd_lower := of_int kPageHeaderSize, pd_upper := pd_special page\<rparr>)"

definition PageGetTempPageCopySpecial :: "PageData \<Rightarrow> int \<Rightarrow> PageData" where
  "PageGetTempPageCopySpecial page special_size =
    (let page_size = PageGetPageSize page;
         copy_size = nat (min (page_size - uint (pd_special page)) special_size) in
     page\<lparr>linp := (\<lambda>_. unused_item),
       bytes := (if special_size > 0
         then memcpy_at (nat (page_size - special_size)) (map (\<lambda>k. bytes page (unat (pd_special page) + k)) [0..<copy_size])
                copy_size (\<lambda>_. 0)
         else (\<lambda>_. 0)),
       pd_lower := of_int kPageHeaderSize, pd_upper := of_int (page_size - special_size),
       pd_special := of_int (page_size - special_size)\<rparr>)"


subsection \<open>Well-formed pages and their items\<close>

definition nlines :: "PageData \<Rightarrow> nat" where
  "nlines page = unat (PageGetMaxOffsetNumber page)"

definition ioff :: "PageData \<Rightarrow> nat \<Rightarrow> nat" where
  "ioff page i = unat (li_off (linp page i))"

definition ilen :: "PageData \<Rightarrow> nat \<Rightarrow> nat" where
  "ilen page i = unat (li_len (linp page i))"

definition align4 :: "nat \<Rightarrow> nat" where
  "align4 n = (n + 3) div 4 * 4"

abbreviation alen :: "PageData \<Rightarrow> nat \<Rightarrow> nat" where
  "alen page i \<equiv> align4 (ilen page i)"

definition used :: "PageData \<Rightarrow> nat \<Rightarrow> bool" where
  "used page i \<longleftrightarrow> 1 \<le> i \<and> i \<le> nlines page \<and> li_flags (linp page i) = kLPNormal"

text \<open>Line pointers below the items, items inside their area and apart from each other.\<close>

definition page_ok :: "PageData \<Rightarrow> bool" where
  "page_ok page \<longleftrightarrow> unat (pd_lower page) = 24 + 4 * nlines page \<and> pd_lower page \<le> pd_upper page \<and>
    pd_upper page \<le> pd_special page \<and> unat (pd_special page) \<le> 8192 \<and>
    (\<forall>i. used page i \<longrightarrow> 0 < ilen page i \<and> unat (pd_upper page) \<le> ioff page i \<and>
       ioff page i + alen page i \<le> unat (pd_special page)) \<and>
    (\<forall>i j. used page i \<and> used page j \<and> i \<noteq> j \<longrightarrow>
       ioff page i + alen page i \<le> ioff page j \<or> ioff page j + alen page j \<le> ioff page i)"

text \<open>What a page holds: the items by offset number.\<close>

definition page_items :: "PageData \<Rightarrow> nat \<Rightarrow> u8 list option" where
  "page_items page i = (if used page i then Some (PageGetItem page (linp page i)) else None)"

lemma page_items_nth: "used page i \<Longrightarrow> k < ilen page i \<Longrightarrow> the (page_items page i) ! k = bytes page (ioff page i + k)"
  by (simp add: page_items_def PageGetItem_def ioff_def ilen_def)

lemma align4_ge: "n \<le> align4 n" "0 < n \<Longrightarrow> 0 < align4 n"
  by (auto simp: align4_def)

lemma and_not_3: "(x::int) AND - 4 = x div 4 * 4"
proof -
  have "x AND NOT (mask 2) = push_bit 2 (drop_bit 2 x)" by (rule bit_eqI) (auto simp: bit_simps not_less dest!: le_Suc_ex)
  then show ?thesis by (simp add: mask_eq_exp_minus_1 push_bit_eq_mult drop_bit_eq_div)
qed

lemma MaxAlign_simps: "MaxAlignDown x = x div 4 * 4" "MaxAlignUp x = (x + 3) div 4 * 4"
  by (simp_all add: MaxAlignDown_def MaxAlignUp_def kItemAlign_def and_not_3)

lemma MaxAlignUp_nat: "MaxAlignUp (int n) = int (align4 n)"
  by (simp add: MaxAlign_simps align4_def zdiv_int)

lemma MaxAlignUp_len: "MaxAlignUp (uint (li_len (linp page i))) = int (alen page i)"
  using MaxAlignUp_nat [of "ilen page i"] by (simp add: ilen_def)

lemma nlines_lower:
  assumes "24 \<le> unat (pd_lower page)"
  shows "nlines page = (unat (pd_lower page) - 24) div 4"
proof -
  let ?n = "unat (pd_lower page) - 24"
  have "?n < 2 ^ 16" using unsigned_less [of "pd_lower page", where ?'a=nat] by simp
  moreover have "uint (pd_lower page) - 24 = int ?n" using assms by (simp add: of_nat_diff)
  then have "(of_int (uint (pd_lower page) - kPageHeaderSize) :: u64) = of_nat ?n"
    by (simp add: kPageHeaderSize_def)
  ultimately show ?thesis
    by (simp add: nlines_def PageGetMaxOffsetNumber_def kItemAlign_def unsigned_ucast_eq unat_div_distrib unsigned_of_nat
        take_bit_nat_eq_self)
qed

lemma lower_set_lines: "n < 2 ^ 13 \<Longrightarrow> unat (pd_lower (set_lines n page)) = 24 + 4 * n"
proof -
  assume "n < 2 ^ 13"
  moreover have "pd_lower (set_lines n page) = of_nat (24 + 4 * n)"
    by (simp add: set_lines_def page_consts)
  ultimately show ?thesis by (simp only: unsigned_of_nat) (simp add: take_bit_nat_eq_self)
qed

lemma nlines_set_lines: "n < 2 ^ 13 \<Longrightarrow> nlines (set_lines n page) = n"
  by (simp add: nlines_lower lower_set_lines)

lemma nlines_upd [simp]:
  "nlines (page\<lparr>bytes := b\<rparr>) = nlines page" "nlines (page\<lparr>linp := l\<rparr>) = nlines page"
  "nlines (page\<lparr>pd_upper := u\<rparr>) = nlines page" "nlines (page\<lparr>pd_flags := f\<rparr>) = nlines page"
  by (simp_all add: nlines_def PageGetMaxOffsetNumber_def)

lemma set_normals: "set (normals page (nlines page)) = {i. used page i}"
  by (auto simp: normals_def used_def)

lemma distinct_normals [simp]: "distinct (normals page n)"
  by (simp add: normals_def)

subsection \<open>Moving items\<close>

definition put :: "nat \<times> nat \<Rightarrow> PageData \<Rightarrow> PageData" where
  "put = (\<lambda>(i, d) page. page\<lparr>bytes := memmove_at d (ioff page i) (ilen page i) (bytes page),
     linp := (linp page)(i := (linp page i)\<lparr>li_off := of_nat d\<rparr>)\<rparr>)"

definition relocated :: "PageData \<Rightarrow> (nat \<times> nat) list \<Rightarrow> PageData \<Rightarrow> bool" where
  "relocated page ms page' \<longleftrightarrow> page' = page\<lparr>bytes := bytes page', linp := linp page'\<rparr> \<and>
    linp page' = (\<lambda>i. case map_of ms i of None \<Rightarrow> linp page i | Some d \<Rightarrow> (linp page i)\<lparr>li_off := of_nat d\<rparr>) \<and>
    (\<forall>(i, d) \<in> set ms. \<forall>k < ilen page i. bytes page' (d + k) = bytes page (ioff page i + k)) \<and>
    (\<forall>a. (\<forall>(i, d) \<in> set ms. \<not> (d \<le> a \<and> a < d + ilen page i)) \<longrightarrow> bytes page' a = bytes page a)"

lemma relocated_bytes:
  "relocated page ms page' \<Longrightarrow> (i, d) \<in> set ms \<Longrightarrow> k < ilen page i \<Longrightarrow> bytes page' (d + k) = bytes page (ioff page i + k)"
  unfolding relocated_def by blast

lemma put_simps:
  "linp (put (i, d) page) = (linp page)(i := (linp page i)\<lparr>li_off := of_nat d\<rparr>)"
  "bytes (put (i, d) page) a = (if d \<le> a \<and> a < d + ilen page i then bytes page (a - d + ioff page i) else bytes page a)"
  "ilen (put (i, d) page) j = ilen page j" "j \<noteq> i \<Longrightarrow> ioff (put (i, d) page) j = ioff page j"
  by (simp_all add: put_def memmove_at_def ilen_def ioff_def)

lemma put_shape: "put (i, d) page = page\<lparr>bytes := bytes (put (i, d) page), linp := linp (put (i, d) page)\<rparr>"
  by (simp add: put_def)

lemma fold_put:
  assumes "distinct (map fst ms)" "\<forall>(i, d) \<in> set ms. ioff page i \<le> d"
    "sorted_wrt (\<lambda>(i, d) (j, e). ioff page j + ilen page j \<le> ioff page i \<and> e + ilen page j \<le> d) ms"
  shows "relocated page ms (fold put ms page)"
  using assms
proof (induction ms arbitrary: page)
  case Nil
  then show ?case by (simp add: relocated_def)
next
  case (Cons m ms)
  obtain i d where m: "m = (i, d)" by (cases m)
  let ?p = "put (i, d) page"
  have new: "i \<notin> fst ` set ms" "distinct (map fst ms)" using Cons.prems(1) m by auto
  then have ne: "(j, e) \<in> set ms \<Longrightarrow> j \<noteq> i" for j e by force
  have below: "(j, e) \<in> set ms \<Longrightarrow> ioff page j + ilen page j \<le> ioff page i \<and> e + ilen page j \<le> d" for j e
    using Cons.prems(3) m by auto
  have up: "ioff page i \<le> d" using Cons.prems(2) m by auto
  have "relocated ?p ms (fold put ms ?p)"
  proof (rule Cons.IH [OF new(2)])
    show "\<forall>(j, e) \<in> set ms. ioff ?p j \<le> e" using Cons.prems(2) ne m by (auto simp: put_simps)
    have "sorted_wrt (\<lambda>(i, d) (j, e). ioff page j + ilen page j \<le> ioff page i \<and> e + ilen page j \<le> d) ms"
      using Cons.prems(3) m by simp
    then show "sorted_wrt (\<lambda>(i, d) (j, e). ioff ?p j + ilen ?p j \<le> ioff ?p i \<and> e + ilen ?p j \<le> d) ms"
      by (rule sorted_wrt_mono_rel [rotated]) (use ne in \<open>auto simp: put_simps\<close>)
  qed
  then have r: "fold put ms ?p = ?p\<lparr>bytes := bytes (fold put ms ?p), linp := linp (fold put ms ?p)\<rparr>"
    "linp (fold put ms ?p) = (\<lambda>i. case map_of ms i of None \<Rightarrow> linp ?p i | Some d \<Rightarrow> (linp ?p i)\<lparr>li_off := of_nat d\<rparr>)"
    "(j, e) \<in> set ms \<Longrightarrow> k < ilen ?p j \<Longrightarrow> bytes (fold put ms ?p) (e + k) = bytes ?p (ioff ?p j + k)"
    "\<forall>(j, e) \<in> set ms. \<not> (e \<le> a \<and> a < e + ilen ?p j) \<Longrightarrow> bytes (fold put ms ?p) a = bytes ?p a" for j e k a
    unfolding relocated_def by blast+
  have nm: "map_of ms i = None" using new(1) by (simp add: map_of_eq_None_iff)
  have "fold put ms ?p = page\<lparr>bytes := bytes (fold put ms ?p), linp := linp (fold put ms ?p)\<rparr>"
    by (subst r(1), subst put_shape) simp
  moreover have "linp (fold put ms ?p) = (\<lambda>j. case map_of (m # ms) j of None \<Rightarrow> linp page j | Some d \<Rightarrow> (linp page j)\<lparr>li_off := of_nat d\<rparr>)"
    unfolding r(2) using nm by (auto simp: m put_simps fun_eq_iff split: option.split)
  moreover have "bytes (fold put ms ?p) (e + k) = bytes page (ioff page j + k)"
    if "(j, e) \<in> set (m # ms)" "k < ilen page j" for j e k
  proof (cases "(j, e) = m")
    case True
    have "\<not> (e' \<le> d + k \<and> d + k < e' + ilen ?p j')" if "(j', e') \<in> set ms" for j' e'
      using below [OF that] by (simp add: put_simps)
    then have "bytes (fold put ms ?p) (d + k) = bytes ?p (d + k)" by (intro r(4)) auto
    then show ?thesis using True m that(2) by (simp add: put_simps add.commute)
  next
    case False
    then have j: "(j, e) \<in> set ms" using that(1) by simp
    have "bytes (fold put ms ?p) (e + k) = bytes ?p (ioff page j + k)"
      using r(3) [OF j] that(2) ne [OF j] by (simp add: put_simps)
    then show ?thesis using below [OF j] up that(2) by (simp add: put_simps)
  qed
  moreover have "bytes (fold put ms ?p) a = bytes page a"
    if "\<forall>(j, e) \<in> set (m # ms). \<not> (e \<le> a \<and> a < e + ilen page j)" for a
  proof -
    have "bytes (fold put ms ?p) a = bytes ?p a" using that by (intro r(4)) (auto simp: put_simps)
    then show ?thesis using that m by (auto simp: put_simps)
  qed
  ultimately show ?case unfolding relocated_def m by auto
qed


text \<open>The new place of an item.\<close>

definition noff :: "PageData \<Rightarrow> (nat \<times> nat) list \<Rightarrow> nat \<Rightarrow> nat" where
  "noff page ms i = (case map_of ms i of None \<Rightarrow> ioff page i | Some d \<Rightarrow> d)"

lemma page_okD:
  assumes "page_ok page"
  shows "unat (pd_lower page) = 24 + 4 * nlines page" "unat (pd_lower page) \<le> unat (pd_upper page)"
    "unat (pd_upper page) \<le> unat (pd_special page)" "unat (pd_special page) \<le> 8192"
    "used page i \<Longrightarrow> 0 < ilen page i \<and> unat (pd_upper page) \<le> ioff page i \<and> ioff page i + alen page i \<le> unat (pd_special page)"
    "used page i \<Longrightarrow> used page j \<Longrightarrow> i \<noteq> j \<Longrightarrow> ioff page i + alen page i \<le> ioff page j \<or> ioff page j + alen page j \<le> ioff page i"
  using assms by (auto simp: page_ok_def word_le_nat_alt)

lemma place:
  assumes ok: "page_ok page" and dist: "distinct (map fst ms)" and us: "\<forall>(i, d) \<in> set ms. used page i \<and> ioff page i \<le> d"
    and desc: "sorted_wrt (\<lambda>(i, d) (j, e). ioff page j < ioff page i \<and> e < d) ms"
    and range: "\<And>i. used page i \<Longrightarrow> u \<le> noff page ms i \<and> noff page ms i + alen page i \<le> unat (pd_special page)"
    and apart: "\<And>i j. used page i \<Longrightarrow> used page j \<Longrightarrow> i \<noteq> j \<Longrightarrow>
       noff page ms i + alen page i \<le> noff page ms j \<or> noff page ms j + alen page j \<le> noff page ms i"
    and u: "unat (pd_lower page) \<le> u" "u \<le> unat (pd_special page)"
  shows "page_ok ((fold put ms page)\<lparr>pd_upper := of_nat u\<rparr>)"
    "page_items ((fold put ms page)\<lparr>pd_upper := of_nat u\<rparr>) = page_items page"
    "\<exists>b l. fold put ms page = page\<lparr>bytes := b, linp := l\<rparr>"
proof -
  let ?p = "fold put ms page"
  have el: "noff page ms i = d" if "(i, d) \<in> set ms" for i d
    using that dist by (simp add: noff_def)
  have al: "ilen page i \<le> alen page i" for i by (rule align4_ge)
  have "sorted_wrt (\<lambda>(i, d) (j, e). ioff page j + ilen page j \<le> ioff page i \<and> e + ilen page j \<le> d) ms"
  proof (rule sorted_wrt_mono_rel [OF _ desc])
    fix x y assume xy: "x \<in> set ms" "y \<in> set ms" "(case x of (i, d) \<Rightarrow> \<lambda>(j, e). ioff page j < ioff page i \<and> e < d) y"
    obtain i d j e where e: "x = (i, d)" "y = (j, e)" by (cases x, cases y)
    then have lt: "ioff page j < ioff page i" "e < d" and u2: "used page i" "used page j" and ne: "i \<noteq> j"
      using xy us by auto
    have "ioff page j + alen page j \<le> ioff page i" "e + alen page j \<le> d"
      using page_okD(6) [OF ok u2 ne] apart [OF u2 ne] lt el xy(1,2) e by auto
    then show "(case x of (i, d) \<Rightarrow> \<lambda>(j, e). ioff page j + ilen page j \<le> ioff page i \<and> e + ilen page j \<le> d) y"
      using al [of j] e by auto
  qed
  then have rel: "relocated page ms ?p" using us by (intro fold_put [OF dist]) auto
  then show shape: "\<exists>b l. ?p = page\<lparr>bytes := b, linp := l\<rparr>" by (auto simp: relocated_def)
  have lin: "linp ?p i = (case map_of ms i of None \<Rightarrow> linp page i | Some d \<Rightarrow> (linp page i)\<lparr>li_off := of_nat d\<rparr>)" for i
    using rel by (simp add: relocated_def)
  have fl: "li_flags (linp ?p i) = li_flags (linp page i)" "ilen ?p i = ilen page i" for i
    by (simp_all add: lin ilen_def split: option.split)
  have n: "nlines ?p = nlines page" using shape by auto
  have us': "used ?p i = used page i" for i by (simp add: used_def n fl)
  have off: "ioff ?p i = noff page ms i" if "used page i" for i
  proof -
    have "noff page ms i < 2 ^ 15" using range [OF that] page_okD(4) [OF ok] page_okD(5) [OF ok that] al [of i] by simp
    then show ?thesis
      by (simp add: ioff_def lin noff_def unsigned_of_nat take_bit_nat_eq_self split: option.splits)
  qed
  have hdr: "pd_lower ?p = pd_lower page" "pd_special ?p = pd_special page" using shape by auto
  have uu: "unat (of_nat u :: u16) = u" using u(2) page_okD(4) [OF ok] by (simp add: unsigned_of_nat take_bit_nat_eq_self)
  have q: "used (?p\<lparr>pd_upper := w\<rparr>) i = used page i" "ilen (?p\<lparr>pd_upper := w\<rparr>) i = ilen page i"
    "ioff (?p\<lparr>pd_upper := w\<rparr>) i = ioff ?p i" for i w
    using us' fl by (simp_all add: used_def ilen_def ioff_def)
  show "page_ok (?p\<lparr>pd_upper := of_nat u\<rparr>)"
    unfolding page_ok_def using u page_okD [OF ok] range apart off
    by (simp add: q word_le_nat_alt uu hdr n)
  have cont: "PageGetItem ?p (linp ?p i) = PageGetItem page (linp page i)" if i: "used page i" for i
  proof -
    have "bytes ?p (noff page ms i + k) = bytes page (ioff page i + k)" if k: "k < ilen page i" for k
    proof (cases "map_of ms i")
      case None
      have "\<not> (d \<le> ioff page i + k \<and> ioff page i + k < d + ilen page j)" if m: "(j, d) \<in> set ms" for j d
      proof -
        have "j \<noteq> i" using m None by (force simp: map_of_eq_None_iff)
        moreover have "used page j" using us m by auto
        ultimately show ?thesis using apart [OF i, of j] el [OF m] None al [of i] al [of j] k
          by (auto simp: noff_def)
      qed
      then have "bytes ?p (ioff page i + k) = bytes page (ioff page i + k)"
        using rel unfolding relocated_def by blast
      then show ?thesis using None by (simp add: noff_def)
    next
      case (Some d)
      then have "(i, d) \<in> set ms" by (rule map_of_SomeD)
      then have "bytes ?p (d + k) = bytes page (ioff page i + k)"
        using rel k unfolding relocated_def by blast
      then show ?thesis using Some by (simp add: noff_def)
    qed
    then show ?thesis using off [OF i] fl(2) [of i] by (simp add: PageGetItem_def ioff_def ilen_def)
  qed
  show "page_items (?p\<lparr>pd_upper := of_nat u\<rparr>) = page_items page"
    using cont us' by (simp add: page_items_def fun_eq_iff used_def PageGetItem_def)
qed


subsection \<open>Order of the moves\<close>

lemma sort_key_map: "sort_key f (map g xs) = map g (sort_key (\<lambda>x. f (g x)) xs)"
proof -
  have "insort_key f (g x) (map g ys) = map g (insort_key (\<lambda>x. f (g x)) x ys)" for x ys
    by (induction ys) auto
  then show ?thesis by (induction xs) auto
qed

lemma desc_order:
  assumes ok: "page_ok page" and xs: "distinct xs" "\<forall>i \<in> set xs. used page i"
  defines "ys \<equiv> sort_key (\<lambda>i. - int (ioff page i)) xs"
  shows "distinct ys" "set ys = set xs" "sorted_wrt (\<lambda>i j. ioff page j + alen page j \<le> ioff page i) ys"
    "sorted_wrt (\<lambda>i j. ioff page j < ioff page i) ys"
proof -
  show ys: "distinct ys" "set ys = set xs" using xs(1) by (simp_all add: ys_def)
  have step: "ioff page j + alen page j \<le> ioff page i" if "i \<in> set xs" "j \<in> set xs" "i \<noteq> j" "ioff page j \<le> ioff page i" for i j
    using page_okD(6) [OF ok, of i j] page_okD(5) [OF ok, of i] align4_ge(2) [of "ilen page i"] that xs(2) by fastforce
  have "sorted_wrt (\<lambda>i j. ioff page j \<le> ioff page i \<and> i \<noteq> j) ys"
    using sorted_sort_key [of "\<lambda>i. - int (ioff page i)" xs] ys(1)
    unfolding ys_def by (simp add: sorted_wrt_map distinct_conv_nth sorted_wrt_iff_nth_less)
  then show s: "sorted_wrt (\<lambda>i j. ioff page j + alen page j \<le> ioff page i) ys"
    by (rule sorted_wrt_mono_rel [rotated]) (use step ys(2) in auto)
  show "sorted_wrt (\<lambda>i j. ioff page j < ioff page i) ys"
  proof (rule sorted_wrt_mono_rel [OF _ s])
    fix i j assume "i \<in> set ys" "j \<in> set ys" "ioff page j + alen page j \<le> ioff page i"
    then show "ioff page j < ioff page i"
      using ys(2) xs(2) page_okD(5) [OF ok, of j] align4_ge(2) [of "ilen page j"] by auto
  qed
qed

lemma sort_desc_ioff: "sort_desc (\<lambda>i. li_off (linp page i)) xs = sort_key (\<lambda>i. - int (ioff page i)) xs"
  by (simp add: sort_desc_def ioff_def)

subsection \<open>Closing a gap\<close>

lemma move_up_put: "move_up (int d) i page = put (i, ioff page i + d) page"
proof -
  have "uint (li_off (linp page i)) + int d = int (ioff page i + d)" by (simp add: ioff_def)
  then show ?thesis by (simp only: move_up_def Let_def put_def prod.case nat_int of_int_of_nat_eq) (simp add: ioff_def ilen_def)
qed

lemma fold_move_up:
  "distinct xs \<Longrightarrow> fold (move_up (int d)) xs page = fold put (map (\<lambda>i. (i, ioff page i + d)) xs) page"
proof (induction xs arbitrary: page)
  case (Cons x xs)
  have "map (\<lambda>i. (i, ioff (put (x, ioff page x + d) page) i + d)) xs = map (\<lambda>i. (i, ioff page i + d)) xs"
    using Cons.prems by (auto intro!: put_simps(4))
  then have "fold (move_up (int d)) xs (put (x, ioff page x + d) page) =
      fold put (map (\<lambda>i. (i, ioff page i + d)) xs) (put (x, ioff page x + d) page)"
    using Cons by (metis distinct.simps(2))
  then show ?case using move_up_put [of d x page] by simp
qed simp

text \<open>
  If no item meets the \<open>d\<close> bytes at \<open>g\<close>, then moving the items below \<open>g\<close> up by \<open>d\<close> keeps
  every item.
\<close>

lemma close_gap:
  assumes ok: "page_ok page" and free: "\<And>i. used page i \<Longrightarrow> ioff page i + alen page i \<le> g \<or> g + d \<le> ioff page i"
    and g: "unat (pd_upper page) \<le> g" "g + d \<le> unat (pd_special page)"
  defines "xs \<equiv> filter (\<lambda>i. ioff page i < g) (normals page (nlines page))"
  defines "page' \<equiv> (fold (move_up (int d)) (sort_desc (\<lambda>i. li_off (linp page i)) xs) page)
    \<lparr>pd_upper := of_nat (unat (pd_upper page) + d)\<rparr>"
  shows "page_ok page'" "page_items page' = page_items page"
    "\<exists>b l. page' = page\<lparr>bytes := b, linp := l, pd_upper := of_nat (unat (pd_upper page) + d)\<rparr>"
proof -
  let ?ys = "sort_key (\<lambda>i. - int (ioff page i)) xs"
  let ?ms = "map (\<lambda>i. (i, ioff page i + d)) ?ys"
  have xs: "distinct xs" "set xs = {i. used page i \<and> ioff page i < g}" by (auto simp: xs_def set_normals)
  note o = desc_order [OF ok xs(1)]
  have p: "page' = (fold put ?ms page)\<lparr>pd_upper := of_nat (unat (pd_upper page) + d)\<rparr>"
    unfolding page'_def sort_desc_ioff using xs(1) by (subst fold_move_up) simp_all
  have no: "noff page ?ms i = (if ioff page i < g then ioff page i + d else ioff page i)" if "used page i" for i
    using that xs by (auto simp: noff_def map_of_map_restrict restrict_map_def o_def)
  have lo: "ioff page i < g \<longleftrightarrow> ioff page i + alen page i \<le> g" if "used page i" for i
    using free [OF that] page_okD(5) [OF ok that] align4_ge(2) [of "ilen page i"] by auto
  have 1: "distinct (map fst ?ms)" "\<forall>(i, d) \<in> set ?ms. used page i \<and> ioff page i \<le> d" using xs by (auto simp: o_def)
  have 2: "sorted_wrt (\<lambda>(i, d) (j, e). ioff page j < ioff page i \<and> e < d) ?ms"
    using o(4) xs(2) by (simp add: sorted_wrt_map)
  have 3: "unat (pd_upper page) + d \<le> noff page ?ms i \<and> noff page ?ms i + alen page i \<le> unat (pd_special page)" if "used page i" for i
    using page_okD(5) [OF ok that] no [OF that] lo [OF that] free [OF that] g by auto
  have 4: "noff page ?ms i + alen page i \<le> noff page ?ms j \<or> noff page ?ms j + alen page j \<le> noff page ?ms i"
    if "used page i" "used page j" "i \<noteq> j" for i j
    using page_okD(6) [OF ok that] no that lo free by fastforce
  have 5: "unat (pd_lower page) \<le> unat (pd_upper page) + d" "unat (pd_upper page) + d \<le> unat (pd_special page)"
    using page_okD(2) [OF ok] g by auto
  note place = place [OF ok 1 2 3 4 5]
  show "page_ok page'" "page_items page' = page_items page" unfolding p using place(1,2) by blast+
  obtain b l where "fold put ?ms page = page\<lparr>bytes := b, linp := l\<rparr>" using place(3) by blast
  then show "\<exists>b l. page' = page\<lparr>bytes := b, linp := l, pd_upper := of_nat (unat (pd_upper page) + d)\<rparr>"
    unfolding p by (intro exI) simp
qed


subsection \<open>Packing the items\<close>

fun dests :: "PageData \<Rightarrow> nat \<Rightarrow> nat list \<Rightarrow> (nat \<times> nat) list" where
  "dests page u [] = []"
| "dests page u (i # xs) = (i, u - alen page i) # dests page (u - alen page i) xs"

definition entry :: "PageData \<Rightarrow> nat \<Rightarrow> ItemEntry" where
  "entry page i = (let lp = linp page i in \<lparr>ie_offset = i, ie_item_off = ucast (li_off lp),
     ie_aligned_len = MaxAlignUp (uint (li_len lp)), ie_raw_len = unat (li_len lp)\<rparr>)"

abbreviation alen_sum :: "PageData \<Rightarrow> nat list \<Rightarrow> nat" where
  "alen_sum page xs \<equiv> sum_list (map (alen page) xs)"

lemma compact_step_put:
  assumes "alen page i \<le> u" "u < 2 ^ 15"
  shows "compact_step (entry page i) (of_nat u, page) = (of_nat (u - alen page i), put (i, u - alen page i) page)"
proof -
  have 1: "(of_nat u :: u16) - of_int (MaxAlignUp (uint (li_len (linp page i)))) = of_nat (u - alen page i)"
    using assms(1) by (simp add: MaxAlignUp_len of_nat_diff)
  have 2: "unat (of_nat (u - alen page i) :: u16) = u - alen page i"
    using assms(2) by (simp add: unsigned_of_nat take_bit_nat_eq_self)
  have 3: "unat (ucast (li_off (linp page i)) :: u16) = ioff page i"
    using unsigned_less [of "li_off (linp page i)", where ?'a=nat]
    by (simp add: unsigned_ucast_eq ioff_def take_bit_nat_eq_self)
  have 4: "(ucast (of_nat (u - alen page i) :: u16) :: 15 word) = of_nat (u - alen page i)"
    using 2 by (metis of_nat_unat)
  show ?thesis by (simp only: compact_step_def entry_def Let_def prod.case ItemEntry.simps 1 2 3 4 put_def) (simp add: ilen_def)
qed

lemma dests_cong: "(\<And>i. i \<in> set xs \<Longrightarrow> ilen p i = ilen q i) \<Longrightarrow> dests p u xs = dests q u xs"
  by (induction xs arbitrary: u) auto

lemma fold_compact:
  "distinct xs \<Longrightarrow> alen_sum page xs \<le> u \<Longrightarrow> u < 2 ^ 15 \<Longrightarrow>
   fold compact_step (map (entry page) xs) (of_nat u, page) = (of_nat (u - alen_sum page xs), fold put (dests page u xs) page)"
proof (induction xs arbitrary: page u)
  case (Cons x xs)
  let ?p = "put (x, u - alen page x) page"
  have e: "map (entry ?p) xs = map (entry page) xs"
    using Cons.prems(1) by (auto simp: entry_def put_simps)
  have t: "alen_sum ?p xs = alen_sum page xs" "dests ?p (u - alen page x) xs = dests page (u - alen page x) xs"
    by (simp add: put_simps) (rule dests_cong, simp add: put_simps)
  have "fold compact_step (map (entry ?p) xs) (of_nat (u - alen page x), ?p) =
      (of_nat (u - alen page x - alen_sum ?p xs), fold put (dests ?p (u - alen page x) xs) ?p)"
    using Cons.prems t(1) by (intro Cons.IH) auto
  then show ?case using compact_step_put [of page x u] Cons.prems by (simp add: e t)
qed simp

lemma dests_props:
  assumes "sorted_wrt (\<lambda>i j. ioff page j + alen page j \<le> ioff page i) xs" "\<forall>i \<in> set xs. ioff page i + alen page i \<le> u"
  shows "map fst (dests page u xs) = xs \<and> alen_sum page xs \<le> u \<and>
    (\<forall>(i, d) \<in> set (dests page u xs). ioff page i \<le> d \<and> d + alen page i \<le> u \<and> u - alen_sum page xs \<le> d) \<and>
    sorted_wrt (\<lambda>x y. snd y + alen page (fst y) \<le> snd x) (dests page u xs)"
  using assms
proof (induction xs arbitrary: u)
  case (Cons x xs)
  let ?u = "u - alen page x"
  have x: "ioff page x + alen page x \<le> u" "\<forall>i \<in> set xs. ioff page i + alen page i \<le> ?u"
    using Cons.prems by force+
  then have IH: "map fst (dests page ?u xs) = xs" "alen_sum page xs \<le> ?u"
    "\<forall>(i, d) \<in> set (dests page ?u xs). ioff page i \<le> d \<and> d + alen page i \<le> ?u \<and> ?u - alen_sum page xs \<le> d"
    "sorted_wrt (\<lambda>x y. snd y + alen page (fst y) \<le> snd x) (dests page ?u xs)"
    using Cons.IH [of ?u] Cons.prems(1) by auto
  have "\<forall>(i, d) \<in> set (dests page ?u xs). ioff page i \<le> d \<and> d + alen page i \<le> u \<and> u - alen_sum page (x # xs) \<le> d"
    using IH(3) by fastforce
  then show ?case using IH x(1) by (auto simp: split_beta)
qed simp


lemma alen_sum_bound:
  assumes "sorted_wrt (\<lambda>i j. ioff page j + alen page j \<le> ioff page i) xs" "\<forall>i \<in> set xs. ioff page i + alen page i \<le> u"
    "\<forall>i \<in> set xs. m \<le> ioff page i" "m \<le> u"
  shows "m + alen_sum page xs \<le> u"
  using assms
proof (induction xs arbitrary: u)
  case (Cons x xs)
  then have "m + alen_sum page xs \<le> ioff page x" by (intro Cons.IH) auto
  with Cons.prems(2) show ?case by auto
qed simp

lemma flags_fold_put:
  "li_flags (linp (fold put ms page) i) = li_flags (linp page i)" "ilen (fold put ms page) i = ilen page i"
  "nlines (fold put ms page) = nlines page"
  by (induction ms arbitrary: page) (auto simp: put_def ilen_def split: prod.splits)

lemma sorted_wrt_conj: "sorted_wrt P xs \<Longrightarrow> sorted_wrt Q xs \<Longrightarrow> sorted_wrt (\<lambda>x y. P x y \<and> Q x y) xs"
  by (induction xs) auto

lemma sorted_wrt_linear: "sorted_wrt P xs \<Longrightarrow> x \<in> set xs \<Longrightarrow> y \<in> set xs \<Longrightarrow> x \<noteq> y \<Longrightarrow> P x y \<or> P y x"
  by (induction xs) auto

lemma compactify:
  assumes ok: "page_ok page"
  defines "u \<equiv> unat (pd_special page) - alen_sum page (normals page (nlines page))"
  shows "page_ok (compactify_tuples page)" "page_items (compactify_tuples page) = page_items page"
    "\<exists>b l. compactify_tuples page = page\<lparr>bytes := b, linp := l, pd_upper := of_nat u\<rparr>"
    "li_flags (linp (compactify_tuples page) i) = li_flags (linp page i)"
    "alen_sum page (normals page (nlines page)) \<le> unat (pd_special page)"
proof -
  let ?xs = "normals page (nlines page)"
  let ?ys = "sort_key (\<lambda>i. - int (ioff page i)) ?xs"
  let ?s = "unat (pd_special page)"
  let ?ms = "dests page ?s ?ys"
  have xs: "\<forall>i \<in> set ?xs. used page i" by (simp add: set_normals)
  note o = desc_order [OF ok distinct_normals xs]
  have ys: "\<forall>i \<in> set ?ys. ioff page i + alen page i \<le> ?s" using xs page_okD(5) [OF ok] by simp
  note d = dests_props [OF o(3) ys]
  have sum: "alen_sum page ?ys = alen_sum page ?xs"
    by (simp flip: sum_mset_sum_list)
  show "alen_sum page ?xs \<le> ?s" using d sum by simp
  have "sort_key (\<lambda>e. - uint (ie_item_off e)) (map (entry page) ?xs) = map (entry page) ?ys"
    by (subst sort_key_map) (simp add: entry_def Let_def ioff_def uint_up_ucast is_up_def)
  moreover have "fold compact_step (map (entry page) ?ys) (of_nat ?s, page) = (of_nat u, fold put ?ms page)"
    unfolding u_def sum [symmetric] using o(1) d page_okD(4) [OF ok] by (intro fold_compact) auto
  ultimately have c: "compactify_tuples page = (fold put ?ms page)\<lparr>pd_upper := of_nat u\<rparr>"
    unfolding compactify_tuples_def entry_def [symmetric] nlines_def [symmetric]
    by (simp add: Let_def u_def)
  show "li_flags (linp (compactify_tuples page) i) = li_flags (linp page i)" by (simp add: c flags_fold_put)
  have mem: "\<exists>d. (i, d) \<in> set ?ms \<and> noff page ?ms i = d" if "used page i" for i
  proof -
    have "i \<in> set (map fst ?ms)" using d that set_normals by auto
    then obtain d where "(i, d) \<in> set ?ms" by auto
    moreover have "distinct (map fst ?ms)" using d o(1) by simp
    ultimately show ?thesis by (auto simp: noff_def)
  qed
  have fs: "map fst ?ms = ?ys" using d by blast
  have um: "used page i" if "(i, d) \<in> set ?ms" for i d
  proof -
    have "fst (i, d) \<in> set (map fst ?ms)" using that by (simp only: set_map imageI)
    then show ?thesis using xs unfolding fs by simp
  qed
  have 1: "distinct (map fst ?ms)" "\<forall>(i, d) \<in> set ?ms. used page i \<and> ioff page i \<le> d"
    unfolding fs using o(1) um d by blast+
  have 2: "sorted_wrt (\<lambda>(i, d) (j, e). ioff page j < ioff page i \<and> e < d) ?ms"
  proof -
    have "sorted_wrt (\<lambda>i j. ioff page j < ioff page i) (map fst ?ms)" unfolding fs by (rule o(4))
    then have "sorted_wrt (\<lambda>x y. ioff page (fst y) < ioff page (fst x)) ?ms" by (simp only: sorted_wrt_map)
    from sorted_wrt_conj [OF this d [THEN conjunct2, THEN conjunct2, THEN conjunct2]] show ?thesis
    proof (rule sorted_wrt_mono_rel [rotated])
      fix x y assume y: "y \<in> set ?ms" and xy: "ioff page (fst y) < ioff page (fst x) \<and> snd y + alen page (fst y) \<le> snd x"
      have "used page (fst y)" using um y by (cases y) simp
      then have "0 < alen page (fst y)" using page_okD(5) [OF ok] align4_ge(2) by blast
      then show "(case x of (i, d) \<Rightarrow> \<lambda>(j, e). ioff page j < ioff page i \<and> e < d) y"
        using xy by (cases x, cases y) simp
    qed
  qed
  have 3: "u \<le> noff page ?ms i \<and> noff page ?ms i + alen page i \<le> ?s" if ui: "used page i" for i
  proof -
    obtain e where e: "(i, e) \<in> set ?ms" "noff page ?ms i = e" using mem [OF ui] by blast
    then have "?s - alen_sum page ?ys \<le> e" "e + alen page i \<le> ?s" using d by blast+
    then show ?thesis using e(2) sum by (simp add: u_def)
  qed
  have 4: "noff page ?ms i + alen page i \<le> noff page ?ms j \<or> noff page ?ms j + alen page j \<le> noff page ?ms i"
    if ij: "used page i" "used page j" "i \<noteq> j" for i j
  proof -
    obtain a b where ab: "(i, a) \<in> set ?ms" "noff page ?ms i = a" "(j, b) \<in> set ?ms" "noff page ?ms j = b"
      using mem [OF ij(1)] mem [OF ij(2)] by blast
    from sorted_wrt_linear [OF d [THEN conjunct2, THEN conjunct2, THEN conjunct2] ab(1,3)] ij(3) ab(2,4)
    show ?thesis by auto
  qed
  have "unat (pd_upper page) + alen_sum page ?ys \<le> ?s"
    using xs page_okD(3,5) [OF ok] by (intro alen_sum_bound [OF o(3) ys]) auto
  then have 5: "unat (pd_lower page) \<le> u" "u \<le> ?s"
    using page_okD(2) [OF ok] sum unfolding u_def by auto
  note place = place [OF ok 1 2 3 4 5]
  show "page_ok (compactify_tuples page)" "page_items (compactify_tuples page) = page_items page"
    unfolding c using place(1,2) by blast+
  obtain b l where "fold put ?ms page = page\<lparr>bytes := b, linp := l\<rparr>" using place(3) by blast
  then show "\<exists>b l. compactify_tuples page = page\<lparr>bytes := b, linp := l, pd_upper := of_nat u\<rparr>"
    unfolding c by (intro exI) simp
qed


subsection \<open>Line pointers\<close>

lemma page_ok_nlines: "page_ok page \<Longrightarrow> nlines page < 2 ^ 13"
  using page_okD(1-4) [of page] by simp

lemma used_upd [simp]:
  "used (page\<lparr>pd_flags := f\<rparr>) = used page" "used (page\<lparr>pd_upper := u\<rparr>) = used page"
  "used (page\<lparr>bytes := b\<rparr>) = used page"
  by (simp_all add: used_def fun_eq_iff)

lemma ioff_upd [simp]:
  "ioff (page\<lparr>pd_flags := f\<rparr>) = ioff page" "ilen (page\<lparr>pd_flags := f\<rparr>) = ilen page"
  "ioff (page\<lparr>pd_upper := u\<rparr>) = ioff page" "ilen (page\<lparr>pd_upper := u\<rparr>) = ilen page"
  "ioff (set_lines n page) = ioff page" "ilen (set_lines n page) = ilen page"
  by (simp_all add: ioff_def ilen_def set_lines_def fun_eq_iff)

lemma flags_ok [simp]: "page_ok (page\<lparr>pd_flags := f\<rparr>) = page_ok page" "page_items (page\<lparr>pd_flags := f\<rparr>) = page_items page"
  by (simp_all add: page_ok_def page_items_def PageGetItem_def fun_eq_iff)

lemma used_mark: "used (mark_unused i page) j \<longleftrightarrow> used page j \<and> j \<noteq> i"
  by (auto simp: used_def mark_unused_def unused_item_def page_consts)

lemma mark_simps [simp]:
  "nlines (mark_unused i page) = nlines page" "pd_lower (mark_unused i page) = pd_lower page"
  "pd_upper (mark_unused i page) = pd_upper page" "pd_special (mark_unused i page) = pd_special page"
  "bytes (mark_unused i page) = bytes page" "j \<noteq> i \<Longrightarrow> linp (mark_unused i page) j = linp page j"
  "linp (mark_unused i page) i = unused_item"
  by (simp_all add: mark_unused_def)

lemma mark_item [simp]: "j \<noteq> i \<Longrightarrow> ioff (mark_unused i page) j = ioff page j" "j \<noteq> i \<Longrightarrow> ilen (mark_unused i page) j = ilen page j"
  by (simp_all add: ioff_def ilen_def)

lemma mark_unused_ok:
  assumes "page_ok page"
  shows "page_ok (mark_unused i page)" "page_items (mark_unused i page) = (page_items page)(i := None)"
  using page_okD [OF assms]
  by (auto simp: page_ok_def used_mark word_le_nat_alt page_items_def PageGetItem_def fun_eq_iff)

lemma trim_lines_props:
  "trim_lines page n \<le> n \<and> (\<forall>j. trim_lines page n < j \<and> j \<le> n \<longrightarrow> li_flags (linp page j) = kLPUnused)"
  by (induction n) (auto simp: le_Suc_eq)

lemma set_lines_ok:
  assumes ok: "page_ok page" and n: "n \<le> nlines page" "\<forall>j. n < j \<and> j \<le> nlines page \<longrightarrow> li_flags (linp page j) \<noteq> kLPNormal"
  shows "page_ok (set_lines n page)" "page_items (set_lines n page) = page_items page"
proof -
  have lt: "n < 2 ^ 13" using page_ok_nlines [OF ok] n(1) by simp
  have "used (set_lines n page) = used page"
    using n nlines_set_lines [OF lt, of page] by (auto simp: used_def fun_eq_iff) (auto simp: set_lines_def not_le)
  then show "page_ok (set_lines n page)" "page_items (set_lines n page) = page_items page"
    using page_okD [OF ok] n(1) lower_set_lines [OF lt, of page] nlines_set_lines [OF lt, of page]
    by (auto simp: page_ok_def word_le_nat_alt page_items_def PageGetItem_def fun_eq_iff) (simp_all add: set_lines_def)
qed

lemma trim_ok:
  assumes "page_ok page"
  shows "page_ok (set_lines (trim_lines page (nlines page)) page)"
    "page_items (set_lines (trim_lines page (nlines page)) page) = page_items page"
  using trim_lines_props [of page "nlines page"]
  by (intro set_lines_ok [OF assms]; auto simp: page_consts)+


subsection \<open>Adding an item\<close>

lemma aligned_size:
  assumes "sz + 3 < 2 ^ 31"
  shows "sint (((of_nat sz :: u32) + of_int (kItemAlign - 1)) AND NOT (of_int (kItemAlign - 1))) = int (align4 sz)"
proof -
  let ?w = "of_nat (sz + 3) :: u32"
  have "?w AND NOT (mask 2) = push_bit 2 (drop_bit 2 ?w)"
    by (rule bit_eqI) (auto simp: bit_simps not_less dest!: le_Suc_ex)
  also have "\<dots> = of_nat (unat (drop_bit 2 ?w)) * 4" by (simp add: push_bit_eq_mult)
  also have "unat (drop_bit 2 ?w) = (sz + 3) div 4"
    using assms by (simp add: unsigned_drop_bit_eq unsigned_of_nat take_bit_nat_eq_self drop_bit_eq_div unat_div_distrib del: of_nat_add)
  finally have 1: "?w AND NOT (mask 2) = of_nat (align4 sz)" by (simp add: align4_def)
  have a: "align4 sz < 2 ^ 31" using assms by (simp add: align4_def)
  have "sint (of_nat (align4 sz) :: u32) = int (align4 sz)"
    using a by (simp add: signed_of_nat signed_take_bit_int_eq_self)
  then show ?thesis using 1 by (simp add: kItemAlign_def mask_eq_exp_minus_1)
qed

lemma free_space_simp: "PageGetHeapFreeSpace page = max 0 ((int (unat (pd_upper page)) - int (unat (pd_lower page)) - 4) div 4 * 4)"
  by (simp add: PageGetHeapFreeSpace_def kItemAlign_def and_not_3 Let_def max_def)

lemma fits_iff:
  assumes "0 < sz"
  shows "int sz \<le> PageGetHeapFreeSpace page \<longleftrightarrow> unat (pd_lower page) + 4 + align4 sz \<le> unat (pd_upper page)"
proof -
  let ?a = "int (unat (pd_upper page)) - int (unat (pd_lower page)) - 4"
  have "int sz \<le> PageGetHeapFreeSpace page \<longleftrightarrow> int sz \<le> ?a div 4 * 4"
    using assms unfolding free_space_simp by (simp add: le_max_iff_disj)
  also have "\<dots> \<longleftrightarrow> int (align4 sz) \<le> ?a"
  proof -
    have "int (align4 sz) = (int sz + 3) div 4 * 4" by (simp add: align4_def zdiv_int)
    moreover have "(x::int) \<le> y div 4 * 4 \<longleftrightarrow> (x + 3) div 4 * 4 \<le> y" for x y by presburger
    ultimately show ?thesis by simp
  qed
  also have "\<dots> \<longleftrightarrow> unat (pd_lower page) + 4 + align4 sz \<le> unat (pd_upper page)" by linarith
  finally show ?thesis .
qed

text \<open>Where a new item lies.\<close>

definition added :: "PageData \<Rightarrow> nat \<Rightarrow> PageData \<Rightarrow> bool" where
  "added page sz page' \<longleftrightarrow> ioff page' (Suc (nlines page)) = unat (pd_upper page) - align4 sz \<and>
    ilen page' (Suc (nlines page)) = sz \<and>
    (\<forall>i. i \<noteq> Suc (nlines page) \<longrightarrow> ioff page' i = ioff page i \<and> ilen page' i = ilen page i) \<and>
    unat (pd_lower page') = unat (pd_lower page) + 4 \<and> unat (pd_upper page') = unat (pd_upper page) - align4 sz \<and>
    pd_special page' = pd_special page"

lemma add_item:
  assumes ok: "page_ok page" and sz: "length src = sz" "0 < sz" "sz + 3 < 2 ^ 31"
  shows "\<not> int sz \<le> PageGetHeapFreeSpace page \<Longrightarrow> PageAddItem page (Some src) sz kInvalidOffsetNumber = (kInvalidOffsetNumber, page)"
    and "int sz \<le> PageGetHeapFreeSpace page \<Longrightarrow> \<exists>page'. PageAddItem page (Some src) sz kInvalidOffsetNumber = (of_nat (Suc (nlines page)), page') \<and>
      page_ok page' \<and> page_items page' = (page_items page)(Suc (nlines page) \<mapsto> src) \<and> nlines page' = Suc (nlines page) \<and> added page sz page'"
proof -
  have n: "nlines page < 2 ^ 13" by (rule page_ok_nlines [OF ok])
  have lo: "uint (PageGetMaxOffsetNumber page + 1) = int (Suc (nlines page))" "unat (PageGetMaxOffsetNumber page + 1) = Suc (nlines page)"
    "PageGetMaxOffsetNumber page + 1 = of_nat (Suc (nlines page))"
  proof -
    show 1: "PageGetMaxOffsetNumber page + 1 = of_nat (Suc (nlines page))" by (simp add: nlines_def)
    then show 2: "unat (PageGetMaxOffsetNumber page + 1) = Suc (nlines page)"
      using n by (simp add: unsigned_of_nat take_bit_nat_eq_self del: of_nat_Suc)
    show "uint (PageGetMaxOffsetNumber page + 1) = int (Suc (nlines page))" by (simp only: uint_nat 2)
  qed
  have nl: "kPageHeaderSize + int (Suc (nlines page)) * kItemAlign = int (unat (pd_lower page) + 4)"
    using page_okD(1) [OF ok] by (simp add: page_consts)
  have fit: "int sz \<le> PageGetHeapFreeSpace page \<longleftrightarrow> \<not> (uint (pd_lower page) + int (align4 sz) > uint (pd_upper page) \<or>
      int (unat (pd_lower page) + 4) > uint (pd_upper page) - int (align4 sz))"
  proof -
    have "uint (pd_lower page) = int (unat (pd_lower page))" "uint (pd_upper page) = int (unat (pd_upper page))" by simp_all
    then show ?thesis unfolding fits_iff [OF sz(2)] by linarith
  qed
  have add: "PageAddItem page (Some src) sz kInvalidOffsetNumber =
      (if \<not> int sz \<le> PageGetHeapFreeSpace page then (kInvalidOffsetNumber, page)
       else (of_nat (Suc (nlines page)), page\<lparr>
          bytes := memcpy_at (nat (uint (pd_upper page) - int (align4 sz))) src sz (bytes page),
          linp := (linp page)(Suc (nlines page) := \<lparr>li_off = of_int (uint (pd_upper page) - int (align4 sz)),
            li_flags = kLPNormal, li_len = of_nat sz\<rparr>),
          pd_lower := of_int (int (unat (pd_lower page) + 4)), pd_upper := of_int (uint (pd_upper page) - int (align4 sz))\<rparr>))"
    unfolding PageAddItem_def Let_def simp_thms if_True aligned_size [OF sz(3)] lo(1,2) nl fit not_not option.case
    unfolding lo(3) ..
  show "PageAddItem page (Some src) sz kInvalidOffsetNumber = (kInvalidOffsetNumber, page)" if "\<not> int sz \<le> PageGetHeapFreeSpace page"
    using that unfolding add by simp
  assume le: "int sz \<le> PageGetHeapFreeSpace page"
  let ?o = "unat (pd_upper page) - align4 sz"
  let ?l = "(linp page)(Suc (nlines page) := \<lparr>li_off = of_nat ?o, li_flags = kLPNormal, li_len = of_nat sz\<rparr>)"
  let ?p = "page\<lparr>bytes := memcpy_at ?o src sz (bytes page), linp := ?l, pd_lower := of_nat (unat (pd_lower page) + 4), pd_upper := of_nat ?o\<rparr>"
  have f: "unat (pd_lower page) + 4 + align4 sz \<le> unat (pd_upper page)" using le fits_iff [OF sz(2)] by simp
  have o: "uint (pd_upper page) - int (align4 sz) = int ?o" using f by (simp add: of_nat_diff)
  have "PageAddItem page (Some src) sz kInvalidOffsetNumber = (of_nat (Suc (nlines page)), ?p)"
    using le unfolding add o by (simp only: not_not if_False simp_thms nat_int of_int_of_nat_eq)
  moreover have "page_ok ?p \<and> page_items ?p = (page_items page)(Suc (nlines page) \<mapsto> src) \<and> nlines ?p = Suc (nlines page) \<and> added page sz ?p"
  proof -
    have b: "unat (pd_upper page) \<le> 8192" using page_okD(3,4) [OF ok] by simp
    have lw: "unat (pd_lower ?p) = unat (pd_lower page) + 4"
      using f b by (simp add: unsigned_of_nat take_bit_nat_eq_self del: of_nat_add)
    have up: "unat (pd_upper ?p) = ?o" using b by (simp add: unsigned_of_nat take_bit_nat_eq_self)
    have nn: "nlines ?p = Suc (nlines page)"
      using lw page_okD(1) [OF ok] by (subst nlines_lower) simp_all
    have new: "ioff ?p (Suc (nlines page)) = ?o" "ilen ?p (Suc (nlines page)) = sz"
      using b f align4_ge(1) [of sz] by (simp_all add: ioff_def ilen_def unsigned_of_nat take_bit_nat_eq_self del: of_nat_diff)
    have old: "ioff ?p i = ioff page i" "ilen ?p i = ilen page i" if "i \<noteq> Suc (nlines page)" for i
      using that by (simp_all add: ioff_def ilen_def)
    have us: "used ?p i \<longleftrightarrow> i = Suc (nlines page) \<or> used page i" for i
      unfolding used_def nn by (auto simp: le_Suc_eq)
    have un: "used page i \<Longrightarrow> i \<noteq> Suc (nlines page)" for i by (auto simp: used_def)
    have r1: "0 < ilen ?p i \<and> ?o \<le> ioff ?p i \<and> ioff ?p i + alen ?p i \<le> unat (pd_special page)" if "used ?p i" for i
      using that [unfolded us] new old [of i] un [of i] page_okD(3) [OF ok] page_okD(5) [OF ok, of i] f sz(2) by auto
    have r2: "ioff ?p i + alen ?p i \<le> ioff ?p j \<or> ioff ?p j + alen ?p j \<le> ioff ?p i"
      if "used ?p i" "used ?p j" "i \<noteq> j" for i j
    proof -
      have b: "?o + align4 sz \<le> ioff ?p k" if "used ?p k" "k \<noteq> Suc (nlines page)" for k
        using that [unfolded us] old [of k] page_okD(5) [OF ok, of k] f by auto
      consider "i = Suc (nlines page)" | "j = Suc (nlines page)" | "i \<noteq> Suc (nlines page)" "j \<noteq> Suc (nlines page)" by blast
      then show ?thesis
      proof cases
        case 1
        then show ?thesis using b [OF that(2)] that(3) new by simp
      next
        case 2
        then show ?thesis using b [OF that(1)] that(3) new by simp
      next
        case 3
        then show ?thesis using that [unfolded us] old [of i] old [of j] page_okD(6) [OF ok, of i j] by simp
      qed
    qed
    have "unat (pd_lower page) + 4 = 24 + 4 * Suc (nlines page)" "unat (pd_lower page) + 4 \<le> ?o" "?o \<le> unat (pd_special page)"
      "unat (pd_special page) \<le> 8192" using page_okD(1,3,4) [OF ok] f by auto
    then have "page_ok ?p" unfolding page_ok_def word_le_nat_alt lw up nn using r1 r2 by simp
    moreover have "page_items ?p i = ((page_items page)(Suc (nlines page) \<mapsto> src)) i" for i
    proof (cases "i = Suc (nlines page)")
      case True
      then show ?thesis using new us [of i] sz(1)
        by (auto simp: page_items_def PageGetItem_def ioff_def ilen_def memcpy_at_def intro!: nth_equalityI)
    next
      case False
      then show ?thesis using page_okD(5) [OF ok, of i] f align4_ge(1) [of sz]
        unfolding page_items_def us by (auto simp: PageGetItem_def memcpy_at_def ioff_def)
    qed
    moreover have "added page sz ?p" unfolding added_def using new old lw up by simp
    ultimately show ?thesis using nn by blast
  qed
  ultimately show "\<exists>page'. PageAddItem page (Some src) sz kInvalidOffsetNumber = (of_nat (Suc (nlines page)), page') \<and>
      page_ok page' \<and> page_items page' = (page_items page)(Suc (nlines page) \<mapsto> src) \<and> nlines page' = Suc (nlines page) \<and> added page sz page'"
    by blast
qed


subsection \<open>Deleting items\<close>

lemma MaxOffset_nlines: "unat (PageGetMaxOffsetNumber page) = nlines page"
  by (simp add: nlines_def)

lemma nlines_fold_mark:
  "nlines (fold mark_unused xs page) = nlines page"
  by (induction xs arbitrary: page) auto

lemma delete_no_compact:
  assumes "page_ok page" "1 \<le> off" "off \<le> PageGetMaxOffsetNumber page"
  shows "page_ok (PageIndexTupleDeleteNoCompact page off)"
    "page_items (PageIndexTupleDeleteNoCompact page off) = (page_items page)(unat off := None)"
proof -
  note m = mark_unused_ok [OF assms(1), of "unat off"]
  note t = trim_ok [OF m(1)]
  have n: "\<not> (off < 1 \<or> off > PageGetMaxOffsetNumber page)" using assms(2,3) by auto
  show "page_ok (PageIndexTupleDeleteNoCompact page off)"
    "page_items (PageIndexTupleDeleteNoCompact page off) = (page_items page)(unat off := None)"
    unfolding PageIndexTupleDeleteNoCompact_def Let_def if_not_P [OF n] MaxOffset_nlines
    using m t by auto
qed

lemma fold_move_up_header [simp]:
  "pd_upper (fold (move_up d) xs page) = pd_upper page" "pd_lower (fold (move_up d) xs page) = pd_lower page"
  by (induction xs arbitrary: page) (simp_all add: move_up_def Let_def)

lemma ExactFree_nat:
  "PageGetExactFreeSpace page = int (unat (pd_upper page)) - int (unat (pd_lower page))"
  "PageGetExactFreeSpace (page\<lparr>pd_upper := u\<rparr>) = int (unat u) - int (unat (pd_lower page))"
  by (simp_all add: PageGetExactFreeSpace_def)

lemma tuple_delete:
  assumes ok: "page_ok page" and us: "used page i" and i: "i = unat off"
  obtains page' n where "PageIndexTupleDelete page off = Inr page'" "page_ok page'" "page_items page' = (page_items page)(i := None)"
    "n \<le> nlines page" "PageGetExactFreeSpace page' = PageGetExactFreeSpace page + int (alen page i) + 4 * int n"
proof -
  define m where "m = mark_unused i page"
  define P where "P = (if off = PageGetMaxOffsetNumber page then set_lines (trim_lines m (nlines page)) m else m)"
  have r: "\<not> (off < 1 \<or> off > PageGetMaxOffsetNumber page)"
    using us i by (auto simp: used_def nlines_def word_less_nat_alt word_le_nat_alt)
  have fl: "PageGetItemId page off = linp page i" "li_flags (linp page i) = kLPNormal"
    using us i by (simp_all add: used_def PageGetItemId_def)
  have m: "page_ok m" "page_items m = (page_items page)(i := None)" "nlines m = nlines page"
    using mark_unused_ok [OF ok, of i] by (simp_all add: m_def)
  have p: "page_ok P" "page_items P = (page_items page)(i := None)" using m trim_ok [OF m(1)] by (auto simp: P_def)
  have same: "pd_upper P = pd_upper page" "pd_special P = pd_special page" "linp P = linp m"
    by (auto simp: P_def m_def set_lines_def)
  have at: "ioff P j = ioff page j" "ilen P j = ilen page j" if "j \<noteq> i" for j
    using that same(3) by (auto simp: ioff_def ilen_def m_def)
  have up: "used page j \<and> j \<noteq> i" if "used P j" for j
    using fun_cong [OF p(2), of j] that by (auto simp: page_items_def split: if_splits)
  let ?g = "ioff page i" and ?d = "alen page i"
  have pos: "0 < ?d" using page_okD(5) [OF ok us] align4_ge(2) by blast
  have free: "ioff P j + alen P j \<le> ?g \<or> ?g + ?d \<le> ioff P j" if "used P j" for j
    using up [OF that] page_okD(6) [OF ok _ us] at by auto
  have g: "unat (pd_upper P) \<le> ?g" "?g + ?d \<le> unat (pd_special P)"
    unfolding same using page_okD(5) [OF ok us] by auto
  note c = close_gap [OF p(1) free g]
  have conv: "(\<lambda>j. li_off (linp P j) < li_off (linp page i)) = (\<lambda>j. ioff P j < ?g)"
    by (simp add: ioff_def word_less_nat_alt)
  have "PageIndexTupleDelete page off = Inr ((fold (move_up (int ?d)) (sort_desc (\<lambda>i. li_off (linp P i))
      (filter (\<lambda>j. ioff P j < ?g) (normals P (nlines P)))) P)\<lparr>pd_upper := of_nat (unat (pd_upper P) + ?d)\<rparr>)"
    unfolding PageIndexTupleDelete_def Let_def if_not_P [OF r] fl MaxAlignUp_len MaxOffset_nlines i [symmetric]
      m_def [symmetric] P_def [symmetric] conv
    using pos by simp
  moreover have "\<exists>n. n \<le> nlines page \<and> unat (pd_lower P) + 4 * n = unat (pd_lower page)"
  proof -
    have "nlines P \<le> nlines page"
      using trim_lines_props [of m "nlines page"] page_ok_nlines [OF ok] m(3)
      by (auto simp: P_def nlines_set_lines)
    then show ?thesis using page_okD(1) [OF p(1)] page_okD(1) [OF ok] by (intro exI [of _ "nlines page - nlines P"]) simp
  qed
  then obtain n where n: "n \<le> nlines page" "unat (pd_lower P) + 4 * n = unat (pd_lower page)" by blast
  have "unat (of_nat (unat (pd_upper P) + ?d) :: u16) = unat (pd_upper page) + ?d"
    using g page_okD(4) [OF ok] unfolding same by (simp add: unsigned_of_nat take_bit_nat_eq_self del: of_nat_add)
  then have "PageGetExactFreeSpace ((fold (move_up (int ?d)) (sort_desc (\<lambda>i. li_off (linp P i))
      (filter (\<lambda>j. ioff P j < ?g) (normals P (nlines P)))) P)\<lparr>pd_upper := of_nat (unat (pd_upper P) + ?d)\<rparr>) =
      PageGetExactFreeSpace page + int (alen page i) + 4 * int n"
    using n(2) unfolding ExactFree_nat(2) fold_move_up_header ExactFree_nat(1) [of page] by linarith
  ultimately show ?thesis using that c(1,2) p(2) n(1) by simp
qed


lemma fold_mark_ok:
  assumes "page_ok page" "nlines page = unat nl"
  shows "page_ok (fold (\<lambda>off page. if off < 1 \<or> off > nl then page else mark_unused (unat off) page) ids page) \<and>
    page_items (fold (\<lambda>off page. if off < 1 \<or> off > nl then page else mark_unused (unat off) page) ids page) =
      page_items page |` (- unat ` set ids) \<and>
    nlines (fold (\<lambda>off page. if off < 1 \<or> off > nl then page else mark_unused (unat off) page) ids page) = unat nl"
  using assms
proof (induction ids arbitrary: page)
  case (Cons off ids)
  let ?p = "if off < 1 \<or> off > nl then page else mark_unused (unat off) page"
  have 1: "page_ok ?p" "nlines ?p = unat nl" using Cons.prems mark_unused_ok(1) by auto
  have "page_items page (unat off) = None" if "off < 1 \<or> off > nl"
    using that Cons.prems(2) by (auto simp: page_items_def used_def word_less_nat_alt)
  then have 2: "page_items ?p = (page_items page)(unat off := None)" using mark_unused_ok(2) [OF Cons.prems(1)] by auto
  have "page_items ?p |` (- unat ` set ids) = page_items page |` (- unat ` set (off # ids))"
    unfolding 2 by (auto simp: restrict_map_def fun_eq_iff)
  then show ?case using Cons.IH [OF 1] by simp
qed (simp add: restrict_map_def)

lemma multi_delete:
  assumes "page_ok page"
  shows "page_ok (PageIndexMultiDelete page ids)" "page_items (PageIndexMultiDelete page ids) = page_items page |` (- unat ` set ids)"
proof -
  define p1 where "p1 = fold (\<lambda>off page'. if off < 1 \<or> off > PageGetMaxOffsetNumber page then page' else mark_unused (unat off) page') ids page"
  have 1: "page_ok p1" "page_items p1 = page_items page |` (- unat ` set ids)" "nlines p1 = nlines page"
    using fold_mark_ok [OF assms, of "PageGetMaxOffsetNumber page" ids] by (simp_all add: p1_def nlines_def)
  note 2 = trim_ok [OF 1(1)]
  note 3 = compactify(1,2) [OF 2(1)]
  show "page_ok (PageIndexMultiDelete page ids)" "page_items (PageIndexMultiDelete page ids) = page_items page |` (- unat ` set ids)"
    unfolding PageIndexMultiDelete_def Let_def p1_def [symmetric] MaxOffset_nlines
    using 1 2 3 by simp_all
qed

lemma normals_Suc: "normals page (Suc m) = normals page m @ (if li_flags (linp page (Suc m)) = kLPNormal then [Suc m] else [])"
  by (simp add: normals_def)

lemma length_normals: "length (normals page m) \<le> m"
  by (induction m) (simp_all add: normals_Suc, simp add: normals_def)

lemma pack_loop:
  "\<exists>l. fold pack_step [1..<Suc m] (0, page) = (length (normals page m), page\<lparr>linp := l\<rparr>) \<and>
    (\<forall>k. 1 \<le> k \<and> k \<le> length (normals page m) \<longrightarrow> l k = linp page (normals page m ! (k - 1))) \<and>
    (\<forall>k. length (normals page m) < k \<and> k \<le> m \<longrightarrow> l k = unused_item) \<and> (\<forall>k. m < k \<longrightarrow> l k = linp page k)"
proof (induction m)
  case 0
  show ?case by (rule exI [of _ "linp page"]) (simp add: normals_def)
next
  case (Suc m)
  let ?n = "length (normals page m)"
  obtain l where l: "fold pack_step [1..<Suc m] (0, page) = (?n, page\<lparr>linp := l\<rparr>)"
    "\<forall>k. 1 \<le> k \<and> k \<le> ?n \<longrightarrow> l k = linp page (normals page m ! (k - 1))"
    "\<forall>k. ?n < k \<and> k \<le> m \<longrightarrow> l k = unused_item" "\<forall>k. m < k \<longrightarrow> l k = linp page k"
    using Suc.IH by blast
  have le: "?n \<le> m" by (rule length_normals)
  have f: "fold pack_step [1..<Suc (Suc m)] (0, page) = pack_step (Suc m) (?n, page\<lparr>linp := l\<rparr>)"
    using l(1) by simp
  have lp: "l (Suc m) = linp page (Suc m)" using l(4) by simp
  show ?case
  proof (cases "li_flags (linp page (Suc m)) = kLPNormal")
    case True
    let ?l = "if Suc ?n \<noteq> Suc m then l(Suc ?n := linp page (Suc m), Suc m := unused_item) else l"
    have "fold pack_step [1..<Suc (Suc m)] (0, page) = (Suc ?n, page\<lparr>linp := ?l\<rparr>)"
      using f True lp by (simp add: pack_step_def Let_def mark_unused_def)
    moreover have "?l k = linp page (normals page (Suc m) ! (k - 1))" if "1 \<le> k" "k \<le> Suc ?n" for k
      using that True l(2) lp le by (cases "k = Suc ?n") (auto simp: normals_Suc nth_append)
    moreover have "?l k = unused_item" if "Suc ?n < k" "k \<le> Suc m" for k
      using that l(3) le by (auto simp: le_Suc_eq)
    moreover have "?l k = linp page k" if "Suc m < k" for k using that l(4) le by auto
    ultimately show ?thesis using True by (intro exI [of _ ?l]) (simp add: normals_Suc)
  next
    case False
    let ?l = "l(Suc m := unused_item)"
    have "fold pack_step [1..<Suc (Suc m)] (0, page) = (?n, page\<lparr>linp := ?l\<rparr>)"
      using f False lp by (simp add: pack_step_def Let_def mark_unused_def)
    moreover have "?l k = unused_item" if "?n < k" "k \<le> Suc m" for k
      using that l(3) by (auto simp: le_Suc_eq)
    ultimately show ?thesis using False l(2,4) le by (intro exI [of _ ?l]) (simp add: normals_Suc fun_upd_def)
  qed
qed


lemma normals_cong: "(\<And>i. li_flags (linp p i) = li_flags (linp q i)) \<Longrightarrow> normals p n = normals q n"
  by (simp add: normals_def)

lemma fold_mark_all:
  "\<exists>l. fold mark_unused xs page = page\<lparr>linp := l\<rparr>"
proof (induction xs arbitrary: page)
  case Nil
  show ?case by (intro exI [of _ "linp page"]) simp
next
  case (Cons x xs)
  obtain l where "fold mark_unused xs (mark_unused x page) = (mark_unused x page)\<lparr>linp := l\<rparr>" using Cons.IH by blast
  then show ?case by (intro exI [of _ l]) (simp add: mark_unused_def [of x])
qed

lemma repair_packed:
  assumes ok: "page_ok page"
  defines "ns \<equiv> normals page (nlines page)"
  assumes l: "\<forall>k. 1 \<le> k \<and> k \<le> length ns \<longrightarrow> l k = linp page (ns ! (k - 1))"
  defines "page' \<equiv> set_lines (length ns) (page\<lparr>linp := l\<rparr>)"
  shows "page_ok page'" "nlines page' = length ns"
    "page_items page' = (\<lambda>k. if 1 \<le> k \<and> k \<le> length ns then page_items page (ns ! (k - 1)) else None)"
    "unat (pd_lower page') = 24 + 4 * length ns" "pd_upper page' = pd_upper page"
proof -
  have len: "length ns \<le> nlines page" unfolding ns_def by (rule length_normals)
  have lt: "length ns < 2 ^ 13" using len page_ok_nlines [OF ok] by simp
  show n: "nlines page' = length ns" and low: "unat (pd_lower page') = 24 + 4 * length ns" and up: "pd_upper page' = pd_upper page"
    using lt by (simp_all add: page'_def nlines_set_lines lower_set_lines, simp add: set_lines_def)
  have sp: "pd_special page' = pd_special page" by (simp add: page'_def set_lines_def)
  have at: "linp page' k = linp page (ns ! (k - 1)) \<and> used page (ns ! (k - 1))" if "1 \<le> k" "k \<le> length ns" for k
  proof -
    have "ns ! (k - 1) \<in> set ns" using that by (intro nth_mem) simp
    then show ?thesis using l that by (auto simp: ns_def set_normals page'_def set_lines_def)
  qed
  have us: "used page' k \<longleftrightarrow> 1 \<le> k \<and> k \<le> length ns" for k
    using at [of k] n by (auto simp: used_def)
  have inj: "ns ! (k - 1) \<noteq> ns ! (j - 1)" if "1 \<le> k" "k \<le> length ns" "1 \<le> j" "j \<le> length ns" "k \<noteq> j" for k j
  proof -
    have "distinct ns" by (simp add: ns_def)
    then show ?thesis using that by (simp add: nth_eq_iff_index_eq)
  qed
  have sz: "ioff page' k = ioff page (ns ! (k - 1))" "ilen page' k = ilen page (ns ! (k - 1))" if "1 \<le> k" "k \<le> length ns" for k
    using at [OF that] by (simp_all add: ioff_def ilen_def)
  have "unat (pd_lower page') \<le> unat (pd_upper page')" using low up len page_okD(1,2) [OF ok] by simp
  then show "page_ok page'"
    unfolding page_ok_def word_le_nat_alt us n sp up
    using page_okD(3,4) [OF ok] low page_okD(5,6) [OF ok] at sz inj by simp
  show "page_items page' = (\<lambda>k. if 1 \<le> k \<and> k \<le> length ns then page_items page (ns ! (k - 1)) else None)"
    using at us by (auto simp: page_items_def fun_eq_iff PageGetItem_def page'_def set_lines_def)
qed

lemma repair:
  assumes ok: "page_ok page"
  defines "ns \<equiv> normals page (nlines page)"
  shows "page_ok (PageRepairFragmentation page) \<and> nlines (PageRepairFragmentation page) = length ns \<and>
    page_items (PageRepairFragmentation page) = (\<lambda>k. if 1 \<le> k \<and> k \<le> length ns then page_items page (ns ! (k - 1)) else None) \<and>
    PageGetExactFreeSpace (PageRepairFragmentation page) =
       int (unat (pd_special page)) - 24 - int (alen_sum page ns) - 4 * int (length ns)"
proof (cases "ns = []")
  case True
  let ?p = "page\<lparr>pd_upper := pd_special page\<rparr>"
  obtain l where "fold mark_unused [1..<Suc (nlines page)] (set_lines 0 ?p) = (set_lines 0 ?p)\<lparr>linp := l\<rparr>"
    using fold_mark_all by blast
  then have e: "PageRepairFragmentation page = (set_lines 0 (?p\<lparr>linp := l\<rparr>))
      \<lparr>pd_flags := pd_flags (set_lines 0 (?p\<lparr>linp := l\<rparr>)) AND NOT kPageHasFreeLines\<rparr>"
    using True unfolding PageRepairFragmentation_def Let_def MaxOffset_nlines ns_def by (simp add: set_lines_def)
  have n: "nlines (set_lines 0 (?p\<lparr>linp := l\<rparr>)) = 0" "unat (pd_lower (set_lines 0 (?p\<lparr>linp := l\<rparr>))) = 24"
    by (simp_all add: nlines_set_lines lower_set_lines)
  have us: "\<not> used (set_lines 0 (?p\<lparr>linp := l\<rparr>)) k" for k using n(1) by (simp add: used_def)
  have sp: "pd_special (set_lines 0 (?p\<lparr>linp := l\<rparr>)) = pd_special page" "pd_upper (set_lines 0 (?p\<lparr>linp := l\<rparr>)) = pd_special page"
    by (simp_all add: set_lines_def)
  have "page_ok (set_lines 0 (?p\<lparr>linp := l\<rparr>))"
    unfolding page_ok_def word_le_nat_alt using n us sp page_okD(1-4) [OF ok] by simp
  moreover have "PageGetExactFreeSpace (set_lines 0 (?p\<lparr>linp := l\<rparr>)) = int (unat (pd_special page)) - 24"
    unfolding ExactFree_nat(1) n sp by simp
  ultimately show ?thesis unfolding e using n us True
    by (simp add: page_items_def fun_eq_iff) (simp add: PageGetExactFreeSpace_def)
next
  case False
  define c where "c = compactify_tuples page"
  note k = compactify [OF ok, folded c_def]
  obtain b l where c: "c = page\<lparr>bytes := b, linp := l, pd_upper := of_nat (unat (pd_special page) - alen_sum page ns)\<rparr>"
    using k(3) unfolding ns_def by blast
  have n: "nlines c = nlines page" by (simp add: c)
  have ns: "normals c (nlines c) = ns" unfolding n ns_def by (rule normals_cong) (rule k(4))
  obtain l' where l': "fold pack_step [1..<Suc (nlines page)] (0, c) = (length ns, c\<lparr>linp := l'\<rparr>)"
    "\<forall>k. 1 \<le> k \<and> k \<le> length ns \<longrightarrow> l' k = linp c (ns ! (k - 1))"
    using pack_loop [of "nlines page" c] ns n by metis
  define r where "r = set_lines (length ns) (c\<lparr>linp := l'\<rparr>)"
  have e: "PageRepairFragmentation page = r\<lparr>pd_flags := pd_flags r AND NOT kPageHasFreeLines\<rparr>"
    using False unfolding PageRepairFragmentation_def Let_def MaxOffset_nlines ns_def [symmetric] c_def [symmetric] l'(1)
    by (simp add: r_def)
  note p = repair_packed [OF k(1), unfolded ns, OF l'(2), folded r_def]
  have "unat (of_nat (unat (pd_special page) - alen_sum page ns) :: u16) = unat (pd_special page) - alen_sum page ns"
    using page_okD(4) [OF ok] by (simp add: unsigned_of_nat take_bit_nat_eq_self del: of_nat_diff)
  then have up: "unat (pd_upper r) = unat (pd_special page) - alen_sum page ns" using p(5) by (simp add: c)
  have "PageGetExactFreeSpace r = int (unat (pd_special page)) - 24 - int (alen_sum page ns) - 4 * int (length ns)"
    unfolding ExactFree_nat(1) up p(4) using k(5) by (simp add: ns_def of_nat_diff)
  then show ?thesis unfolding e using p(1,2) p(3) [unfolded k(2)] by (simp add: PageGetExactFreeSpace_def)
qed


subsection \<open>Overwriting an item\<close>

text \<open>The page after the copy, before items move.\<close>

definition overwritten :: "PageData \<Rightarrow> nat \<Rightarrow> u8 list \<Rightarrow> PageData" where
  "overwritten page i src = page\<lparr>bytes := memcpy_at (ioff page i) src (length src) (bytes page),
     linp := (linp page)(i := (linp page i)\<lparr>li_len := of_nat (length src)\<rparr>)\<rparr>"

lemma overwritten_ok:
  assumes ok: "page_ok page" and us: "used page i" and sz: "0 < length src" "length src \<le> ilen page i"
  shows "page_ok (overwritten page i src)" "page_items (overwritten page i src) = (page_items page)(i \<mapsto> src)"
    "used (overwritten page i src) = used page" "ioff (overwritten page i src) = ioff page"
    "ilen (overwritten page i src) = (ilen page)(i := length src)"
proof -
  let ?p = "overwritten page i src"
  have lt: "length src < 2 ^ 15" using sz(2) unsigned_less [of "li_len (linp page i)", where ?'a=nat] by (simp add: ilen_def)
  have n: "nlines ?p = nlines page" by (simp add: overwritten_def)
  show u: "used ?p = used page" by (auto simp: used_def fun_eq_iff overwritten_def)
  show o: "ioff ?p = ioff page" by (auto simp: ioff_def fun_eq_iff overwritten_def)
  show l: "ilen ?p = (ilen page)(i := length src)"
    using lt by (auto simp: ilen_def fun_eq_iff overwritten_def unsigned_of_nat take_bit_nat_eq_self)
  have a: "alen ?p j \<le> alen page j" for j using sz(2) by (simp add: l align4_def div_le_mono)
  have h: "pd_lower ?p = pd_lower page" "pd_upper ?p = pd_upper page" "pd_special ?p = pd_special page"
    by (simp_all add: overwritten_def)
  have 1: "0 < ilen ?p j \<and> unat (pd_upper page) \<le> ioff ?p j \<and> ioff ?p j + alen ?p j \<le> unat (pd_special page)" if "used page j" for j
    using page_okD(5) [OF ok that] a [of j] sz(1) o l by auto
  have 2: "ioff ?p j + alen ?p j \<le> ioff ?p k \<or> ioff ?p k + alen ?p k \<le> ioff ?p j" if "used page j" "used page k" "j \<noteq> k" for j k
    using page_okD(6) [OF ok that] a [of j] a [of k] o by auto
  show "page_ok ?p" unfolding page_ok_def n u h using 1 2 page_okD(1-4) [OF ok] by (simp add: word_le_nat_alt)
  have "page_items ?p j = ((page_items page)(i \<mapsto> src)) j" for j
  proof (cases "j = i")
    case True
    then show ?thesis using us lt unfolding page_items_def u
      by (auto simp: overwritten_def PageGetItem_def memcpy_at_def ioff_def unsigned_of_nat take_bit_nat_eq_self intro!: nth_equalityI)
  next
    case False
    have "PageGetItem ?p (linp page j) = PageGetItem page (linp page j)" if "used page j"
      using page_okD(6) [OF ok that us False] sz(2) align4_ge(1) [of "ilen page i"] align4_ge(1) [of "ilen page j"]
      by (auto simp: overwritten_def PageGetItem_def memcpy_at_def ioff_def ilen_def)
    then show ?thesis using False unfolding page_items_def u by (simp add: overwritten_def)
  qed
  then show "page_items ?p = (page_items page)(i \<mapsto> src)" by (simp add: fun_eq_iff)
qed

lemma overwrite_unfold:
  assumes us: "used page i" "i = unat off" and sz: "length src \<le> ilen page i"
  shows "PageIndexTupleOverwrite page off (Some src) (length src) =
    (let page1 = overwritten page i src; diff = alen page i - align4 (length src) in
     (True, if align4 (length src) < alen page i then
        (fold (move_up (int diff)) (sort_desc (\<lambda>j. li_off (linp page1 j))
           (filter (\<lambda>j. j \<noteq> i \<and> ioff page1 j < ioff page i) (normals page1 (nlines page)))) page1)
          \<lparr>pd_upper := of_nat (unat (pd_upper page) + diff)\<rparr>
       else page1))"
proof -
  have r: "\<not> (off < 1 \<or> off > PageGetMaxOffsetNumber page)"
    using us by (auto simp: used_def nlines_def word_less_nat_alt word_le_nat_alt)
  have fl: "PageGetItemId page off = linp page i" "\<not> li_flags (linp page i) \<noteq> kLPNormal"
    using us by (simp_all add: used_def PageGetItemId_def)
  have "length src < 2 ^ 15" using sz unsigned_less [of "li_len (linp page i)", where ?'a=nat] by (simp add: ilen_def)
  then have si: "sint (of_nat (length src) :: u32) = int (length src)"
    by (simp add: signed_of_nat signed_take_bit_int_eq_self)
  have "uint (li_len (linp page i)) = int (ilen page i)" by (simp add: ilen_def)
  then have le: "\<not> int (length src) > uint (li_len (linp page i))" using sz by linarith
  have p1: "page\<lparr>bytes := memcpy_at (unat (li_off (linp page i))) src (length src) (bytes page),
      linp := (linp page)(i := (linp page i)\<lparr>li_len := of_nat (length src)\<rparr>)\<rparr> = overwritten page i src"
    by (simp add: overwritten_def ioff_def)
  have conv: "(\<lambda>j. j \<noteq> i \<and> li_off (linp (overwritten page i src) j) < li_off (linp page i)) =
      (\<lambda>j. j \<noteq> i \<and> ioff (overwritten page i src) j < ioff page i)"
    by (simp add: ioff_def word_less_nat_alt)
  have up: "pd_upper (overwritten page i src) = pd_upper page" by (simp add: overwritten_def)
  have add: "(of_int (uint (x::u16) + int d) :: u16) = of_nat (unat x + d)" for x d by simp
  note unf = PageIndexTupleOverwrite_def Let_def if_not_P [OF r] fl(1) if_not_P [OF fl(2)] MaxAlignUp_len si if_not_P [OF le]
      MaxAlignUp_nat option.case us(2) [symmetric] p1 MaxOffset_nlines conv of_nat_less_iff
  show ?thesis
  proof (cases "align4 (length src) < alen page i")
    case True
    then have d: "int (alen page i) - int (align4 (length src)) = int (alen page i - align4 (length src))"
      by (simp add: of_nat_diff)
    show ?thesis unfolding unf if_P [OF True] d add fold_move_up_header up ..
  next
    case False
    show ?thesis unfolding unf if_not_P [OF False] ..
  qed
qed


lemma overwrite_shrink_move:
  assumes ok: "page_ok page" and us: "used page i" "used page j" "i = unat off" and sz: "0 < length src" "length src \<le> ilen page i"
    and shrink: "align4 (length src) < alen page i" and adj: "ioff page j + ilen page j = ioff page i"
    and k: "k < length src" "k < alen page i - align4 (length src)" "alen page i - align4 (length src) \<le> ilen page j"
  shows "\<exists>page' item. PageIndexTupleOverwrite page off (Some src) (length src) = (True, page') \<and>
    page_items page' i = Some item \<and>
    item ! k = the (page_items page j) ! (ilen page j - (alen page i - align4 (length src)) + k)"
proof -
  define p where "p = overwritten page i src"
  define d where "d = alen page i - align4 (length src)"
  note o = overwritten_ok [OF ok us(1) sz, folded p_def]
  have n: "nlines p = nlines page" by (simp add: p_def overwritten_def)
  let ?xs = "filter (\<lambda>j. j \<noteq> i \<and> ioff p j < ioff page i) (normals p (nlines page))"
  let ?ys = "sort_key (\<lambda>j. - int (ioff p j)) ?xs"
  let ?ms = "map (\<lambda>j. (j, ioff p j + d)) ?ys"
  have xs: "distinct ?xs" "\<forall>j \<in> set ?xs. used p j" using set_normals [of p] n by auto
  note s = desc_order [OF o(1) xs]
  have "sorted_wrt (\<lambda>i j. ioff p j + ilen p j \<le> ioff p i) ?ys"
    by (rule sorted_wrt_mono_rel [OF _ s(3)]) (use align4_ge(1) le_trans in \<open>auto intro: le_trans [OF add_left_mono]\<close>)
  then have "sorted_wrt (\<lambda>(i, d) (j, e). ioff p j + ilen p j \<le> ioff p i \<and> e + ilen p j \<le> d) ?ms"
    by (simp add: sorted_wrt_map add.assoc add.commute add.left_commute)
  then have rel: "relocated p ?ms (fold put ?ms p)" using xs(1) by (intro fold_put) (simp_all add: o_def)
  have pos: "0 < ilen page j" using page_okD(5) [OF ok us(2)] by simp
  have lt: "ioff p j < ioff page i" unfolding o(4) using adj pos by linarith
  then have ij: "j \<noteq> i" "ioff p j < ioff page i" unfolding o(4) by blast+
  have len: "ilen p j = ilen page j" using o(5) ij(1) by simp
  have jm: "(j, ioff p j + d) \<in> set ?ms" using ij us(2) set_normals [of p] n o(3) by (simp add: image_iff)
  let ?k = "ilen page j - d + k"
  have "bytes (fold put ?ms p) (ioff p j + d + ?k) = bytes p (ioff p j + ?k)"
  proof (rule relocated_bytes [OF rel jm])
    show "?k < ilen p j" using k(2,3) len unfolding d_def [symmetric] by simp
  qed
  moreover have "ioff p j + d + ?k = ioff page i + k" using adj k(3) o(4) unfolding d_def [symmetric] by simp
  moreover have "bytes p (ioff p j + ?k) = the (page_items page j) ! ?k"
  proof -
    have "the (page_items p j) ! ?k = bytes p (ioff p j + ?k)"
      using us(2) o(3) k(2,3) len unfolding d_def [symmetric] by (intro page_items_nth) simp_all
    then show ?thesis using o(2) ij(1) by simp
  qed
  ultimately have b: "bytes (fold put ?ms p) (ioff page i + k) = the (page_items page j) ! ?k" by simp
  have "map_of ?ms i = None" by (simp add: map_of_eq_None_iff image_iff)
  then have li: "linp (fold put ?ms p) i = linp p i" using rel by (simp add: relocated_def)
  let ?q = "(fold put ?ms p)\<lparr>pd_upper := of_nat (unat (pd_upper page) + d)\<rparr>"
  have e: "PageIndexTupleOverwrite page off (Some src) (length src) = (True, ?q)"
    using overwrite_unfold [OF us(1,3) sz(2)] shrink xs(1) fold_move_up [of ?ys d p]
    by (simp add: p_def [symmetric] d_def [symmetric] sort_desc_ioff Let_def)
  have nq: "nlines (fold put ?ms p) = nlines page" using n by (simp add: flags_fold_put)
  have uq: "used ?q i" using us(1) o(3) li nq n by (auto simp: used_def fun_eq_iff)
  have "unat (li_len (linp p i)) = length src" "unat (li_off (linp p i)) = ioff page i"
    using o(4,5) by (simp_all add: ilen_def ioff_def fun_eq_iff)
  then have "the (page_items ?q i) ! k = bytes (fold put ?ms p) (ioff page i + k)"
    using uq k(1) by (simp add: page_items_def PageGetItem_def li)
  with e uq b show ?thesis unfolding d_def [symmetric] by (simp add: page_items_def)
qed


subsection \<open>Properties\<close>

lemma init_ok:
  assumes "0 \<le> sp" "sp \<le> 8168"
  shows "page_ok (PageInit kBlckSz sp)" "page_items (PageInit kBlckSz sp) = Map.empty" "nlines (PageInit kBlckSz sp) = 0"
    "pd_lower (PageInit kBlckSz sp) = 24" "unat (pd_upper (PageInit kBlckSz sp)) = nat (8192 - sp)"
proof -
  let ?p = "PageInit kBlckSz sp"
  obtain n where n: "8192 - sp = int n" "24 \<le> n" "n \<le> 8192"
    using assms by (intro that [of "nat (8192 - sp)"]) auto
  show low: "pd_lower ?p = 24" by (simp add: PageInit_def page_consts)
  have h: "pd_upper ?p = of_nat n" "pd_special ?p = of_nat n" using n(1) by (simp_all add: PageInit_def kBlckSz_def)
  have u: "unat (of_nat n :: u16) = n" using n(3) by (simp add: unsigned_of_nat take_bit_nat_eq_self)
  show up: "unat (pd_upper ?p) = nat (8192 - sp)" using h u n(1) by simp
  show z: "nlines ?p = 0" using low by (subst nlines_lower) simp_all
  have "\<not> used ?p i" for i using z by (simp add: used_def)
  then show "page_ok ?p" "page_items ?p = Map.empty"
    using n low h u z by (auto simp: page_ok_def page_items_def word_le_nat_alt)
qed

text \<open>
  C8: A new page is empty, and the free space a page reports is exact: appending a non-empty item
  succeeds if and only if its length is at most \<open>PageGetHeapFreeSpace\<close> (which is also what
  \<open>PageGetFreeSpace\<close> answers). On success the item gets the next offset number, is read back
  byte for byte, and all other items stay; otherwise the page does not change.
\<close>

theorem page_add_item:
  assumes "page_ok page" "0 < length src" "length src < 2 ^ 30" "0 \<le> sp" "sp \<le> 8168"
  shows "page_ok (PageInit kBlckSz sp) \<and> page_items (PageInit kBlckSz sp) = Map.empty \<and>
    PageGetFreeSpace page = PageGetHeapFreeSpace page \<and>
    (case PageAddItem page (Some src) (length src) kInvalidOffsetNumber of (off, page') \<Rightarrow>
      if int (length src) \<le> PageGetHeapFreeSpace page
      then unat off = Suc (nlines page) \<and> nlines page' = Suc (nlines page) \<and> page_ok page' \<and>
        page_items page' = (page_items page)(Suc (nlines page) \<mapsto> src)
      else off = kInvalidOffsetNumber \<and> page' = page)"
proof -
  have "unat (of_nat (Suc (nlines page)) :: u16) = Suc (nlines page)"
    using page_ok_nlines [OF assms(1)] by (simp add: unsigned_of_nat take_bit_nat_eq_self del: of_nat_Suc)
  moreover have "PageGetFreeSpace page = PageGetHeapFreeSpace page"
    by (simp add: PageGetFreeSpace_def PageGetHeapFreeSpace_def MaxAlignDown_def)
  moreover have "length src + 3 < 2 ^ 31" using assms(3) by simp
  ultimately show ?thesis using add_item [OF assms(1) refl assms(2)] init_ok(1,2) [OF assms(4,5)]
    by (cases "int (length src) \<le> PageGetHeapFreeSpace page") auto
qed

lemma page_add_item_witness:
  "case PageAddItem (PageInit kBlckSz 0) (Some [1, 2, 3]) 3 kInvalidOffsetNumber of (off, page') \<Rightarrow>
     unat off = 1 \<and> page_ok page' \<and> page_items page' = [1 \<mapsto> [1, 2, 3]]"
proof -
  have "PageGetHeapFreeSpace (PageInit kBlckSz 0) = 8164" unfolding free_space_simp using init_ok(4,5) [of 0] by simp
  then show ?thesis using page_add_item [OF init_ok(1) [of 0], of "[1, 2, 3]" 0] init_ok(2,3) [of 0]
    by (auto simp: case_prod_beta numeral_3_eq_3)
qed

text \<open>A page with two items of eight bytes.\<close>

definition page_ex1 :: PageData where
  "page_ex1 = snd (PageAddItem (PageInit kBlckSz 0) (Some [1, 2, 3, 4, 5, 6, 7, 8]) 8 kInvalidOffsetNumber)"

definition page_ex :: PageData where
  "page_ex = snd (PageAddItem page_ex1 (Some [11, 12, 13, 14, 15, 16, 17, 18]) 8 kInvalidOffsetNumber)"

lemma page_ex1_ok: "page_ok page_ex1" "page_items page_ex1 = [1 \<mapsto> [1, 2, 3, 4, 5, 6, 7, 8]]" "nlines page_ex1 = 1"
  "added (PageInit kBlckSz 0) 8 page_ex1"
proof -
  have "PageGetHeapFreeSpace (PageInit kBlckSz 0) = 8164" unfolding free_space_simp using init_ok(4,5) [of 0] by simp
  then show "page_ok page_ex1" "page_items page_ex1 = [1 \<mapsto> [1, 2, 3, 4, 5, 6, 7, 8]]" "nlines page_ex1 = 1"
    "added (PageInit kBlckSz 0) 8 page_ex1"
    using add_item(2) [OF init_ok(1) [of 0], of "[1, 2, 3, 4, 5, 6, 7, 8]" 8] init_ok(2,3) [of 0]
    by (auto simp: page_ex1_def)
qed

lemma page_ex_ok: "page_ok page_ex" "page_items page_ex = [1 \<mapsto> [1, 2, 3, 4, 5, 6, 7, 8], 2 \<mapsto> [11, 12, 13, 14, 15, 16, 17, 18]]"
  "used page_ex 1" "used page_ex 2" "nlines page_ex = 2" "added page_ex1 8 page_ex"
proof -
  have "PageGetHeapFreeSpace page_ex1 = 8152"
    unfolding free_space_simp using page_ex1_ok(4) init_ok(4,5) [of 0] by (simp add: added_def align4_def)
  then show "page_ok page_ex" and i: "page_items page_ex = [1 \<mapsto> [1, 2, 3, 4, 5, 6, 7, 8], 2 \<mapsto> [11, 12, 13, 14, 15, 16, 17, 18]]"
    and "nlines page_ex = 2" "added page_ex1 8 page_ex"
    using add_item(2) [OF page_ex1_ok(1), of "[11, 12, 13, 14, 15, 16, 17, 18]" 8] page_ex1_ok(2,3)
    by (auto simp: page_ex_def simp flip: numeral_2_eq_2)
  show "used page_ex 1" "used page_ex 2"
    using fun_cong [OF i, of 1] fun_cong [OF i, of 2] by (auto simp: page_items_def split: if_splits)
qed

lemma page_ex_layout: "ioff page_ex 1 = 8184" "ilen page_ex 1 = 8" "ioff page_ex 2 = 8176" "ilen page_ex 2 = 8"
  "unat (pd_special page_ex) = 8192"
  using page_ex1_ok(3,4) page_ex_ok(6) init_ok(3,5) [of 0]
  by (auto simp: added_def align4_def PageInit_def kBlckSz_def simp flip: numeral_2_eq_2)



text \<open>
  C33: \<open>PageRepairFragmentation\<close> keeps the items, in the order of their line pointers, numbers them
  from one without holes, and leaves all the remaining space free.
\<close>

theorem page_repair:
  assumes "page_ok page"
  shows "page_ok (PageRepairFragmentation page) \<and>
    (\<forall>k. page_items (PageRepairFragmentation page) k =
      (if 1 \<le> k \<and> k \<le> length (normals page (nlines page)) then page_items page (normals page (nlines page) ! (k - 1)) else None)) \<and>
    PageGetExactFreeSpace (PageRepairFragmentation page) = int (unat (pd_special page)) - kPageHeaderSize -
      (\<Sum>i \<leftarrow> normals page (nlines page). MaxAlignUp (int (ilen page i)) + kItemAlign)"
proof -
  have "(\<Sum>i \<leftarrow> xs. MaxAlignUp (int (ilen page i)) + kItemAlign) = int (alen_sum page xs) + 4 * int (length xs)" for xs
    by (induction xs) (simp_all add: MaxAlignUp_nat kItemAlign_def)
  then show ?thesis using repair [OF assms] by (simp add: kPageHeaderSize_def)
qed

lemma page_repair_witness:
  "PageGetExactFreeSpace (PageRepairFragmentation page_ex) = 8144 \<and>
   page_items (PageRepairFragmentation page_ex) 2 = Some [11, 12, 13, 14, 15, 16, 17, 18]"
proof -
  have n: "normals page_ex (nlines page_ex) = [1, 2]"
  proof -
    have "[1..<Suc 2] = [1, 2]" by code_simp
    then show ?thesis unfolding normals_def page_ex_ok(5) using page_ex_ok(3,4) by (simp add: used_def)
  qed
  show ?thesis using page_repair [OF page_ex_ok(1)] page_ex_ok(2) page_ex_layout(2,4,5)
    by (simp add: n kPageHeaderSize_def kItemAlign_def MaxAlign_simps)
qed

text \<open>
  C34: Overwriting in place. An item of the same aligned length replaces the old one and nothing
  else changes. When the aligned length shrinks, the items below are moved up although the
  overwritten item stays where it is: the item directly below runs into it, and the first bytes
  read back are the last bytes of that neighbour.
\<close>

theorem overwrite_shrink_corrupts:
  assumes "page_ok page" "used page (unat off)" "0 < length src" "length src \<le> ilen page (unat off)"
  shows "(align4 (length src) = alen page (unat off) \<longrightarrow>
      (case PageIndexTupleOverwrite page off (Some src) (length src) of (r, page') \<Rightarrow>
        r \<and> page_ok page' \<and> page_items page' = (page_items page)(unat off \<mapsto> src))) \<and>
    (\<forall>d j k. d = alen page (unat off) - align4 (length src) \<and> used page j \<and>
        ioff page j + ilen page j = ioff page (unat off) \<and> k < length src \<and> k < d \<and> d \<le> ilen page j \<longrightarrow>
      (case PageIndexTupleOverwrite page off (Some src) (length src) of (r, page') \<Rightarrow>
        r \<and> the (page_items page' (unat off)) ! k = the (page_items page j) ! (ilen page j - d + k)))"
proof (intro conjI impI allI)
  assume a: "align4 (length src) = alen page (unat off)"
  show "case PageIndexTupleOverwrite page off (Some src) (length src) of (r, page') \<Rightarrow>
      r \<and> page_ok page' \<and> page_items page' = (page_items page)(unat off \<mapsto> src)"
    using overwrite_unfold [OF assms(2) refl assms(4)] overwritten_ok(1,2) [OF assms] a by simp
next
  fix d j k
  assume a: "d = alen page (unat off) - align4 (length src) \<and> used page j \<and>
      ioff page j + ilen page j = ioff page (unat off) \<and> k < length src \<and> k < d \<and> d \<le> ilen page j"
  then have "align4 (length src) < alen page (unat off)" by (elim conjE) linarith
  from overwrite_shrink_move [OF assms(1,2) _ refl assms(3,4) this, of j k] a
  show "case PageIndexTupleOverwrite page off (Some src) (length src) of (r, page') \<Rightarrow>
      r \<and> the (page_items page' (unat off)) ! k = the (page_items page j) ! (ilen page j - d + k)" by auto
qed

lemma overwrite_shrink_corrupts_witness:
  "case PageIndexTupleOverwrite page_ex 1 (Some [21, 22, 23, 24]) 4 of (r, page') \<Rightarrow>
     r \<and> the (page_items page' 1) ! 0 = 15"
proof -
  have u: "unat (1 :: u16) = 1" "length [21::u8, 22, 23, 24] = 4" by simp_all
  have "\<forall>d j k. d = alen page_ex 1 - align4 4 \<and> used page_ex j \<and> ioff page_ex j + ilen page_ex j = ioff page_ex 1 \<and>
        k < 4 \<and> k < d \<and> d \<le> ilen page_ex j \<longrightarrow>
      (case PageIndexTupleOverwrite page_ex 1 (Some [21, 22, 23, 24]) 4 of (r, page') \<Rightarrow>
        r \<and> the (page_items page' 1) ! k = the (page_items page_ex j) ! (ilen page_ex j - d + k))"
    using overwrite_shrink_corrupts [OF page_ex_ok(1), of 1 "[21, 22, 23, 24]", unfolded u, OF page_ex_ok(3)] page_ex_layout(2)
    by simp
  from this [rule_format, of 4 2 0] show ?thesis
    using page_ex_layout(1-4) page_ex_ok(2,4) by (simp add: align4_def)
qed

end
