(* ===== verification/Numeric.thy ===== *)
theory Numeric
  imports PgPrelude Complex_Main
begin

text \<open>
  Arbitrary-precision decimals (\<open>src/types/numeric.cpp\<close>): signed sequences of base-10000 digit
  groups with a weight, and the arithmetic, rounding, comparison and text conversion on them. The
  value of a variable is the rational number \<open>nval\<close>. \<open>NumericData\<close> holds the same four fields as
  \<open>NumericVar\<close>, and \<open>FromData\<close> and \<open>ToData\<close> copy them.
\<close>

subsection \<open>Variables\<close>

definition kNBase :: int where "kNBase = 10000"
definition kNumericPos :: int where "kNumericPos = 0"
definition kNumericNeg :: int where "kNumericNeg = 1"

lemmas num_consts = kNBase_def kNumericPos_def kNumericNeg_def

record NumericVar =
  digits :: "int list"
  weight :: int
  sign :: int
  dscale :: int

definition NumericVar_default :: NumericVar where
  "NumericVar_default = \<lparr>digits = [], weight = 0, sign = kNumericPos, dscale = 0\<rparr>"

definition NDigits :: "NumericVar \<Rightarrow> int" where
  "NDigits v = int (length (digits v))"

definition IsZero :: "NumericVar \<Rightarrow> bool" where
  "IsZero v = list_all (\<lambda>d. d = 0) (digits v)"

definition DigitAt :: "NumericVar \<Rightarrow> int \<Rightarrow> int" where
  "DigitAt v pos = (let idx = weight v - pos in if idx < 0 \<or> idx \<ge> NDigits v then 0 else digits v ! nat idx)"

text \<open>\<open>while (!digits.empty() && digits.front() == 0) { digits.erase(digits.begin()); weight--; }\<close>\<close>

fun strip_front :: "int list \<Rightarrow> int \<Rightarrow> int list \<times> int" where
  "strip_front [] w = ([], w)"
| "strip_front (d # ds) w = (if d = 0 then strip_front ds (w - 1) else (d # ds, w))"

definition StripZeros :: "NumericVar \<Rightarrow> NumericVar" where
  "StripZeros v = (let (ds, w) = strip_front (digits v) (weight v); ds' = trim_back 0 ds in
     if ds' = [] then v\<lparr>digits := [], weight := 0, sign := kNumericPos\<rparr>
     else v\<lparr>digits := ds', weight := w\<rparr>)"

definition EnsureFracCoverage :: "NumericVar \<Rightarrow> NumericVar" where
  "EnsureFracCoverage v =
    (if dscale v \<le> 0 then v
     else let frac_groups = (dscale v + 3) div 4; min_pos = - frac_groups; last_pos = weight v - NDigits v + 1
          in if last_pos > min_pos then v\<lparr>digits := digits v @ replicate (nat (last_pos - min_pos)) 0\<rparr> else v)"

subsection \<open>Comparison, addition and subtraction\<close>

text \<open>\<open>static_cast<int16_t>\<close>, and sums of type \<open>int\<close> that leave the range of the type.\<close>

definition cast16 :: "int \<Rightarrow> int" where
  "cast16 x = sint (of_int x :: u16)"

definition wrap32 :: "int \<Rightarrow> int" where
  "wrap32 x = sint (of_int x :: u32)"

text \<open>The positions from \<open>min_pos\<close> to \<open>max_pos\<close> of two operands, in ascending order.\<close>

definition max_pos :: "NumericVar \<Rightarrow> NumericVar \<Rightarrow> int" where
  "max_pos a b = (if weight a > weight b then weight a else weight b)"

definition min_pos :: "NumericVar \<Rightarrow> NumericVar \<Rightarrow> int" where
  "min_pos a b = (let a_min = weight a - NDigits a + 1; b_min = weight b - NDigits b + 1
     in if a_min < b_min then a_min else b_min)"

fun compare_loop :: "NumericVar \<Rightarrow> NumericVar \<Rightarrow> int list \<Rightarrow> int" where
  "compare_loop a b [] = 0"
| "compare_loop a b (pos # ps) =
    (if DigitAt a pos < DigitAt b pos then -1 else if DigitAt a pos > DigitAt b pos then 1 else compare_loop a b ps)"

definition CompareAbs :: "NumericVar \<Rightarrow> NumericVar \<Rightarrow> int" where
  "CompareAbs a b = compare_loop a b (rev [min_pos a b..max_pos a b])"

definition CompareSigned :: "NumericVar \<Rightarrow> NumericVar \<Rightarrow> int" where
  "CompareSigned a b =
    (if IsZero a \<and> IsZero b then 0
     else if IsZero a then if sign b = kNumericNeg then 1 else -1
     else if IsZero b then if sign a = kNumericNeg then -1 else 1
     else if sign a \<noteq> sign b then if sign a = kNumericNeg then -1 else 1
     else let cmp = CompareAbs a b in if sign a = kNumericNeg then - cmp else cmp)"

text \<open>The digits are produced from the lowest position upwards.\<close>

fun add_loop :: "NumericVar \<Rightarrow> NumericVar \<Rightarrow> int \<Rightarrow> int list \<Rightarrow> int list \<times> int" where
  "add_loop a b carry [] = ([], carry)"
| "add_loop a b carry (pos # ps) =
    (let sum = DigitAt a pos + DigitAt b pos + carry;
         (d, carry') = (if sum \<ge> kNBase then (sum - kNBase, 1) else (sum, 0));
         (out, carry'') = add_loop a b carry' ps
     in (cast16 d # out, carry''))"

definition AddAbs :: "NumericVar \<Rightarrow> NumericVar \<Rightarrow> NumericVar \<Rightarrow> NumericVar" where
  "AddAbs a b result =
    (let (out, carry) = add_loop a b 0 [min_pos a b..max_pos a b];
         (out', hi) = (if carry > 0 then (out @ [1], max_pos a b + 1) else (out, max_pos a b))
     in StripZeros (result\<lparr>digits := rev out', weight := hi, sign := kNumericPos\<rparr>))"

fun sub_loop :: "NumericVar \<Rightarrow> NumericVar \<Rightarrow> int \<Rightarrow> int list \<Rightarrow> int list \<times> int" where
  "sub_loop a b borrow [] = ([], borrow)"
| "sub_loop a b borrow (pos # ps) =
    (let diff = DigitAt a pos - DigitAt b pos - borrow;
         (d, borrow') = (if diff < 0 then (diff + kNBase, 1) else (diff, 0));
         (out, borrow'') = sub_loop a b borrow' ps
     in (cast16 d # out, borrow''))"

definition SubAbs :: "NumericVar \<Rightarrow> NumericVar \<Rightarrow> NumericVar \<Rightarrow> NumericVar" where
  "SubAbs a b result =
    StripZeros (result\<lparr>digits := rev (fst (sub_loop a b 0 [min_pos a b..max_pos a b])),
      weight := max_pos a b, sign := kNumericPos\<rparr>)"

definition zero_positive :: "NumericVar \<Rightarrow> NumericVar" where
  "zero_positive v = (if IsZero v then v\<lparr>sign := kNumericPos\<rparr> else v)"

definition AddVar :: "NumericVar \<Rightarrow> NumericVar \<Rightarrow> NumericVar \<Rightarrow> NumericVar" where
  "AddVar a b result =
    (if IsZero a then b
     else if IsZero b then a
     else if sign a = sign b then zero_positive ((AddAbs a b result)\<lparr>sign := sign a\<rparr>)
     else let cmp = CompareAbs a b in
       if cmp = 0 then NumericVar_default
       else if cmp > 0 then zero_positive ((SubAbs a b result)\<lparr>sign := sign a\<rparr>)
       else zero_positive ((SubAbs b a result)\<lparr>sign := sign b\<rparr>))"

definition SubVar :: "NumericVar \<Rightarrow> NumericVar \<Rightarrow> NumericVar \<Rightarrow> NumericVar" where
  "SubVar a b result =
    (let neg_b = (if \<not> IsZero b then b\<lparr>sign := (if sign b = kNumericPos then kNumericNeg else kNumericPos)\<rparr> else b)
     in AddVar a neg_b result)"

subsection \<open>Multiplication\<close>

text \<open>The loop over \<open>bi\<close> for one digit of \<open>a\<close>; the accumulators are of type \<open>int\<close>.\<close>

fun mul_row :: "int \<Rightarrow> int list \<Rightarrow> nat \<Rightarrow> int list \<Rightarrow> int list" where
  "mul_row av [] k accum = accum"
| "mul_row av (bv # bs) k accum = mul_row av bs (Suc k) (accum[k := wrap32 (accum ! k + av * bv)])"

fun mul_rows :: "int list \<Rightarrow> int list \<Rightarrow> nat \<Rightarrow> int list \<Rightarrow> int list" where
  "mul_rows [] bs k accum = accum"
| "mul_rows (av # as) bs k accum = mul_rows as bs (Suc k) (if av = 0 then accum else mul_row av bs k accum)"

fun mul_carry :: "nat \<Rightarrow> int list \<Rightarrow> int list" where
  "mul_carry 0 accum = accum"
| "mul_carry (Suc i) accum = mul_carry i
    (if accum ! Suc i \<ge> kNBase
     then accum[i := wrap32 (accum ! i + accum ! Suc i div kNBase), Suc i := accum ! Suc i mod kNBase] else accum)"

definition MulVar :: "NumericVar \<Rightarrow> NumericVar \<Rightarrow> NumericVar \<Rightarrow> NumericVar" where
  "MulVar a b result =
    (if IsZero a \<or> IsZero b then NumericVar_default
     else
       let res_lo = (weight a - NDigits a + 1) + (weight b - NDigits b + 1);
           res_hi = weight a + weight b + 1;
           n = nat (res_hi - res_lo + 1);
           accum = mul_carry n (mul_rows (digits a) (digits b) 1 (replicate (n + 1) 0));
           (accum', res_hi') = (if accum ! 0 \<ge> kNBase
              then (accum ! 0 div kNBase # accum[0 := accum ! 0 mod kNBase], res_hi + 1) else (accum, res_hi))
       in zero_positive (StripZeros (result\<lparr>digits := map cast16 accum', weight := res_hi',
            sign := (if sign a = sign b then kNumericPos else kNumericNeg), dscale := dscale a + dscale b\<rparr>)))"


subsection \<open>Division\<close>

text \<open>The division by a single group: the quotient digits from the highest downwards.\<close>

fun short_division :: "int \<Rightarrow> int \<Rightarrow> int list \<Rightarrow> int list" where
  "short_division divisor rem [] = []"
| "short_division divisor rem (d # ds) =
    (let cur = rem * kNBase + d in cast16 (cur div divisor) # short_division divisor (cur mod divisor) ds)"

text \<open>Multiplication by the normalisation factor, from the lowest digit; the list is low-first.\<close>

fun scale_loop :: "int \<Rightarrow> int \<Rightarrow> int list \<Rightarrow> int list \<times> int" where
  "scale_loop nf carry [] = ([], carry)"
| "scale_loop nf carry (d # ds) =
    (let p = d * nf + carry; (out, carry') = scale_loop nf (p div kNBase) ds
     in (cast16 (p mod kNBase) # out, carry'))"

text \<open>
  \<open>trial[1..b_ndig] - q * div\<close>, from the lowest digit; both lists are low-first. The result is the
  digits, the carry of the product and the borrow.
\<close>

fun trial_loop :: "int \<Rightarrow> int \<Rightarrow> int \<Rightarrow> int list \<Rightarrow> int list \<Rightarrow> int list \<times> int \<times> int" where
  "trial_loop q mcarry borrow (d # ds) (t # ts) =
    (let p = d * q + mcarry; sub = t - p mod kNBase - borrow;
         (x, borrow') = (if sub < 0 then (sub + kNBase, 1) else (sub, 0));
         (out, mcarry', borrow'') = trial_loop q (p div kNBase) borrow' ds ts
     in (cast16 x # out, mcarry', borrow''))"
| "trial_loop q mcarry borrow _ ts = (ts, mcarry, borrow)"

text \<open>
  At most two attempts: with the estimate and with the estimate less one. If both fail, the
  quotient digit is the estimate less two and the work digits stay.
\<close>

fun try_digit :: "nat \<Rightarrow> int \<Rightarrow> int list \<Rightarrow> int list \<Rightarrow> int \<times> int list" where
  "try_digit 0 q dv window = (q, window)"
| "try_digit (Suc n) q dv window =
    (let (out, mcarry, borrow) = trial_loop q 0 0 (rev dv) (rev (tl window));
         top_sub = hd window - mcarry - borrow
     in if top_sub < 0 then try_digit n (q - 1) dv window
        else (q, cast16 top_sub # rev out))"

text \<open>The loop over \<open>j\<close>: the digits \<open>work[j..j+b_ndig]\<close> and those after them.\<close>

fun long_division :: "int list \<Rightarrow> int list \<Rightarrow> int list \<Rightarrow> int list" where
  "long_division dv window rest =
    (let top = window ! 0 * kNBase + window ! 1; q0 = top div hd dv; q1 = (if q0 \<ge> kNBase then kNBase - 1 else q0);
         (q, window') = try_digit 2 q1 dv window
     in cast16 q # (case rest of [] \<Rightarrow> [] | r # rs \<Rightarrow> long_division dv (tl window' @ [r]) rs))"

definition DivVar :: "NumericVar \<Rightarrow> NumericVar \<Rightarrow> NumericVar \<Rightarrow> NumericVar result" where
  "DivVar a b result =
    (let out_dscale = (if dscale a > dscale b then dscale a else dscale b) + 8 in
     if IsZero b then Inl (Ereport ''division by zero'')
     else if IsZero a then Inr (NumericVar_default\<lparr>dscale := out_dscale\<rparr>)
     else
       let extra_dec = out_dscale - dscale a + dscale b;
           extra_groups = nat ((extra_dec + 3) sdiv 4);
           aa = digits a @ replicate extra_groups 0;
           bb = StripZeros (b\<lparr>sign := kNumericPos\<rparr>);
           bds = digits bb;
           quot =
             (if NDigits bb = 1 then short_division (hd bds) 0 aa
              else
                let nf = kNBase div (hd bds + 1);
                    (work, carry) = scale_loop nf 0 (rev aa);
                    work' = cast16 carry # rev work;
                    dv = rev (fst (scale_loop nf 0 (rev bds)));
                    n = length bds
                in if length work' > n then long_division dv (take (n + 1) work') (drop (n + 1) work') else []);
           (quot', res_weight) = strip_front quot (weight a - weight bb)
       in if quot' = [] then Inr (NumericVar_default\<lparr>dscale := out_dscale\<rparr>)
          else Inr (zero_positive (StripZeros \<lparr>digits = quot', weight = res_weight,
                 sign = (if sign a = sign b then kNumericPos else kNumericNeg), dscale = out_dscale\<rparr>)))"

subsection \<open>Rounding\<close>

definition TruncToScale :: "NumericVar \<Rightarrow> int \<Rightarrow> NumericVar" where
  "TruncToScale v new_dscale =
    (let g = (new_dscale + 3) div 4; cutoff_pos = - g;
         keep_dec = new_dscale - 4 * (g - 1);
         mask_divisor = 10 ^ nat (4 - keep_dec);
         idx = weight v - cutoff_pos;
         v1 = (if g > 0 \<and> keep_dec < 4 \<and> idx \<ge> 0 \<and> idx < NDigits v
               then v\<lparr>digits := (digits v)[nat idx := cast16 ((digits v ! nat idx) div mask_divisor * mask_divisor)]\<rparr> else v);
         keep_idx = (if weight v - cutoff_pos + 1 < 0 then 0 else nat (weight v - cutoff_pos + 1));
         v2 = (if keep_idx < length (digits v1) then v1\<lparr>digits := take keep_idx (digits v1)\<rparr> else v1)
     in zero_positive (StripZeros (v2\<lparr>dscale := new_dscale\<rparr>)))"

definition RoundVar :: "NumericVar \<Rightarrow> int \<Rightarrow> NumericVar" where
  "RoundVar v new_dscale =
    (let nd = (if new_dscale < 0 then 0 else new_dscale) in
     if nd \<ge> dscale v then v
     else
       let g_add = (nd + 4) div 4;
           offset_add = nd + 1 - 4 * (g_add - 1);
           addend = NumericVar_default\<lparr>digits := [cast16 (5 * 10 ^ nat (4 - offset_add))], weight := - g_add\<rparr>;
           sum = (AddAbs (v\<lparr>sign := kNumericPos\<rparr>) addend NumericVar_default)\<lparr>sign := sign v\<rparr>
       in TruncToScale (zero_positive sum) nd)"

definition TruncVar :: "NumericVar \<Rightarrow> int \<Rightarrow> NumericVar" where
  "TruncVar v new_dscale =
    (let nd = (if new_dscale < 0 then 0 else new_dscale) in if nd \<ge> dscale v then v else TruncToScale v nd)"

subsection \<open>Operations on datums\<close>

definition larger_dscale :: "NumericVar \<Rightarrow> NumericVar \<Rightarrow> int" where
  "larger_dscale a b = (if dscale a > dscale b then dscale a else dscale b)"

definition numeric_add :: "NumericVar \<Rightarrow> NumericVar \<Rightarrow> NumericVar" where
  "numeric_add a b = EnsureFracCoverage ((AddVar a b NumericVar_default)\<lparr>dscale := larger_dscale a b\<rparr>)"

definition numeric_sub :: "NumericVar \<Rightarrow> NumericVar \<Rightarrow> NumericVar" where
  "numeric_sub a b = EnsureFracCoverage ((SubVar a b NumericVar_default)\<lparr>dscale := larger_dscale a b\<rparr>)"

definition numeric_mul :: "NumericVar \<Rightarrow> NumericVar \<Rightarrow> NumericVar" where
  "numeric_mul a b = MulVar a b NumericVar_default"

definition numeric_div :: "NumericVar \<Rightarrow> NumericVar \<Rightarrow> NumericVar result" where
  "numeric_div a b = DivVar a b NumericVar_default"

definition numeric_round :: "NumericVar \<Rightarrow> int \<Rightarrow> NumericVar" where
  "numeric_round v new_dscale = RoundVar v new_dscale"

definition numeric_trunc :: "NumericVar \<Rightarrow> int \<Rightarrow> NumericVar" where
  "numeric_trunc v new_dscale = TruncVar v new_dscale"

definition num_one :: NumericVar where
  "num_one = NumericVar_default\<lparr>digits := [1]\<rparr>"

definition numeric_ceil :: "NumericVar \<Rightarrow> NumericVar" where
  "numeric_ceil v =
    (if dscale v > 0 then
       let truncated = TruncVar v 0 in
       if CompareAbs v truncated > 0 \<and> sign v = kNumericPos
       then (AddAbs truncated num_one NumericVar_default)\<lparr>sign := kNumericPos, dscale := 0\<rparr>
       else truncated\<lparr>dscale := 0\<rparr>
     else v)"

definition numeric_floor :: "NumericVar \<Rightarrow> NumericVar" where
  "numeric_floor v =
    (if dscale v > 0 then
       let truncated = TruncVar v 0 in
       if CompareAbs v truncated > 0 \<and> sign v = kNumericNeg
       then (AddAbs truncated num_one NumericVar_default)\<lparr>sign := kNumericNeg, dscale := 0\<rparr>
       else truncated\<lparr>dscale := 0\<rparr>
     else v)"

definition numeric_abs :: "NumericVar \<Rightarrow> NumericVar" where
  "numeric_abs v = v\<lparr>sign := kNumericPos\<rparr>"

definition numeric_cmp :: "NumericVar \<Rightarrow> NumericVar \<Rightarrow> int" where
  "numeric_cmp a b = CompareSigned a b"

definition numeric_eq :: "NumericVar \<Rightarrow> NumericVar \<Rightarrow> bool" where
  "numeric_eq a b = (numeric_cmp a b = 0)"

definition numeric_lt :: "NumericVar \<Rightarrow> NumericVar \<Rightarrow> bool" where
  "numeric_lt a b = (numeric_cmp a b < 0)"

definition MakeNumericDatum :: "int list \<Rightarrow> int \<Rightarrow> int \<Rightarrow> int \<Rightarrow> NumericVar" where
  "MakeNumericDatum ds w sg sc = zero_positive (StripZeros \<lparr>digits = ds, weight = w, sign = sg, dscale = sc\<rparr>)"

text \<open>\<open>while (uv > 0) { groups.push_back(uv % kNBase); uv /= kNBase; }\<close>\<close>

function u64_groups :: "nat \<Rightarrow> int list" where
  "u64_groups uv = (if uv = 0 then [] else int (uv mod 10000) # u64_groups (uv div 10000))"
  by pat_completeness auto
termination by (relation "measure id") auto

declare u64_groups.simps [simp del]

definition Int64ToNumeric :: "64 word \<Rightarrow> NumericVar" where
  "Int64ToNumeric val =
    (let neg = val <s 0; uv = (if neg then - (val + 1) + 1 else val) in
     if uv = 0 then NumericVar_default
     else let groups = u64_groups (unat uv) in
       \<lparr>digits = rev groups, weight = int (length groups) - 1, sign = (if neg then kNumericNeg else kNumericPos), dscale = 0\<rparr>)"

definition numeric_avg :: "NumericVar \<Rightarrow> 64 word \<Rightarrow> NumericVar result" where
  "numeric_avg s count =
    (if count = 0 then Inl (Ereport ''numeric_avg: division by zero (count is zero)'')
     else numeric_div s (Int64ToNumeric count))"

definition numeric_to_int64 :: "NumericVar \<Rightarrow> 64 word" where
  "numeric_to_int64 v =
    (let r = fold (\<lambda>pos result. result * 10000 + of_int (DigitAt v pos)) (rev [0..weight v]) 0
     in if sign v = kNumericNeg then - r else r)"


text \<open>
  \<open>numeric_to_float8\<close> with rational numbers for doubles, so without the rounding of the floating
  point operations: it is exact for operands whose intermediate results a double represents.
\<close>

definition numeric_to_float8 :: "NumericVar \<Rightarrow> rat" where
  "numeric_to_float8 v =
    (if IsZero v then 0
     else
       let result = fold (\<lambda>pos r. r * of_int kNBase + of_int (DigitAt v pos)) (rev [weight v - NDigits v + 1..weight v]) 0;
           frac_groups = (dscale v + 3) div 4;
           scaled = ((\<lambda>r. r / of_int kNBase) ^^ nat frac_groups) result
       in if sign v = kNumericNeg then - scaled else scaled)"


subsection \<open>Text\<close>

definition syntax_error :: "string \<Rightarrow> pg_error" where
  "syntax_error str = Ereport (''invalid input syntax for type numeric: \"'' @ str @ ''\"'')"

text \<open>The loop over the characters; the two strings are \<open>int_part\<close> and \<open>frac_part\<close>.\<close>

fun split_loop :: "string \<Rightarrow> bool \<Rightarrow> bool \<Rightarrow> string \<Rightarrow> string \<Rightarrow> string \<Rightarrow> (bool \<times> string \<times> string) result" where
  "split_loop str seen_dot seen_digit ip fp [] = Inr (seen_digit, ip, fp)"
| "split_loop str seen_dot seen_digit ip fp (c # cs) =
    (if c = CHR ''.'' then
       if seen_dot then Inl (syntax_error str) else split_loop str True seen_digit ip fp cs
     else if is_digit c then
       if seen_dot then split_loop str seen_dot True ip (fp @ [c]) cs else split_loop str seen_dot True (ip @ [c]) fp cs
     else Inl (syntax_error str))"

text \<open>Erase up to \<open>find_first_not_of('0')\<close>; a string of zeros becomes \<open>"0"\<close>.\<close>

definition strip_leading :: "string \<Rightarrow> string" where
  "strip_leading s = (case dropWhile (\<lambda>c. c = CHR ''0'') s of [] \<Rightarrow> ''0'' | t \<Rightarrow> t)"

text \<open>\<open>std::stoi\<close> of a string of decimal digits.\<close>

definition stoi :: "string \<Rightarrow> int" where
  "stoi s = foldl (\<lambda>n c. n * 10 + int (of_char c) - 48) 0 s"

definition pad_frac :: "string \<Rightarrow> string" where
  "pad_frac s = s @ replicate ((4 - length s mod 4) mod 4) (CHR ''0'')"

definition numeric_in :: "string \<Rightarrow> NumericVar result" where
  "numeric_in str =
    (if str = [] then Inl (syntax_error [])
     else
       let signed = (str ! 0 = CHR ''+'' \<or> str ! 0 = CHR ''-''); neg = (str ! 0 = CHR ''-'') in
       case split_loop str False False [] [] (if signed then tl str else str) of
         Inl e \<Rightarrow> Inl e
       | Inr (seen_digit, ip, frac_part) \<Rightarrow>
           if \<not> seen_digit then Inl (syntax_error str)
           else
             let int_part = strip_leading ip;
                 frac = pad_frac frac_part;
                 all = strip_leading (int_part @ frac);
                 frac_decimals = int (length frac);
                 int_decimals = int (length all) - frac_decimals;
                 int_groups = (int_decimals + 3) sdiv 4;
                 frac_groups = frac_decimals sdiv 4;
                 total_groups = nat (int_groups + frac_groups);
                 leading_pad = nat (int_groups * 4 - int_decimals);
                 padded = replicate leading_pad (CHR ''0'') @ all;
                 ds = map (\<lambda>g. cast16 (stoi (take 4 (drop (g * 4) padded)))) [0..<total_groups]
             in Inr (zero_positive (StripZeros \<lparr>digits = ds, weight = int_groups - 1,
                  sign = (if neg then kNumericNeg else kNumericPos), dscale = int (length frac_part)\<rparr>)))"

text \<open>\<open>snprintf("%04d")\<close> of a digit group.\<close>

definition fmt04 :: "int \<Rightarrow> string" where
  "fmt04 d = map (\<lambda>k. char_of (48 + nat (d div 10 ^ k mod 10))) [3, 2, 1, 0]"

definition numeric_out :: "NumericVar \<Rightarrow> string" where
  "numeric_out v =
    (if IsZero v then
       if dscale v \<le> 0 then ''0'' else ''0.'' @ replicate (nat (dscale v)) (CHR ''0'')
     else
       let int_groups = (if weight v + 1 < 0 then 0 else weight v + 1);
           frac_groups = (if dscale v > 0 then (dscale v + 3) div 4 else 0);
           total_groups = int_groups + frac_groups;
           ds0 = concat (map (\<lambda>g. fmt04 (DigitAt v (int_groups - 1 - g))) [0..total_groups - 1]);
           int_digits = int_groups * 4;
           frac_digits = int (length ds0) - int_digits;
           ds1 = (if frac_digits > dscale v then take (nat (int_digits + dscale v)) ds0 else ds0);
           frac_digits1 = (if frac_digits > dscale v then dscale v else frac_digits);
           ds2 = (if frac_digits1 < dscale v then ds1 @ replicate (nat (dscale v - frac_digits1)) (CHR ''0'') else ds1);
           lnz = length (takeWhile (\<lambda>c. c = CHR ''0'') ds2);
           (ds3, int_digits3) =
             (if lnz = length ds2 then (''0'', int_digits)
              else if 0 < lnz \<and> int lnz < int_digits then (drop lnz ds2, int_digits - int lnz)
              else if int lnz \<ge> int_digits then (CHR ''0'' # drop (nat int_digits) ds2, 1)
              else (ds2, int_digits));
           sgn = (if sign v = kNumericNeg then ''-'' else [])
       in if dscale v > 0 then
            let ds4 = (if int (length ds3) < int_digits3 + dscale v
                       then ds3 @ replicate (nat (int_digits3 + dscale v - int (length ds3))) (CHR ''0'') else ds3)
            in sgn @ take (nat int_digits3) ds4 @ ''.'' @ take (nat (dscale v)) (drop (nat int_digits3) ds4)
          else sgn @ ds3)"

subsection \<open>Values\<close>

fun gval :: "int list \<Rightarrow> int \<Rightarrow> rat" where
  "gval [] w = 0"
| "gval (d # ds) w = of_int d * 10000 powi w + gval ds (w - 1)"

definition aval :: "NumericVar \<Rightarrow> rat" where
  "aval v = gval (digits v) (weight v)"

definition nval :: "NumericVar \<Rightarrow> rat" where
  "nval v = (if sign v = kNumericNeg then - aval v else aval v)"

definition group_ok :: "int \<Rightarrow> bool" where
  "group_ok d \<longleftrightarrow> 0 \<le> d \<and> d < 10000"

text \<open>The representation type: groups in range, one of two signs, and a positive zero.\<close>

definition num_ok :: "NumericVar \<Rightarrow> bool" where
  "num_ok v \<longleftrightarrow> list_all group_ok (digits v) \<and> sign v \<in> {kNumericPos, kNumericNeg} \<and>
     (IsZero v \<longrightarrow> sign v = kNumericPos) \<and> dscale v \<ge> 0"

subsection \<open>Facts on values\<close>

lemma gval_append: "gval (xs @ ys) w = gval xs w + gval ys (w - int (length xs))"
  by (induction xs arbitrary: w) (simp_all add: algebra_simps)

lemma gval_zeros [simp]: "list_all (\<lambda>d. d = 0) ds \<Longrightarrow> gval ds w = 0"
  by (induction ds arbitrary: w) auto

lemma gval_replicate [simp]: "gval (replicate n 0) w = 0"
  by (simp add: list_all_iff)

lemma powi_step: "(10000::rat) powi (w + 1) = 10000 * 10000 powi w" "(10000::rat) powi w = 10000 * 10000 powi (w - 1)"
  by (simp_all add: power_int_add power_int_diff)

lemma gval_nonneg: "list_all group_ok ds \<Longrightarrow> 0 \<le> gval ds w"
  by (induction ds arbitrary: w) (auto simp: group_ok_def)

lemma gval_less: "list_all group_ok ds \<Longrightarrow> gval ds w < 10000 powi (w + 1)"
proof (induction ds arbitrary: w)
  case (Cons d ds)
  then have "gval ds (w - 1) < 10000 powi w" using Cons.IH [of "w - 1"] by simp
  moreover have "of_int d * (10000::rat) powi w \<le> 9999 * 10000 powi w"
    using Cons.prems by (intro mult_right_mono) (auto simp: group_ok_def)
  ultimately show ?case unfolding gval.simps powi_step(1) by linarith
qed simp

lemma gval_zero_iff: "list_all group_ok ds \<Longrightarrow> gval ds w = 0 \<longleftrightarrow> list_all (\<lambda>d. d = 0) ds"
proof (induction ds arbitrary: w)
  case (Cons d ds)
  have "0 \<le> of_int d * (10000::rat) powi w" "0 \<le> gval ds (w - 1)"
    using Cons.prems by (simp add: group_ok_def, simp add: gval_nonneg)
  then have "gval (d # ds) w = 0 \<longleftrightarrow> of_int d * (10000::rat) powi w = 0 \<and> gval ds (w - 1) = 0"
    unfolding gval.simps by (rule add_nonneg_eq_0_iff)
  then show ?case using Cons by auto
qed simp

lemma strip_front_value: "gval (fst (strip_front ds w)) (snd (strip_front ds w)) = gval ds w"
  by (induction ds w rule: strip_front.induct) auto

lemma strip_front_set: "set (fst (strip_front ds w)) \<subseteq> set ds"
  by (induction ds w rule: strip_front.induct) auto

lemma trim_back_value: "gval (trim_back 0 ds) w = gval ds w"
proof -
  obtain n where "ds = trim_back 0 ds @ replicate n 0" using trim_back_append [of ds 0] ..
  then have "gval ds w = gval (trim_back 0 ds @ replicate n 0) w" by (rule arg_cong [where f = "\<lambda>x. gval x w"])
  also have "\<dots> = gval (trim_back 0 ds) w" by (simp add: gval_append)
  finally show ?thesis by simp
qed

lemma trim_back_set: "set (trim_back z xs) \<subseteq> set xs"
  by (auto simp: trim_back_def dest: set_dropWhileD)

lemma strip_empty: "trim_back 0 (fst (strip_front ds w)) = [] \<longleftrightarrow> list_all (\<lambda>d. d = 0) ds"
proof -
  have "fst (strip_front ds w) = dropWhile (\<lambda>d. d = 0) ds"
    by (induction ds w rule: strip_front.induct) auto
  moreover have "trim_back 0 xs = [] \<longleftrightarrow> list_all (\<lambda>d. d = 0) xs" for xs :: "int list"
    by (simp add: trim_back_def dropWhile_eq_Nil_conv list_all_iff)
  moreover have "list_all (\<lambda>d. d = 0) (dropWhile (\<lambda>d. d = 0) ds) \<longleftrightarrow> list_all (\<lambda>d. d = 0) ds"
    by (induction ds) auto
  ultimately show ?thesis by simp
qed

lemma StripZeros_simps:
  "aval (StripZeros v) = aval v" "dscale (StripZeros v) = dscale v" "IsZero (StripZeros v) = IsZero v"
  "sign (StripZeros v) = (if IsZero v then kNumericPos else sign v)"
  "list_all group_ok (digits v) \<Longrightarrow> list_all group_ok (digits (StripZeros v))"
proof -
  obtain ds w where s: "strip_front (digits v) (weight v) = (ds, w)" by fastforce
  have e: "trim_back 0 ds = [] \<longleftrightarrow> IsZero v" using strip_empty [of "digits v" "weight v"] s by (simp add: IsZero_def)
  have v: "gval (trim_back 0 ds) w = aval v" using strip_front_value [of "digits v" "weight v"] s by (simp add: trim_back_value aval_def)
  have sub: "set (trim_back 0 ds) \<subseteq> set (digits v)" using strip_front_set [of "digits v" "weight v"] trim_back_set [of 0 ds] s by auto
  show "dscale (StripZeros v) = dscale v" "sign (StripZeros v) = (if IsZero v then kNumericPos else sign v)"
    using e by (auto simp: StripZeros_def s)
  show "aval (StripZeros v) = aval v" using e v by (auto simp: StripZeros_def s aval_def IsZero_def)
  have "IsZero v \<longleftrightarrow> list_all (\<lambda>d. d = 0) (trim_back 0 ds)"
  proof
    assume "IsZero v" then show "list_all (\<lambda>d. d = 0) (trim_back 0 ds)" using e by simp
  next
    assume a: "list_all (\<lambda>d. d = 0) (trim_back 0 ds)"
    have "trim_back 0 ds = []"
    proof (rule ccontr)
      assume "trim_back 0 ds \<noteq> []"
      then have "dropWhile (\<lambda>x. x = 0) (rev ds) \<noteq> []" by (simp add: trim_back_def)
      moreover have "last (trim_back 0 ds) = hd (dropWhile (\<lambda>x. x = 0) (rev ds))" by (simp add: trim_back_def last_rev)
      ultimately have "last (trim_back 0 ds) \<noteq> 0" using hd_dropWhile [of "\<lambda>x. x = 0" "rev ds"] by simp
      with a \<open>trim_back 0 ds \<noteq> []\<close> show False by (auto simp: list_all_iff)
    qed
    then show "IsZero v" using e by simp
  qed
  then show "IsZero (StripZeros v) = IsZero v" using e by (auto simp: StripZeros_def s IsZero_def)
  show "list_all group_ok (digits v) \<Longrightarrow> list_all group_ok (digits (StripZeros v))"
    using sub by (auto simp: StripZeros_def s list_all_iff Let_def split: if_splits)
qed

lemma cast16_id [simp]: "group_ok d \<Longrightarrow> cast16 d = d"
  by (simp add: cast16_def group_ok_def signed_of_int signed_take_bit_int_eq_self)

lemma wrap32_id: "0 \<le> x \<Longrightarrow> x < 2 ^ 31 \<Longrightarrow> wrap32 x = x"
  by (simp add: wrap32_def signed_of_int signed_take_bit_int_eq_self)

lemma zero_positive_simps [simp]:
  "aval (zero_positive v) = aval v" "digits (zero_positive v) = digits v" "dscale (zero_positive v) = dscale v"
  "sign (zero_positive v) = (if IsZero v then kNumericPos else sign v)" "IsZero (zero_positive v) = IsZero v"
  "weight (zero_positive v) = weight v"
  by (auto simp: zero_positive_def aval_def IsZero_def)

lemma nval_StripZeros [simp]: "nval (StripZeros v) = nval v"
  using StripZeros_simps(1,4) [of v] by (auto simp: nval_def aval_def IsZero_def num_consts)

lemma nval_zero_positive [simp]: "nval (zero_positive v) = nval v"
  by (auto simp: nval_def IsZero_def aval_def num_consts)

subsection \<open>Positions\<close>

lemma gval_sum: "gval ds w = (\<Sum>i < length ds. of_int (ds ! i) * 10000 powi (w - int i))"
proof (induction ds arbitrary: w)
  case (Cons d ds)
  show ?case by (simp add: Cons.IH sum.lessThan_Suc_shift diff_diff_eq del: sum.lessThan_Suc)
qed simp

lemma DigitAt_outside: "pos > weight v \<or> pos \<le> weight v - NDigits v \<Longrightarrow> DigitAt v pos = 0"
  by (auto simp: DigitAt_def)

lemma DigitAt_ok: "list_all group_ok (digits v) \<Longrightarrow> group_ok (DigitAt v pos)"
  by (auto simp: DigitAt_def Let_def NDigits_def list_all_length group_ok_def)

lemma aval_positions:
  assumes "lo \<le> weight v - NDigits v + 1" "weight v \<le> hi"
  shows "aval v = (\<Sum>p = lo..hi. of_int (DigitAt v p) * 10000 powi p)"
proof -
  let ?f = "\<lambda>p. of_int (DigitAt v p) * (10000::rat) powi p"
  have "(\<Sum>p = lo..hi. ?f p) = (\<Sum>p \<in> {weight v - NDigits v + 1..weight v}. ?f p)"
    using assms by (intro sum.mono_neutral_right) (auto simp: DigitAt_outside)
  also have "\<dots> = (\<Sum>i < length (digits v). ?f (weight v - int i))"
    by (rule sum.reindex_bij_witness [of _ "\<lambda>i. weight v - int i" "\<lambda>p. nat (weight v - p)"])
      (auto simp: NDigits_def)
  also have "\<dots> = aval v"
    unfolding aval_def gval_sum by (rule sum.cong) (auto simp: DigitAt_def NDigits_def)
  finally show ?thesis by simp
qed

end
