(* ===== verification/NumericArith.thy ===== *)
theory NumericArith
  imports Numeric
begin

text \<open>
  The arithmetic of \<^verbatim>\<open>numeric.cpp\<close> computes with the rational values of its operands: comparison,
  addition, subtraction, multiplication, truncation, rounding, ceiling and floor, and conversion from
  and to 64-bit integers.
\<close>

subsection \<open>Loops over positions\<close>

fun lgval :: "int list \<Rightarrow> int \<Rightarrow> rat" where
  "lgval [] p = 0"
| "lgval (d # ds) p = of_int d * 10000 powi p + lgval ds (p + 1)"

lemma gval_rev: "gval (rev ds) (p + int (length ds) - 1) = lgval ds p"
proof (induction ds arbitrary: p)
  case (Cons d ds)
  have "gval (rev ds) (p + int (length (d # ds)) - 1) = lgval ds (p + 1)"
    using Cons.IH [of "p + 1"] by (simp add: algebra_simps)
  then show ?case by (simp add: gval_append algebra_simps)
qed simp

lemma upto_Suc: "[lo..lo + int (Suc n) - 1] = lo # [lo + 1..lo + 1 + int n - 1]"
  by (simp add: upto_rec1)

lemma sum_upto_Suc: "(\<Sum>p = lo..lo + int (Suc n) - 1. f p) = f lo + (\<Sum>p = lo + 1..lo + 1 + int n - 1. f p)"
proof -
  have "{lo..lo + int (Suc n) - 1} = insert lo {lo + 1..lo + 1 + int n - 1}" by auto
  then show ?thesis by simp
qed

lemma add_loop:
  assumes "list_all group_ok (digits a)" "list_all group_ok (digits b)" "carry \<in> {0, 1}"
    "add_loop a b carry [lo..lo + int n - 1] = (out, c)"
  shows "list_all group_ok out \<and> c \<in> {0, 1} \<and> length out = n \<and>
    lgval out lo + of_int c * 10000 powi (lo + int n) = of_int carry * 10000 powi lo +
      (\<Sum>p = lo..lo + int n - 1. (of_int (DigitAt a p) + of_int (DigitAt b p)) * 10000 powi p)"
  using assms(3,4)
proof (induction n arbitrary: lo carry out c)
  case 0
  then show ?case by simp
next
  case (Suc n)
  let ?d = "DigitAt a lo + DigitAt b lo + carry"
  let ?x = "if ?d \<ge> kNBase then ?d - kNBase else ?d" and ?b = "if ?d \<ge> kNBase then 1 else 0 :: int"
  obtain o1 c1 where r: "add_loop a b ?b [lo + 1..lo + 1 + int n - 1] = (o1, c1)" by fastforce
  have g: "group_ok (DigitAt a lo)" "group_ok (DigitAt b lo)" using assms(1,2) by (auto intro: DigitAt_ok)
  then have x: "group_ok ?x" using Suc.prems(1) by (auto simp: group_ok_def kNBase_def)
  have o: "out = ?x # o1" "c = c1"
    using Suc.prems(2) r x unfolding upto_Suc by (auto simp: Let_def split: if_splits)
  have IH: "list_all group_ok o1 \<and> c1 \<in> {0, 1} \<and> length o1 = n \<and>
    lgval o1 (lo + 1) + of_int c1 * 10000 powi (lo + 1 + int n) = of_int ?b * 10000 powi (lo + 1) +
      (\<Sum>p = lo + 1..lo + 1 + int n - 1. (of_int (DigitAt a p) + of_int (DigitAt b p)) * 10000 powi p)"
    by (rule Suc.IH [OF _ r]) simp
  have e: "of_int ?x * (10000::rat) powi lo + of_int ?b * 10000 powi (lo + 1) = of_int ?d * 10000 powi lo"
    unfolding powi_step(1) by (simp add: kNBase_def algebra_simps)
  show ?case
    unfolding o sum_upto_Suc using IH x e by (simp add: algebra_simps)
qed

lemma sub_loop:
  assumes "list_all group_ok (digits a)" "list_all group_ok (digits b)" "borrow \<in> {0, 1}"
    "sub_loop a b borrow [lo..lo + int n - 1] = (out, c)"
  shows "list_all group_ok out \<and> c \<in> {0, 1} \<and> length out = n \<and>
    lgval out lo - of_int c * 10000 powi (lo + int n) = - of_int borrow * 10000 powi lo +
      (\<Sum>p = lo..lo + int n - 1. (of_int (DigitAt a p) - of_int (DigitAt b p)) * 10000 powi p)"
  using assms(3,4)
proof (induction n arbitrary: lo borrow out c)
  case 0
  then show ?case by simp
next
  case (Suc n)
  let ?d = "DigitAt a lo - DigitAt b lo - borrow"
  let ?x = "if ?d < 0 then ?d + kNBase else ?d" and ?b = "if ?d < 0 then 1 else 0 :: int"
  obtain o1 c1 where r: "sub_loop a b ?b [lo + 1..lo + 1 + int n - 1] = (o1, c1)" by fastforce
  have g: "group_ok (DigitAt a lo)" "group_ok (DigitAt b lo)" using assms(1,2) by (auto intro: DigitAt_ok)
  then have x: "group_ok ?x" using Suc.prems(1) by (auto simp: group_ok_def kNBase_def)
  have o: "out = ?x # o1" "c = c1"
    using Suc.prems(2) r x unfolding upto_Suc by (auto simp: Let_def split: if_splits)
  have IH: "list_all group_ok o1 \<and> c1 \<in> {0, 1} \<and> length o1 = n \<and>
    lgval o1 (lo + 1) - of_int c1 * 10000 powi (lo + 1 + int n) = - of_int ?b * 10000 powi (lo + 1) +
      (\<Sum>p = lo + 1..lo + 1 + int n - 1. (of_int (DigitAt a p) - of_int (DigitAt b p)) * 10000 powi p)"
    by (rule Suc.IH [OF _ r]) simp
  have e: "of_int ?x * (10000::rat) powi lo - of_int ?b * 10000 powi (lo + 1) = of_int ?d * 10000 powi lo"
    unfolding powi_step(1) by (simp add: kNBase_def algebra_simps)
  show ?case
    unfolding o sum_upto_Suc using IH x e by (simp add: algebra_simps)
qed


subsection \<open>Absolute values\<close>

lemma positions:
  assumes "lo = min_pos a b" "hi = max_pos a b"
  shows "lo \<le> weight a - NDigits a + 1" "lo \<le> weight b - NDigits b + 1" "weight a \<le> hi" "weight b \<le> hi"
    "\<exists>n. hi = lo + int n - 1"
proof -
  show 1: "lo \<le> weight a - NDigits a + 1" "lo \<le> weight b - NDigits b + 1" "weight a \<le> hi" "weight b \<le> hi"
    using assms by (auto simp: min_pos_def max_pos_def Let_def)
  have "lo \<le> hi + 1" using 1(1,3) by (simp add: NDigits_def)
  then show "\<exists>n. hi = lo + int n - 1" by (intro exI [of _ "nat (hi - lo + 1)"]) simp
qed

lemma AddAbs_value:
  assumes "list_all group_ok (digits a)" "list_all group_ok (digits b)"
  shows "aval (AddAbs a b r) = aval a + aval b" "list_all group_ok (digits (AddAbs a b r))"
    "dscale (AddAbs a b r) = dscale r" "sign (AddAbs a b r) = kNumericPos"
proof -
  define lo hi where "lo = min_pos a b" and "hi = max_pos a b"
  note p = positions [OF lo_def hi_def]
  obtain n where n: "hi = lo + int n - 1" using p(5) by blast
  obtain out c where l: "add_loop a b 0 [lo..hi] = (out, c)" by fastforce
  have a: "list_all group_ok out" "c \<in> {0, 1}" "length out = n"
    "lgval out lo + of_int c * 10000 powi (lo + int n) =
      (\<Sum>p = lo..hi. (of_int (DigitAt a p) + of_int (DigitAt b p)) * 10000 powi p)"
    using add_loop [OF assms, of 0 lo n out c] l n by simp_all
  have s: "(\<Sum>p = lo..hi. (of_int (DigitAt a p) + of_int (DigitAt b p)) * 10000 powi p) = aval a + aval b"
    using aval_positions [OF p(1,3)] aval_positions [OF p(2,4)] by (simp add: distrib_right sum.distrib)
  let ?o = "if c > 0 then out @ [1] else out" and ?h = "if c > 0 then hi + 1 else hi"
  let ?v = "r\<lparr>digits := rev ?o, weight := ?h, sign := kNumericPos\<rparr>"
  have e: "AddAbs a b r = StripZeros ?v" using l by (simp add: AddAbs_def lo_def hi_def)
  have "?h = lo + int (length ?o) - 1" using a(3) n by simp
  then have "aval ?v = lgval ?o lo" using gval_rev [of ?o lo] by (simp add: aval_def)
  moreover have "lgval (out @ [1]) lo = lgval out lo + 10000 powi (lo + int n)"
    using gval_rev [of "out @ [1]" lo] gval_rev [of out lo] a(3) by (simp add: algebra_simps)
  ultimately show "aval (AddAbs a b r) = aval a + aval b" using a(2,4) s by (auto simp: e StripZeros_simps)
  have "list_all group_ok (digits ?v)" using a(1) by (auto simp: list_all_iff group_ok_def)
  then show "list_all group_ok (digits (AddAbs a b r))" unfolding e by (rule StripZeros_simps(5))
  show "dscale (AddAbs a b r) = dscale r" "sign (AddAbs a b r) = kNumericPos" by (simp_all add: e StripZeros_simps)
qed

lemma SubAbs_value:
  assumes "list_all group_ok (digits a)" "list_all group_ok (digits b)" "aval b \<le> aval a"
  shows "aval (SubAbs a b r) = aval a - aval b" "list_all group_ok (digits (SubAbs a b r))"
    "dscale (SubAbs a b r) = dscale r" "sign (SubAbs a b r) = kNumericPos"
proof -
  define lo hi where "lo = min_pos a b" and "hi = max_pos a b"
  note p = positions [OF lo_def hi_def]
  obtain n where n: "hi = lo + int n - 1" using p(5) by blast
  obtain out c where l: "sub_loop a b 0 [lo..hi] = (out, c)" by fastforce
  have a: "list_all group_ok out" "c \<in> {0, 1}" "length out = n"
    "lgval out lo - of_int c * 10000 powi (lo + int n) =
      (\<Sum>p = lo..hi. (of_int (DigitAt a p) - of_int (DigitAt b p)) * 10000 powi p)"
    using sub_loop [OF assms(1,2), of 0 lo n out c] l n by simp_all
  have s: "(\<Sum>p = lo..hi. (of_int (DigitAt a p) - of_int (DigitAt b p)) * 10000 powi p) = aval a - aval b"
    using aval_positions [OF p(1,3)] aval_positions [OF p(2,4)] by (simp add: left_diff_distrib sum_subtractf)
  let ?v = "r\<lparr>digits := rev out, weight := hi, sign := kNumericPos\<rparr>"
  have e: "SubAbs a b r = StripZeros ?v" using l by (simp add: SubAbs_def lo_def hi_def)
  have v: "aval ?v = lgval out lo" using gval_rev [of out lo] a(3) n by (simp add: aval_def)
  have ok: "list_all group_ok (digits ?v)" using a(1) by (simp add: list_all_iff)
  have "lgval out lo < 10000 powi (lo + int n)" using gval_less [OF ok, of hi] v n by (simp add: aval_def)
  then have "c = 0" using a(2,4) s assms(3) by auto
  then show "aval (SubAbs a b r) = aval a - aval b" using a(4) s v by (simp add: e StripZeros_simps)
  show "list_all group_ok (digits (SubAbs a b r))" unfolding e by (rule StripZeros_simps(5) [OF ok])
  show "dscale (SubAbs a b r) = dscale r" "sign (SubAbs a b r) = kNumericPos" by (simp_all add: e StripZeros_simps)
qed

lemma rev_upto_Suc: "rev [lo..lo + int (Suc n) - 1] = (lo + int n) # rev [lo..lo + int n - 1]"
  by (simp add: upto_rec2)

lemma compare_loop_value:
  fixes lo :: int
  assumes "list_all group_ok (digits a)" "list_all group_ok (digits b)"
  defines "D \<equiv> \<lambda>n. (\<Sum>p = lo..lo + int n - 1. (of_int (DigitAt a p) - of_int (DigitAt b p)) * (10000::rat) powi p)"
  shows "compare_loop a b (rev [lo..lo + int n - 1]) = (if D n < 0 then -1 else if D n > 0 then 1 else 0) \<and>
    \<bar>D n\<bar> \<le> 10000 powi (lo + int n) - 10000 powi lo"
proof (induction n)
  case 0
  then show ?case by (simp add: D_def)
next
  case (Suc n)
  let ?p = "lo + int n"
  let ?i = "DigitAt a ?p - DigitAt b ?p"
  let ?e = "of_int (DigitAt a ?p) - of_int (DigitAt b ?p) :: rat"
  have "{lo..lo + int (Suc n) - 1} = insert ?p {lo..lo + int n - 1}" by auto
  then have D: "D (Suc n) = ?e * 10000 powi ?p + D n" by (simp add: D_def)
  have g: "group_ok (DigitAt a ?p)" "group_ok (DigitAt b ?p)" using assms(1,2) by (auto intro: DigitAt_ok)
  have lo: "(0::rat) < 10000 powi lo" by simp
  have e: "\<bar>?e\<bar> \<le> 9999"
  proof -
    have "\<bar>of_int ?i\<bar> \<le> (of_int 9999 :: rat)"
      unfolding of_int_abs [symmetric] of_int_le_iff using g by (auto simp: group_ok_def)
    then show ?thesis by simp
  qed
  have pw: "(10000::rat) powi (lo + int (Suc n)) = 10000 * 10000 powi ?p"
    using powi_step(1) [of ?p] by (simp add: algebra_simps)
  have "\<bar>?e * 10000 powi ?p\<bar> \<le> 9999 * 10000 powi ?p" using e by (simp add: abs_mult)
  then have b: "\<bar>D (Suc n)\<bar> \<le> 10000 powi (lo + int (Suc n)) - 10000 powi lo"
    unfolding D pw using Suc.IH by linarith
  have small: "\<bar>D n\<bar> < 10000 powi ?p" using Suc.IH lo by linarith
  have lt: "D (Suc n) < 0" if "DigitAt a ?p < DigitAt b ?p"
  proof -
    have "(of_int ?i :: rat) \<le> of_int (- 1)" unfolding of_int_le_iff using that by simp
    then have "?e \<le> -1" by simp
    then have "?e * 10000 powi ?p \<le> - (10000 powi ?p)" using mult_right_mono [of ?e "-1" "10000 powi ?p"] by simp
    then show ?thesis unfolding D using small by linarith
  qed
  have gt: "D (Suc n) > 0" if "DigitAt a ?p > DigitAt b ?p"
  proof -
    have "(of_int 1 :: rat) \<le> of_int ?i" unfolding of_int_le_iff using that by simp
    then have "1 \<le> ?e" by simp
    then have "10000 powi ?p \<le> ?e * 10000 powi ?p" using mult_right_mono [of 1 ?e "10000 powi ?p"] by simp
    then show ?thesis unfolding D using small by linarith
  qed
  show ?case unfolding rev_upto_Suc using lt gt b Suc.IH D by auto
qed

lemma CompareAbs_value:
  assumes "list_all group_ok (digits a)" "list_all group_ok (digits b)"
  shows "CompareAbs a b = (if aval a < aval b then -1 else if aval a > aval b then 1 else 0)"
proof -
  define lo hi where "lo = min_pos a b" and "hi = max_pos a b"
  note p = positions [OF lo_def hi_def]
  obtain n where n: "hi = lo + int n - 1" using p(5) by blast
  have "(\<Sum>p = lo..hi. (of_int (DigitAt a p) - of_int (DigitAt b p)) * 10000 powi p) = aval a - aval b"
    using aval_positions [OF p(1,3)] aval_positions [OF p(2,4)] by (simp add: left_diff_distrib sum_subtractf)
  then show ?thesis using compare_loop_value [OF assms, of lo n] n
    by (simp add: CompareAbs_def lo_def [symmetric] hi_def [symmetric])
qed


subsection \<open>Signed operations\<close>

lemma num_okD:
  assumes "num_ok v"
  shows "list_all group_ok (digits v)" "sign v \<noteq> kNumericNeg \<Longrightarrow> sign v = kNumericPos" "0 \<le> aval v"
    "aval v = 0 \<longleftrightarrow> IsZero v" "IsZero v \<Longrightarrow> nval v = 0" "dscale v \<ge> 0" "sign v = kNumericPos \<or> sign v = kNumericNeg"
  using assms gval_nonneg gval_zero_iff by (auto simp: num_ok_def aval_def IsZero_def nval_def num_consts)

lemma nval_sign: "nval (v\<lparr>sign := s\<rparr>) = (if s = kNumericNeg then - aval v else aval v)"
  by (simp add: nval_def aval_def)

lemma upd_simps [simp]:
  "aval (v\<lparr>sign := s\<rparr>) = aval v" "aval (v\<lparr>dscale := n\<rparr>) = aval v" "nval (v\<lparr>dscale := n\<rparr>) = nval v"
  "IsZero (v\<lparr>sign := s\<rparr>) = IsZero v" "IsZero (v\<lparr>dscale := n\<rparr>) = IsZero v"
  by (simp_all add: aval_def nval_def IsZero_def)

lemma default_simps [simp]: "digits NumericVar_default = []" "sign NumericVar_default = kNumericPos" "dscale NumericVar_default = 0"
  "weight NumericVar_default = 0" "nval NumericVar_default = 0" "IsZero NumericVar_default" "aval NumericVar_default = 0"
  by (simp_all add: NumericVar_default_def nval_def aval_def IsZero_def num_consts)

lemma num_ok_signed:
  assumes "list_all group_ok (digits v)" "s \<in> {kNumericPos, kNumericNeg}" "dscale v \<ge> 0"
  shows "num_ok (zero_positive (v\<lparr>sign := s\<rparr>))"
  using assms by (auto simp: num_ok_def)

lemma AddVar_value:
  assumes a: "num_ok a" and b: "num_ok b"
  shows "nval (AddVar a b NumericVar_default) = nval a + nval b" "num_ok (AddVar a b NumericVar_default)"
proof -
  note A = num_okD [OF a] and B = num_okD [OF b]
  note add = AddAbs_value [OF A(1) B(1), of NumericVar_default] and cmp = CompareAbs_value [OF A(1) B(1)]
  note s1 = SubAbs_value [OF A(1) B(1), of NumericVar_default] and s2 = SubAbs_value [OF B(1) A(1), of NumericVar_default]
  have s: "sign a = sign b \<or> sign a = kNumericPos \<and> sign b = kNumericNeg \<or> sign a = kNumericNeg \<and> sign b = kNumericPos"
    using A(7) B(7) by auto
  show "nval (AddVar a b NumericVar_default) = nval a + nval b"
    using s A(5) B(5) add(1) cmp s1(1) s2(1)
    by (auto simp: AddVar_def Let_def nval_sign) (auto simp: nval_def num_consts)
  show "num_ok (AddVar a b NumericVar_default)"
    using A(7) B(7) add(2,3) cmp s1(2,3) s2(2,3) a b
    by (auto simp: AddVar_def Let_def intro!: num_ok_signed) (auto simp: num_ok_def)
qed

lemma SubVar_value:
  assumes a: "num_ok a" and b: "num_ok b"
  shows "nval (SubVar a b NumericVar_default) = nval a - nval b" "num_ok (SubVar a b NumericVar_default)"
proof -
  let ?b = "if \<not> IsZero b then b\<lparr>sign := (if sign b = kNumericPos then kNumericNeg else kNumericPos)\<rparr> else b"
  have "num_ok ?b" using b by (auto simp: num_ok_def)
  moreover have "nval ?b = - nval b" using num_okD(5,7) [OF b] by (auto simp: nval_sign) (auto simp: nval_def num_consts)
  ultimately show "nval (SubVar a b NumericVar_default) = nval a - nval b" "num_ok (SubVar a b NumericVar_default)"
    using AddVar_value [OF a, of ?b] by (simp_all add: SubVar_def Let_def)
qed

lemma Ensure_value: "nval (EnsureFracCoverage v) = nval v" "num_ok v \<Longrightarrow> num_ok (EnsureFracCoverage v)"
  "dscale (EnsureFracCoverage v) = dscale v"
  by (auto simp: EnsureFracCoverage_def Let_def nval_def aval_def gval_append num_ok_def IsZero_def list_all_iff group_ok_def)

lemma CompareSigned_value:
  assumes a: "num_ok a" and b: "num_ok b"
  shows "CompareSigned a b = (if nval a < nval b then -1 else if nval a > nval b then 1 else 0)"
proof -
  note A = num_okD [OF a] and B = num_okD [OF b]
  have pos: "\<not> IsZero a \<Longrightarrow> 0 < aval a" "\<not> IsZero b \<Longrightarrow> 0 < aval b" using A(3,4) B(3,4) by auto
  consider "IsZero a \<or> IsZero b" | "\<not> IsZero a" "\<not> IsZero b" "sign a \<noteq> sign b" | "\<not> IsZero a" "\<not> IsZero b" "sign a = sign b" by blast
  then show ?thesis
  proof cases
    case 1
    then show ?thesis using A(5,7) B(5,7) pos by (auto simp: CompareSigned_def nval_def num_consts)
  next
    case 2
    then show ?thesis using A(7) B(7) pos by (auto simp: CompareSigned_def nval_def num_consts)
  next
    case 3
    then show ?thesis using CompareAbs_value [OF A(1) B(1)] by (auto simp: CompareSigned_def nval_def num_consts)
  qed
qed


subsection \<open>Multiplication\<close>

lemma gval_shift: "gval ds (w + s) = 10000 powi s * gval ds w"
proof (induction ds arbitrary: w)
  case (Cons d ds)
  show ?case using Cons.IH [of "w - 1"] by (simp add: power_int_add algebra_simps)
qed simp

lemma gval_update: "k < length ds \<Longrightarrow> gval (ds[k := x]) w = gval ds w + (of_int x - of_int (ds ! k)) * 10000 powi (w - int k)"
proof (induction ds arbitrary: k w)
  case (Cons d ds)
  show ?case
  proof (cases k)
    case (Suc j)
    then show ?thesis using Cons.IH [of j "w - 1"] Cons.prems by (simp add: diff_diff_eq)
  qed (simp add: algebra_simps)
qed simp

lemma wrap32_pos: "0 \<le> x \<Longrightarrow> x < 2147483648 \<Longrightarrow> wrap32 x = x"
  by (rule wrap32_id) auto

text \<open>The largest product of two groups, and the number of products that meet in one accumulator.\<close>

definition max_product :: int where "max_product = 99980001"

definition row_count :: "nat \<Rightarrow> nat \<Rightarrow> nat \<Rightarrow> int" where
  "row_count nb r j = int (min r j - (j - nb))"

lemma product_bound: "group_ok a \<Longrightarrow> group_ok b \<Longrightarrow> 0 \<le> a * b \<and> a * b \<le> max_product"
  using mult_mono [of a 9999 b 9999] by (simp add: group_ok_def max_product_def)

lemma mul_row_facts:
  assumes "group_ok av" "list_all group_ok bs" "k + length bs \<le> length accum"
    "\<And>j. k \<le> j \<Longrightarrow> j < k + length bs \<Longrightarrow> 0 \<le> accum ! j \<and> accum ! j \<le> 20 * max_product"
  shows "length (mul_row av bs k accum) = length accum \<and>
    gval (mul_row av bs k accum) w = gval accum w + of_int av * gval bs (w - int k) \<and>
    (\<forall>j < length accum. accum ! j \<le> mul_row av bs k accum ! j \<and>
       mul_row av bs k accum ! j \<le> accum ! j + (if k \<le> j \<and> j < k + length bs then max_product else 0))"
  using assms
proof (induction av bs k accum rule: mul_row.induct)
  case (2 av bv bs k accum)
  let ?x = "accum ! k + av * bv" and ?a = "accum[k := wrap32 (accum ! k + av * bv)]"
  have p: "0 \<le> av * bv \<and> av * bv \<le> max_product" using 2 by (intro product_bound) auto
  moreover have "0 \<le> accum ! k \<and> accum ! k \<le> 20 * max_product" using "2.prems"(4) [of k] by auto
  ultimately have x: "wrap32 ?x = ?x" by (intro wrap32_pos) (auto simp: max_product_def)
  have h: "group_ok av" "list_all group_ok bs" "Suc k + length bs \<le> length ?a"
    "\<And>j. Suc k \<le> j \<Longrightarrow> j < Suc k + length bs \<Longrightarrow> 0 \<le> ?a ! j \<and> ?a ! j \<le> 20 * max_product"
    using "2.prems" by auto
  note IH = "2.IH" [OF h]
  have "accum ! j \<le> mul_row av (bv # bs) k accum ! j \<and> mul_row av (bv # bs) k accum ! j \<le>
      accum ! j + (if k \<le> j \<and> j < k + length (bv # bs) then max_product else 0)" if "j < length accum" for j
  proof (cases "j = k")
    case True
    then show ?thesis using IH that x p by auto
  next
    case False
    then have "?a ! j = accum ! j" "Suc k \<le> j \<longleftrightarrow> k \<le> j" by auto
    then show ?thesis using IH that by auto
  qed
  then show ?case using IH x "2.prems"(3) by (simp add: gval_update algebra_simps diff_diff_eq)
qed auto

lemmas mul_row = mul_row_facts [THEN conjunct1] mul_row_facts [THEN conjunct2, THEN conjunct1]
  mul_row_facts [THEN conjunct2, THEN conjunct2, rule_format]

lemma mul_rows:
  assumes "list_all group_ok as" "list_all group_ok bs" "Suc r + length as + length bs \<le> Suc (length accum)"
    "\<And>j. j < length accum \<Longrightarrow> 0 \<le> accum ! j \<and> accum ! j \<le> row_count (length bs) r j * max_product"
    "r + length as \<le> 21 \<or> length bs \<le> 21"
  shows "length (mul_rows as bs (Suc r) accum) = length accum \<and>
    gval (mul_rows as bs (Suc r) accum) w = gval accum w + gval as (w - int (Suc r) - wb) * gval bs wb \<and>
    (\<forall>j < length accum. 0 \<le> mul_rows as bs (Suc r) accum ! j \<and>
       mul_rows as bs (Suc r) accum ! j \<le> 21 * max_product)"
  using assms
proof (induction as arbitrary: r accum)
  case Nil
  have "row_count (length bs) r j * max_product \<le> 21 * max_product" for j
    using Nil.prems(5) by (intro mult_right_mono) (auto simp: row_count_def max_product_def)
  then show ?case using Nil.prems(4) by (auto intro: order_trans)
next
  case (Cons av as)
  let ?a = "if av = 0 then accum else mul_row av bs (Suc r) accum"
  have step: "row_count (length bs) (Suc r) j = row_count (length bs) r j + (if Suc r \<le> j \<and> j < Suc r + length bs then 1 else 0)" for j
    by (auto simp: row_count_def)
  have "0 \<le> accum ! j \<and> accum ! j \<le> 20 * max_product" if j: "Suc r \<le> j" "j < Suc r + length bs" for j
  proof -
    have "row_count (length bs) (Suc r) j \<le> 21" using Cons.prems(5) by (auto simp: row_count_def)
    then have "row_count (length bs) r j * max_product \<le> 20 * max_product"
      using j by (intro mult_right_mono) (auto simp: step max_product_def)
    moreover have "j < length accum" using Cons.prems(3) j by simp
    ultimately show ?thesis using Cons.prems(4) [of j] by linarith
  qed
  note row = mul_row [OF _ Cons.prems(2) _ this, of av]
  have g: "group_ok av" "Suc r + length bs \<le> length accum" using Cons.prems by auto
  have a: "length ?a = length accum" "gval ?a w = gval accum w + of_int av * gval bs (w - int (Suc r))"
    using row [OF g] by auto
  have b: "0 \<le> ?a ! j \<and> ?a ! j \<le> row_count (length bs) (Suc r) j * max_product" if "j < length ?a" for j
    using row(3) [OF g, of j] Cons.prems(4) [of j] that a(1) unfolding step
    by (auto simp: algebra_simps max_product_def split: if_splits)
  have IH: "length (mul_rows as bs (Suc (Suc r)) ?a) = length ?a \<and>
    gval (mul_rows as bs (Suc (Suc r)) ?a) w = gval ?a w + gval as (w - int (Suc (Suc r)) - wb) * gval bs wb \<and>
    (\<forall>j < length ?a. 0 \<le> mul_rows as bs (Suc (Suc r)) ?a ! j \<and> mul_rows as bs (Suc (Suc r)) ?a ! j \<le> 21 * max_product)"
    using Cons.prems a(1) by (intro Cons.IH b) auto
  have "gval bs (w - int (Suc r)) = 10000 powi (w - int (Suc r) - wb) * gval bs wb"
    unfolding gval_shift [symmetric] by (simp add: algebra_simps)
  then show ?case using IH a by (simp add: algebra_simps diff_diff_eq)
qed

lemma of_int_groups: "of_int x = (10000::rat) * of_int (x div kNBase) + of_int (x mod kNBase)"
proof -
  have "(of_int (10000 * (x div kNBase) + x mod kNBase) :: rat) = of_int x" by (simp only: kNBase_def mult_div_mod_eq)
  then show ?thesis by (simp only: of_int_add of_int_mult of_int_numeral)
qed

lemma mul_carry:
  assumes "i < length accum" "\<And>j. j \<le> i \<Longrightarrow> 0 \<le> accum ! j" "\<And>j. j < i \<Longrightarrow> accum ! j \<le> 21 * max_product"
    "accum ! i \<le> 21 * max_product + 209980"
  shows "length (mul_carry i accum) = length accum \<and> gval (mul_carry i accum) w = gval accum w \<and>
    0 \<le> mul_carry i accum ! 0 \<and> (\<forall>j. 0 < j \<and> j \<le> i \<longrightarrow> group_ok (mul_carry i accum ! j)) \<and>
    (\<forall>j > i. mul_carry i accum ! j = accum ! j)"
  using assms
proof (induction i arbitrary: accum)
  case 0
  then show ?case by simp
next
  case (Suc i)
  let ?a = "if accum ! Suc i \<ge> kNBase
     then accum[i := wrap32 (accum ! i + accum ! Suc i div kNBase), Suc i := accum ! Suc i mod kNBase] else accum"
  have d: "0 \<le> accum ! Suc i div kNBase" "accum ! Suc i div kNBase \<le> 209980"
    using Suc.prems(2) [of "Suc i"] Suc.prems(4) by (auto simp: kNBase_def max_product_def)
  then have x: "wrap32 (accum ! i + accum ! Suc i div kNBase) = accum ! i + accum ! Suc i div kNBase"
    using Suc.prems(2) [of i] Suc.prems(3) [of i] by (intro wrap32_pos) (auto simp: max_product_def)
  have "of_int (accum ! Suc i) = (10000::rat) * of_int (accum ! Suc i div kNBase) + of_int (accum ! Suc i mod kNBase)"
    by (rule of_int_groups)
  then have v: "gval ?a w = gval accum w"
    using Suc.prems(1) x powi_step(2) [of "w - int i"]
    by (simp add: gval_update algebra_simps diff_diff_eq)
  have h: "i < length ?a" "\<And>j. j \<le> i \<Longrightarrow> 0 \<le> ?a ! j" "\<And>j. j < i \<Longrightarrow> ?a ! j \<le> 21 * max_product"
    "?a ! i \<le> 21 * max_product + 209980"
    using Suc.prems x d by (auto simp: nth_list_update)
      (use Suc.prems(3) [of i] d in linarith)+
  have g: "group_ok (?a ! Suc i)" "\<And>j. j > Suc i \<Longrightarrow> ?a ! j = accum ! j"
    using Suc.prems(1,2) by (auto simp: group_ok_def kNBase_def)
  show ?case using Suc.IH [OF h] v g
    by (auto simp: le_Suc_eq)
qed

lemma MulVar_value:
  assumes a: "num_ok a" and b: "num_ok b" and n: "length (digits a) \<le> 21 \<or> length (digits b) \<le> 21"
  shows "nval (MulVar a b NumericVar_default) = nval a * nval b" "num_ok (MulVar a b NumericVar_default)"
proof -
  note A = num_okD [OF a] and B = num_okD [OF b]
  let ?hi = "weight a + weight b + 1" and ?n = "length (digits a) + length (digits b)"
  define m where "m = mul_rows (digits a) (digits b) 1 (replicate (?n + 1) 0)"
  define c where "c = mul_carry ?n m"
  have N: "nat (?hi - (weight a - NDigits a + 1 + (weight b - NDigits b + 1)) + 1) = ?n"
    by (simp add: NDigits_def)
  have "0 \<le> replicate (?n + 1) (0::int) ! j \<and> replicate (?n + 1) 0 ! j \<le> row_count (length (digits b)) 0 j * max_product"
    if "j < length (replicate (?n + 1) (0::int))" for j
    using that by (simp add: row_count_def del: replicate.simps)
  from mul_rows [OF A(1) B(1) _ this, of ?hi "weight b"] n
  have m: "length m = ?n + 1" "gval m ?hi = aval a * aval b" "\<And>j. j \<le> ?n \<Longrightarrow> 0 \<le> m ! j \<and> m ! j \<le> 21 * max_product"
    by (simp_all add: aval_def m_def del: replicate.simps)
  have "?n < length m" "\<And>j. j \<le> ?n \<Longrightarrow> 0 \<le> m ! j" "\<And>j. j < ?n \<Longrightarrow> m ! j \<le> 21 * max_product"
    "m ! ?n \<le> 21 * max_product + 209980"
    using m(1,3) m(3) [OF order.refl] by (simp_all add: add_increasing2)
  note car = mul_carry [OF this, of ?hi]
  have c: "length c = ?n + 1" "gval c ?hi = aval a * aval b" "0 \<le> c ! 0" "\<And>j. 0 < j \<Longrightarrow> j \<le> ?n \<Longrightarrow> group_ok (c ! j)"
    using car m(1,2) by (simp_all add: c_def)
  obtain c0 cs where cs: "c = c0 # cs" "list_all group_ok cs"
  proof (cases c)
    case (Cons c0 cs)
    then have "group_ok (cs ! j)" if "j < length cs" for j using that c(1) c(4) [of "Suc j"] by simp
    then have "list_all group_ok cs" by (simp add: list_all_length)
    with Cons show ?thesis by (intro that) simp_all
  qed (use c(1) in simp)
  have "aval a * aval b < 10000 powi (weight a + 1) * 10000 powi (weight b + 1)"
    using A(3) B(3) gval_less A(1) B(1) unfolding aval_def by (intro mult_strict_mono) auto
  also have "\<dots> = 10000 * 10000 powi ?hi" by (simp add: power_int_add [symmetric] flip: powi_step(1)) 
  finally have "of_int c0 * 10000 powi ?hi < (10000::rat) * 10000 powi ?hi"
    using c(2) gval_nonneg [OF cs(2), of "?hi - 1"] unfolding cs(1) gval.simps by linarith
  then have c0: "c ! 0 < 10000" unfolding cs(1) by simp
  then have ok: "list_all group_ok c" using cs c(3) by (simp add: group_ok_def)
  then have cast: "map cast16 c = c" by (intro map_idI cast16_id) (auto simp: list_all_iff group_ok_def)
  let ?r = "\<lparr>digits = c, weight = ?hi, sign = (if sign a = sign b then kNumericPos else kNumericNeg), dscale = dscale a + dscale b\<rparr>"
  have r: "MulVar a b NumericVar_default = (if IsZero a \<or> IsZero b then NumericVar_default else zero_positive (StripZeros ?r))"
    unfolding MulVar_def Let_def N m_def [symmetric] c_def [symmetric] using c0 cast by (simp add: kNBase_def NumericVar_default_def)
  have s: "sign a = kNumericPos \<or> sign a = kNumericNeg" "sign b = kNumericPos \<or> sign b = kNumericNeg" using A(7) B(7) by auto
  show "nval (MulVar a b NumericVar_default) = nval a * nval b"
    using A(5) B(5) c(2) s by (auto simp: r) (auto simp: nval_def aval_def num_consts)
  show "num_ok (MulVar a b NumericVar_default)"
    using A(6) B(6) StripZeros_simps [of ?r] ok by (auto simp: r num_ok_def list_all_iff)
qed

end
