(* ===== verification/NumericRound.thy ===== *)
theory NumericRound
  imports NumericArith
begin

text \<open>
  Truncation, rounding, ceiling and floor of \<^verbatim>\<open>numeric.cpp\<close>, and the conversion from and to 64-bit
  integers, on the rational values.
\<close>

subsection \<open>Truncation\<close>

lemma gval_int: "\<exists>N. gval ds w = of_int N * 10000 powi (w - int (length ds) + 1)"
proof (induction ds arbitrary: w rule: rev_induct)
  case (snoc d ds)
  obtain N where "gval ds w = of_int N * 10000 powi (w - int (length ds) + 1)" using snoc by blast
  then have "gval (ds @ [d]) w = of_int (N * 10000 + d) * 10000 powi (w - int (length (ds @ [d])) + 1)"
    using powi_step(1) [of "w - int (length ds)"] by (simp add: gval_append algebra_simps)
  then show ?case by blast
qed (auto intro: exI [of _ 0])

lemma powi_4: "(10000::rat) powi k = 10 powi (4 * k)"
  using power_int_mult [of "10::rat" 4 k] by simp

lemma scale_split:
  assumes "0 \<le> nd" "nd \<le> 4 * g"
  shows "(10000::rat) powi (- g) * 10 ^ nat nd = 1 / 10 ^ nat (4 * g - nd)"
proof -
  have "(10000::rat) powi (- g) * 10 ^ nat nd = 10 powi (4 * (- g) + nd)"
    unfolding powi_4 using assms by (subst power_int_add) (simp_all flip: power_int_of_nat)
  also have "\<dots> = 10 powi (- int (nat (4 * g - nd)))" using assms by simp
  also have "\<dots> = 1 / 10 ^ nat (4 * g - nd)" by (simp only: power_int_minus power_int_of_nat inverse_eq_divide)
  finally show ?thesis .
qed

lemma floor_div_frac:
  fixes t :: rat
  assumes "0 \<le> t" "t < 1" "0 < m"
  shows "\<lfloor>(of_int x + t) / of_int m\<rfloor> = x div m"
proof (rule floor_unique)
  have "m * (x div m) + x mod m = x" "0 \<le> x mod m" "x mod m \<le> m - 1" using assms(3) by auto
  then have "m * (x div m) \<le> x" "x + 1 \<le> m * (x div m + 1)" unfolding distrib_left by linarith+
  then have "(of_int (m * (x div m)) :: rat) \<le> of_int x" "(of_int (x + 1) :: rat) \<le> of_int (m * (x div m + 1))"
    unfolding of_int_le_iff .
  then show "of_int (x div m) \<le> (of_int x + t) / of_int m" "(of_int x + t) / of_int m < of_int (x div m) + 1"
    using assms by (auto simp: field_simps)
qed

lemma gval_middle:
  assumes "gval xs w = of_int N * 10000 powi (- g + 1)" "w - int (length xs) = - g"
  shows "gval (xs @ d # ys) w = (of_int (N * 10000 + d) + gval ys (-1)) * 10000 powi (- g)"
proof -
  have "- g - 1 = - 1 + - g" by simp
  then have "gval ys (- g - 1) = 10000 powi (- g) * gval ys (- 1)" by (simp only: gval_shift)
  then show ?thesis unfolding gval_append gval.simps assms powi_step(1) by (simp add: algebra_simps)
qed

definition trunc_digits :: "int \<Rightarrow> NumericVar \<Rightarrow> int list" where
  "trunc_digits nd v = (let g = (nd + 3) div 4; m = 10 ^ nat (4 * g - nd); idx = weight v + g in
     if idx < 0 then [] else if idx \<ge> NDigits v then digits v
     else take (nat idx) (digits v) @ [digits v ! nat idx div m * m])"

lemma div_mult_group: "group_ok d \<Longrightarrow> 0 < m \<Longrightarrow> group_ok (d div m * m)"
proof -
  assume "group_ok d" "0 < m"
  moreover from this have "d div m * m \<le> d" using div_mult_mod_eq [of d m] pos_mod_sign [of m d] by linarith
  ultimately show ?thesis by (auto simp: group_ok_def pos_imp_zdiv_nonneg_iff)
qed

lemma TruncToScale_digits:
  assumes v: "list_all group_ok (digits v)" and nd: "0 \<le> nd"
  shows "TruncToScale v nd = zero_positive (StripZeros (v\<lparr>digits := trunc_digits nd v, dscale := nd\<rparr>))"
proof -
  define g where "g = (nd + 3) div 4"
  define idx where "idx = weight v - - g"
  define m where "m = (10::int) ^ nat (4 * g - nd)"
  define ds where "ds = (if 0 \<le> idx \<and> idx < NDigits v then (digits v)[nat idx := digits v ! nat idx div m * m] else digits v)"
  have k: "4 - (nd - 4 * (g - 1)) = 4 * g - nd" "nd - 4 * (g - 1) \<le> 4" by (auto simp: g_def)
  have m1: "m = 1" if "\<not> (g > 0 \<and> nd - 4 * (g - 1) < 4)" using that nd by (auto simp: g_def m_def)
  have c: "cast16 (digits v ! nat idx div m * m) = digits v ! nat idx div m * m" if "0 \<le> idx" "idx < NDigits v"
    using v that by (intro cast16_id div_mult_group) (auto simp: list_all_length NDigits_def m_def)
  have v1: "(if g > 0 \<and> nd - 4 * (g - 1) < 4 \<and> idx \<ge> 0 \<and> idx < NDigits v
     then v\<lparr>digits := (digits v)[nat idx := cast16 (digits v ! nat idx div m * m)]\<rparr> else v) = v\<lparr>digits := ds\<rparr>"
  proof (cases "g > 0 \<and> nd - 4 * (g - 1) < 4")
    case False
    then have "ds = digits v" using m1 by (simp add: ds_def)
    then show ?thesis using False by auto
  qed (auto simp: ds_def c)
  have k2: "(if idx + 1 < 0 then 0 else nat (idx + 1)) = nat (idx + 1)" by simp
  have "trunc_digits nd v = take (nat (idx + 1)) ds"
  proof -
    consider "idx < 0" | "idx \<ge> NDigits v" "0 \<le> idx" | "0 \<le> idx" "idx < NDigits v" by linarith
    then show ?thesis
    proof cases
      case 3
      then have i: "nat idx < length (digits v)" "nat (idx + 1) = Suc (nat idx)" by (auto simp: NDigits_def)
      show ?thesis using 3 i unfolding trunc_digits_def Let_def g_def [symmetric] m_def [symmetric]
        by (simp add: ds_def idx_def take_Suc_conv_app_nth)
    qed (auto simp: trunc_digits_def Let_def ds_def NDigits_def idx_def g_def)
  qed
  then have v2: "(if nat (idx + 1) < length (digits (v\<lparr>digits := ds\<rparr>)) then (v\<lparr>digits := ds\<rparr>)\<lparr>digits := take (nat (idx + 1)) (digits (v\<lparr>digits := ds\<rparr>))\<rparr>
     else v\<lparr>digits := ds\<rparr>) = v\<lparr>digits := trunc_digits nd v\<rparr>" by simp
  show ?thesis
    unfolding TruncToScale_def Let_def g_def [symmetric] idx_def [symmetric] k(1) m_def [symmetric] v1 k2 v2 ..
qed

lemma TruncToScale_value:
  assumes v: "list_all group_ok (digits v)" and nd: "0 \<le> nd"
  shows "aval (TruncToScale v nd) = of_int \<lfloor>aval v * 10 ^ nat nd\<rfloor> / 10 ^ nat nd"
    "list_all group_ok (digits (TruncToScale v nd))" "dscale (TruncToScale v nd) = nd"
    "sign (TruncToScale v nd) = (if IsZero (TruncToScale v nd) then kNumericPos else sign v)"
proof -
  let ?g = "(nd + 3) div 4" let ?m = "10 ^ nat (4 * ?g - nd) :: int" let ?idx = "weight v + ?g"
  let ?s = "10 ^ nat nd :: rat" let ?u = "10000 powi (- ?g) :: rat"
  have g: "nd \<le> 4 * ?g" "4 * ?g - nd \<le> 3" by auto
  have us: "?u * ?s = 1 / of_int ?m" using scale_split [OF nd g(1)] by simp
  have m: "0 < ?m" "?m dvd 10000"
  proof -
    have "(10::int) ^ nat (4 * ?g - nd) dvd 10 ^ 4" using g by (intro le_imp_power_dvd) auto
    then show "?m dvd 10000" by simp
  qed simp
  then obtain q where q: "10000 = ?m * q" by (auto elim: dvdE)
  have key: "gval (trunc_digits nd v) (weight v) * ?s = of_int \<lfloor>aval v * ?s\<rfloor>"
  proof -
    consider "?idx < 0" | "?idx \<ge> NDigits v" "0 \<le> ?idx" | "0 \<le> ?idx" "?idx < NDigits v" by linarith
    then show ?thesis
    proof cases
      case 1
      have "aval v < 10000 powi (weight v + 1)" using gval_less v by (simp add: aval_def)
      also have "\<dots> \<le> ?u" using 1 by (intro power_int_increasing) auto
      finally have "aval v * ?s < 1 / of_int ?m" unfolding us [symmetric] by simp
      also have "\<dots> \<le> 1" using m(1) by simp
      finally have "\<lfloor>aval v * ?s\<rfloor> = 0" using gval_nonneg [OF v] by (intro floor_unique) (auto simp: aval_def)
      then show ?thesis using 1 by (simp add: trunc_digits_def)
    next
      case 2
      obtain N where N: "aval v = of_int N * 10000 powi (weight v - int (length (digits v)) + 1)"
        using gval_int aval_def by metis
      let ?e = "4 * (weight v - int (length (digits v)) + 1) + nd"
      have e: "0 \<le> ?e" using 2 g(2) by (simp add: NDigits_def)
      have "aval v * ?s = of_int N * 10 powi ?e"
        unfolding N powi_4 using nd by (subst power_int_add) (simp_all flip: power_int_of_nat)
      also have "\<dots> = of_int (N * 10 ^ nat ?e)" using e by (simp flip: power_int_of_nat)
      finally have "aval v * ?s = of_int \<lfloor>aval v * ?s\<rfloor>" by simp
      then show ?thesis using 2 by (simp add: trunc_digits_def aval_def)
    next
      case 3
      define i where "i = nat ?idx"
      have i: "i < length (digits v)" "weight v - int i = - ?g" using 3 by (auto simp: NDigits_def i_def)
      let ?xs = "take i (digits v)" and ?d = "digits v ! i" and ?t = "gval (drop (Suc i) (digits v)) (-1)"
      obtain N where N: "gval ?xs (weight v) = of_int N * 10000 powi (- ?g + 1)"
        using gval_int [of ?xs "weight v"] i by (auto simp: min_def)
      have "aval v = gval (?xs @ ?d # drop (Suc i) (digits v)) (weight v)"
        unfolding aval_def by (rule arg_cong [where f = "\<lambda>ds. gval ds (weight v)", OF id_take_nth_drop [OF i(1)]])
      also have "\<dots> = (of_int (N * 10000 + ?d) + ?t) * ?u"
        using i by (intro gval_middle N) auto
      finally have "aval v * ?s = (of_int (N * 10000 + ?d) + ?t) * (?u * ?s)" by simp
      then have av: "aval v * ?s = (of_int (N * 10000 + ?d) + ?t) / of_int ?m" unfolding us by simp
      have ok: "list_all group_ok (drop (Suc i) (digits v))" using v by (auto simp: list_all_iff dest: in_set_dropD)
      have "\<lfloor>aval v * ?s\<rfloor> = (N * 10000 + ?d) div ?m"
        unfolding av using gval_nonneg [OF ok] gval_less [OF ok, of "-1"] m(1) by (intro floor_div_frac) auto
      also have "N * 10000 + ?d = ?d + N * q * ?m" unfolding q by (simp add: algebra_simps)
      also have "\<dots> div ?m = N * q + ?d div ?m" using m(1) by (intro div_mult_self1) simp
      finally have f: "\<lfloor>aval v * ?s\<rfloor> = N * q + ?d div ?m" .
      have "gval (?xs @ [?d div ?m * ?m]) (weight v) = of_int (N * 10000 + ?d div ?m * ?m) * ?u"
        using gval_middle [OF N, of "?d div ?m * ?m" "[]"] i by simp
      also have "N * 10000 + ?d div ?m * ?m = (N * q + ?d div ?m) * ?m" unfolding q by (simp add: algebra_simps)
      finally have "gval (?xs @ [?d div ?m * ?m]) (weight v) * ?s = of_int ((N * q + ?d div ?m) * ?m) * (?u * ?s)" by simp
      also have "\<dots> = of_int (N * q + ?d div ?m)" unfolding us using m(1) by simp
      finally show ?thesis using 3 unfolding f by (simp add: trunc_digits_def Let_def i_def)
    qed
  qed
  note T = TruncToScale_digits [OF v nd]
  show "aval (TruncToScale v nd) = of_int \<lfloor>aval v * 10 ^ nat nd\<rfloor> / 10 ^ nat nd"
  proof -
    have "aval (TruncToScale v nd) = gval (trunc_digits nd v) (weight v)"
      unfolding T by (simp add: StripZeros_simps) (simp add: aval_def)
    then show ?thesis using key by (simp add: field_simps)
  qed
  have "list_all group_ok (trunc_digits nd v)"
    using v m(1) by (auto simp: trunc_digits_def Let_def list_all_iff NDigits_def intro!: div_mult_group dest: in_set_takeD)
  then show "list_all group_ok (digits (TruncToScale v nd))"
    unfolding T using StripZeros_simps(5) [of "v\<lparr>digits := trunc_digits nd v, dscale := nd\<rparr>"] by simp
  show "dscale (TruncToScale v nd) = nd" unfolding T by (simp add: StripZeros_simps)
  show "sign (TruncToScale v nd) = (if IsZero (TruncToScale v nd) then kNumericPos else sign v)"
    unfolding T by (simp add: StripZeros_simps)
qed


lemma TruncVar_value:
  assumes v: "num_ok v" and nd: "0 \<le> nd" "nd < dscale v"
  shows "aval (TruncVar v nd) = of_int \<lfloor>aval v * 10 ^ nat nd\<rfloor> / 10 ^ nat nd" "num_ok (TruncVar v nd)" "dscale (TruncVar v nd) = nd"
    "sign (TruncVar v nd) = (if IsZero (TruncVar v nd) then kNumericPos else sign v)"
  using TruncToScale_value [OF num_okD(1) [OF v] nd(1)] num_okD [OF v] nd
  by (auto simp: TruncVar_def num_ok_def)

subsection \<open>Rounding\<close>

definition half_unit :: "int \<Rightarrow> NumericVar" where
  "half_unit nd = NumericVar_default\<lparr>digits := [5 * 10 ^ nat (3 - nd mod 4)], weight := - (nd div 4) - 1\<rparr>"

lemma half_unit:
  assumes "0 \<le> nd"
  shows "list_all group_ok (digits (half_unit nd))" "aval (half_unit nd) = 1 / 2 / 10 ^ nat nd"
proof -
  have "(10::int) ^ nat (3 - nd mod 4) \<le> 10 ^ 3" by (intro power_increasing) auto
  then show "list_all group_ok (digits (half_unit nd))" by (simp add: half_unit_def group_ok_def)
  let ?g = "nd div 4 + 1" let ?k = "3 - nd mod 4"
  have "4 * ?g - nd = ?k + 1" using mult_div_mod_eq [of 4 nd] unfolding distrib_left by linarith
  moreover have "0 \<le> ?k" by simp
  ultimately have "nat (4 * ?g - nd) = Suc (nat ?k)" by (simp only: nat_add_distrib)
  then have u: "(10000::rat) powi (- ?g) * 10 ^ nat nd = 1 / 10 ^ Suc (nat ?k)" using scale_split [of nd ?g] assms by simp
  have "aval (half_unit nd) * 10 ^ nat nd = 5 * 10 ^ nat ?k * (10000 powi (- ?g) * 10 ^ nat nd)"
    by (simp add: half_unit_def aval_def)
  also have "\<dots> = 1 / 2" unfolding u by simp
  finally show "aval (half_unit nd) = 1 / 2 / 10 ^ nat nd" by (simp add: field_simps)
qed

lemma RoundVar_value:
  assumes v: "num_ok v" and nd: "0 \<le> nd" "nd < dscale v"
  shows "aval (RoundVar v nd) = of_int \<lfloor>aval v * 10 ^ nat nd + 1 / 2\<rfloor> / 10 ^ nat nd" "num_ok (RoundVar v nd)" "dscale (RoundVar v nd) = nd"
    "sign (RoundVar v nd) = (if IsZero (RoundVar v nd) then kNumericPos else sign v)"
proof -
  have g: "(nd + 4) div 4 = nd div 4 + 1" "nd + 1 - 4 * (nd div 4 + 1 - 1) = nd mod 4 + 1" "4 - (nd mod 4 + 1) = 3 - nd mod 4"
    by (simp_all add: minus_mult_div_eq_mod)
  note h = half_unit [OF nd(1)]
  have a: "NumericVar_default\<lparr>digits := [cast16 (5 * 10 ^ nat (3 - nd mod 4))], weight := - (nd div 4 + 1)\<rparr> = half_unit nd"
    using h(1) by (simp add: half_unit_def)
  let ?s = "zero_positive ((AddAbs (v\<lparr>sign := kNumericPos\<rparr>) (half_unit nd) NumericVar_default)\<lparr>sign := sign v\<rparr>)"
  have r: "RoundVar v nd = TruncToScale ?s nd"
    unfolding RoundVar_def Let_def using nd unfolding if_not_P [OF leD [OF nd(1)]] g a by simp
  have ok: "list_all group_ok (digits (v\<lparr>sign := kNumericPos\<rparr>))" using num_okD(1) [OF v] by simp
  note add = AddAbs_value [OF ok h(1), of NumericVar_default]
  have s: "aval ?s = aval v + 1 / 2 / 10 ^ nat nd" "list_all group_ok (digits ?s)" using add h(2) by auto
  have pos: "0 < aval ?s" using s(1) num_okD(3) [OF v] by (simp add: add_nonneg_pos)
  then have "\<not> IsZero ?s" by (auto simp: IsZero_def aval_def)
  then have sg: "sign ?s = sign v" by simp
  note t = TruncToScale_value [OF s(2) nd(1), folded r, unfolded sg]
  have "aval ?s * 10 ^ nat nd = aval v * 10 ^ nat nd + 1 / 2" unfolding s by (simp add: field_simps)
  then show "aval (RoundVar v nd) = of_int \<lfloor>aval v * 10 ^ nat nd + 1 / 2\<rfloor> / 10 ^ nat nd" using t(1) by simp
  show "num_ok (RoundVar v nd)" "dscale (RoundVar v nd) = nd" "sign (RoundVar v nd) = (if IsZero (RoundVar v nd) then kNumericPos else sign v)"
    using t num_okD(7) [OF v] nd by (auto simp: num_ok_def)
qed

subsection \<open>Ceiling and floor\<close>

lemma num_one: "list_all group_ok (digits num_one)" "aval num_one = 1"
  by (simp_all add: num_one_def aval_def group_ok_def)

lemma Trunc0:
  assumes v: "num_ok v" and d: "dscale v > 0"
  shows "aval (TruncVar v 0) = of_int \<lfloor>aval v\<rfloor>" "num_ok (TruncVar v 0)"
    "CompareAbs v (TruncVar v 0) > 0 \<longleftrightarrow> aval v \<notin> \<int>"
    "aval (AddAbs (TruncVar v 0) num_one NumericVar_default) = of_int (\<lfloor>aval v\<rfloor> + 1)"
    "list_all group_ok (digits (AddAbs (TruncVar v 0) num_one NumericVar_default))"
    "nval (TruncVar v 0) = (if sign v = kNumericNeg then - of_int \<lfloor>aval v\<rfloor> else of_int \<lfloor>aval v\<rfloor>)"
proof -
  note t = TruncVar_value [OF v order.refl d]
  show a: "aval (TruncVar v 0) = of_int \<lfloor>aval v\<rfloor>" and ok: "num_ok (TruncVar v 0)" using t by auto
  show "CompareAbs v (TruncVar v 0) > 0 \<longleftrightarrow> aval v \<notin> \<int>"
    unfolding CompareAbs_value [OF num_okD(1) [OF v] num_okD(1) [OF ok]] a
    by (auto simp: floor_less_iff of_int_floor_le Ints_def) (use of_int_floor_le [of "aval v"] in \<open>auto simp: order.order_iff_strict\<close>)
  show "aval (AddAbs (TruncVar v 0) num_one NumericVar_default) = of_int (\<lfloor>aval v\<rfloor> + 1)"
    "list_all group_ok (digits (AddAbs (TruncVar v 0) num_one NumericVar_default))"
    using AddAbs_value [OF num_okD(1) [OF ok] num_one(1), of NumericVar_default] a num_one(2) by auto
  show "nval (TruncVar v 0) = (if sign v = kNumericNeg then - of_int \<lfloor>aval v\<rfloor> else of_int \<lfloor>aval v\<rfloor>)"
    using t(4) a num_okD(4,7) [OF ok] num_okD(7) [OF v] by (auto simp: nval_def num_consts)
qed

lemma ceiling_Ints: "\<lceil>x\<rceil> = (if x \<in> \<int> then \<lfloor>x\<rfloor> else \<lfloor>x\<rfloor> + 1)" for x :: rat
  by (auto simp: ceiling_altdef Ints_def)

lemma num_sign_cases:
  assumes "num_ok v"
  obtains "sign v = kNumericPos" "sign v \<noteq> kNumericNeg" "nval v = aval v"
    | "sign v = kNumericNeg" "sign v \<noteq> kNumericPos" "nval v = - aval v"
  using num_okD(7) [OF assms] by (auto simp: nval_def num_consts)

lemma numeric_ceil_value:
  assumes v: "num_ok v" and i: "dscale v > 0 \<or> nval v \<in> \<int>"
  shows "nval (numeric_ceil v) = of_int \<lceil>nval v\<rceil>"
proof (cases "dscale v > 0")
  case True
  note T = Trunc0 [OF v True]
  from v show ?thesis
  proof (cases rule: num_sign_cases)
    case 1
    then show ?thesis using True T(1,3,4,6) by (simp add: numeric_ceil_def Let_def nval_sign ceiling_Ints num_consts)
  next
    case 2
    then show ?thesis using True T(6) by (simp add: numeric_ceil_def Let_def ceiling_minus)
  qed
qed (use i in \<open>auto simp: numeric_ceil_def Ints_def\<close>)

lemma numeric_floor_value:
  assumes v: "num_ok v" and i: "dscale v > 0 \<or> nval v \<in> \<int>"
  shows "nval (numeric_floor v) = of_int \<lfloor>nval v\<rfloor>"
proof (cases "dscale v > 0")
  case True
  note T = Trunc0 [OF v True]
  from v show ?thesis
  proof (cases rule: num_sign_cases)
    case 1
    then show ?thesis using True T(6) by (simp add: numeric_floor_def Let_def)
  next
    case 2
    then show ?thesis using True T(1,3,4,6) by (simp add: numeric_floor_def Let_def nval_sign floor_minus ceiling_Ints)
  qed
qed (use i in \<open>auto simp: numeric_floor_def Ints_def\<close>)

lemma ceil_floor_ok:
  assumes v: "num_ok v"
  shows "num_ok (numeric_ceil v)" "num_ok (numeric_floor v)"
proof -
  have "num_ok (w\<lparr>sign := s, dscale := 0\<rparr>)" if "list_all group_ok (digits w)" "s \<in> {kNumericPos, kNumericNeg}" "aval w \<noteq> 0" for w s
    using that by (auto simp: num_ok_def IsZero_def aval_def)
  moreover have "num_ok (w\<lparr>dscale := 0\<rparr>)" if "num_ok w" for w using that by (auto simp: num_ok_def)
  moreover have "aval (AddAbs (TruncVar v 0) num_one NumericVar_default) \<noteq> 0" if "dscale v > 0"
  proof -
    have "\<lfloor>aval v\<rfloor> + 1 \<noteq> 0" using num_okD(3) [OF v] by (simp flip: zero_le_floor)
    then show ?thesis unfolding Trunc0(4) [OF v that] of_int_eq_0_iff .
  qed
  ultimately show "num_ok (numeric_ceil v)" "num_ok (numeric_floor v)"
    using v Trunc0(2,5) [OF v] by (auto simp: numeric_ceil_def numeric_floor_def Let_def)
qed

subsection \<open>64-bit integers\<close>

lemma u64_groups:
  "list_all group_ok (u64_groups n)" "lgval (u64_groups n) 0 = of_nat n"
proof -
  show "list_all group_ok (u64_groups n)"
    by (induction n rule: u64_groups.induct) (subst u64_groups.simps, auto simp: group_ok_def [of "int _"])
  have lg: "lgval ds (p + 1) = 10000 * lgval ds p" for ds p
  proof (induction ds arbitrary: p)
    case (Cons d ds)
    show ?case unfolding lgval.simps Cons.IH powi_step(1) by (simp add: algebra_simps)
  qed simp
  show "lgval (u64_groups n) 0 = of_nat n"
  proof (induction n rule: u64_groups.induct)
    case (1 uv)
    show ?case
    proof (cases "uv = 0")
      case False
      have "lgval (u64_groups uv) 0 = of_nat (uv mod 10000) + 10000 * of_nat (uv div 10000)"
        using 1 [OF False] lg [of _ 0] False by (subst u64_groups.simps) simp
      also have "\<dots> = of_nat (uv mod 10000 + 10000 * (uv div 10000))"
        by (simp only: of_nat_add of_nat_mult of_nat_numeral)
      finally show ?thesis by (simp only: mod_mult_div_eq)
    qed (simp add: u64_groups.simps)
  qed
qed

lemma abs_uint64: "unat (if x <s 0 then - (x + 1) + 1 else x) = nat \<bar>sint x\<bar>" for x :: "64 word"
proof (cases "x <s 0")
  case True
  then have n: "sint x < 0" by (simp add: word_sless_alt)
  have "- (x + 1) + 1 = - x" by simp
  also have "\<dots> = word_of_int (- sint x)" by simp
  finally have e: "- (x + 1) + 1 = word_of_int (- sint x)" .
  have "uint (- (x + 1) + 1) = (- sint x) mod 2 ^ 64" unfolding e uint_word_of_int by simp
  also have "\<dots> = - sint x" using n sint_ge [of x] by (intro mod_pos_pos_trivial) (auto simp: )
  finally show ?thesis using True n by (simp add: unat_eq_nat_uint)
next
  case False
  then have n: "0 \<le> sint x" by (simp add: word_sless_alt)
  have "uint x = sint x mod 2 ^ 64" using uint_word_of_int [of "sint x", where ?'a = 64] by simp
  also have "\<dots> = sint x" using n sint_lt [of x] by (intro mod_pos_pos_trivial) auto
  finally show ?thesis using False n by (simp add: unat_eq_nat_uint)
qed

lemma Int64ToNumeric_value: "nval (Int64ToNumeric x) = of_int (sint x)" "num_ok (Int64ToNumeric x)" "dscale (Int64ToNumeric x) = 0"
proof -
  let ?u = "if x <s 0 then - (x + 1) + 1 else x"
  note u = abs_uint64 [of x]
  note g = u64_groups [of "unat ?u"] gval_rev [of "u64_groups (unat ?u)" 0]
  have av: "gval (rev (u64_groups (unat ?u))) (int (length (u64_groups (unat ?u))) - 1) = of_int \<bar>sint x\<bar>"
    using g(2,3) unfolding u by simp
  have z: "?u = 0 \<longleftrightarrow> sint x = 0" using u unat_eq_zero [of ?u] by auto
  have n: "x <s 0 \<longleftrightarrow> sint x < 0" by (simp add: word_sless_alt)
  show "nval (Int64ToNumeric x) = of_int (sint x)"
    using z av n unfolding Int64ToNumeric_def Let_def by (simp add: nval_def aval_def num_consts del: of_int_sint)
  have "list_all group_ok (rev (u64_groups (unat ?u)))" using g(1) by (simp add: list_all_iff)
  moreover from this have "\<not> list_all (\<lambda>d. d = 0) (rev (u64_groups (unat ?u)))" if "?u \<noteq> 0"
    using av z that gval_zero_iff [of "rev (u64_groups (unat ?u))" "int (length (u64_groups (unat ?u))) - 1"] by (auto simp del: of_int_sint)
  ultimately show "num_ok (Int64ToNumeric x)"
    unfolding Int64ToNumeric_def Let_def num_ok_def IsZero_def by auto
  show "dscale (Int64ToNumeric x) = 0" by (simp add: Int64ToNumeric_def Let_def)
qed


lemma int_part:
  assumes v: "list_all group_ok (digits v)"
  shows "\<lfloor>aval v\<rfloor> = (\<Sum>p = 0..weight v. DigitAt v p * 10000 ^ nat p)"
proof -
  let ?lo = "min 0 (weight v - NDigits v + 1)" and ?hi = "max (-1) (weight v)"
  let ?f = "\<lambda>p. of_int (DigitAt v p) * (10000::rat) powi p"
  have bound: "(\<Sum>p = - int n..-1. ?f p) < 1 \<and> 0 \<le> (\<Sum>p = - int n..-1. ?f p)" for n
  proof -
    let ?l = "map (\<lambda>i. DigitAt v (- 1 - int i)) [0..<n]"
    have "gval ?l (-1) = (\<Sum>i < n. ?f (- 1 - int i))" unfolding gval_sum by simp
    also have "\<dots> = (\<Sum>p = - int n..-1. ?f p)"
      by (rule sum.reindex_bij_witness [of _ "\<lambda>p. nat (- 1 - p)" "\<lambda>i. - 1 - int i"]) auto
    finally have e: "(\<Sum>p = - int n..-1. ?f p) = gval ?l (-1)" by simp
    have "list_all group_ok ?l" using DigitAt_ok [OF v] by (simp add: list_all_iff)
    then show ?thesis unfolding e using gval_less [of ?l "-1"] gval_nonneg [of ?l "-1"] by simp
  qed
  have "aval v = (\<Sum>p = ?lo..?hi. ?f p)" by (rule aval_positions) auto
  also have "{?lo..?hi} = {?lo..-1} \<union> {0..?hi}" by auto
  also have "(\<Sum>p \<in> {?lo..-1} \<union> {0..?hi}. ?f p) = (\<Sum>p = ?lo..-1. ?f p) + (\<Sum>p = 0..?hi. ?f p)"
    by (rule sum.union_disjoint) auto
  also have "{0..?hi} = {0..weight v}" by auto
  also have "(\<Sum>p = 0..weight v. ?f p) = of_int (\<Sum>p = 0..weight v. DigitAt v p * 10000 ^ nat p)"
    unfolding of_int_sum by (rule sum.cong) (auto simp: power_int_def)
  finally have a: "aval v = (\<Sum>p = ?lo..-1. ?f p) + of_int (\<Sum>p = 0..weight v. DigitAt v p * 10000 ^ nat p)" .
  show "\<lfloor>aval v\<rfloor> = (\<Sum>p = 0..weight v. DigitAt v p * 10000 ^ nat p)"
  proof -
    have "- int (nat (- ?lo)) = ?lo" by simp
    then show ?thesis using bound [of "nat (- ?lo)"] by (intro floor_unique) (simp_all add: a)
  qed
qed

lemma horner_positions:
  "fold (\<lambda>pos r. r * 10000 + of_int (DigitAt v pos)) (rev [0..w]) (0 :: 64 word) = of_int (\<Sum>p = 0..w. DigitAt v p * 10000 ^ nat p)"
proof -
  have "fold (\<lambda>pos r. r * 10000 + of_int (DigitAt v pos)) (rev [k..k + int n - 1]) (0 :: 64 word) =
      of_int (\<Sum>p = k..k + int n - 1. DigitAt v p * 10000 ^ nat (p - k))" for k n
  proof (induction n arbitrary: k)
    case (Suc n)
    have "(\<Sum>p = k + 1..k + 1 + int n - 1. DigitAt v p * 10000 ^ nat (p - k)) =
      10000 * (\<Sum>p = k + 1..k + 1 + int n - 1. DigitAt v p * 10000 ^ nat (p - (k + 1)))"
      unfolding sum_distrib_left
    proof (rule sum.cong)
      fix p assume "p \<in> {k + 1..k + 1 + int n - 1}"
      then have "nat (p - k) = Suc (nat (p - (k + 1)))" by auto
      then show "DigitAt v p * 10000 ^ nat (p - k) = 10000 * (DigitAt v p * 10000 ^ nat (p - (k + 1)))" by simp
    qed simp
    then show ?case unfolding upto_Suc sum_upto_Suc using Suc.IH [of "k + 1"] by (simp add: algebra_simps)
  qed simp
  from this [of 0 "nat (w + 1)"] show ?thesis by (cases "w < 0") auto
qed

lemma numeric_to_int64_value:
  assumes "num_ok v"
  shows "numeric_to_int64 v = of_int (if nval v < 0 then \<lceil>nval v\<rceil> else \<lfloor>nval v\<rfloor>)"
proof -
  have "fold (\<lambda>pos r. r * 10000 + of_int (DigitAt v pos)) (rev [0..weight v]) (0 :: 64 word) = of_int \<lfloor>aval v\<rfloor>"
    unfolding horner_positions int_part [OF num_okD(1) [OF assms]] ..
  with assms num_okD(3) [OF assms] show ?thesis
    by (elim num_sign_cases) (auto simp: numeric_to_int64_def ceiling_minus)
qed

end
