(* ===== verification/NumericDiv.thy ===== *)
theory NumericDiv
  imports NumericRound
begin

text \<open>
  The division of \<^verbatim>\<open>numeric.cpp\<close>. The short division by one group and the long division by a
  normalised divisor are the integer division of the digit sequences, where the long division needs
  that its two attempts at a digit are enough. The quotient is exact up to a unit that depends on the
  number of stored groups of the dividend.
\<close>

subsection \<open>Digit sequences as integers\<close>

fun lval :: "int list \<Rightarrow> int" where
  "lval [] = 0"
| "lval (d # ds) = d + 10000 * lval ds"

definition ival :: "int list \<Rightarrow> int" where
  "ival ds = lval (rev ds)"

lemma lval_append: "lval (xs @ ys) = lval xs + 10000 ^ length xs * lval ys"
  by (induction xs) (simp_all add: algebra_simps)

lemma ival_simps [simp]: "ival [] = 0" "ival (d # ds) = d * 10000 ^ length ds + ival ds"
  by (simp_all add: ival_def lval_append)

lemma ival_append: "ival (xs @ ys) = ival xs * 10000 ^ length ys + ival ys"
  by (simp add: ival_def lval_append)

lemma ival_rev [simp]: "lval (rev ds) = ival ds" "ival (rev ds) = lval ds"
  by (simp_all add: ival_def)

lemma lval_bounds: "list_all group_ok ds \<Longrightarrow> 0 \<le> lval ds \<and> lval ds < 10000 ^ length ds"
  by (induction ds) (auto simp: group_ok_def)

lemma ival_bounds: "list_all group_ok ds \<Longrightarrow> 0 \<le> ival ds \<and> ival ds < 10000 ^ length ds"
  using lval_bounds [of "rev ds"] by simp

lemma gval_ival: "gval ds w = of_int (ival ds) * 10000 powi (w - int (length ds) + 1)"
proof (induction ds arbitrary: w)
  case (Cons d ds)
  have "(10000::rat) powi w = 10000 ^ length ds * 10000 powi (w - int (length ds))"
    using power_int_add [of "10000::rat" "int (length ds)" "w - int (length ds)"] by simp
  then show ?case using Cons.IH [of "w - 1"] by (simp add: algebra_simps)
qed simp

lemma div_step:
  assumes "0 < V"
  shows "(U * M + R) div V = (U div V) * M + ((U mod V) * M + R) div (V::int)"
proof -
  have "U * M + R = ((U mod V) * M + R) + (U div V * M) * V"
    using div_mult_mod_eq [of U V] by (metis (no_types, opaque_lifting) add.assoc add.commute distrib_right mult.assoc mult.commute)
  then have "(U * M + R) div V = (((U mod V) * M + R) + (U div V * M) * V) div V" by (rule arg_cong)
  also have "\<dots> = (U div V) * M + ((U mod V) * M + R) div V" using assms by (intro div_mult_self1) simp
  finally show ?thesis .
qed

lemma quotient_bounds: "0 < V \<Longrightarrow> U div V * V \<le> U \<and> U < (U div V + 1) * (V::int)"
  using div_mult_mod_eq [of U V] pos_mod_sign [of V U] pos_mod_bound [of V U] unfolding distrib_right by linarith

lemma quotient_unique: "0 < V \<Longrightarrow> q * V \<le> U \<Longrightarrow> U < (q + 1) * V \<Longrightarrow> U div V = (q::int)"
  by (rule int_div_pos_eq [where r = "U - q * V"]) (auto simp: algebra_simps)

subsection \<open>Short division\<close>

lemma short_division_value:
  assumes "list_all group_ok ds" "0 < dv" "0 \<le> r" "r < dv"
  shows "list_all group_ok (short_division dv r ds) \<and> length (short_division dv r ds) = length ds \<and>
    ival (short_division dv r ds) = (r * 10000 ^ length ds + ival ds) div dv"
  using assms(1,3,4)
proof (induction ds arbitrary: r)
  case Nil
  then show ?case by (simp add: div_pos_pos_trivial)
next
  case (Cons d ds)
  let ?c = "r * kNBase + d"
  have c: "0 \<le> ?c" "?c < dv * 10000" using Cons.prems by (auto simp: group_ok_def kNBase_def)
  have "?c div dv * dv \<le> ?c" using quotient_bounds [OF assms(2), of ?c] by simp
  also note c(2)
  also have "dv * 10000 = 10000 * dv" by simp
  finally have q: "group_ok (?c div dv)" using c(1) assms(2) by (simp add: group_ok_def pos_imp_zdiv_nonneg_iff)
  have IH: "list_all group_ok (short_division dv (?c mod dv) ds) \<and> length (short_division dv (?c mod dv) ds) = length ds \<and>
    ival (short_division dv (?c mod dv) ds) = (?c mod dv * 10000 ^ length ds + ival ds) div dv"
    using Cons.prems assms(2) by (intro Cons.IH) auto
  have e: "r * 10000 ^ length (d # ds) + ival (d # ds) = ?c * 10000 ^ length ds + ival ds"
    by (simp add: kNBase_def algebra_simps)
  show ?case unfolding e div_step [OF assms(2), of ?c] using IH q by (simp add: Let_def)
qed

subsection \<open>Long division\<close>

lemma scale_loop_value:
  assumes "list_all group_ok ds" "0 \<le> c" "c < nf" "nf \<le> 10000" "scale_loop nf c ds = (out, c')"
  shows "list_all group_ok out \<and> length out = length ds \<and> 0 \<le> c' \<and> c' < nf \<and>
    lval out + 10000 ^ length ds * c' = nf * lval ds + c"
  using assms(1,2,3,5)
proof (induction ds arbitrary: c out)
  case (Cons d ds)
  let ?p = "d * nf + c"
  obtain o1 where o1: "scale_loop nf (?p div kNBase) ds = (o1, c')" "out = cast16 (?p mod kNBase) # o1"
    using Cons.prems(4) by (auto simp: Let_def split: prod.splits)
  have "0 \<le> d * nf" "d * nf \<le> 9999 * nf"
    using Cons.prems assms(4) by (auto simp: group_ok_def intro: mult_right_mono)
  then have "0 \<le> ?p" "?p < 10000 * nf" using Cons.prems(2,3) by linarith+
  then have p: "0 \<le> ?p div kNBase" "?p div kNBase < nf" unfolding kNBase_def by linarith+
  have g: "group_ok (?p mod kNBase)" by (simp add: group_ok_def kNBase_def)
  have IH: "list_all group_ok o1 \<and> length o1 = length ds \<and> 0 \<le> c' \<and> c' < nf \<and>
    lval o1 + 10000 ^ length ds * c' = nf * lval ds + ?p div kNBase"
    using Cons.prems p o1 by (intro Cons.IH) auto
  have "?p mod kNBase + 10000 * (?p div kNBase) = ?p" by (simp add: kNBase_def)
  then show ?case using IH g o1(2) by (simp add: algebra_simps)
qed auto

lemma trial_loop_value:
  assumes "list_all group_ok ds" "list_all group_ok ts" "length ds = length ts" "group_ok q" "group_ok mc" "bo \<in> {0, 1}"
    "trial_loop q mc bo ds ts = (out, mc', bo')"
  shows "list_all group_ok out \<and> length out = length ts \<and> group_ok mc' \<and> bo' \<in> {0, 1} \<and>
    lval out - 10000 ^ length ts * (mc' + bo') = lval ts - q * lval ds - mc - bo"
  using assms(1,2,3,5,6,7)
proof (induction ds arbitrary: ts mc bo out)
  case (Cons d ds)
  obtain t ts' where ts: "ts = t # ts'" using Cons.prems(3) by (cases ts) auto
  let ?p = "d * q + mc" let ?s = "t - ?p mod kNBase - bo"
  let ?x = "if ?s < 0 then ?s + kNBase else ?s" and ?b = "if ?s < 0 then 1 else 0 :: int"
  have p: "group_ok (?p div kNBase)" "group_ok (?p mod kNBase)"
  proof -
    have "0 \<le> d * q \<and> d * q \<le> max_product" using Cons.prems assms(4) by (intro product_bound) auto
    then have "0 \<le> ?p" "?p < 10000 * 10000" using Cons.prems(4) by (auto simp: group_ok_def max_product_def)
    then show "group_ok (?p div kNBase)" unfolding group_ok_def kNBase_def by linarith
  qed (simp add: group_ok_def kNBase_def)
  then have x: "group_ok ?x" using Cons.prems unfolding ts by (auto simp: group_ok_def kNBase_def)
  obtain o1 where o1: "trial_loop q (?p div kNBase) ?b ds ts' = (o1, mc', bo')" "out = ?x # o1"
    using Cons.prems(6) x unfolding ts by (auto simp: Let_def split: prod.splits if_splits)
  have IH: "list_all group_ok o1 \<and> length o1 = length ts' \<and> group_ok mc' \<and> bo' \<in> {0, 1} \<and>
    lval o1 - 10000 ^ length ts' * (mc' + bo') = lval ts' - q * lval ds - ?p div kNBase - ?b"
    using Cons.prems p o1(1) ts by (intro Cons.IH) auto
  have e: "?p mod kNBase + 10000 * (?p div kNBase) = ?p" by (simp add: kNBase_def)
  have xs: "?x - 10000 * ?b = ?s" by (simp add: kNBase_def)
  have "lval out - 10000 ^ length ts * (mc' + bo') = ?x + 10000 * (lval o1 - 10000 ^ length ts' * (mc' + bo'))"
    by (simp add: o1(2) ts algebra_simps)
  also have "\<dots> = ?x - 10000 * ?b + 10000 * lval ts' - q * (10000 * lval ds) - 10000 * (?p div kNBase)"
    using IH by (simp add: algebra_simps)
  also have "\<dots> = lval ts - q * lval (d # ds) - mc - bo" unfolding xs using e by (simp add: ts algebra_simps)
  finally show ?case using IH x o1(2) ts by simp
qed auto

lemma try_digit_step:
  assumes d: "list_all group_ok dv" "dv \<noteq> []" and w: "list_all group_ok window" "length window = Suc (length dv)" and q: "group_ok q"
  shows "q * ival dv \<le> ival window \<Longrightarrow> \<exists>w'. try_digit (Suc n) q dv window = (q, w') \<and> list_all group_ok w' \<and>
      length w' = length window \<and> ival w' = ival window - q * ival dv"
    "ival window < q * ival dv \<Longrightarrow> try_digit (Suc n) q dv window = try_digit n (q - 1) dv window"
proof -
  obtain t ts where ws: "window = t # ts" using w by (cases window) auto
  obtain out mc bo where tl: "trial_loop q 0 0 (rev dv) (rev ts) = (out, mc, bo)" by (metis prod_cases3)
  have T: "list_all group_ok out \<and> length out = length ts \<and> group_ok mc \<and> bo \<in> {0, 1} \<and>
    lval out - 10000 ^ length ts * (mc + bo) = ival ts - q * ival dv"
    using trial_loop_value [OF _ _ _ q _ _ tl] d w ws by (simp add: group_ok_def)
  let ?top = "t - mc - bo"
  have l: "length ts = length dv" using w ws by simp
  have e: "ival window - q * ival dv = ?top * 10000 ^ length ts + lval out" using T unfolding ws by (simp add: algebra_simps)
  have b: "0 \<le> lval out" "lval out < 10000 ^ length ts" using lval_bounds [of out] T by auto
  have neg: "?top < 0 \<longleftrightarrow> ival window < q * ival dv"
  proof
    assume "?top < 0"
    then have "?top * 10000 ^ length ts \<le> (-1) * 10000 ^ length ts" by (intro mult_right_mono) auto
    then show "ival window < q * ival dv" using e b by linarith
  next
    assume "ival window < q * ival dv"
    then have "?top * 10000 ^ length ts < 0" using e b by linarith
    then show "?top < 0" by (simp add: mult_less_0_iff)
  qed
  have s: "try_digit (Suc n) q dv window = (if ?top < 0 then try_digit n (q - 1) dv window else (q, cast16 ?top # rev out))"
    using tl by (simp add: ws Let_def)
  show "ival window < q * ival dv \<Longrightarrow> try_digit (Suc n) q dv window = try_digit n (q - 1) dv window"
    using s neg by simp
  assume "q * ival dv \<le> ival window"
  then have nn: "\<not> ?top < 0" using neg by linarith
  then have g: "group_ok ?top" using T w ws by (auto simp: group_ok_def)
  show "\<exists>w'. try_digit (Suc n) q dv window = (q, w') \<and> list_all group_ok w' \<and>
      length w' = length window \<and> ival w' = ival window - q * ival dv"
    using s nn g T e by (intro exI [of _ "?top # rev out"]) (simp add: ws)
qed


lemma digit_estimate:
  assumes ok: "list_all group_ok (v1 # v2 # vs)" "list_all group_ok (t0 # t1 # ts)" and l: "length ts = Suc (length vs)"
    and v: "0 < v1" "v2 < v1" and U: "ival (t0 # t1 # ts) < ival (v1 # v2 # vs) * 10000"
    and q1: "q1 = (if (t0 * kNBase + t1) div v1 \<ge> kNBase then kNBase - 1 else (t0 * kNBase + t1) div v1)"
  shows "ival (t0 # t1 # ts) div ival (v1 # v2 # vs) \<le> q1" "q1 \<le> ival (t0 # t1 # ts) div ival (v1 # v2 # vs) + 1"
    "0 < ival (v1 # v2 # vs)" "group_ok q1"
proof -
  define P where "P = (10000::int) ^ length vs"
  define U V W T top where "U = ival (t0 # t1 # ts)" and "V = ival (v1 # v2 # vs)" and "W = ival vs" and "T = ival ts"
    and "top = t0 * 10000 + t1"
  have P: "0 < P" by (simp add: P_def)
  have W: "0 \<le> W" "W < P" using ival_bounds [of vs] ok by (auto simp: W_def P_def)
  have T: "0 \<le> T" "T < 10000 * P" using ival_bounds [of ts] ok l by (auto simp: T_def P_def)
  have Ue: "U = top * (10000 * P) + T" by (simp add: U_def top_def l P_def T_def algebra_simps)
  have Ve: "V = v1 * (10000 * P) + v2 * P + W" by (simp add: V_def P_def W_def algebra_simps)
  have v2: "0 \<le> v2 * P" using ok(1) P by (simp add: group_ok_def)
  have v2': "v2 * P + W < v1 * P"
  proof -
    have "(v2 + 1) * P \<le> v1 * P" using v P by (intro mult_right_mono) auto
    then show ?thesis using W by (simp add: algebra_simps)
  qed
  have v1P: "0 < v1 * (10000 * P)" using v P by simp
  show V0: "0 < ival (v1 # v2 # vs)" using v1P v2 W unfolding V_def [symmetric] Ve by linarith
  then have V: "0 < V" by (simp add: V_def)
  have top: "0 \<le> top" using ok(2) by (simp add: top_def group_ok_def)
  have U0: "0 \<le> U" using top P T unfolding Ue by simp
  let ?q = "U div V"
  have qV: "?q * V \<le> U" "U < (?q + 1) * V"
    using quotient_bounds [OF V, of U] by auto
  have q0: "0 \<le> ?q" using U0 V by (simp add: pos_imp_zdiv_nonneg_iff)
  have "?q * V < 10000 * V" using qV(1) U unfolding U_def V_def by linarith
  then have qB: "?q < 10000" using V by simp
  have q1e: "q1 = min 9999 (top div v1)" using q1 by (auto simp: kNBase_def top_def)
  have "?q * (v1 * (10000 * P)) \<le> ?q * V" using q0 v2 W unfolding Ve by (intro mult_left_mono) auto
  then have "(?q * v1) * (10000 * P) < (top + 1) * (10000 * P)" using qV(1) T unfolding Ue by (simp add: algebra_simps)
  then have "?q * v1 \<le> top" using P by simp
  then have "?q * v1 < (top div v1 + 1) * v1" using quotient_bounds [OF v(1), of top] by linarith
  then have "?q \<le> top div v1" using v by simp
  then have le: "?q \<le> q1" using qB by (simp add: q1e)
  then show "ival (t0 # t1 # ts) div ival (v1 # v2 # vs) \<le> q1" by (simp add: U_def V_def)
  show g: "group_ok q1" using le q0 by (auto simp: group_ok_def q1e)
  have "q1 * v1 \<le> (top div v1) * v1" using v by (intro mult_right_mono) (auto simp: q1e)
  also have "\<dots> \<le> top" using quotient_bounds [OF v(1), of top] by simp
  finally have "q1 * v1 * (10000 * P) \<le> top * (10000 * P)" using P by (intro mult_right_mono) auto
  moreover have "q1 * (v2 * P + W) \<le> 10000 * (v1 * P)" using g v2 v2' W by (intro mult_mono) (auto simp: group_ok_def)
  ultimately have "q1 * V \<le> top * (10000 * P) + v1 * (10000 * P)" unfolding Ve by (simp add: algebra_simps)
  also have "\<dots> \<le> U + V" using T v2 W unfolding Ue Ve by linarith
  also have "\<dots> < (?q + 2) * V" using qV(2) by (simp add: algebra_simps)
  finally have "q1 < ?q + 2" using V by simp
  then show "q1 \<le> ival (t0 # t1 # ts) div ival (v1 # v2 # vs) + 1" by (simp add: U_def V_def)
qed

lemma try_two:
  assumes d: "list_all group_ok dv" "dv \<noteq> []" and w: "list_all group_ok window" "length window = Suc (length dv)" and q: "group_ok q1"
    and V: "0 < ival dv" and e: "ival window div ival dv \<le> q1" "q1 \<le> ival window div ival dv + 1"
  shows "\<exists>w'. try_digit 2 q1 dv window = (ival window div ival dv, w') \<and> list_all group_ok w' \<and>
      length w' = length window \<and> ival w' = ival window mod ival dv"
proof -
  let ?q = "ival window div ival dv"
  have nn: "0 \<le> ?q" using ival_bounds [OF w(1)] V by (simp add: pos_imp_zdiv_nonneg_iff)
  have g: "group_ok ?q" using e(1) q nn by (simp add: group_ok_def)
  have m: "ival window mod ival dv = ival window - ?q * ival dv" by (simp add: minus_div_mult_eq_mod)
  have le: "?q * ival dv \<le> ival window" using pos_mod_sign [OF V, of "ival window"] unfolding m by linarith
  have lt: "ival window < (?q + 1) * ival dv" using pos_mod_bound [OF V, of "ival window"] unfolding m by (simp add: algebra_simps)
  have "try_digit 2 q1 dv window = try_digit (if q1 = ?q then 2 else 1) ?q dv window"
  proof (cases "q1 = ?q")
    case False
    then have q1: "q1 = ?q + 1" using e by linarith
    then show ?thesis using try_digit_step(2) [OF d w q, of 1] lt by (simp add: numeral_2_eq_2)
  qed simp
  moreover obtain n where "(if q1 = ?q then 2 else 1) = Suc n" by (cases "q1 = ?q") (auto simp: numeral_2_eq_2)
  ultimately show ?thesis using try_digit_step(1) [OF d w g le, of n] unfolding m by simp
qed

declare long_division.simps [simp del]

lemma long_division_step:
  assumes dv: "list_all group_ok (v1 # v2 # vs)" "0 < v1" "v2 < v1" and w: "list_all group_ok window" "length window = Suc (length (v1 # v2 # vs))"
    "ival window < ival (v1 # v2 # vs) * 10000"
  shows "0 < ival (v1 # v2 # vs)" "group_ok (ival window div ival (v1 # v2 # vs))"
    "\<exists>w'. long_division (v1 # v2 # vs) window rest = ival window div ival (v1 # v2 # vs) #
         (case rest of [] \<Rightarrow> [] | r # rs \<Rightarrow> long_division (v1 # v2 # vs) (w' @ [r]) rs) \<and>
       list_all group_ok w' \<and> length w' = length (v1 # v2 # vs) \<and> ival w' = ival window mod ival (v1 # v2 # vs)"
proof -
  let ?dv = "v1 # v2 # vs" let ?q = "ival window div ival ?dv"
  obtain t0 t1 ts where ws: "window = t0 # t1 # ts" "length ts = Suc (length vs)"
    using w(2) by (cases window; cases "tl window") auto
  define q1 where "q1 = (if (t0 * kNBase + t1) div v1 \<ge> kNBase then kNBase - 1 else (t0 * kNBase + t1) div v1)"
  note E = digit_estimate [OF dv(1) w(1) [unfolded ws(1)] ws(2) dv(2,3) w(3) [unfolded ws(1)] q1_def, folded ws(1)]
  show V: "0 < ival ?dv" by (rule E(3))
  have "0 \<le> ?q" using ival_bounds [OF w(1)] V by (simp add: pos_imp_zdiv_nonneg_iff del: ival_simps)
  then show g: "group_ok ?q" using E(1,4) by (simp add: group_ok_def del: ival_simps)
  obtain w' where w': "try_digit 2 q1 ?dv window = (?q, w')" "list_all group_ok w'" "length w' = length window" "ival w' = ival window mod ival ?dv"
    using try_two [OF dv(1) _ w(1,2) E(4) V E(1,2)] by blast
  obtain h t where ht: "w' = h # t" using w'(3) ws by (cases w') auto
  have lt: "ival w' < 10000 ^ length ?dv" using pos_mod_bound [OF V, of "ival window"] ival_bounds [OF dv(1)] unfolding w'(4) by linarith
  have tl: "length t = length ?dv" "0 \<le> ival t" "0 \<le> h" using w'(2,3) w(2) ival_bounds [of t] unfolding ht by (auto simp: group_ok_def)
  have "h * 10000 ^ length ?dv + ival t < 10000 ^ length ?dv" using lt unfolding ht ival_simps tl(1) .
  then have "h * 10000 ^ length ?dv < 1 * 10000 ^ length ?dv" using tl(2) by linarith
  then have "h < 1" by (rule mult_right_less_imp_less) simp
  then have "h = 0" using tl(3) by simp
  then have t: "ival t = ival window mod ival ?dv" "list_all group_ok t" using w'(2,4) unfolding ht by auto
  have "long_division ?dv window rest = ?q # (case rest of [] \<Rightarrow> [] | r # rs \<Rightarrow> long_division ?dv (t @ [r]) rs)"
    using w'(1) g unfolding long_division.simps [of ?dv window rest] q1_def
    by (simp add: ws(1) Let_def ht del: ival_simps cong del: list.case_cong_weak)
  with t tl(1) show "\<exists>w'. long_division ?dv window rest = ?q #
         (case rest of [] \<Rightarrow> [] | r # rs \<Rightarrow> long_division ?dv (w' @ [r]) rs) \<and>
       list_all group_ok w' \<and> length w' = length ?dv \<and> ival w' = ival window mod ival ?dv" by blast
qed

lemma long_division_value:
  assumes dv: "list_all group_ok (v1 # v2 # vs)" "0 < v1" "v2 < v1" and w: "list_all group_ok window" "length window = Suc (length (v1 # v2 # vs))"
    "ival window < ival (v1 # v2 # vs) * 10000" and r: "list_all group_ok rest"
  shows "list_all group_ok (long_division (v1 # v2 # vs) window rest) \<and> length (long_division (v1 # v2 # vs) window rest) = Suc (length rest) \<and>
    ival (long_division (v1 # v2 # vs) window rest) = (ival window * 10000 ^ length rest + ival rest) div ival (v1 # v2 # vs)"
  using w r
proof (induction rest arbitrary: window)
  case Nil
  have "long_division (v1 # v2 # vs) window [] = [ival window div ival (v1 # v2 # vs)]"
    using long_division_step(3) [OF dv Nil.prems(1-3), of "[]"] by auto
  then show ?case using long_division_step(2) [OF dv Nil.prems(1-3)] by simp
next
  case (Cons r rs)
  let ?dv = "v1 # v2 # vs"
  note S = long_division_step [OF dv Cons.prems(1-3)]
  obtain w' where w': "long_division ?dv window (r # rs) = ival window div ival ?dv # long_division ?dv (w' @ [r]) rs"
    "list_all group_ok w'" "length w' = length ?dv" "ival w' = ival window mod ival ?dv"
    using S(3) [of "r # rs"] by auto
  have i: "ival (w' @ [r]) = ival window mod ival ?dv * 10000 + r" using w'(4) by (simp add: ival_append del: ival_simps(2)) simp
  have "ival window mod ival ?dv \<le> ival ?dv - 1" using pos_mod_bound [OF S(1), of "ival window"] by linarith
  then have "ival (w' @ [r]) < ival ?dv * 10000" using Cons.prems(4) unfolding i by (auto simp: group_ok_def simp del: ival_simps)
  then have IH: "list_all group_ok (long_division ?dv (w' @ [r]) rs) \<and> length (long_division ?dv (w' @ [r]) rs) = Suc (length rs) \<and>
    ival (long_division ?dv (w' @ [r]) rs) = (ival (w' @ [r]) * 10000 ^ length rs + ival rs) div ival ?dv"
    using Cons.prems(4) w' by (intro Cons.IH) auto
  have e: "(ival (w' @ [r]) * 10000 ^ length rs + ival rs) = ival window mod ival ?dv * 10000 ^ length (r # rs) + ival (r # rs)"
    unfolding i by (simp add: algebra_simps)
  have "ival (long_division ?dv window (r # rs)) = ival window div ival ?dv * 10000 ^ length (r # rs) + ival (long_division ?dv (w' @ [r]) rs)"
    unfolding w'(1) ival_simps(2) using IH by simp
  also have "\<dots> = (ival window * 10000 ^ length (r # rs) + ival (r # rs)) div ival ?dv"
    using IH unfolding e div_step [OF S(1), of "ival window"] by simp
  finally show ?case using IH S(2) w'(1) by simp
qed


subsection \<open>Quotients\<close>

definition normalised :: "int list \<Rightarrow> int list" where
  "normalised bds = rev (fst (scale_loop (kNBase div (hd bds + 1)) 0 (rev bds)))"

definition quotient_digits :: "int list \<Rightarrow> int list \<Rightarrow> int list" where
  "quotient_digits aa bds =
    (if length bds = 1 then short_division (hd bds) 0 aa
     else let (work, carry) = scale_loop (kNBase div (hd bds + 1)) 0 (rev aa); work' = cast16 carry # rev work; n = length bds
       in if length work' > n then long_division (normalised bds) (take (n + 1) work') (drop (n + 1) work') else [])"

text \<open>The divisors for which two attempts at a quotient digit are enough.\<close>

definition divisor_fits :: "int list \<Rightarrow> bool" where
  "divisor_fits bds \<longleftrightarrow> length bds = 1 \<or> normalised bds ! 1 < normalised bds ! 0"

lemma factor_bounds: "group_ok b \<Longrightarrow> 0 < b \<Longrightarrow> 0 < kNBase div (b + 1) \<and> kNBase div (b + 1) \<le> 5000 \<and> kNBase div (b + 1) * (b + 1) \<le> 10000"
  using quotient_bounds [of "b + 1" kNBase] zdiv_mono2 [of kNBase 2 "b + 1"] pos_imp_zdiv_pos_iff [of "b + 1" kNBase]
  by (auto simp: group_ok_def kNBase_def)

lemma normalised_value:
  assumes "list_all group_ok (b # bs)" "0 < b"
  shows "list_all group_ok (normalised (b # bs))" "length (normalised (b # bs)) = length (b # bs)"
    "ival (normalised (b # bs)) = kNBase div (b + 1) * ival (b # bs)"
proof -
  let ?nf = "kNBase div (b + 1)" let ?n = "length (b # bs)"
  have f: "0 < ?nf" "?nf \<le> 5000" "?nf * (b + 1) \<le> 10000" using factor_bounds [of b] assms by auto
  obtain out c where sl: "scale_loop ?nf 0 (rev (b # bs)) = (out, c)" by fastforce
  have S: "list_all group_ok out \<and> length out = ?n \<and> 0 \<le> c \<and> c < ?nf \<and> lval out + 10000 ^ ?n * c = ?nf * ival (b # bs)"
    using scale_loop_value [OF _ _ f(1) _ sl] assms f by (simp del: rev.simps ival_simps)
  have "ival (b # bs) < (b + 1) * 10000 ^ length bs" using ival_bounds [of bs] assms(1) by (simp add: algebra_simps)
  then have "?nf * ival (b # bs) < ?nf * ((b + 1) * 10000 ^ length bs)" using f(1) by (intro mult_strict_left_mono)
  also have "\<dots> = (?nf * (b + 1)) * 10000 ^ length bs" by (simp only: mult.assoc)
  also have "\<dots> \<le> 10000 * 10000 ^ length bs" using f(3) by (intro mult_right_mono) auto
  finally have lt: "lval out + 10000 ^ ?n * c < 10000 ^ ?n * 1" using S by simp
  have "0 \<le> lval out" using lval_bounds S by blast
  then have "10000 ^ ?n * c < 10000 ^ ?n * 1" using lt by linarith
  then have "c < 1" by (rule mult_left_less_imp_less) simp
  then have "c = 0" using S by simp
  then show "list_all group_ok (normalised (b # bs))" "length (normalised (b # bs)) = length (b # bs)"
    "ival (normalised (b # bs)) = ?nf * ival (b # bs)"
    using S sl by (simp_all add: normalised_def del: rev.simps ival_simps)
qed

lemma quotient_digits_value:
  assumes a: "list_all group_ok aa" and b: "list_all group_ok (b # bs)" "0 < b" and fit: "divisor_fits (b # bs)"
  shows "list_all group_ok (quotient_digits aa (b # bs))" "length (quotient_digits aa (b # bs)) = length aa - length bs"
    "ival (quotient_digits aa (b # bs)) = ival aa div ival (b # bs)"
proof -
  let ?n = "length (b # bs)" let ?nf = "kNBase div (b + 1)" let ?V = "ival (b # bs)"
  have f: "0 < ?nf" "?nf \<le> 5000" using factor_bounds [of b] b by auto
  have "1 * 10000 ^ length bs \<le> b * 10000 ^ length bs" using b(2) by (intro mult_right_mono) auto
  moreover have "0 \<le> ival bs" using ival_bounds [of bs] b by simp
  ultimately have Vge: "10000 ^ length bs \<le> ?V" unfolding ival_simps by linarith
  have P: "list_all group_ok (quotient_digits aa (b # bs)) \<and> length (quotient_digits aa (b # bs)) = length aa - length bs \<and>
    ival (quotient_digits aa (b # bs)) = ival aa div ?V"
  proof (cases bs)
    case Nil
    then show ?thesis using short_division_value [OF a b(2), of 0] b by (simp add: quotient_digits_def)
  next
    case (Cons b1 bs1)
    obtain work carry where sl: "scale_loop ?nf 0 (rev aa) = (work, carry)" by fastforce
    have S: "list_all group_ok work \<and> length work = length aa \<and> 0 \<le> carry \<and> carry < ?nf \<and> lval work + 10000 ^ length aa * carry = ?nf * ival aa"
      using scale_loop_value [OF _ _ f(1) _ sl] a f by simp
    define wk where "wk = carry # rev work"
    have c: "group_ok carry" using S f by (simp add: group_ok_def)
    have wk: "list_all group_ok wk" "length wk = Suc (length aa)" "ival wk = ?nf * ival aa"
      using S c by (auto simp: wk_def algebra_simps)
    have q: "quotient_digits aa (b # bs) = (if length wk > ?n then long_division (normalised (b # bs)) (take (?n + 1) wk) (drop (?n + 1) wk) else [])"
      using Cons sl c by (simp add: quotient_digits_def wk_def)
    show ?thesis
    proof (cases "length wk > ?n")
      case False
      then have l: "length aa \<le> length bs" using wk(2) by simp
      have "ival aa < 10000 ^ length aa" "0 \<le> ival aa" using ival_bounds [OF a] by auto
      moreover have "(10000::int) ^ length aa \<le> 10000 ^ length bs" using l by (intro power_increasing) auto
      ultimately have "ival aa div ?V = 0" using Vge by (intro div_pos_pos_trivial) linarith+
      then show ?thesis using q False l by simp
    next
      case True
      note N = normalised_value [OF b]
      obtain v1 v2 vs where dv: "normalised (b # bs) = v1 # v2 # vs" 
        using N(2) Cons by (cases "normalised (b # bs)"; cases "tl (normalised (b # bs))") auto
      have v: "v2 < v1" "0 < v1" using fit N(1) Cons unfolding divisor_fits_def dv by (auto simp: group_ok_def)
      let ?w = "take (?n + 1) wk" and ?r = "drop (?n + 1) wk"
      have lr: "length aa = length ?r + ?n" "length ?w = Suc ?n" using True wk(2) by auto
      have ok: "list_all group_ok ?w" "list_all group_ok ?r"
        using wk(1) by (auto simp: list_all_iff dest: in_set_takeD in_set_dropD)
      have e: "ival ?w * 10000 ^ length ?r + ival ?r = ?nf * ival aa"
        using ival_append [of ?w ?r] wk(3) by (simp only: append_take_drop_id)
      have "ival ?w * 10000 ^ length ?r \<le> ?nf * ival aa" using e ival_bounds [OF ok(2)] by linarith
      also have "\<dots> < ?nf * 10000 ^ (length ?r + ?n)"
        using ival_bounds [OF a] f(1) unfolding lr(1) by (intro mult_strict_left_mono) auto
      also have "\<dots> = (?nf * 10000 ^ ?n) * 10000 ^ length ?r" by (simp only: power_add mult.commute mult.left_commute)
      finally have "ival ?w < ?nf * 10000 ^ ?n" by (rule mult_right_less_imp_less) simp
      also have "\<dots> = (?nf * 10000 ^ length bs) * 10000" by simp
      also have "\<dots> \<le> (?nf * ?V) * 10000" using Vge f(1) by (intro mult_right_mono mult_left_mono) auto
      finally have lt: "ival ?w < ival (v1 # v2 # vs) * 10000" unfolding N(3) [unfolded dv] .
      have l2: "length ?w = Suc (length (v1 # v2 # vs))" using lr(2) N(2) unfolding dv by simp
      note L = long_division_value [OF N(1) [unfolded dv] v(2,1) ok(1) l2 lt ok(2)]
      have "(?nf * ival aa) div (?nf * ?V) = ival aa div ?V" using f(1) by simp
      then show ?thesis using L lr(1) True unfolding q e N(3) [unfolded dv] dv by (simp del: ival_simps)
    qed
  qed
  then show "list_all group_ok (quotient_digits aa (b # bs))" "length (quotient_digits aa (b # bs)) = length aa - length bs"
    "ival (quotient_digits aa (b # bs)) = ival aa div ?V" by auto
qed


text \<open>The divisor without leading and trailing zero groups, and the unit of the last quotient digit.\<close>

definition divisor_var :: "NumericVar \<Rightarrow> NumericVar" where
  "divisor_var b = StripZeros (b\<lparr>sign := kNumericPos\<rparr>)"

definition low_pos :: "NumericVar \<Rightarrow> int" where
  "low_pos v = weight v - NDigits v + 1"

definition extra_groups :: "NumericVar \<Rightarrow> NumericVar \<Rightarrow> int" where
  "extra_groups a b = (larger_dscale a b + 8 - dscale a + dscale b + 3) div 4"

definition quotient_unit :: "NumericVar \<Rightarrow> NumericVar \<Rightarrow> rat" where
  "quotient_unit a b = 10000 powi (low_pos a - low_pos (divisor_var b) - extra_groups a b)"

lemma strip_front_hd: "fst (strip_front ds w) \<noteq> [] \<Longrightarrow> hd (fst (strip_front ds w)) \<noteq> 0"
  by (induction ds w rule: strip_front.induct) (auto split: if_splits)

lemma divisor_var:
  assumes "num_ok b" "\<not> IsZero b"
  obtains d ds where "digits (divisor_var b) = d # ds" "list_all group_ok (d # ds)" "0 < d" "aval (divisor_var b) = aval b"
proof -
  have ok: "list_all group_ok (digits (divisor_var b))" "aval (divisor_var b) = aval b"
    using StripZeros_simps [of "b\<lparr>sign := kNumericPos\<rparr>"] num_okD(1) [OF assms(1)] by (simp_all add: divisor_var_def)
  have "\<exists>d ds. digits (divisor_var b) = d # ds \<and> d \<noteq> 0"
  proof -
    obtain ds w where s: "strip_front (digits b) (weight b) = (ds, w)" by fastforce
    have e: "trim_back 0 ds \<noteq> []" using strip_empty [of "digits b" "weight b"] s assms(2) by (simp add: IsZero_def)
    have h: "ds \<noteq> [] \<Longrightarrow> hd ds \<noteq> 0" using strip_front_hd [of "digits b" "weight b"] s by simp
    have "\<exists>n. ds = trim_back 0 ds @ replicate n 0" by (rule trim_back_append)
    then have "ds \<noteq> []" "hd (trim_back 0 ds) = hd ds" using e by (metis append_is_Nil_conv, metis hd_append2)
    moreover have "digits (divisor_var b) = trim_back 0 ds" using s e by (simp add: divisor_var_def StripZeros_def Let_def)
    ultimately show ?thesis using h e by (metis list.exhaust_sel)
  qed
  then show ?thesis using ok that by (auto simp: group_ok_def)
qed


lemma DivVar_eq:
  assumes a: "num_ok a" "\<not> IsZero a" and b: "num_ok b" "\<not> IsZero b"
  shows "DivVar a b r = (let quot = quotient_digits (digits a @ replicate (nat (extra_groups a b)) 0) (digits (divisor_var b));
      (quot', res_weight) = strip_front quot (weight a - weight (divisor_var b))
    in if quot' = [] then Inr (NumericVar_default\<lparr>dscale := larger_dscale a b + 8\<rparr>)
       else Inr (zero_positive (StripZeros \<lparr>digits = quot', weight = res_weight,
         sign = (if sign a = sign b then kNumericPos else kNumericNeg), dscale = larger_dscale a b + 8\<rparr>)))"
proof -
  have sd: "(x + 3) sdiv 4 = (x + 3) div 4" if "0 \<le> x" for x :: int using that by (simp add: signed_divide_int_def)
  have x: "(larger_dscale a b + 8 - dscale a + dscale b + 3) sdiv 4 = extra_groups a b"
    using num_okD(6) [OF a(1)] num_okD(6) [OF b(1)] unfolding extra_groups_def by (intro sd) (auto simp: larger_dscale_def)
  have q: "(if NDigits (divisor_var b) = 1 then short_division (hd (digits (divisor_var b))) 0 aa
     else let nf = kNBase div (hd (digits (divisor_var b)) + 1); (work, carry) = scale_loop nf 0 (rev aa);
            work' = cast16 carry # rev work; dv = rev (fst (scale_loop nf 0 (rev (digits (divisor_var b))))); n = length (digits (divisor_var b))
          in if length work' > n then long_division dv (take (n + 1) work') (drop (n + 1) work') else []) =
     quotient_digits aa (digits (divisor_var b))" for aa
    unfolding quotient_digits_def normalised_def Let_def NDigits_def of_nat_eq_1_iff ..
  show ?thesis
    unfolding DivVar_def larger_dscale_def [symmetric] divisor_var_def [symmetric] Let_def x q [unfolded Let_def] using a b by simp
qed

lemma DivVar_value:
  assumes a: "num_ok a" and b: "num_ok b" "\<not> IsZero b" and fit: "divisor_fits (digits (divisor_var b))"
  shows "\<exists>q. DivVar a b r = Inr q \<and> num_ok q \<and> dscale q = larger_dscale a b + 8 \<and>
    nval q = sgn (nval a * nval b) * of_int \<lfloor>\<bar>nval a / nval b\<bar> / quotient_unit a b\<rfloor> * quotient_unit a b"
proof (cases "IsZero a")
  case True
  then have "nval a = 0" using num_okD(5) [OF a] by simp
  moreover have "DivVar a b r = Inr (NumericVar_default\<lparr>dscale := larger_dscale a b + 8\<rparr>)"
    using True b by (simp add: DivVar_def Let_def larger_dscale_def)
  moreover have "num_ok (NumericVar_default\<lparr>dscale := larger_dscale a b + 8\<rparr>)"
    using num_okD(6) [OF a] num_okD(6) [OF b(1)] by (simp add: num_ok_def larger_dscale_def)
  ultimately show ?thesis by simp
next
  case False
  let ?bb = "divisor_var b" and ?e = "nat (extra_groups a b)" and ?U = "quotient_unit a b"
  let ?aa = "digits a @ replicate ?e 0" and ?sg = "if sign a = sign b then kNumericPos else kNumericNeg"
  obtain d ds where B: "digits ?bb = d # ds" "list_all group_ok (d # ds)" "0 < d" "aval ?bb = aval b" by (rule divisor_var [OF b])
  have ds0: "0 \<le> larger_dscale a b" using num_okD(6) [OF a] by (simp add: larger_dscale_def)
  have e: "int ?e = extra_groups a b"
    using num_okD(6) [OF a] num_okD(6) [OF b(1)] by (auto simp: extra_groups_def larger_dscale_def)
  have aok: "list_all group_ok ?aa" using num_okD(1) [OF a] by (auto simp: list_all_iff group_ok_def)
  note Q = quotient_digits_value [OF aok B(2,3) fit [unfolded B(1)]]
  let ?q = "quotient_digits ?aa (d # ds)"
  have av: "aval a = of_int (ival ?aa) * 10000 powi (low_pos a - extra_groups a b)"
    using gval_ival [of ?aa "weight a"] e by (simp add: aval_def gval_append low_pos_def NDigits_def algebra_simps)
  have bv: "aval b = of_int (ival (d # ds)) * 10000 powi (low_pos ?bb)"
    using gval_ival [of "d # ds" "weight ?bb"] B(1,4) by (simp add: aval_def low_pos_def NDigits_def del: ival_simps)
  have "\<lfloor>aval a / aval b / ?U\<rfloor> = \<lfloor>of_int (ival ?aa) / of_int (ival (d # ds)) :: rat\<rfloor>"
    unfolding av bv quotient_unit_def by (simp add: power_int_diff del: ival_simps)
  then have fl: "\<lfloor>aval a / aval b / ?U\<rfloor> = ival ?q" unfolding Q(3) by (simp add: floor_divide_of_int_eq del: ival_simps)
  have qv: "gval ?q (weight a - weight ?bb) = of_int (ival ?q) * ?U"
  proof (cases "?q = []")
    case False
    then have "length ds < length ?aa" using Q(2) by (cases "length ds < length ?aa") auto
    then have "weight a - weight ?bb - int (length ?q) + 1 = low_pos a - low_pos ?bb - extra_groups a b"
      unfolding Q(2) using e B(1) by (simp add: low_pos_def NDigits_def)
    then show ?thesis unfolding gval_ival quotient_unit_def by simp
  qed simp
  obtain qs w where st: "strip_front ?q (weight a - weight ?bb) = (qs, w)" by fastforce
  have gq: "gval qs w = of_int (ival ?q) * ?U" using strip_front_value [of ?q "weight a - weight ?bb"] st qv by simp
  have qok: "list_all group_ok qs" using Q(1) strip_front_set [of ?q "weight a - weight ?bb"] st by (auto simp: list_all_iff)
  define r1 where "r1 = (if qs = [] then NumericVar_default\<lparr>dscale := larger_dscale a b + 8\<rparr>
    else zero_positive (StripZeros \<lparr>digits = qs, weight = w, sign = ?sg, dscale = larger_dscale a b + 8\<rparr>))"
  have "DivVar a b r = Inr r1" unfolding DivVar_eq [OF a False b] B(1) using st by (simp add: r1_def Let_def)
  moreover have "num_ok r1" "dscale r1 = larger_dscale a b + 8"
    using qok ds0 StripZeros_simps [of "\<lparr>digits = qs, weight = w, sign = ?sg, dscale = larger_dscale a b + 8\<rparr>"]
    by (auto simp: r1_def num_ok_def)
  moreover have "nval r1 = (if sign a = sign b then 1 else -1) * (of_int (ival ?q) * ?U)"
    using gq by (auto simp: r1_def) (auto simp: nval_def aval_def num_consts)
  moreover have "\<bar>nval a / nval b\<bar> = aval a / aval b" using num_okD(3) [OF a] num_okD(3) [OF b(1)] by (simp add: nval_def)
  moreover have "sgn (nval a * nval b) = (if sign a = sign b then 1 else -1)"
    using a b(1) num_okD(3,4) [OF a] num_okD(3,4) [OF b(1)] False b(2)
    by (elim num_sign_cases) (auto simp: sgn_if mult_less_0_iff zero_less_mult_iff)
  ultimately show ?thesis using fl by (intro exI [of _ r1]) simp
qed

end
