(* ===== verification/NumericText.thy ===== *)
theory NumericText
  imports NumericDiv
begin

text \<open>
  The text form of \<^verbatim>\<open>numeric.cpp\<close>: the syntax that \<open>numeric_in\<close> accepts and the value it gives, and
  that reading the text of \<open>numeric_out\<close> gives the number back in its stripped form.
\<close>

subsection \<open>Digit strings\<close>

lemma stoi_from: "foldl (\<lambda>n c. n * 10 + int (of_char c) - 48) k s = k * 10 ^ length s + stoi s"
proof (induction s arbitrary: k)
  case (Cons c s)
  have "stoi (c # s) = (0 * 10 + int (of_char c) - 48) * 10 ^ length s + stoi s"
    using Cons.IH [of "0 * 10 + int (of_char c) - 48"] by (simp add: stoi_def)
  then show ?case using Cons.IH [of "k * 10 + int (of_char c) - 48"] by (simp add: algebra_simps)
qed (simp add: stoi_def)

lemma stoi_append: "stoi (s @ t) = stoi s * 10 ^ length t + stoi t"
proof -
  have "stoi (s @ t) = foldl (\<lambda>n c. n * 10 + int (of_char c) - 48) (stoi s) t" by (simp add: stoi_def)
  then show ?thesis unfolding stoi_from .
qed

lemma stoi_Cons: "stoi (c # s) = (int (of_char c) - 48) * 10 ^ length s + stoi s"
  using stoi_append [of "[c]" s] by (simp add: stoi_def)

lemma stoi_Nil [simp]: "stoi [] = 0"
  by (simp add: stoi_def)

lemma stoi_zeros [simp]: "stoi (replicate n (CHR ''0'')) = 0"
  by (induction n) (simp_all add: stoi_Cons)

lemma stoi_bounds: "list_all is_digit s \<Longrightarrow> 0 \<le> stoi s \<and> stoi s < 10 ^ length s"
proof (induction s)
  case (Cons c s)
  have "0 \<le> int (of_char c) - 48" "int (of_char c) - 48 \<le> 9" using Cons.prems by (auto simp: is_digit_def)
  then have "0 \<le> (int (of_char c) - 48) * 10 ^ length s" "(int (of_char c) - 48) * 10 ^ length s \<le> 9 * 10 ^ length s"
    by (simp, intro mult_right_mono) auto
  moreover have "0 \<le> stoi s" "stoi s < 10 ^ length s" using Cons by auto
  ultimately show ?case unfolding stoi_Cons list.size power_Suc add_Suc_right add_0_right by linarith
qed simp

lemma zero_digit [simp]: "is_digit (CHR ''0'')"
  by (simp add: is_digit_def)

lemma stoi_dropWhile [simp]: "stoi (dropWhile (\<lambda>c. c = CHR ''0'') s) = stoi s"
  by (induction s) (auto simp: stoi_Cons)

lemma strip_leading:
  "stoi (strip_leading s) = stoi s" "list_all is_digit s \<Longrightarrow> list_all is_digit (strip_leading s)" "strip_leading s \<noteq> []"
proof -
  have "(case t of [] \<Rightarrow> ''0'' | c # cs \<Rightarrow> c # cs) = (if t = [] then ''0'' else t)" for t by (cases t) auto
  from this [of "dropWhile (\<lambda>c. c = CHR ''0'') s"]
  have e: "strip_leading s = (if dropWhile (\<lambda>c. c = CHR ''0'') s = [] then ''0'' else dropWhile (\<lambda>c. c = CHR ''0'') s)"
    unfolding strip_leading_def .
  have "stoi s = 0" if "dropWhile (\<lambda>c. c = CHR ''0'') s = []" using stoi_dropWhile [of s] that by simp
  then show "stoi (strip_leading s) = stoi s" unfolding e by (simp add: stoi_Cons)
  show "list_all is_digit s \<Longrightarrow> list_all is_digit (strip_leading s)"
    unfolding e by (auto simp: list_all_iff dest: set_dropWhileD)
  show "strip_leading s \<noteq> []" unfolding e by simp
qed

lemma chunks_value:
  assumes "length s = 4 * n" "list_all is_digit s"
  shows "ival (map (\<lambda>g. stoi (take 4 (drop (g * 4) s))) [0..<n]) = stoi s" "list_all (\<lambda>g. group_ok (stoi (take 4 (drop (g * 4) s)))) [0..<n]"
proof -
  have "ival (map (\<lambda>g. stoi (take 4 (drop (g * 4) s))) [0..<n]) = stoi s \<and> list_all (\<lambda>g. group_ok (stoi (take 4 (drop (g * 4) s)))) [0..<n]"
    using assms
  proof (induction n arbitrary: s)
    case (Suc n)
    let ?t = "drop 4 s"
    have s: "s = take 4 s @ ?t" by simp
    have d: "list_all is_digit (take 4 s)" "list_all is_digit ?t" "length ?t = 4 * n" "length (take 4 s) = 4"
      using Suc.prems by (auto simp: list_all_iff dest: in_set_takeD in_set_dropD)
    note IH = Suc.IH [OF d(3,2)]
    have up: "[0..<Suc n] = 0 # map Suc [0..<n]" by (simp add: map_Suc_upt upt_conv_Cons)
    have "stoi s = stoi (take 4 s) * 10000 ^ n + stoi ?t" using stoi_append [of "take 4 s" ?t] d(3) by (simp add: power_mult)
    then show ?case using IH stoi_bounds [OF d(1)] d(4) unfolding up
      by (simp add: comp_def group_ok_def list.pred_map add.commute del: map_Suc_upt)
  qed simp
  then show "ival (map (\<lambda>g. stoi (take 4 (drop (g * 4) s))) [0..<n]) = stoi s"
    "list_all (\<lambda>g. group_ok (stoi (take 4 (drop (g * 4) s)))) [0..<n]" by auto
qed

lemma of_digit: "0 \<le> d \<Longrightarrow> d < 10 \<Longrightarrow> int (of_char (char_of (48 + nat d) :: char)) = 48 + d \<and> is_digit (char_of (48 + nat d))"
  by (simp add: is_digit_def)

lemma fmt04: "group_ok d \<Longrightarrow> stoi (fmt04 d) = d" "list_all is_digit (fmt04 d)" "length (fmt04 d) = 4"
proof -
  have b: "0 \<le> x mod 10" "x mod 10 < 10" for x :: int by auto
  show "list_all is_digit (fmt04 d)" using of_digit [OF b] by (simp add: fmt04_def)
  show "length (fmt04 d) = 4" by (simp add: fmt04_def)
  assume "group_ok d"
  have e: "d div 100 = d div 10 div 10" "d div 1000 = d div 10 div 10 div 10" by (simp_all flip: zdiv_zmult2_eq)
  have "0 \<le> d div 10 div 10 div 10" "d div 10 div 10 div 10 < 10" using \<open>group_ok d\<close> unfolding group_ok_def by linarith+
  then have m: "d div 10 div 10 div 10 mod 10 = d div 10 div 10 div 10" by (rule mod_pos_pos_trivial)
  have "d div 1000 mod 10 * 1000 + d div 100 mod 10 * 100 + d div 10 mod 10 * 10 + d mod 10 = d"
    unfolding e m using mult_div_mod_eq [of 10 d] mult_div_mod_eq [of 10 "d div 10"] mult_div_mod_eq [of 10 "d div 10 div 10"]
    by linarith
  moreover have "stoi (fmt04 d) = d div 1000 mod 10 * 1000 + d div 100 mod 10 * 100 + d div 10 mod 10 * 10 + d mod 10"
    unfolding fmt04_def list.map stoi_Cons of_digit [OF b, THEN conjunct1] by simp
  ultimately show "stoi (fmt04 d) = d" by (rule trans [rotated])
qed

lemma fmt_length: "length (concat (map fmt04 ds)) = 4 * length ds"
  by (induction ds) (simp_all add: fmt04)

lemma fmt_groups:
  assumes "list_all group_ok ds"
  shows "stoi (concat (map fmt04 ds)) = ival ds" "list_all is_digit (concat (map fmt04 ds))" "length (concat (map fmt04 ds)) = 4 * length ds"
proof -
  show "length (concat (map fmt04 ds)) = 4 * length ds" by (rule fmt_length)
  show "stoi (concat (map fmt04 ds)) = ival ds" using assms
    by (induction ds) (simp_all add: stoi_append fmt04 fmt_length power_mult)
  show "list_all is_digit (concat (map fmt04 ds))" by (induction ds) (simp_all add: fmt04)
qed


subsection \<open>Stripped numbers\<close>

definition stripped :: "NumericVar \<Rightarrow> bool" where
  "stripped v \<longleftrightarrow> (if digits v = [] then weight v = 0 else hd (digits v) \<noteq> 0 \<and> last (digits v) \<noteq> 0)"

lemma trim_back_hd: "trim_back z xs \<noteq> [] \<Longrightarrow> hd (trim_back z xs) = hd xs"
proof -
  assume e: "trim_back z xs \<noteq> []"
  obtain n where "xs = trim_back z xs @ replicate n z" using trim_back_append [of xs z] ..
  from arg_cong [OF this, of hd] e show ?thesis by simp
qed

lemma stripped_StripZeros: "stripped (StripZeros v)" "stripped (zero_positive v) = stripped v"
proof -
  obtain ds w where s: "strip_front (digits v) (weight v) = (ds, w)" by fastforce
  have "hd (trim_back 0 ds) \<noteq> 0" if e: "trim_back 0 ds \<noteq> []"
  proof -
    have "ds \<noteq> []" using e by (auto simp: trim_back_def)
    then show ?thesis using strip_front_hd [of "digits v" "weight v"] s trim_back_hd [OF e] by simp
  qed
  then show "stripped (StripZeros v)" using s trim_back_last [of 0 ds] by (auto simp: StripZeros_def stripped_def Let_def)
qed (simp add: stripped_def)

lemma gval_pos: "list_all group_ok ds \<Longrightarrow> ds \<noteq> [] \<Longrightarrow> last ds \<noteq> 0 \<Longrightarrow> 0 < gval ds w"
  using gval_nonneg [of ds w] gval_zero_iff [of ds w] last_in_set [of ds] by (auto simp: list_all_iff order.order_iff_strict)

lemma gval_inject:
  assumes "list_all group_ok xs" "list_all group_ok ys" "xs \<noteq> [] \<Longrightarrow> last xs \<noteq> 0" "ys \<noteq> [] \<Longrightarrow> last ys \<noteq> 0" "gval xs w = gval ys w"
  shows "xs = ys"
  using assms
proof (induction xs arbitrary: ys w)
  case Nil
  then show ?case using gval_pos [of ys w] by fastforce
next
  case (Cons x xs)
  have "0 < gval (x # xs) w" using Cons.prems by (intro gval_pos) auto
  then obtain y ys' where ys: "ys = y # ys'" using Cons.prems(5) by (cases ys) auto
  have ok: "list_all group_ok xs" "list_all group_ok ys'" using Cons.prems unfolding ys by auto
  have b: "0 \<le> gval xs (w - 1)" "gval xs (w - 1) < 10000 powi w" "0 \<le> gval ys' (w - 1)" "gval ys' (w - 1) < 10000 powi w"
    using gval_nonneg ok gval_less [OF ok(1), of "w - 1"] gval_less [OF ok(2), of "w - 1"] by auto
  have e: "(of_int x - of_int y) * 10000 powi w = gval ys' (w - 1) - gval xs (w - 1)" using Cons.prems(5) unfolding ys by (simp add: algebra_simps)
  have xy: "x = y"
  proof (rule ccontr)
    assume "x \<noteq> y"
    then consider "x + 1 \<le> y" | "y + 1 \<le> x" by linarith
    then show False
    proof cases
      case 1
      then have "(of_int (x + 1) :: rat) \<le> of_int y" unfolding of_int_le_iff .
      then have "(of_int x - of_int y) * (10000::rat) powi w \<le> (-1) * 10000 powi w" by (intro mult_right_mono) auto
      then show False using e b by linarith
    next
      case 2
      then have "(of_int (y + 1) :: rat) \<le> of_int x" unfolding of_int_le_iff .
      then have "1 * (10000::rat) powi w \<le> (of_int x - of_int y) * 10000 powi w" by (intro mult_right_mono) auto
      then show False using e b by linarith
    qed
  qed
  have "xs = ys'" using Cons.prems e xy ok unfolding ys by (intro Cons.IH [of ys' "w - 1"]) (auto split: if_splits)
  then show ?case using xy ys by simp
qed

lemma gval_weight:
  assumes "list_all group_ok ds" "ds \<noteq> []" "hd ds \<noteq> 0"
  shows "10000 powi w \<le> gval ds w" "gval ds w < 10000 powi (w + 1)"
proof -
  obtain d ds' where d: "ds = d # ds'" "0 < d" "list_all group_ok ds'" using assms by (cases ds) (auto simp: group_ok_def)
  have "1 * (10000::rat) powi w \<le> of_int d * 10000 powi w" using d(2) by (intro mult_right_mono) auto
  then show "10000 powi w \<le> gval ds w" using gval_nonneg [OF d(3), of "w - 1"] unfolding d(1) gval.simps by linarith
  show "gval ds w < 10000 powi (w + 1)" by (rule gval_less [OF assms(1)])
qed

lemma stripped_unique:
  assumes v: "num_ok v" "stripped v" and u: "num_ok u" "stripped u" and e: "nval v = nval u" "dscale v = dscale u"
  shows "v = u"
proof -
  note V = num_okD [OF v(1)] and W = num_okD [OF u(1)]
  have abs: "aval v = aval u" using e(1) V(3,7) W(3,7) by (auto simp: nval_def num_consts)
  have z: "IsZero x \<longleftrightarrow> digits x = []" if "stripped x" for x
    using that last_in_set [of "digits x"] by (auto simp: stripped_def IsZero_def list_all_iff split: if_splits)
  have sg: "sign v = sign u"
    using e(1) abs V(3,4,7) W(3,4,7) v(1) u(1) by (auto simp: nval_def num_ok_def num_consts)
  have "digits v = digits u \<and> weight v = weight u"
  proof (cases "digits v = []")
    case True
    then have "digits u = []" using z [OF v(2)] z [OF u(2)] V(4) W(4) abs by auto
    then show ?thesis using True v(2) u(2) by (simp add: stripped_def)
  next
    case False
    then have nu: "digits u \<noteq> []" using z [OF v(2)] z [OF u(2)] V(4) W(4) abs by auto
    have h: "hd (digits v) \<noteq> 0" "last (digits v) \<noteq> 0" "hd (digits u) \<noteq> 0" "last (digits u) \<noteq> 0"
      using False nu v(2) u(2) by (auto simp: stripped_def)
    note gv = gval_weight [OF V(1) False h(1), of "weight v"] and gu = gval_weight [OF W(1) nu h(3), of "weight u"]
    have "(10000::rat) powi weight v < 10000 powi (weight u + 1)" "(10000::rat) powi weight u < 10000 powi (weight v + 1)"
      using gv gu abs unfolding aval_def by linarith+
    moreover have "a < b" if "(10000::rat) powi a < 10000 powi b" for a b
      using that power_int_increasing [of b a "10000::rat"] by (cases "b \<le> a") auto
    ultimately have "weight v < weight u + 1" "weight u < weight v + 1" by blast+
    then have w: "weight v = weight u" by simp
    then show ?thesis using gval_inject [OF V(1) W(1), of "weight v"] h abs by (simp add: aval_def)
  qed
  then show ?thesis using sg e(2) by simp
qed


subsection \<open>Reading a number\<close>

lemma split_loop_frac:
  "split_loop str True sd ip fp cs = (if list_all is_digit cs then Inr (sd \<or> cs \<noteq> [], ip, fp @ cs) else Inl (syntax_error str))"
  by (induction cs arbitrary: sd fp) (auto simp: is_digit_def)

lemma split_loop_int:
  "split_loop str False sd ip fp cs = (case dropWhile is_digit cs of
     [] \<Rightarrow> Inr (sd \<or> cs \<noteq> [], ip @ cs, fp)
   | c # es \<Rightarrow> if c = CHR ''.'' \<and> list_all is_digit es
       then Inr (sd \<or> takeWhile is_digit cs \<noteq> [] \<or> es \<noteq> [], ip @ takeWhile is_digit cs, fp @ es) else Inl (syntax_error str))"
proof (induction cs arbitrary: sd ip)
  case (Cons c cs)
  have n: "\<not> is_digit (CHR ''.'')" by (simp add: is_digit_def)
  consider "c = CHR ''.''" | "is_digit c" "c \<noteq> CHR ''.''" | "\<not> is_digit c" "c \<noteq> CHR ''.''" using n by blast
  then show ?case
    by cases (auto simp: split_loop_frac n Cons.IH simp del: dropWhile_eq_Nil_conv split: list.splits)
qed simp

text \<open>The digits before and after the point of an unsigned numeral.\<close>

definition decimal_parts :: "string \<Rightarrow> (string \<times> string) option" where
  "decimal_parts body = (let ip = takeWhile is_digit body in
     case dropWhile is_digit body of
       [] \<Rightarrow> if ip = [] then None else Some (ip, [])
     | c # fp \<Rightarrow> if c = CHR ''.'' \<and> list_all is_digit fp \<and> (ip \<noteq> [] \<or> fp \<noteq> []) then Some (ip, fp) else None)"

definition signed_body :: "string \<Rightarrow> bool \<times> string" where
  "signed_body str = (case str of [] \<Rightarrow> (False, []) | c # cs \<Rightarrow> if c = CHR ''-'' then (True, cs) else if c = CHR ''+'' then (False, cs) else (False, str))"

lemma decimal_parts_digits: "decimal_parts body = Some (ip, fp) \<Longrightarrow> list_all is_digit ip \<and> list_all is_digit fp"
  by (auto simp: decimal_parts_def Let_def list_all_iff split: list.splits if_splits dest: set_takeWhileD)

text \<open>The number that \<open>numeric_in\<close> builds from its parts.\<close>

definition parts_to_var :: "bool \<Rightarrow> string \<Rightarrow> string \<Rightarrow> NumericVar" where
  "parts_to_var neg ip frac_part =
    (let int_part = strip_leading ip;
         frac = pad_frac frac_part;
         all = strip_leading (int_part @ frac);
         frac_decimals = int (length frac);
         int_decimals = int (length all) - frac_decimals;
         int_groups = (int_decimals + 3) sdiv 4;
         frac_groups = frac_decimals sdiv 4;
         total_groups = nat (int_groups + frac_groups);
         leading_pad = nat (int_groups * 4 - int_decimals);
         padded = replicate leading_pad (CHR ''0'') @ all;
         ds = map (\<lambda>g. cast16 (stoi (take 4 (drop (g * 4) padded)))) [0..<total_groups]
     in zero_positive (StripZeros \<lparr>digits = ds, weight = int_groups - 1,
          sign = (if neg then kNumericNeg else kNumericPos), dscale = int (length frac_part)\<rparr>))"

lemma numeric_in_eq:
  "numeric_in str = (case decimal_parts (snd (signed_body str)) of None \<Rightarrow> Inl (syntax_error str)
     | Some (ip, fp) \<Rightarrow> Inr (parts_to_var (fst (signed_body str)) ip fp))"
proof (cases "str = []")
  case False
  let ?b = "snd (signed_body str)"
  have b: "(if str ! 0 = CHR ''+'' \<or> str ! 0 = CHR ''-'' then tl str else str) = ?b" "(str ! 0 = CHR ''-'') = fst (signed_body str)"
    using False by (cases str; simp add: signed_body_def)+
  have s: "split_loop str False False [] [] ?b = (case dropWhile is_digit ?b of
     [] \<Rightarrow> Inr (?b \<noteq> [], ?b, [])
   | c # es \<Rightarrow> if c = CHR ''.'' \<and> list_all is_digit es
       then Inr (takeWhile is_digit ?b \<noteq> [] \<or> es \<noteq> [], takeWhile is_digit ?b, es) else Inl (syntax_error str))"
    unfolding split_loop_int append_Nil simp_thms ..
  have t: "takeWhile is_digit ?b = ?b" if "dropWhile is_digit ?b = []" using that takeWhile_dropWhile_id [of is_digit ?b] by simp
  have n: "numeric_in str = (case split_loop str False False [] [] ?b of Inl e \<Rightarrow> Inl e
    | Inr (seen_digit, ip, fp) \<Rightarrow> if \<not> seen_digit then Inl (syntax_error str) else Inr (parts_to_var (fst (signed_body str)) ip fp))"
    unfolding numeric_in_def parts_to_var_def Let_def b(1) if_not_P [OF False] unfolding b(2) ..
  show ?thesis
  proof (cases "dropWhile is_digit ?b")
    case Nil
    then show ?thesis unfolding n s decimal_parts_def Let_def t [OF Nil] Nil by simp
  next
    case (Cons c es)
    then show ?thesis unfolding n s decimal_parts_def Let_def Cons by simp
  qed
qed (simp add: numeric_in_def signed_body_def decimal_parts_def)


lemma sdiv4: "x \<le> 4 * ((x + 3) sdiv 4)" for x :: int
proof (cases "0 \<le> x + 3")
  case True
  then have "(x + 3) sdiv 4 = (x + 3) div 4" by (auto simp: signed_divide_int_def sgn_if)
  then show ?thesis by simp
next
  case False
  then have "(x + 3) sdiv 4 = - ((- (x + 3)) div 4)" by (simp add: signed_divide_int_def sgn_if)
  then show ?thesis by simp
qed

lemma pad_frac: "list_all is_digit s \<Longrightarrow> list_all is_digit (pad_frac s)" "4 dvd length (pad_frac s)"
  "stoi (a @ pad_frac s) * 10 ^ length s = stoi (a @ s) * 10 ^ length (pad_frac s)"
proof -
  let ?n = "(4 - length s mod 4) mod 4"
  show "list_all is_digit s \<Longrightarrow> list_all is_digit (pad_frac s)" by (auto simp: pad_frac_def list_all_iff)
  have "(length s + ?n) mod 4 = (length s + (4 - length s mod 4)) mod 4" by (simp add: mod_add_right_eq)
  also have "length s + (4 - length s mod 4) = 4 * (length s div 4 + 1)"
    using mult_div_mod_eq [of 4 "length s"] mod_less_divisor [of 4 "length s"] unfolding distrib_left by linarith
  finally have "(length s + ?n) mod 4 = 0" by simp
  then have "4 dvd length s + ?n" by (rule mod_0_imp_dvd)
  then show "4 dvd length (pad_frac s)" unfolding pad_frac_def length_append length_replicate .
  have "stoi (a @ pad_frac s) = stoi (a @ s) * 10 ^ ?n"
    using stoi_append [of "a @ s" "replicate ?n (CHR ''0'')"] by (simp add: pad_frac_def)
  then show "stoi (a @ pad_frac s) * 10 ^ length s = stoi (a @ s) * 10 ^ length (pad_frac s)" by (simp add: pad_frac_def power_add)
qed

lemma parts_to_var_value:
  assumes d: "list_all is_digit ip" "list_all is_digit fp"
  shows "nval (parts_to_var neg ip fp) = (if neg then -1 else 1) * of_int (stoi (ip @ fp)) / 10 ^ length fp"
    "num_ok (parts_to_var neg ip fp)" "dscale (parts_to_var neg ip fp) = int (length fp)" "stripped (parts_to_var neg ip fp)"
proof -
  define frac all where "frac = pad_frac fp" and "all = strip_leading (strip_leading ip @ frac)"
  define x where "x = int (length all) - int (length frac)"
  define ig where "ig = (x + 3) sdiv 4"
  define fg where "fg = length frac div 4"
  define padded where "padded = replicate (nat (ig * 4 - x)) (CHR ''0'') @ all"
  define n where "n = nat (ig + int fg)"
  let ?ds = "map (\<lambda>g. stoi (take 4 (drop (g * 4) padded))) [0..<n]"
  let ?v = "\<lparr>digits = ?ds, weight = ig - 1, sign = (if neg then kNumericNeg else kNumericPos), dscale = int (length fp)\<rparr>"
  have "list_all is_digit frac" using pad_frac(1) [OF d(2)] by (simp add: frac_def)
  then have "list_all is_digit all" unfolding all_def using strip_leading(2) [OF d(1)] by (intro strip_leading(2)) simp
  then have dig: "list_all is_digit padded" by (auto simp: padded_def list_all_iff)
  have fr: "length frac = 4 * fg" using pad_frac(2) [of fp] by (simp add: frac_def fg_def)
  have fs: "int (length frac) sdiv 4 = int fg" by (auto simp: signed_divide_int_def fr sgn_if)
  have xle: "x \<le> 4 * ig" unfolding ig_def by (rule sdiv4)
  have lp: "int (length padded) = 4 * (ig + int fg)" using xle by (simp add: padded_def x_def fr)
  then have n: "length padded = 4 * n" "int n = ig + int fg" by (auto simp: n_def)
  note C = chunks_value [OF n(1) dig]
  have ok: "list_all group_ok ?ds" using C(2) by (simp add: list.pred_map comp_def)
  have cast: "map (\<lambda>g. cast16 (stoi (take 4 (drop (g * 4) padded)))) [0..<n] = ?ds"
    using C(2) by (simp add: list_all_iff)
  have v: "parts_to_var neg ip fp = zero_positive (StripZeros ?v)"
    unfolding parts_to_var_def Let_def frac_def [symmetric] all_def [symmetric] x_def [symmetric] ig_def [symmetric] fs n_def [symmetric]
      padded_def [symmetric] cast ..
  have st: "stoi padded * 10 ^ length fp = stoi (ip @ fp) * 10 ^ (4 * fg)"
  proof -
    have "stoi padded = stoi (strip_leading ip @ frac)" unfolding padded_def stoi_append [of "replicate _ _"] by (simp add: all_def strip_leading(1))
    also have "\<dots> = stoi (ip @ frac)" by (simp add: stoi_append strip_leading(1))
    finally show ?thesis using pad_frac(3) [of ip fp] unfolding frac_def [symmetric] fr by simp
  qed
  have "aval ?v = of_int (stoi padded) * 10000 powi (- int fg)"
    using gval_ival [of ?ds "ig - 1"] C(1) n(2) by (simp add: aval_def)
  also have "\<dots> = of_int (stoi padded) / 10 ^ (4 * fg)" by (simp add: power_int_minus power_mult divide_inverse)
  also have "\<dots> = of_int (stoi (ip @ fp)) / 10 ^ length fp"
  proof -
    have "(of_int (stoi padded * 10 ^ length fp) :: rat) = of_int (stoi (ip @ fp) * 10 ^ (4 * fg))" unfolding st ..
    then show ?thesis by (simp add: field_simps)
  qed
  finally have av: "aval ?v = of_int (stoi (ip @ fp)) / 10 ^ length fp" .
  show "nval (parts_to_var neg ip fp) = (if neg then -1 else 1) * of_int (stoi (ip @ fp)) / 10 ^ length fp"
    unfolding v nval_zero_positive nval_StripZeros unfolding nval_def av by (simp add: num_consts)
  show "num_ok (parts_to_var neg ip fp)" "dscale (parts_to_var neg ip fp) = int (length fp)"
    unfolding v using ok StripZeros_simps [of ?v] by (auto simp: num_ok_def)
  show "stripped (parts_to_var neg ip fp)" unfolding v by (simp add: stripped_StripZeros)
qed


subsection \<open>Printing a number\<close>

text \<open>A number with no digit beyond its display scale.\<close>

definition within_scale :: "NumericVar \<Rightarrow> bool" where
  "within_scale v \<longleftrightarrow> aval v * 10 ^ nat (dscale v) \<in> \<int>"

definition out_groups :: "NumericVar \<Rightarrow> int list" where
  "out_groups v = (let int_groups = (if weight v + 1 < 0 then 0 else weight v + 1); frac_groups = (if dscale v > 0 then (dscale v + 3) div 4 else 0)
     in map (\<lambda>g. DigitAt v (int_groups - 1 - g)) [0..int_groups + frac_groups - 1])"

lemma positions_rev: "map (\<lambda>g. f (hi - g)) [0..int n - 1] = map f (rev [hi - int n + 1..hi])"
  by (rule nth_equalityI) (auto simp: rev_nth)

lemma lval_positions: "lval (map f [lo..lo + int n - 1]) = (\<Sum>p = lo..lo + int n - 1. f p * 10000 ^ nat (p - lo))"
proof (induction n arbitrary: lo)
  case (Suc n)
  have "(\<Sum>p = lo + 1..lo + 1 + int n - 1. f p * 10000 ^ nat (p - lo)) = (\<Sum>p = lo + 1..lo + 1 + int n - 1. 10000 * (f p * 10000 ^ nat (p - (lo + 1))))"
  proof (rule sum.cong)
    fix p assume "p \<in> {lo + 1..lo + 1 + int n - 1}"
    then have "nat (p - lo) = Suc (nat (p - (lo + 1)))" by auto
    then show "f p * 10000 ^ nat (p - lo) = 10000 * (f p * 10000 ^ nat (p - (lo + 1)))" by simp
  qed simp
  then show ?case unfolding upto_Suc sum_upto_Suc using Suc.IH [of "lo + 1"] by (simp add: sum_distrib_left)
qed simp

lemma out_groups_value:
  assumes v: "list_all group_ok (digits v)" and ds: "0 \<le> dscale v"
  shows "ival (out_groups v) = \<lfloor>aval v * 10000 ^ nat ((dscale v + 3) div 4)\<rfloor>" "list_all group_ok (out_groups v)"
    "int (length (out_groups v)) = max 0 (weight v + 1) + (dscale v + 3) div 4"
proof -
  define fg where "fg = (dscale v + 3) div 4"
  define ig where "ig = max 0 (weight v + 1)"
  have fg: "0 \<le> fg" "(if dscale v > 0 then (dscale v + 3) div 4 else 0) = fg" using ds by (auto simp: fg_def)
  have ig: "(if weight v + 1 < 0 then 0 else weight v + 1) = ig" "0 \<le> ig" by (auto simp: ig_def)
  have o1: "out_groups v = map (\<lambda>g. DigitAt v ((ig - 1) - g)) [0..int (nat (ig + fg)) - 1]"
    unfolding out_groups_def Let_def ig(1) fg(2) using ig fg by simp
  then show "list_all group_ok (out_groups v)" "int (length (out_groups v)) = max 0 (weight v + 1) + (dscale v + 3) div 4"
    using DigitAt_ok [OF v] ig fg by (auto simp: list_all_iff ig_def fg_def)
  have "ival (out_groups v) = lval (map (DigitAt v) [- fg..ig - 1])"
    unfolding o1 positions_rev using ig fg by (simp add: rev_map [symmetric])
  also have "\<dots> = (\<Sum>p = - fg..ig - 1. DigitAt v p * 10000 ^ nat (p - - fg))"
    using lval_positions [of "DigitAt v" "- fg" "nat (ig + fg)"] ig fg by simp
  also have "\<dots> = (\<Sum>p = 0..ig - 1 + fg. DigitAt (v\<lparr>weight := weight v + fg\<rparr>) p * 10000 ^ nat p)"
    by (rule sum.reindex_bij_witness [of _ "\<lambda>p. p - fg" "\<lambda>p. p + fg"]) (auto simp: DigitAt_def NDigits_def Let_def)
  also have "\<dots> = (\<Sum>p = 0..weight v + fg. DigitAt (v\<lparr>weight := weight v + fg\<rparr>) p * 10000 ^ nat p)"
    by (rule sum.mono_neutral_right) (auto simp: ig_def DigitAt_def NDigits_def Let_def)
  also have "\<dots> = \<lfloor>aval (v\<lparr>weight := weight v + fg\<rparr>)\<rfloor>" using int_part [of "v\<lparr>weight := weight v + fg\<rparr>"] v by simp
  also have "aval (v\<lparr>weight := weight v + fg\<rparr>) = aval v * 10000 ^ nat fg"
    using gval_shift [of "digits v" "weight v" fg] fg(1) by (simp add: aval_def power_int_def)
  finally show "ival (out_groups v) = \<lfloor>aval v * 10000 ^ nat ((dscale v + 3) div 4)\<rfloor>" by (simp add: fg_def)
qed

text \<open>The removal of leading zeros, with at least one digit left before the point.\<close>

definition strip_int :: "string \<Rightarrow> int \<Rightarrow> string \<times> int" where
  "strip_int ds int_digits = (let lnz = length (takeWhile (\<lambda>c. c = CHR ''0'') ds) in
     if lnz = length ds then (''0'', int_digits)
     else if 0 < lnz \<and> int lnz < int_digits then (drop lnz ds, int_digits - int lnz)
     else if int lnz \<ge> int_digits then (CHR ''0'' # drop (nat int_digits) ds, 1)
     else (ds, int_digits))"

lemma leading_zeros: "n \<le> length (takeWhile (\<lambda>c. c = CHR ''0'') ds) \<Longrightarrow> stoi (drop n ds) = stoi ds"
proof -
  assume n: "n \<le> length (takeWhile (\<lambda>c. c = CHR ''0'') ds)"
  have "take n ds = take n (takeWhile (\<lambda>c. c = CHR ''0'') ds)"
    using n by (metis append_take_drop_id take_append takeWhile_dropWhile_id diff_is_0_eq take0 append_Nil2)
  also have "\<dots> = replicate n (CHR ''0'')" using n
    by (intro replicate_eqI) (auto dest!: in_set_takeD set_takeWhileD)
  finally have "stoi (take n ds) = 0" by simp
  then show ?thesis using stoi_append [of "take n ds" "drop n ds"] by simp
qed

lemma strip_int:
  assumes d: "list_all is_digit ds" and pos: "0 < stoi ds" and l: "int (length ds) = n0 + sc" "0 \<le> n0" "0 \<le> sc" and r: "strip_int ds n0 = (ds', n1)"
  shows "stoi ds' = stoi ds" "list_all is_digit ds'" "int (length ds') = n1 + sc" "1 \<le> n1"
proof -
  let ?t = "takeWhile (\<lambda>c. c = CHR ''0'') ds"
  have "length ?t \<noteq> length ds"
  proof
    assume "length ?t = length ds"
    then show False using leading_zeros [of "length ds" ds] pos by simp
  qed
  moreover have "length ?t \<le> length ds" by (rule length_takeWhile_le)
  ultimately have lt: "length ?t < length ds" by simp
  define t where "t = length ?t"
  have z: "k \<le> t \<Longrightarrow> stoi (drop k ds) = stoi ds" for k unfolding t_def by (rule leading_zeros)
  have lt: "t < length ds" using lt by (simp add: t_def)
  have e: "strip_int ds n0 = (if t = length ds then (''0'', n0) else if 0 < t \<and> int t < n0 then (drop t ds, n0 - int t)
    else if int t \<ge> n0 then (CHR ''0'' # drop (nat n0) ds, 1) else (ds, n0))"
    unfolding strip_int_def Let_def t_def ..
  have dd: "list_all is_digit (drop k ds)" for k using d by (auto simp: list_all_iff dest: in_set_dropD)
  consider "0 < t" "int t < n0" | "n0 \<le> int t" | "t = 0" "0 < n0" by linarith
  then have "stoi ds' = stoi ds \<and> list_all is_digit ds' \<and> int (length ds') = n1 + sc \<and> 1 \<le> n1"
  proof cases
    case 1
    then have "ds' = drop t ds" "n1 = n0 - int t" using r lt unfolding e by auto
    then show ?thesis using 1 l lt z [of t] dd by auto
  next
    case 2
    then have "ds' = CHR ''0'' # drop (nat n0) ds" "n1 = 1" using r lt unfolding e by auto
    then show ?thesis using 2 l z [of "nat n0"] dd [of "nat n0"] by (simp add: stoi_Cons)
  next
    case 3
    then have "ds' = ds" "n1 = n0" using r lt unfolding e by auto
    then show ?thesis using 3 l d by simp
  qed
  then show "stoi ds' = stoi ds" "list_all is_digit ds'" "int (length ds') = n1 + sc" "1 \<le> n1" by auto
qed


lemma numeric_out_eq:
  assumes nz: "\<not> IsZero v" and ds: "0 \<le> dscale v"
  shows "numeric_out v =
    (let ig = max 0 (weight v + 1); ds0 = concat (map fmt04 (out_groups v));
         (ds3, int_digits3) = strip_int (take (nat (ig * 4 + dscale v)) ds0) (ig * 4)
     in (if sign v = kNumericNeg then ''-'' else []) @
        (if dscale v > 0 then
           (let ds4 = (if int (length ds3) < int_digits3 + dscale v
                       then ds3 @ replicate (nat (int_digits3 + dscale v - int (length ds3))) (CHR ''0'') else ds3)
            in take (nat int_digits3) ds4 @ ''.'' @ take (nat (dscale v)) (drop (nat int_digits3) ds4))
         else ds3))"
proof -
  define ig where "ig = max 0 (weight v + 1)"
  define fg where "fg = (dscale v + 3) div 4"
  define ds0 where "ds0 = concat (map fmt04 (out_groups v))"
  have fg: "(if dscale v > 0 then (dscale v + 3) div 4 else 0) = fg" using ds by (auto simp: fg_def)
  have ig: "(if weight v + 1 < 0 then 0 else weight v + 1) = ig" "0 \<le> ig" by (auto simp: ig_def)
  have d0: "concat (map (\<lambda>g. fmt04 (DigitAt v (ig - 1 - g))) [0..ig + fg - 1]) = ds0"
    unfolding ds0_def out_groups_def Let_def ig(1) fg map_map comp_def ..
  have l0: "int (length ds0) = ig * 4 + fg * 4"
  proof -
    have "int (length (out_groups v)) = ig + fg" unfolding out_groups_def Let_def ig(1) fg using ig(2) ds by (simp add: fg_def)
    then show ?thesis unfolding ds0_def fmt_length by simp
  qed
  have f: "int (length ds0) - ig * 4 = fg * 4" "dscale v \<le> fg * 4" using l0 by (auto simp: fg_def)
  have d1: "(if fg * 4 > dscale v then take (nat (ig * 4 + dscale v)) ds0 else ds0) = take (nat (ig * 4 + dscale v)) ds0"
    using l0 f(2) by auto
  have f1: "(if fg * 4 > dscale v then dscale v else fg * 4) = dscale v" using f(2) by auto
  have si: "(if length (takeWhile (\<lambda>c. c = CHR ''0'') ds) = length ds then (''0'', n)
     else if 0 < length (takeWhile (\<lambda>c. c = CHR ''0'') ds) \<and> int (length (takeWhile (\<lambda>c. c = CHR ''0'') ds)) < n
          then (drop (length (takeWhile (\<lambda>c. c = CHR ''0'') ds)) ds, n - int (length (takeWhile (\<lambda>c. c = CHR ''0'') ds)))
     else if int (length (takeWhile (\<lambda>c. c = CHR ''0'') ds)) \<ge> n then (CHR ''0'' # drop (nat n) ds, 1)
     else (ds, n)) = strip_int ds n" for ds n
    unfolding strip_int_def Let_def ..
  show ?thesis
    unfolding numeric_out_def Let_def ig(1) fg d0 f(1) d1 f1 if_not_P [OF nz] less_irrefl if_False si ds0_def [symmetric] ig_def [symmetric]
    by (cases "strip_int (take (nat (ig * 4 + dscale v)) ds0) (ig * 4)") simp
qed

lemma numeric_out_form:
  assumes ok: "num_ok v" and ws: "within_scale v"
  shows "\<exists>ip fp. numeric_out v = (if sign v = kNumericNeg then ''-'' else []) @ ip @ (if dscale v > 0 then CHR ''.'' # fp else []) \<and>
    ip \<noteq> [] \<and> list_all is_digit ip \<and> list_all is_digit fp \<and> length fp = nat (dscale v) \<and> of_int (stoi (ip @ fp)) = aval v * 10 ^ nat (dscale v)"
proof (cases "IsZero v")
  case True
  have z: "aval v = 0" "sign v \<noteq> kNumericNeg" using True ok num_okD(4) [OF ok] by (auto simp: num_ok_def num_consts)
  have "stoi (''0'' @ replicate n (CHR ''0'')) = 0" for n using stoi_zeros [of "Suc n"] by simp
  then show ?thesis using True z num_okD(6) [OF ok]
    by (intro exI [of _ "''0''"] exI [of _ "replicate (nat (dscale v)) (CHR ''0'')"]) (auto simp: numeric_out_def list_all_iff)
next
  case False
  note ds = num_okD(6) [OF ok]
  define k where "k = nat (dscale v)"
  define fg where "fg = nat ((dscale v + 3) div 4)"
  define ig where "ig = max 0 (weight v + 1)"
  define ds0 where "ds0 = concat (map fmt04 (out_groups v))"
  note G = out_groups_value [OF num_okD(1) [OF ok] ds]
  note F = fmt_groups [OF G(2), folded ds0_def]
  have kf: "k \<le> 4 * fg" using ds by (auto simp: k_def fg_def)
  have "0 \<le> ig" "int fg = (dscale v + 3) div 4" using ds by (auto simp: ig_def fg_def)
  then have l0: "length ds0 = nat (ig * 4) + 4 * fg" using F(3) G(3) unfolding ig_def [symmetric] by linarith
  obtain N where N: "aval v * 10 ^ k = of_int N" using ws by (auto simp: within_scale_def k_def Ints_def)
  have "aval v * 10000 ^ fg = aval v * 10 ^ k * 10 ^ (4 * fg - k)"
    using kf power_add [of "10::rat" k "4 * fg - k"] by (simp add: power_mult)
  also have "\<dots> = of_int (N * 10 ^ (4 * fg - k))" unfolding N by simp
  finally have "\<lfloor>aval v * 10000 ^ fg\<rfloor> = N * 10 ^ (4 * fg - k)" by (simp only: floor_of_int)
  then have "ival (out_groups v) = N * 10 ^ (4 * fg - k)" using G(1) by (simp only: fg_def)
  then have s0: "stoi ds0 = N * 10 ^ (4 * fg - k)" using F(1) by simp
  let ?D = "take (nat (ig * 4) + k) ds0" and ?R = "drop (nat (ig * 4) + k) ds0"
  have dg: "list_all is_digit ?D" "list_all is_digit ?R" using F(2) by (auto simp: list_all_iff dest: in_set_takeD in_set_dropD)
  have lR: "length ?R = 4 * fg - k" "length ?D = nat (ig * 4) + k" using l0 kf by auto
  have "stoi ?D * 10 ^ (4 * fg - k) + stoi ?R = N * 10 ^ (4 * fg - k)"
    using stoi_append [of ?D ?R] s0 lR(1) by simp
  then have b: "stoi ?D * 10 ^ (4 * fg - k) \<le> N * 10 ^ (4 * fg - k)" "N * 10 ^ (4 * fg - k) < (stoi ?D + 1) * 10 ^ (4 * fg - k)"
    using stoi_bounds [OF dg(2)] unfolding distrib_right lR(1) by linarith+
  have sD: "stoi ?D = N"
    using mult_right_le_imp_le [OF b(1)] mult_right_less_imp_less [OF b(2)] by simp
  have "0 < aval v" using num_okD(3,4) [OF ok] False by (simp add: order.order_iff_strict)
  then have "0 < (of_int N :: rat)" unfolding N [symmetric] by simp
  then have pos: "0 < stoi ?D" unfolding sD by simp
  obtain ds3 i3 where si: "strip_int ?D (ig * 4) = (ds3, i3)" by fastforce
  have "int (length ?D) = ig * 4 + int k" using lR(2) by (auto simp: ig_def)
  note S = strip_int [OF dg(1) pos this _ _ si]
  have S: "stoi ds3 = N" "list_all is_digit ds3" "int (length ds3) = i3 + int k" "1 \<le> i3"
    using S sD by (auto simp: ig_def)
  have kd: "int k = dscale v" using ds by (simp add: k_def)
  have nn: "nat (ig * 4 + dscale v) = nat (ig * 4) + k" using ds by (simp add: ig_def k_def nat_add_distrib)
  let ?ip = "take (nat i3) ds3" and ?fp = "drop (nat i3) ds3"
  have lf: "length ?fp = k" "length ?ip = nat i3" using S(3,4) by auto
  have "numeric_out v = (if sign v = kNumericNeg then ''-'' else []) @ ?ip @ (if dscale v > 0 then CHR ''.'' # ?fp else [])"
    unfolding numeric_out_eq [OF False ds] Let_def ig_def [symmetric] ds0_def [symmetric] nn si using S(3) kd lf(1)
    by (auto simp: take_all)
  moreover have "?ip \<noteq> []" using lf(2) S(4) by auto
  moreover have "list_all is_digit ?ip" "list_all is_digit ?fp" using S(2) by (auto simp: list_all_iff dest: in_set_takeD in_set_dropD)
  ultimately show ?thesis using lf(1) S(1) N unfolding k_def [symmetric] by (intro exI [of _ ?ip] exI [of _ ?fp]) simp
qed

lemma parse_form:
  assumes "ip \<noteq> []" "list_all is_digit ip" "list_all is_digit fp" "dot \<or> fp = []"
  shows "signed_body ((if neg then ''-'' else []) @ ip @ (if dot then CHR ''.'' # fp else [])) = (neg, ip @ (if dot then CHR ''.'' # fp else []))"
    "decimal_parts (ip @ (if dot then CHR ''.'' # fp else [])) = Some (ip, fp)"
proof -
  obtain c cs where c: "ip = c # cs" "is_digit c" using assms by (cases ip) auto
  then show "signed_body ((if neg then ''-'' else []) @ ip @ (if dot then CHR ''.'' # fp else [])) = (neg, ip @ (if dot then CHR ''.'' # fp else []))"
    by (auto simp: signed_body_def is_digit_def)
  have "\<not> is_digit (CHR ''.'')" by (simp add: is_digit_def)
  then show "decimal_parts (ip @ (if dot then CHR ''.'' # fp else [])) = Some (ip, fp)"
    using assms by (auto simp: decimal_parts_def list_all_iff takeWhile_append dropWhile_append)
qed

lemma read_printed:
  assumes ok: "num_ok v" and ws: "within_scale v"
  shows "numeric_in (numeric_out v) = Inr (StripZeros v)"
proof -
  obtain ip fp where o: "numeric_out v = (if sign v = kNumericNeg then ''-'' else []) @ ip @ (if dscale v > 0 then CHR ''.'' # fp else [])"
    "ip \<noteq> []" "list_all is_digit ip" "list_all is_digit fp" "length fp = nat (dscale v)" "of_int (stoi (ip @ fp)) = aval v * 10 ^ nat (dscale v)"
    using numeric_out_form [OF assms] by blast
  have dot: "dscale v > 0 \<or> fp = []" using o(5) by (cases fp) auto
  note P = parse_form(1) [OF o(2,3,4) dot, of "sign v = kNumericNeg"] parse_form(2) [OF o(2,3,4) dot]
  have n: "numeric_in (numeric_out v) = Inr (parts_to_var (sign v = kNumericNeg) ip fp)"
    unfolding numeric_in_eq o(1) P(1) fst_conv snd_conv P(2) by simp
  note V = parts_to_var_value [where neg = "sign v = kNumericNeg", OF o(3,4)]
  have "parts_to_var (sign v = kNumericNeg) ip fp = StripZeros v"
  proof (rule stripped_unique [OF V(2,4)])
    show "num_ok (StripZeros v)" using ok StripZeros_simps [of v] by (auto simp: num_ok_def)
    show "stripped (StripZeros v)" by (rule stripped_StripZeros)
    show "nval (parts_to_var (sign v = kNumericNeg) ip fp) = nval (StripZeros v)"
      unfolding V(1) o(5,6) nval_StripZeros by (simp add: nval_def)
    show "dscale (parts_to_var (sign v = kNumericNeg) ip fp) = dscale (StripZeros v)"
      using V(3) o(5) num_okD(6) [OF ok] by (simp add: StripZeros_simps)
  qed
  then show ?thesis using n by simp
qed

end
