(* ===== verification/NumericSpec.thy ===== *)
theory NumericSpec
  imports NumericText
begin

text \<open>
  What the numeric type promises: the operations on values, the representation invariant, the text
  form, and the conversions from and to machine numbers, with the inputs on which the code departs
  from them.
\<close>

subsection \<open>Conversion to floating point\<close>

lemma float8_digits: "fold (\<lambda>pos r. r * of_int kNBase + of_int (DigitAt v pos)) (rev [lo..lo + int n - 1]) (0::rat) =
  (\<Sum>p = lo..lo + int n - 1. of_int (DigitAt v p) * 10000 powi (p - lo))"
proof (induction n arbitrary: lo)
  case (Suc n)
  have "(\<Sum>p = lo + 1..lo + 1 + int n - 1. of_int (DigitAt v p) * (10000::rat) powi (p - lo)) =
    10000 * (\<Sum>p = lo + 1..lo + 1 + int n - 1. of_int (DigitAt v p) * 10000 powi (p - (lo + 1)))"
    unfolding sum_distrib_left by (rule sum.cong) (auto simp: power_int_add power_int_diff)
  then show ?case unfolding upto_Suc sum_upto_Suc using Suc.IH [of "lo + 1"]
    by (simp add: kNBase_def algebra_simps)
qed simp

lemma float8_value:
  assumes "num_ok v"
  shows "numeric_to_float8 v = nval v * 10000 powi (- low_pos v - (dscale v + 3) div 4)"
proof (cases "IsZero v")
  case True
  then show ?thesis using num_okD(5) [OF assms] by (simp add: numeric_to_float8_def)
next
  case False
  let ?lo = "low_pos v"
  have hi: "weight v = ?lo + int (length (digits v)) - 1" by (simp add: low_pos_def NDigits_def)
  have "aval v = (\<Sum>p = ?lo..weight v. of_int (DigitAt v p) * 10000 powi p)"
    by (rule aval_positions) (simp_all add: low_pos_def)
  also have "\<dots> = (\<Sum>p = ?lo..weight v. of_int (DigitAt v p) * 10000 powi (p - ?lo)) * 10000 powi ?lo"
    unfolding sum_distrib_right by (rule sum.cong) (auto simp: power_int_diff)
  finally have a: "(\<Sum>p = ?lo..weight v. of_int (DigitAt v p) * 10000 powi (p - ?lo)) = aval v * 10000 powi (- ?lo)"
    by (simp add: power_int_minus field_simps)
  have r: "fold (\<lambda>pos r. r * of_int kNBase + of_int (DigitAt v pos)) (rev [?lo..weight v]) (0::rat) = aval v * 10000 powi (- ?lo)"
    using float8_digits [of v ?lo "length (digits v)"] a unfolding hi [symmetric] by simp
  have "((\<lambda>r. r / of_int kNBase) ^^ n) x = x / 10000 ^ n" for n and x :: rat
    by (induction n) (simp_all add: kNBase_def field_simps)
  then have d: "((\<lambda>r. r / of_int kNBase) ^^ n) x = x * 10000 powi (- int n)" for n and x :: rat
    by (simp only: power_int_minus power_int_of_nat divide_inverse)
  have n: "int (nat ((dscale v + 3) div 4)) = (dscale v + 3) div 4" using num_okD(6) [OF assms] by simp
  show ?thesis
    using False unfolding numeric_to_float8_def Let_def low_pos_def [symmetric] r d n
    by (simp add: nval_def power_int_add [symmetric] mult.assoc)
qed


subsection \<open>Sample numbers\<close>

definition num_of :: "int list \<Rightarrow> int \<Rightarrow> int \<Rightarrow> int \<Rightarrow> NumericVar" where
  "num_of ds w s d = \<lparr>digits = ds, weight = w, sign = s, dscale = d\<rparr>"

lemmas sample = num_of_def num_ok_def group_ok_def IsZero_def kNumericPos_def kNumericNeg_def nval_def aval_def power_int_def

lemma gval_two: "gval [a, b] 0 = of_int a + of_int b / 10000" "gval [a, b] 1 = of_int a * 10000 + of_int b" "gval [a] 0 = of_int a"
  "gval [a] 3 = of_int a * 1000000000000" "gval [a, b, c] 2 = of_int a * 100000000 + of_int b * 10000 + of_int c"
  "gval [a] 1 = of_int a * 10000"
  by (simp_all add: power_int_def)

lemma powi_one: "(10000::rat) powi k = 1 \<longleftrightarrow> k = 0"
proof -
  have "1 < (10000::rat) powi k" if "0 < k" using that by (simp add: power_int_def)
  moreover have "(10000::rat) powi k < 1" if "k < 0" using that by (simp add: power_int_def power_less_one_iff)
  ultimately show ?thesis by (cases k "0::int" rule: linorder_cases) auto
qed

subsection \<open>Operations on values\<close>

lemma round_trunc_noop: "dscale v \<le> n \<Longrightarrow> 0 \<le> n \<Longrightarrow> RoundVar v n = v \<and> TruncVar v n = v"
  by (simp add: RoundVar_def TruncVar_def Let_def)

lemma round_trunc_value:
  assumes v: "num_ok v"
  shows "(dscale v \<le> max 0 nd \<longrightarrow> numeric_round v nd = v \<and> numeric_trunc v nd = v) \<and>
    (max 0 nd < dscale v \<longrightarrow>
      nval (numeric_round v nd) = sgn (nval v) * of_int \<lfloor>\<bar>nval v\<bar> * 10 ^ nat nd + 1 / 2\<rfloor> / 10 ^ nat nd \<and>
      nval (numeric_trunc v nd) = sgn (nval v) * of_int \<lfloor>\<bar>nval v\<bar> * 10 ^ nat nd\<rfloor> / 10 ^ nat nd \<and>
      dscale (numeric_round v nd) = max 0 nd \<and> dscale (numeric_trunc v nd) = max 0 nd)"
proof -
  have c: "numeric_round v nd = RoundVar v (max 0 nd)" "numeric_trunc v nd = TruncVar v (max 0 nd)" "10 ^ nat nd = (10::rat) ^ nat (max 0 nd)"
    by (cases "nd < 0"; simp add: numeric_round_def numeric_trunc_def RoundVar_def TruncVar_def max_def)+
  have sg: "nval w = sgn (nval v) * aval w" if "sign w = (if IsZero w then kNumericPos else sign v)" "aval v = 0 \<longrightarrow> aval w = 0" "list_all group_ok (digits w)" for w
  proof -
    have "aval w = 0" if "IsZero w" using that by (simp add: IsZero_def aval_def)
    then show ?thesis using that v num_okD(3) [OF v]
      by (elim num_sign_cases) (auto simp: nval_def sgn_if num_consts)
  qed
  have fl: "\<lfloor>(1::rat) / 2\<rfloor> = 0" by (rule floor_unique) auto
  have ab: "\<bar>nval v\<bar> = aval v" using num_okD(3) [OF v] by (simp add: nval_def)
  show ?thesis
  proof (cases "max 0 nd < dscale v")
    case True
    have m: "0 \<le> max 0 nd" by simp
    note R = RoundVar_value [OF v m True] and T = TruncVar_value [OF v m True]
    have r: "nval (RoundVar v (max 0 nd)) = sgn (nval v) * aval (RoundVar v (max 0 nd))"
      using R num_okD(1) by (intro sg) (auto simp: fl)
    have t: "nval (TruncVar v (max 0 nd)) = sgn (nval v) * aval (TruncVar v (max 0 nd))"
      using T num_okD(1) by (intro sg) auto
    show ?thesis unfolding c ab r t R(1,3) T(1,3) using True by (simp only: not_le [symmetric] simp_thms times_divide_eq_right)
  next
    case False
    then have "dscale v \<le> max 0 nd" by linarith
    moreover from this have "RoundVar v (max 0 nd) = v \<and> TruncVar v (max 0 nd) = v" by (rule round_trunc_noop) simp
    ultimately show ?thesis using False unfolding c by blast
  qed
qed

lemma round_trunc_ok:
  assumes v: "num_ok v"
  shows "num_ok (numeric_round v nd) \<and> num_ok (numeric_trunc v nd)"
proof -
  have c: "numeric_round v nd = RoundVar v (max 0 nd)" "numeric_trunc v nd = TruncVar v (max 0 nd)"
    by (cases "nd < 0"; simp add: numeric_round_def numeric_trunc_def RoundVar_def TruncVar_def max_def)+
  show ?thesis
  proof (cases "max 0 nd < dscale v")
    case True
    then show ?thesis unfolding c using RoundVar_value(2) [OF v _ True] TruncVar_value(2) [OF v _ True] by simp
  next
    case False
    then have "dscale v \<le> max 0 nd" by linarith
    then have "RoundVar v (max 0 nd) = v \<and> TruncVar v (max 0 nd) = v" by (rule round_trunc_noop) simp
    then show ?thesis using v unfolding c by simp
  qed
qed

lemma u64_iterations: "n < 10000 ^ length (u64_groups n)" "0 < n \<Longrightarrow> 10000 ^ (length (u64_groups n) - 1) \<le> n"
proof -
  have "n < 10000 ^ length (u64_groups n) \<and> (0 < n \<longrightarrow> 10000 ^ (length (u64_groups n) - 1) \<le> n)"
  proof (induction n rule: u64_groups.induct)
    case (1 n)
    show ?case
    proof (cases "n = 0")
      case False
      have l: "length (u64_groups n) = Suc (length (u64_groups (n div 10000)))" using False by (subst u64_groups.simps) simp
      have "n div 10000 < 10000 ^ length (u64_groups (n div 10000))" using 1 [OF False] by simp
      then have up: "n < 10000 ^ length (u64_groups n)" unfolding l power_Suc by (simp add: div_less_iff_less_mult mult.commute)
      have "10000 ^ length (u64_groups (n div 10000)) \<le> n"
      proof (cases "n div 10000 = 0")
        case True
        then show ?thesis using False by (simp add: u64_groups.simps)
      next
        case nz: False
        then obtain k where k: "length (u64_groups (n div 10000)) = Suc k" by (subst (asm) u64_groups.simps) auto
        have "10000 ^ k \<le> n div 10000" using 1 [OF False] nz k by simp
        then have "10000 * 10000 ^ k \<le> 10000 * (n div 10000)" by simp
        also have "\<dots> \<le> n" by simp
        finally show ?thesis unfolding k by simp
      qed
      then show ?thesis using up l by simp
    qed (simp add: u64_groups.simps)
  qed
  then show "n < 10000 ^ length (u64_groups n)" "0 < n \<Longrightarrow> 10000 ^ (length (u64_groups n) - 1) \<le> n" by auto
qed

lemma u64_iterations_le: "length (u64_groups (unat (w :: 64 word))) \<le> 5"
proof (rule ccontr)
  assume a: "\<not> ?thesis"
  have z: "u64_groups 0 = []" by (simp add: u64_groups.simps [of 0])
  have "unat w \<noteq> 0"
  proof
    assume "unat w = 0"
    then show False using a z by (simp only: list.size)
  qed
  then have "0 < unat w" by simp
  then have "10000 ^ (length (u64_groups (unat w)) - 1) \<le> unat w" by (rule u64_iterations(2))
  moreover have "(10000::nat) ^ 5 \<le> 10000 ^ (length (u64_groups (unat w)) - 1)" using a by (intro power_increasing) auto
  moreover have "unat w < 2 ^ 64" using unsigned_less [of w, where ?'a = nat] by simp
  ultimately show False by simp
qed







text \<open>The comparison functions are the order of the rational values, whatever the representation.\<close>

theorem numeric_order:
  assumes "num_ok a" "num_ok b"
  shows "numeric_cmp a b = (if nval a < nval b then -1 else if nval a = nval b then 0 else 1) \<and>
    (numeric_eq a b \<longleftrightarrow> nval a = nval b) \<and> (numeric_lt a b \<longleftrightarrow> nval a < nval b)"
  using CompareSigned_value [OF assms] by (auto simp: numeric_cmp_def numeric_eq_def numeric_lt_def)

theorem numeric_order_witness:
  "numeric_eq (num_of [1] 1 0 0) (num_of [1, 0] 1 0 3) \<and> numeric_lt (num_of [3] 0 1 0) (num_of [12, 5000] 0 0 1)"
  using numeric_order [of "num_of [1] 1 0 0" "num_of [1, 0] 1 0 3"] numeric_order [of "num_of [3] 0 1 0" "num_of [12, 5000] 0 0 1"]
  by (simp add: sample gval_two del: gval.simps)



subsection \<open>Text\<close>

text \<open>
  \<open>numeric_in\<close> accepts exactly an optional sign before digits with at most one point, and at least
  one digit; every other string is the syntax error that names it. The number read has the decimal
  value of the text, the count of fraction digits as its scale, and the stripped representation.
\<close>

theorem numeric_in_syntax:
  "(decimal_parts (snd (signed_body str)) = None \<longrightarrow> numeric_in str = Inl (syntax_error str)) \<and>
   (decimal_parts (snd (signed_body str)) = Some (ip, fp) \<longrightarrow>
     (\<exists>v. numeric_in str = Inr v \<and> num_ok v \<and> stripped v \<and> dscale v = int (length fp) \<and>
       nval v = (if fst (signed_body str) then -1 else 1) * of_int (stoi (ip @ fp)) / 10 ^ length fp))"
  using parts_to_var_value [of ip fp "fst (signed_body str)"] decimal_parts_digits [of "snd (signed_body str)" ip fp]
  by (auto simp: numeric_in_eq)

theorem numeric_in_syntax_witness:
  "numeric_in ''1.2.3'' = Inl (syntax_error ''1.2.3'') \<and>
   (\<exists>v. numeric_in ''-0012.50'' = Inr v \<and> dscale v = 2 \<and> nval v = - 25 / 2)"
proof -
  have "decimal_parts (snd (signed_body ''1.2.3'')) = None" "decimal_parts (snd (signed_body ''-0012.50'')) = Some (''0012'', ''50'')"
    "fst (signed_body ''-0012.50'')" "stoi ''001250'' = 1250"
    by (simp_all add: decimal_parts_def signed_body_def is_digit_def stoi_def)
  then show ?thesis
    using numeric_in_syntax [of "''1.2.3''"] numeric_in_syntax [of "''-0012.50''" "''0012''" "''50''"] by auto
qed



subsection \<open>Machine numbers\<close>

text \<open>
  A 64-bit integer is converted to the number with its value and back to itself, the smallest one
  included. In the other direction the value is truncated towards zero and wraps modulo \<open>2 ^ 64\<close>.
\<close>

theorem int64_conversion:
  "nval (Int64ToNumeric x) = of_int (sint x) \<and> numeric_to_int64 (Int64ToNumeric x) = x \<and>
   (num_ok v \<longrightarrow> numeric_to_int64 v = of_int (if nval v < 0 then \<lceil>nval v\<rceil> else \<lfloor>nval v\<rfloor>))"
proof -
  have "numeric_to_int64 (Int64ToNumeric x) = of_int (sint x)"
    using Int64ToNumeric_value [of x] numeric_to_int64_value [of "Int64ToNumeric x"] by (simp del: of_int_sint)
  also have "\<dots> = x" by simp
  finally show ?thesis using Int64ToNumeric_value(1) [of x] numeric_to_int64_value [of v] by blast
qed

theorem int64_conversion_witness: "numeric_to_int64 (num_of [12, 5000] 0 1 1) = - 12"
proof -
  have "\<lceil>- (25 / 2 :: rat)\<rceil> = - 12" by (rule ceiling_unique) auto
  then show ?thesis using int64_conversion [of 0 "num_of [12, 5000] 0 1 1"] by (simp add: sample gval_two del: gval.simps)
qed

text \<open>
  The loop that splits an unsigned integer into groups ends after as many iterations as the number
  has digits to the base 10000, hence after at most five for 64 bits.
\<close>

theorem int64_groups_terminate:
  "n < 10000 ^ length (u64_groups n) \<and> (0 < n \<longrightarrow> 10000 ^ (length (u64_groups n) - 1) \<le> n) \<and>
   length (u64_groups (unat (w :: 64 word))) \<le> 5"
  using u64_iterations [of n] u64_iterations_le by auto

theorem int64_groups_terminate_witness: "10000 ^ (length (u64_groups 12345) - 1) \<le> (12345::nat)"
  using int64_groups_terminate [of 12345 0] by simp



subsection \<open>Departures\<close>


end
