(* ===== verification/Smgr.thy ===== *)
theory Smgr
  imports PgPrelude "HOL-Library.Finite_Map"
begin

text \<open>
  The storage manager (\<open>src/storage/smgr/smgr.cpp\<close>, \<open>src/storage/smgr/md.cpp\<close>): a relation fork is
  a sequence of segment files of \<open>kRelSegSize\<close> blocks, and every relation entry caches the file
  descriptors of the segments it has opened. The file system is a finite map from paths to contents.
  A descriptor is the path that was opened; no file is unlinked while another entry has it open. The
  operations fail where a file is missing, exists already or is too short; other errors of the
  operating system, directories and \<open>fsync\<close> are not modelled.
\<close>

subsection \<open>Files and relations\<close>

definition kBlckSz :: nat where "kBlckSz = 8192"
definition kRelSegSize :: nat where "kRelSegSize = 131072"

datatype ForkNumber = FN_kInvalid | FN_kMain | FN_kFsm | FN_kVisibilityMap | FN_kInit

record RelFileNodeBackend =
  rnb_node :: RelFileNode
  rnb_backend :: int

text \<open>\<open>md_fd\<close> holds the path of an open segment and \<open>None\<close> for the descriptor \<open>-1\<close>.\<close>

record SmgrRelationData =
  smgr_rnode :: RelFileNodeBackend
  md_fd :: "ForkNumber \<Rightarrow> string option list"

type_synonym FileSystem = "(string, u8 list) fmap"

record SmgrState =
  smgr_list :: "SmgrRelationData list"
  g_storage_base_dir :: string
  files :: FileSystem

definition SetStorageBaseDir :: "string \<Rightarrow> SmgrState \<Rightarrow> SmgrState" where
  "SetStorageBaseDir path s = s\<lparr>g_storage_base_dir := path\<rparr>"

definition relpathbackend :: "RelFileNodeBackend \<Rightarrow> ForkNumber \<Rightarrow> string result" where
  "relpathbackend rnode fork =
    (let path = ''base/'' @ dec_string (unat (db_node (rnb_node rnode))) @ ''/'' @ dec_string (unat (rel_node (rnb_node rnode)))
     in case fork of
          FN_kMain \<Rightarrow> Inr path
        | FN_kFsm \<Rightarrow> Inr (path @ ''_fsm'')
        | FN_kVisibilityMap \<Rightarrow> Inr (path @ ''_vm'')
        | FN_kInit \<Rightarrow> Inr (path @ ''_init'')
        | FN_kInvalid \<Rightarrow> Inl (Ereport ''invalid fork number''))"

definition mdFilePath :: "SmgrState \<Rightarrow> RelFileNodeBackend \<Rightarrow> ForkNumber \<Rightarrow> nat \<Rightarrow> string result" where
  "mdFilePath s r fork segno = (case relpathbackend r fork of
      Inl e \<Rightarrow> Inl e
    | Inr p \<Rightarrow> Inr (g_storage_base_dir s @ ''/'' @ p @ (if segno > 0 then ''.'' @ dec_string segno else [])))"

subsection \<open>Relation entries\<close>

text \<open>A relation is named by the node of its entry in the list.\<close>

definition find_reln :: "RelFileNodeBackend \<Rightarrow> SmgrState \<Rightarrow> SmgrRelationData option" where
  "find_reln r s = find (\<lambda>d. smgr_rnode d = r) (smgr_list s)"

definition smgropen :: "RelFileNodeBackend \<Rightarrow> SmgrState \<Rightarrow> SmgrState" where
  "smgropen r s = (case find_reln r s of
      Some d \<Rightarrow> s
    | None \<Rightarrow> s\<lparr>smgr_list := \<lparr>smgr_rnode = r, md_fd = (\<lambda>f. [])\<rparr> # smgr_list s\<rparr>)"

definition fds :: "RelFileNodeBackend \<Rightarrow> ForkNumber \<Rightarrow> SmgrState \<Rightarrow> string option list" where
  "fds r fork s = (case find_reln r s of None \<Rightarrow> [] | Some d \<Rightarrow> md_fd d fork)"

definition set_fds :: "RelFileNodeBackend \<Rightarrow> ForkNumber \<Rightarrow> string option list \<Rightarrow> SmgrState \<Rightarrow> SmgrState" where
  "set_fds r fork v s = s\<lparr>smgr_list := map (\<lambda>d. if smgr_rnode d = r then d\<lparr>md_fd := (md_fd d)(fork := v)\<rparr> else d) (smgr_list s)\<rparr>"

subsection \<open>Segment files\<close>

definition file_write :: "u8 list \<Rightarrow> nat \<Rightarrow> u8 list \<Rightarrow> u8 list" where
  "file_write f off data = arr_write (if length f < off + length data then vec_resize (off + length data) 0 f else f) off data"

definition FileReadBlock :: "SmgrState \<Rightarrow> string \<Rightarrow> nat \<Rightarrow> u8 list result" where
  "FileReadBlock s path offset =
    (let block = (case fmlookup (files s) path of None \<Rightarrow> [] | Some f \<Rightarrow> arr_read f offset kBlckSz)
     in if length block < kBlckSz then Inl (Ereport ''could not read block: unexpected end of file'') else Inr block)"

definition FileWriteBlock :: "string \<Rightarrow> nat \<Rightarrow> u8 list \<Rightarrow> SmgrState \<Rightarrow> SmgrState" where
  "FileWriteBlock path offset buffer s = (case fmlookup (files s) path of
      None \<Rightarrow> s
    | Some f \<Rightarrow> s\<lparr>files := fmupd path (file_write f offset buffer) (files s)\<rparr>)"

definition mdEnsureSegments :: "RelFileNodeBackend \<Rightarrow> ForkNumber \<Rightarrow> nat \<Rightarrow> SmgrState \<Rightarrow> SmgrState" where
  "mdEnsureSegments r fork segno s =
    (if length (fds r fork s) \<le> segno then set_fds r fork (vec_resize (segno + 1) None (fds r fork s)) s else s)"

definition OpenFile :: "string \<Rightarrow> bool \<Rightarrow> SmgrState \<Rightarrow> string result \<times> SmgrState" where
  "OpenFile path create s = (case fmlookup (files s) path of
      Some f \<Rightarrow> (Inr path, s)
    | None \<Rightarrow> if create then (Inr path, s\<lparr>files := fmupd path [] (files s)\<rparr>)
              else (Inl (Ereport (''could not open file '' @ path @ '': No such file or directory'')), s))"

definition mdGetFd :: "RelFileNodeBackend \<Rightarrow> ForkNumber \<Rightarrow> nat \<Rightarrow> bool \<Rightarrow> SmgrState \<Rightarrow> string result \<times> SmgrState" where
  "mdGetFd r fork segno create s =
    (let s1 = mdEnsureSegments r fork segno s in
     case (if segno < length (fds r fork s1) then fds r fork s1 ! segno else None) of
       Some p \<Rightarrow> (Inr p, s1)
     | None \<Rightarrow> (case mdFilePath s1 r fork segno of
           Inl e \<Rightarrow> (Inl e, s1)
         | Inr path \<Rightarrow> (case OpenFile path create s1 of
               (Inl e, s2) \<Rightarrow> (Inl e, s2)
             | (Inr fd, s2) \<Rightarrow> (Inr fd, set_fds r fork ((fds r fork s2)[segno := Some fd]) s2))))"

definition segno_of :: "BlockNumber \<Rightarrow> nat" where
  "segno_of block_num = unat block_num div kRelSegSize"

definition offset_of :: "BlockNumber \<Rightarrow> nat" where
  "offset_of block_num = unat block_num mod kRelSegSize * kBlckSz"

subsection \<open>Operations on a fork\<close>

definition mdcreate :: "RelFileNodeBackend \<Rightarrow> ForkNumber \<Rightarrow> SmgrState \<Rightarrow> unit result \<times> SmgrState" where
  "mdcreate r fork s = (case mdFilePath s r fork 0 of
      Inl e \<Rightarrow> (Inl e, s)
    | Inr path \<Rightarrow> (case fmlookup (files s) path of
        Some f \<Rightarrow> (Inl (Ereport (take 511 (''relation file already exists: '' @ path))), s)
      | None \<Rightarrow> let s1 = mdEnsureSegments r fork 0 (s\<lparr>files := fmupd path [] (files s)\<rparr>)
                in (Inr (), set_fds r fork ((fds r fork s1)[0 := None]) s1)))"

definition mdclose :: "RelFileNodeBackend \<Rightarrow> ForkNumber \<Rightarrow> SmgrState \<Rightarrow> SmgrState" where
  "mdclose r fork s = set_fds r fork [] s"

definition mdread :: "RelFileNodeBackend \<Rightarrow> ForkNumber \<Rightarrow> BlockNumber \<Rightarrow> SmgrState \<Rightarrow> u8 list result \<times> SmgrState" where
  "mdread r fork block_num s = (case mdGetFd r fork (segno_of block_num) False s of
      (Inl e, s1) \<Rightarrow> (Inl e, s1)
    | (Inr fd, s1) \<Rightarrow> (FileReadBlock s1 fd (offset_of block_num), s1))"

definition mdwrite :: "RelFileNodeBackend \<Rightarrow> ForkNumber \<Rightarrow> BlockNumber \<Rightarrow> u8 list \<Rightarrow> SmgrState \<Rightarrow> unit result \<times> SmgrState" where
  "mdwrite r fork block_num buffer s = (case mdGetFd r fork (segno_of block_num) False s of
      (Inl e, s1) \<Rightarrow> (Inl e, s1)
    | (Inr fd, s1) \<Rightarrow> (Inr (), FileWriteBlock fd (offset_of block_num) buffer s1))"

definition mdextend :: "RelFileNodeBackend \<Rightarrow> ForkNumber \<Rightarrow> BlockNumber \<Rightarrow> u8 list \<Rightarrow> SmgrState \<Rightarrow> unit result \<times> SmgrState" where
  "mdextend r fork block_num buffer s = (case mdGetFd r fork (segno_of block_num) True s of
      (Inl e, s1) \<Rightarrow> (Inl e, s1)
    | (Inr fd, s1) \<Rightarrow> (Inr (), FileWriteBlock fd (offset_of block_num) buffer s1))"

text \<open>The sum over the known segments; a closed segment without a file ends it.\<close>

fun count_segments :: "SmgrState \<Rightarrow> RelFileNodeBackend \<Rightarrow> ForkNumber \<Rightarrow> string option list \<Rightarrow> nat \<Rightarrow> BlockNumber \<Rightarrow> BlockNumber result" where
  "count_segments s r fork [] segno tot = Inr tot"
| "count_segments s r fork (Some fd # ds) segno tot =
    count_segments s r fork ds (segno + 1)
      (case fmlookup (files s) fd of Some f \<Rightarrow> tot + of_nat (length f div kBlckSz) | None \<Rightarrow> tot)"
| "count_segments s r fork (None # ds) segno tot = (case mdFilePath s r fork segno of
      Inl e \<Rightarrow> Inl e
    | Inr path \<Rightarrow> (case fmlookup (files s) path of
        None \<Rightarrow> Inr tot
      | Some f \<Rightarrow> count_segments s r fork ds (segno + 1) (tot + of_nat (length f div kBlckSz))))"

definition mdnblocks :: "RelFileNodeBackend \<Rightarrow> ForkNumber \<Rightarrow> SmgrState \<Rightarrow> BlockNumber result" where
  "mdnblocks r fork s =
    (if fds r fork s = [] then (case mdFilePath s r fork 0 of
        Inl e \<Rightarrow> Inl e
      | Inr path \<Rightarrow> (case fmlookup (files s) path of None \<Rightarrow> Inr 0 | Some f \<Rightarrow> Inr (of_nat (length f div kBlckSz))))
     else count_segments s r fork (fds r fork s) 0 0)"

text \<open>The loop that removes the known segments above \<open>last_seg\<close>, from the last one downwards.\<close>

fun remove_segments :: "RelFileNodeBackend \<Rightarrow> ForkNumber \<Rightarrow> nat \<Rightarrow> nat \<Rightarrow> SmgrState \<Rightarrow> unit result \<times> SmgrState" where
  "remove_segments r fork last_seg 0 s = (Inr (), s)"
| "remove_segments r fork last_seg (Suc segno) s =
    (if segno > last_seg then (case mdFilePath s r fork segno of
        Inl e \<Rightarrow> (Inl e, s)
      | Inr path \<Rightarrow> remove_segments r fork last_seg segno
          ((set_fds r fork ((fds r fork s)[segno := None]) s)\<lparr>files := fmdrop path (files s)\<rparr>))
     else (Inr (), s))"

definition mdtruncate :: "RelFileNodeBackend \<Rightarrow> ForkNumber \<Rightarrow> BlockNumber \<Rightarrow> SmgrState \<Rightarrow> unit result \<times> SmgrState" where
  "mdtruncate r fork nblocks s =
    (let last_seg = segno_of nblocks; blocks_in_last = unat nblocks mod kRelSegSize in
     case (if blocks_in_last > 0 then (case mdGetFd r fork last_seg False s of
              (Inl e, s1) \<Rightarrow> (Inl e, s1)
            | (Inr fd, s1) \<Rightarrow> (Inr (), s1\<lparr>files := (case fmlookup (files s1) fd of
                  None \<Rightarrow> files s1 | Some f \<Rightarrow> fmupd fd (vec_resize (offset_of nblocks) 0 f) (files s1))\<rparr>))
           else (Inr (), s)) of
       (Inl e, s1) \<Rightarrow> (Inl e, s1)
     | (Inr _, s1) \<Rightarrow> (case remove_segments r fork last_seg (length (fds r fork s1)) s1 of
           (Inl e, s2) \<Rightarrow> (Inl e, s2)
         | (Inr _, s2) \<Rightarrow>
             if blocks_in_last = 0 \<and> last_seg = 0 then (case mdFilePath s2 r fork 0 of
                 Inl e \<Rightarrow> (Inl e, s2)
               | Inr path \<Rightarrow> (Inr (), (set_fds r fork ((fds r fork s2)[0 := None]) s2)\<lparr>files := fmdrop path (files s2)\<rparr>))
             else (Inr (), s2)))"

text \<open>The loop of \<open>mdunlink\<close>: it ends at the first segment that does not exist.\<close>

lemma fcard_pos: "x |\<in>| A \<Longrightarrow> fcard A - Suc 0 < fcard A"
  by (cases "fcard A") auto

function unlink_loop :: "RelFileNodeBackend \<Rightarrow> ForkNumber \<Rightarrow> nat \<Rightarrow> SmgrState \<Rightarrow> unit result \<times> SmgrState" where
  "unlink_loop r fork segno s = (case mdFilePath s r fork segno of
      Inl e \<Rightarrow> (Inl e, s)
    | Inr path \<Rightarrow>
        if path |\<in>| fmdom (files s) then unlink_loop r fork (segno + 1) (s\<lparr>files := fmdrop path (files s)\<rparr>)
        else (Inr (), s))"
  by pat_completeness auto
termination
  by (relation "measure (\<lambda>(r, fork, segno, s). fcard (fmdom (files s)))") (auto simp: fcard_pos)

declare unlink_loop.simps [simp del]

definition mdunlink :: "RelFileNodeBackend \<Rightarrow> ForkNumber \<Rightarrow> SmgrState \<Rightarrow> unit result \<times> SmgrState" where
  "mdunlink r fork s = (case unlink_loop r fork 0 (mdclose r fork s) of
      (Inl e, s1) \<Rightarrow> (Inl e, s1)
    | (Inr _, s1) \<Rightarrow> (Inr (), set_fds r fork [] s1))"

definition mdexists :: "RelFileNodeBackend \<Rightarrow> ForkNumber \<Rightarrow> SmgrState \<Rightarrow> bool result" where
  "mdexists r fork s = (case mdFilePath s r fork 0 of Inl e \<Rightarrow> Inl e | Inr path \<Rightarrow> Inr (path |\<in>| fmdom (files s)))"

definition mdrelease :: "RelFileNodeBackend \<Rightarrow> SmgrState \<Rightarrow> SmgrState" where
  "mdrelease r s = fold (mdclose r) [FN_kMain, FN_kFsm, FN_kVisibilityMap, FN_kInit] s"

subsection \<open>The storage manager interface\<close>

definition smgrclose :: "RelFileNodeBackend \<Rightarrow> SmgrState \<Rightarrow> SmgrState" where
  "smgrclose r s = (let s1 = mdrelease r s in s1\<lparr>smgr_list := filter (\<lambda>d. smgr_rnode d \<noteq> r) (smgr_list s1)\<rparr>)"

definition smgrclosenode :: "RelFileNodeBackend \<Rightarrow> SmgrState \<Rightarrow> SmgrState" where
  "smgrclosenode r s = (case find_reln r s of None \<Rightarrow> s | Some d \<Rightarrow> smgrclose r s)"

definition smgrcloseall :: "SmgrState \<Rightarrow> SmgrState" where
  "smgrcloseall s = fold (\<lambda>d. smgrclose (smgr_rnode d)) (smgr_list s) s"

definition smgrreleaseall :: "SmgrState \<Rightarrow> SmgrState" where
  "smgrreleaseall s = fold (\<lambda>d. mdrelease (smgr_rnode d)) (smgr_list s) s"

definition smgrread :: "RelFileNodeBackend \<Rightarrow> ForkNumber \<Rightarrow> BlockNumber \<Rightarrow> SmgrState \<Rightarrow> u8 list result \<times> SmgrState" where
  "smgrread r fork block_num s = mdread r fork block_num s"

definition smgrwrite :: "RelFileNodeBackend \<Rightarrow> ForkNumber \<Rightarrow> BlockNumber \<Rightarrow> u8 list \<Rightarrow> SmgrState \<Rightarrow> unit result \<times> SmgrState" where
  "smgrwrite r fork block_num buffer s = mdwrite r fork block_num buffer s"

fun unlink_forks :: "RelFileNodeBackend \<Rightarrow> ForkNumber list \<Rightarrow> SmgrState \<Rightarrow> unit result \<times> SmgrState" where
  "unlink_forks r [] s = (Inr (), s)"
| "unlink_forks r (f # fs) s = (case mdexists r f s of
      Inl e \<Rightarrow> (Inl e, s)
    | Inr True \<Rightarrow> (case mdunlink r f s of (Inl e, s1) \<Rightarrow> (Inl e, s1) | (Inr _, s1) \<Rightarrow> unlink_forks r fs s1)
    | Inr False \<Rightarrow> unlink_forks r fs (mdclose r f s))"

definition smgrdounlinkall :: "RelFileNodeBackend \<Rightarrow> SmgrState \<Rightarrow> unit result \<times> SmgrState" where
  "smgrdounlinkall r s = (case unlink_forks r [FN_kMain, FN_kFsm, FN_kVisibilityMap, FN_kInit] s of
      (Inl e, s1) \<Rightarrow> (Inl e, s1)
    | (Inr _, s1) \<Rightarrow> (Inr (), smgrclose r s1))"

subsection \<open>Paths\<close>

definition fork_suffix :: "ForkNumber \<Rightarrow> string" where
  "fork_suffix f = (case f of FN_kFsm \<Rightarrow> ''_fsm'' | FN_kVisibilityMap \<Rightarrow> ''_vm'' | FN_kInit \<Rightarrow> ''_init'' | _ \<Rightarrow> '''')"

definition seg_path :: "string \<Rightarrow> RelFileNodeBackend \<Rightarrow> ForkNumber \<Rightarrow> nat \<Rightarrow> string" where
  "seg_path base r f n = base @ ''/base/'' @ dec_string (unat (db_node (rnb_node r))) @ ''/'' @
    dec_string (unat (rel_node (rnb_node r))) @ fork_suffix f @ (if n > 0 then CHR ''.'' # dec_string n else [])"

lemma mdFilePath_eq: "f \<noteq> FN_kInvalid \<Longrightarrow> mdFilePath s r f n = Inr (seg_path (g_storage_base_dir s) r f n)"
  by (cases f) (auto simp: mdFilePath_def relpathbackend_def seg_path_def fork_suffix_def Let_def)

lemma dec_string_append:
  assumes "dec_string m @ a = dec_string n @ b"
    and "a = [] \<or> \<not> is_digit (hd a)" and "b = [] \<or> \<not> is_digit (hd b)"
  shows "m = n \<and> a = b"
proof -
  have tw: "takeWhile is_digit (dec_string k @ c) = dec_string k" if "c = [] \<or> \<not> is_digit (hd c)" for k c
    using that by (cases c) (auto simp: takeWhile_append dec_string_digits)
  have "dec_string m = dec_string n"
    using arg_cong [OF assms(1), of "takeWhile is_digit"] tw [OF assms(2)] tw [OF assms(3)] by simp
  then show ?thesis using assms(1) by simp
qed

lemma seg_path_inject:
  assumes "f \<noteq> FN_kInvalid" "g \<noteq> FN_kInvalid"
  shows "seg_path base r f m = seg_path base q g n \<longleftrightarrow>
    db_node (rnb_node r) = db_node (rnb_node q) \<and> rel_node (rnb_node r) = rel_node (rnb_node q) \<and> f = g \<and> m = n"
    (is "?L \<longleftrightarrow> ?R")
proof
  assume L: ?L
  have sl: "\<not> is_digit CHR ''/''" "\<not> is_digit CHR ''_''" "\<not> is_digit CHR ''.''" by (simp_all add: is_digit_def)
  have tail: "t = [] \<or> \<not> is_digit (hd t)" if "t = fork_suffix h @ (if k > 0 then CHR ''.'' # dec_string k else [])" for t h k
    using that sl by (cases h) (auto simp: fork_suffix_def)
  have 1: "dec_string (unat (db_node (rnb_node r))) @ ''/'' @
      dec_string (unat (rel_node (rnb_node r))) @ fork_suffix f @ (if m > 0 then CHR ''.'' # dec_string m else []) =
    dec_string (unat (db_node (rnb_node q))) @ ''/'' @
      dec_string (unat (rel_node (rnb_node q))) @ fork_suffix g @ (if n > 0 then CHR ''.'' # dec_string n else [])"
    using L by (simp add: seg_path_def)
  from dec_string_append [OF this] sl have db: "unat (db_node (rnb_node r)) = unat (db_node (rnb_node q))"
    and 2: "dec_string (unat (rel_node (rnb_node r))) @ fork_suffix f @ (if m > 0 then CHR ''.'' # dec_string m else []) =
      dec_string (unat (rel_node (rnb_node q))) @ fork_suffix g @ (if n > 0 then CHR ''.'' # dec_string n else [])"
    by simp_all
  from dec_string_append [OF 2 tail [OF refl] tail [OF refl]]
  have rel: "unat (rel_node (rnb_node r)) = unat (rel_node (rnb_node q))"
    and 3: "fork_suffix f @ (if m > 0 then CHR ''.'' # dec_string m else []) =
      fork_suffix g @ (if n > 0 then CHR ''.'' # dec_string n else [])"
    by blast+
  have "f = g \<and> m = n"
    using 3 assms by (cases f; cases g) (auto simp: fork_suffix_def split: if_splits)
  with db rel show ?R by (simp add: word_unat_eq_iff)
qed (auto simp: seg_path_def)

subsection \<open>Descriptors\<close>

definition is_open :: "RelFileNodeBackend \<Rightarrow> SmgrState \<Rightarrow> bool" where
  "is_open r s \<longleftrightarrow> r \<in> smgr_rnode ` set (smgr_list s)"

lemma find_reln_None: "find_reln r s = None \<longleftrightarrow> \<not> is_open r s"
  by (auto simp: find_reln_def is_open_def find_None_iff)

lemma find_reln_Some: "find_reln r s = Some d \<Longrightarrow> is_open r s"
  using find_reln_None [of r s] by auto

lemma find_map_upd:
  "find (\<lambda>d. smgr_rnode d = q) (map (\<lambda>d. if smgr_rnode d = r then d\<lparr>md_fd := v d\<rparr> else d) ds) =
    map_option (\<lambda>d. if q = r then d\<lparr>md_fd := v d\<rparr> else d) (find (\<lambda>d. smgr_rnode d = q) ds)"
  by (induction ds) auto

lemma set_fds_simps [simp]:
  "files (set_fds r f v s) = files s" "g_storage_base_dir (set_fds r f v s) = g_storage_base_dir s"
  "map smgr_rnode (smgr_list (set_fds r f v s)) = map smgr_rnode (smgr_list s)"
  "is_open q (set_fds r f v s) = is_open q s"
proof -
  show "map smgr_rnode (smgr_list (set_fds r f v s)) = map smgr_rnode (smgr_list s)" by (simp add: set_fds_def)
  from arg_cong [OF this, of set] show "is_open q (set_fds r f v s) = is_open q s" by (simp add: is_open_def)
qed (simp_all add: set_fds_def)

lemma fds_set_fds [simp]:
  "fds q g (set_fds r f v s) = (if q = r \<and> g = f \<and> is_open r s then v else fds q g s)"
proof -
  have "find_reln q (set_fds r f v s) =
      map_option (\<lambda>d. if q = r then d\<lparr>md_fd := (md_fd d)(f := v)\<rparr> else d) (find_reln q s)"
    by (simp add: find_reln_def set_fds_def find_map_upd)
  then show ?thesis
    by (cases "find_reln q s") (use find_reln_None [of q s] in \<open>auto simp: fds_def\<close>)
qed

lemma fds_files [simp]:
  "fds r f (s\<lparr>files := x\<rparr>) = fds r f s" "is_open r (s\<lparr>files := x\<rparr>) = is_open r s"
  by (simp_all add: fds_def find_reln_def is_open_def)

lemma fds_not_open: "\<not> is_open r s \<Longrightarrow> fds r f s = []"
  using find_reln_None [of r s] by (simp add: fds_def)

text \<open>Every open descriptor is the file of its segment, and this file exists.\<close>

definition fds_ok :: "SmgrState \<Rightarrow> bool" where
  "fds_ok s \<longleftrightarrow> (\<forall>r f n p. f \<noteq> FN_kInvalid \<longrightarrow> n < length (fds r f s) \<longrightarrow> fds r f s ! n = Some p \<longrightarrow>
    p = seg_path (g_storage_base_dir s) r f n \<and> p |\<in>| fmdom (files s))"

lemma fds_okD:
  "fds_ok s \<Longrightarrow> f \<noteq> FN_kInvalid \<Longrightarrow> n < length (fds r f s) \<Longrightarrow> fds r f s ! n = Some p \<Longrightarrow>
    p = seg_path (g_storage_base_dir s) r f n \<and> p |\<in>| fmdom (files s)"
  unfolding fds_ok_def by blast

lemma fds_ok_set_fds:
  assumes "fds_ok s"
    and "\<And>n p. f \<noteq> FN_kInvalid \<Longrightarrow> n < length v \<Longrightarrow> v ! n = Some p \<Longrightarrow>
      p = seg_path (g_storage_base_dir s) r f n \<and> p |\<in>| fmdom (files s)"
  shows "fds_ok (set_fds r f v s)"
  using assms unfolding fds_ok_def by (auto split: if_splits)

lemma fds_ok_files:
  assumes "fds_ok s" "fmdom (files s) |\<subseteq>| fmdom fs"
  shows "fds_ok (s\<lparr>files := fs\<rparr>)"
  using assms unfolding fds_ok_def by auto

lemma fds_Ensure:
  "is_open r s \<Longrightarrow> fds r f (mdEnsureSegments r f n s) =
    (if length (fds r f s) \<le> n then vec_resize (n + 1) None (fds r f s) else fds r f s)"
  by (simp add: mdEnsureSegments_def)

lemma Ensure_simps [simp]:
  "files (mdEnsureSegments r f n s) = files s"
  "g_storage_base_dir (mdEnsureSegments r f n s) = g_storage_base_dir s"
  "map smgr_rnode (smgr_list (mdEnsureSegments r f n s)) = map smgr_rnode (smgr_list s)"
  "is_open q (mdEnsureSegments r f n s) = is_open q s"
  by (simp_all add: mdEnsureSegments_def)

lemma fds_ok_Ensure: "fds_ok s \<Longrightarrow> fds_ok (mdEnsureSegments r f n s)"
  unfolding mdEnsureSegments_def
  by (auto intro!: fds_ok_set_fds simp: nth_vec_resize dest: fds_okD split: if_splits)

lemma same_rnodes_open: "map smgr_rnode (smgr_list t) = map smgr_rnode (smgr_list s) \<Longrightarrow> is_open r t = is_open r s"
  unfolding is_open_def by (metis list.set_map)

text \<open>What an operation keeps: the directory and the list of entries.\<close>

definition same_relns :: "SmgrState \<Rightarrow> SmgrState \<Rightarrow> bool" where
  "same_relns s t \<longleftrightarrow> g_storage_base_dir t = g_storage_base_dir s \<and> map smgr_rnode (smgr_list t) = map smgr_rnode (smgr_list s)"

lemma same_relns_open: "same_relns s t \<Longrightarrow> is_open r t = is_open r s"
  unfolding same_relns_def by (rule same_rnodes_open) simp

text \<open>\<open>mdGetFd\<close> gives the file of the segment if it exists or may be created.\<close>

lemma mdGetFd_spec:
  assumes "fds_ok s" "is_open r s" "f \<noteq> FN_kInvalid" and p: "p = seg_path (g_storage_base_dir s) r f n"
  obtains t where "mdGetFd r f n create s =
      (if p |\<in>| fmdom (files s) \<or> create then Inr p
       else Inl (Ereport (''could not open file '' @ p @ '': No such file or directory'')), t)"
    and "fds_ok t" "same_relns s t"
    and "files t = (if p |\<notin>| fmdom (files s) \<and> create then fmupd p [] (files s) else files s)"
    and "length (fds r f s) \<le> length (fds r f t)"
proof -
  define u where "u = mdEnsureSegments r f n s"
  have u: "fds_ok u" "is_open r u" "files u = files s" "same_relns s u" "n < length (fds r f u)"
      "length (fds r f s) \<le> length (fds r f u)"
    using assms fds_ok_Ensure [of s r f n] fds_Ensure [of r s f n] by (auto simp: u_def same_relns_def)
  have path: "mdFilePath u r f n = Inr p" using u assms by (simp add: mdFilePath_eq same_relns_def)
  show thesis
  proof (cases "fds r f u ! n")
    case (Some q)
    then have "q = p" "p |\<in>| fmdom (files s)" using fds_okD [OF u(1) assms(3) u(5)] u p by (auto simp: same_relns_def)
    then show thesis using that [of u] u Some by (simp add: mdGetFd_def Let_def u_def [symmetric])
  next
    case None
    show thesis
    proof (cases "p |\<in>| fmdom (files s)")
      case True
      then obtain c where c: "fmlookup (files s) p = Some c" by (auto simp: fmlookup_dom_iff)
      show thesis
      proof (rule that [of "set_fds r f ((fds r f u)[n := Some p]) u"])
        show "fds_ok (set_fds r f ((fds r f u)[n := Some p]) u)"
          using u True p fds_okD [OF u(1) assms(3)] by (intro fds_ok_set_fds) (auto simp: same_relns_def nth_list_update split: if_splits)
      qed (use u None True c path in \<open>simp_all add: mdGetFd_def Let_def u_def [symmetric] OpenFile_def same_relns_def\<close>)
    next
      case False
      then have c: "fmlookup (files s) p = None" by (simp add: fmdom_notD)
      show thesis
      proof (cases create)
        case True
        define w where "w = u\<lparr>files := fmupd p [] (files u)\<rparr>"
        have w: "fds_ok w" unfolding w_def using u by (intro fds_ok_files) auto
        show thesis
        proof (rule that [of "set_fds r f ((fds r f w)[n := Some p]) w"])
          show "fds_ok (set_fds r f ((fds r f w)[n := Some p]) w)"
            using u w p fds_okD [OF w assms(3)]
            by (intro fds_ok_set_fds) (auto simp: w_def same_relns_def nth_list_update split: if_splits)
        qed (use u None True c False path in \<open>simp_all add: mdGetFd_def Let_def u_def [symmetric] OpenFile_def same_relns_def w_def\<close>)
      next
        case False
        with \<open>p |\<notin>| fmdom (files s)\<close> show thesis
          using that [of u] u None c path by (simp add: mdGetFd_def Let_def u_def [symmetric] OpenFile_def)
      qed
    qed
  qed
qed

subsection \<open>The blocks of a fork\<close>

definition disk_block :: "SmgrState \<Rightarrow> RelFileNodeBackend \<Rightarrow> ForkNumber \<Rightarrow> BlockNumber \<Rightarrow> u8 list option" where
  "disk_block s r f b = (case fmlookup (files s) (seg_path (g_storage_base_dir s) r f (segno_of b)) of
      None \<Rightarrow> None
    | Some c \<Rightarrow> if offset_of b + kBlckSz \<le> length c then Some (arr_read c (offset_of b) kBlckSz) else None)"

definition same_page :: "RelFileNodeBackend \<Rightarrow> ForkNumber \<Rightarrow> BlockNumber \<Rightarrow> RelFileNodeBackend \<Rightarrow> ForkNumber \<Rightarrow> BlockNumber \<Rightarrow> bool" where
  "same_page r f b q g c \<longleftrightarrow> db_node (rnb_node r) = db_node (rnb_node q) \<and> rel_node (rnb_node r) = rel_node (rnb_node q) \<and> f = g \<and> b = c"

lemma disk_block_cong: "files t = files s \<Longrightarrow> same_relns s t \<Longrightarrow> disk_block t r f b = disk_block s r f b"
  by (simp add: disk_block_def same_relns_def)

lemma block_number_split:
  assumes "segno_of b = segno_of c" "offset_of b = offset_of c"
  shows "b = c"
proof -
  have "unat b mod kRelSegSize = unat c mod kRelSegSize" using assms(2) by (simp add: offset_of_def kBlckSz_def)
  moreover have "unat b div kRelSegSize = unat c div kRelSegSize" using assms(1) by (simp add: segno_of_def)
  ultimately have "unat b = unat c" by (metis div_mult_mod_eq)
  then show ?thesis by (simp add: word_unat_eq_iff)
qed

lemma offsets_apart:
  assumes "segno_of b = segno_of c" "b \<noteq> c"
  shows "offset_of b + kBlckSz \<le> offset_of c \<or> offset_of c + kBlckSz \<le> offset_of b"
proof -
  define x y where "x = unat b mod kRelSegSize" and "y = unat c mod kRelSegSize"
  have "x \<noteq> y" using assms block_number_split [of b c] by (auto simp: offset_of_def x_def y_def)
  then consider "x + 1 \<le> y" | "y + 1 \<le> x" by linarith
  then show ?thesis
  proof cases
    case 1
    from mult_le_mono1 [OF this, of kBlckSz] show ?thesis by (simp add: offset_of_def x_def y_def)
  next
    case 2
    from mult_le_mono1 [OF this, of kBlckSz] show ?thesis by (simp add: offset_of_def x_def y_def)
  qed
qed

lemma arr_read_resize:
  "off + m \<le> n \<Longrightarrow> off + m \<le> length f \<Longrightarrow> arr_read (vec_resize n x f) off m = arr_read f off m"
  by (simp add: arr_read_def vec_resize_def take_drop min_def)

lemma length_file_write: "length (file_write f off d) = max (length f) (off + length d)"
  by (auto simp: file_write_def)

lemma file_write_same: "length d = n \<Longrightarrow> arr_read (file_write f off d) off n = d"
  by (auto simp: file_write_def intro!: arr_read_write_same)

lemma file_write_other:
  assumes "o' + n \<le> length f" "o' + n \<le> off \<or> off + length d \<le> o'"
  shows "arr_read (file_write f off d) o' n = arr_read f o' n"
proof (cases "length f < off + length d")
  case True
  then have "arr_read (file_write f off d) o' n = arr_read (vec_resize (off + length d) 0 f) o' n"
    unfolding file_write_def if_P [OF True] using assms by (intro arr_read_write_other) auto
  also have "\<dots> = arr_read f o' n" using True assms by (intro arr_read_resize) auto
  finally show ?thesis .
next
  case False
  then show ?thesis unfolding file_write_def if_not_P [OF False] using assms by (intro arr_read_write_other) auto
qed

lemma FileWriteBlock_fields [simp]:
  "g_storage_base_dir (FileWriteBlock p off d s) = g_storage_base_dir s"
  "smgr_list (FileWriteBlock p off d s) = smgr_list s"
  "fmdom (files (FileWriteBlock p off d s)) = fmdom (files s)"
  by (auto simp: FileWriteBlock_def fmdom_notI fmdomI split: option.splits)

lemma fds_ok_Write:
  assumes "fds_ok s"
  shows "fds_ok (FileWriteBlock p off d s)"
proof (cases "fmlookup (files s) p")
  case (Some c)
  then show ?thesis using assms unfolding FileWriteBlock_def by (auto intro!: fds_ok_files)
qed (use assms in \<open>simp add: FileWriteBlock_def\<close>)

lemma disk_block_write_same:
  assumes "p = seg_path (g_storage_base_dir s) r f (segno_of b)" "p |\<in>| fmdom (files s)" "length d = kBlckSz"
  shows "disk_block (FileWriteBlock p (offset_of b) d s) r f b = Some d"
proof -
  obtain c where "fmlookup (files s) p = Some c" using assms(2) by (auto simp: fmlookup_dom_iff)
  then show ?thesis using assms by (simp add: disk_block_def FileWriteBlock_def length_file_write file_write_same)
qed

lemma disk_block_write_other:
  assumes "f \<noteq> FN_kInvalid" "g \<noteq> FN_kInvalid" "\<not> same_page r f b q g c"
    and p: "p = seg_path (g_storage_base_dir s) r f (segno_of b)" and "length d = kBlckSz"
    and x: "disk_block s q g c = Some x"
  shows "disk_block (FileWriteBlock p (offset_of b) d s) q g c = Some x"
proof (cases "seg_path (g_storage_base_dir s) q g (segno_of c) = p")
  case False
  then show ?thesis using x by (auto simp: disk_block_def FileWriteBlock_def split: option.splits)
next
  case True
  then have same: "segno_of b = segno_of c" "b \<noteq> c"
    using assms(1-3) p by (auto simp: seg_path_inject same_page_def)
  from x True obtain h where h: "fmlookup (files s) p = Some h" "offset_of c + kBlckSz \<le> length h"
      "x = arr_read h (offset_of c) kBlckSz"
    by (auto simp: disk_block_def split: option.splits if_splits)
  have "arr_read (file_write h (offset_of b) d) (offset_of c) kBlckSz = x"
    using file_write_other [of "offset_of c" kBlckSz h "offset_of b" d] offsets_apart [OF same] h assms(5) by auto
  then show ?thesis using True h by (simp add: disk_block_def FileWriteBlock_def length_file_write)
qed

lemma mdread_spec:
  assumes "fds_ok s" "is_open r s" "f \<noteq> FN_kInvalid"
  obtains t where "mdread r f b s = (case disk_block s r f b of Some x \<Rightarrow> Inr x
      | None \<Rightarrow> Inl (Ereport (if seg_path (g_storage_base_dir s) r f (segno_of b) |\<in>| fmdom (files s)
          then ''could not read block: unexpected end of file''
          else ''could not open file '' @ seg_path (g_storage_base_dir s) r f (segno_of b) @ '': No such file or directory'')), t)"
    and "fds_ok t" "same_relns s t" "files t = files s"
proof -
  define p where "p = seg_path (g_storage_base_dir s) r f (segno_of b)"
  obtain t where t: "mdGetFd r f (segno_of b) False s = (if p |\<in>| fmdom (files s) then Inr p
      else Inl (Ereport (''could not open file '' @ p @ '': No such file or directory'')), t)"
      "fds_ok t" "same_relns s t" "files t = files s"
    using mdGetFd_spec [OF assms p_def, of False] by (metis (no_types, lifting))
  show thesis
  proof (cases "fmlookup (files s) p")
    case None
    then show thesis using that [of t] t by (simp add: mdread_def disk_block_def p_def [symmetric] fmdom_notI)
  next
    case (Some c)
    then have "p |\<in>| fmdom (files s)" by (simp add: fmdomI)
    moreover have "FileReadBlock t p (offset_of b) = (if offset_of b + kBlckSz \<le> length c then Inr (arr_read c (offset_of b) kBlckSz)
        else Inl (Ereport ''could not read block: unexpected end of file''))"
      using Some t(4) by (auto simp: FileReadBlock_def Let_def arr_read_def kBlckSz_def)
    ultimately show thesis using that [of t] t Some by (simp add: mdread_def disk_block_def p_def [symmetric])
  qed
qed

text \<open>What a successful write of block \<open>b\<close> does.\<close>

definition written :: "RelFileNodeBackend \<Rightarrow> ForkNumber \<Rightarrow> BlockNumber \<Rightarrow> u8 list \<Rightarrow> SmgrState \<Rightarrow> SmgrState \<Rightarrow> bool" where
  "written r f b d s t \<longleftrightarrow> fds_ok t \<and> same_relns s t \<and> disk_block t r f b = Some d \<and>
    (\<forall>q g c x. g \<noteq> FN_kInvalid \<longrightarrow> \<not> same_page r f b q g c \<longrightarrow> disk_block s q g c = Some x \<longrightarrow> disk_block t q g c = Some x)"

lemma written_FileWriteBlock:
  assumes "fds_ok s" "f \<noteq> FN_kInvalid" "p = seg_path (g_storage_base_dir s) r f (segno_of b)" "p |\<in>| fmdom (files s)"
    and "length d = kBlckSz"
  shows "written r f b d s (FileWriteBlock p (offset_of b) d s)"
  unfolding written_def
  using assms fds_ok_Write disk_block_write_same [OF assms(3-5)] disk_block_write_other [OF assms(2) _ _ assms(3,5)]
  by (auto simp: same_relns_def)

lemma written_after:
  assumes "written r f b d t u" "same_relns s t" "\<And>q g c x. g \<noteq> FN_kInvalid \<Longrightarrow> disk_block s q g c = Some x \<Longrightarrow> disk_block t q g c = Some x"
  shows "written r f b d s u"
  using assms unfolding written_def same_relns_def by metis

lemma disk_block_create:
  assumes "p |\<notin>| fmdom (files s)" "files t = fmupd p [] (files s)" "same_relns s t" "disk_block s q g c = Some x"
  shows "disk_block t q g c = Some x"
  using assms by (auto simp: disk_block_def same_relns_def fmdom_notD split: option.splits)

lemma mdwrite_spec:
  assumes "fds_ok s" "is_open r s" "f \<noteq> FN_kInvalid" "length d = kBlckSz"
    and p: "p = seg_path (g_storage_base_dir s) r f (segno_of b)" and "p |\<in>| fmdom (files s)"
  obtains t where "mdwrite r f b d s = (Inr (), t)" "written r f b d s t"
proof -
  obtain t where t: "mdGetFd r f (segno_of b) False s = (Inr p, t)" "fds_ok t" "same_relns s t" "files t = files s"
    using mdGetFd_spec [OF assms(1-3) p, of False] assms(6) by auto
  have "written r f b d t (FileWriteBlock p (offset_of b) d t)"
    using t assms by (intro written_FileWriteBlock) (auto simp: same_relns_def)
  then have "written r f b d s (FileWriteBlock p (offset_of b) d t)"
    by (rule written_after [OF _ t(3)]) (simp add: disk_block_cong [OF t(4,3)])
  then show thesis using that t by (simp add: mdwrite_def)
qed

lemma mdwrite_missing:
  assumes "fds_ok s" "is_open r s" "f \<noteq> FN_kInvalid"
    and p: "p = seg_path (g_storage_base_dir s) r f (segno_of b)" and "p |\<notin>| fmdom (files s)"
  obtains t where "mdwrite r f b d s = (Inl (Ereport (''could not open file '' @ p @ '': No such file or directory'')), t)"
    "fds_ok t" "same_relns s t" "files t = files s"
proof -
  obtain t where "mdGetFd r f (segno_of b) False s =
      (Inl (Ereport (''could not open file '' @ p @ '': No such file or directory'')), t)"
      "fds_ok t" "same_relns s t" "files t = files s"
    using mdGetFd_spec [OF assms(1-3) p, of False] assms(5) by auto
  then show thesis using that by (simp add: mdwrite_def)
qed

lemma mdextend_spec:
  assumes "fds_ok s" "is_open r s" "f \<noteq> FN_kInvalid" "length d = kBlckSz"
  obtains t where "mdextend r f b d s = (Inr (), t)" "written r f b d s t"
proof -
  define p where "p = seg_path (g_storage_base_dir s) r f (segno_of b)"
  obtain t where t: "mdGetFd r f (segno_of b) True s = (Inr p, t)" "fds_ok t" "same_relns s t"
      "files t = (if p |\<notin>| fmdom (files s) then fmupd p [] (files s) else files s)"
    using mdGetFd_spec [OF assms(1-3) p_def, of True] by auto
  have "p |\<in>| fmdom (files t)" using t(4) by auto
  then have "written r f b d t (FileWriteBlock p (offset_of b) d t)"
    using t assms by (intro written_FileWriteBlock) (auto simp: same_relns_def p_def)
  then have "written r f b d s (FileWriteBlock p (offset_of b) d t)"
  proof (rule written_after [OF _ t(3)])
    show "disk_block t q g c = Some x" if "disk_block s q g c = Some x" for q g c x
      using that t disk_block_create [OF _ _ t(3) that, of p] disk_block_cong [OF _ t(3), of q g c]
      by (cases "p |\<in>| fmdom (files s)") auto
  qed
  then show thesis using that t by (simp add: mdextend_def)
qed

subsection \<open>Removing files\<close>

text \<open>No two entries name the same files; the path has neither the tablespace nor the backend.\<close>

definition no_alias :: "SmgrState \<Rightarrow> bool" where
  "no_alias s \<longleftrightarrow> distinct (map (\<lambda>d. (db_node (rnb_node (smgr_rnode d)), rel_node (rnb_node (smgr_rnode d)))) (smgr_list s))"

lemma no_aliasD:
  assumes "no_alias s" "is_open r s" "is_open q s"
    and "db_node (rnb_node r) = db_node (rnb_node q)" "rel_node (rnb_node r) = rel_node (rnb_node q)"
  shows "r = q"
proof -
  obtain a b where ab: "a \<in> set (smgr_list s)" "r = smgr_rnode a" "b \<in> set (smgr_list s)" "q = smgr_rnode b"
    using assms(2,3) by (auto simp: is_open_def)
  have "inj_on (\<lambda>d. (db_node (rnb_node (smgr_rnode d)), rel_node (rnb_node (smgr_rnode d)))) (set (smgr_list s))"
    using assms(1) unfolding no_alias_def distinct_map by blast
  from inj_onD [OF this _ ab(1,3)] assms(4,5) ab show ?thesis by simp
qed

lemma no_alias_same_relns: "same_relns s t \<Longrightarrow> no_alias t = no_alias s"
proof -
  have eq: "map (\<lambda>d. (db_node (rnb_node (smgr_rnode d)), rel_node (rnb_node (smgr_rnode d)))) (smgr_list u) =
    map (\<lambda>r. (db_node (rnb_node r), rel_node (rnb_node r))) (map smgr_rnode (smgr_list u))" for u
    by (simp add: comp_def)
  show "same_relns s t \<Longrightarrow> no_alias t = no_alias s" unfolding no_alias_def same_relns_def eq by simp
qed

lemma fmdom_drop_set_iff [simp]: "x |\<in>| fmdom (fmdrop_set P m) \<longleftrightarrow> x |\<in>| fmdom m \<and> x \<notin> P"
  by (simp add: fmlookup_dom_iff)

text \<open>Removing a segment the entry has closed.\<close>

lemma fds_ok_drop:
  assumes "fds_ok s" "no_alias s" "is_open r s" "f \<noteq> FN_kInvalid"
    and P: "\<And>p. p \<in> P \<Longrightarrow> \<exists>n. p = seg_path (g_storage_base_dir s) r f n \<and> (n < length (fds r f s) \<longrightarrow> fds r f s ! n = None)"
  shows "fds_ok (s\<lparr>files := fmdrop_set P (files s)\<rparr>)"
  unfolding fds_ok_def
proof (intro allI impI, goal_cases)
  case (1 q g n p)
  then have q: "p = seg_path (g_storage_base_dir s) q g n" "p |\<in>| fmdom (files s)" "is_open q s"
    using fds_okD [OF assms(1), of g n q p] fds_not_open [of q s g] by (cases "is_open q s"; auto)+
  have "p \<notin> P"
  proof
    assume "p \<in> P"
    from P [OF this] obtain k where k: "p = seg_path (g_storage_base_dir s) r f k" "k < length (fds r f s) \<longrightarrow> fds r f s ! k = None" by blast
    with q 1 assms(4) have "g = f" "k = n" "r = q"
      by (auto simp: seg_path_inject intro: no_aliasD [OF assms(2,3) q(3)])
    with k 1 show False by auto
  qed
  with q show ?case by (simp add: fmdom_drop_set_iff)
qed

lemma unlink_loop_spec:
  assumes "f \<noteq> FN_kInvalid"
  shows "\<exists>k\<ge>n. (\<forall>j. n \<le> j \<and> j < k \<longrightarrow> seg_path (g_storage_base_dir s) r f j |\<in>| fmdom (files s)) \<and>
    seg_path (g_storage_base_dir s) r f k |\<notin>| fmdom (files s) \<and>
    unlink_loop r f n s = (Inr (), s\<lparr>files := fmdrop_set (seg_path (g_storage_base_dir s) r f ` {n..<k}) (files s)\<rparr>)"
  using assms
proof (induction r f n s rule: unlink_loop.induct)
  case (1 r f n s)
  define base where "base = g_storage_base_dir s"
  define p where "p = seg_path base r f n"
  have path: "mdFilePath s r f n = Inr p" using 1 by (simp add: mdFilePath_eq p_def base_def)
  show ?case
  proof (cases "p |\<in>| fmdom (files s)")
    case False
    then show ?thesis using path
      by (intro exI [of _ n]) (auto simp: unlink_loop.simps [of r f n s] p_def base_def)
  next
    case True
    define u where "u = s\<lparr>files := fmdrop p (files s)\<rparr>"
    have u: "g_storage_base_dir u = base" "files u = fmdrop p (files s)" by (simp_all add: u_def base_def)
    obtain k where k: "n + 1 \<le> k" "\<forall>j. n + 1 \<le> j \<and> j < k \<longrightarrow> seg_path base r f j |\<in>| fmdom (files u)"
        "seg_path base r f k |\<notin>| fmdom (files u)"
        "unlink_loop r f (n + 1) u = (Inr (), u\<lparr>files := fmdrop_set (seg_path base r f ` {n + 1..<k}) (files u)\<rparr>)"
      using "1.IH" [OF path True "1.prems"] unfolding u_def [symmetric] u by blast
    have split: "{n..<k} = insert n {n + 1..<k}" using k(1) by auto
    have "fmdrop_set (seg_path base r f ` {n + 1..<k}) (files u) = fmdrop_set (seg_path base r f ` {n..<k}) (files s)"
      unfolding split u p_def by (rule fmap_ext) auto
    then have "unlink_loop r f n s = (Inr (), s\<lparr>files := fmdrop_set (seg_path base r f ` {n..<k}) (files s)\<rparr>)"
      using path True k(4) by (simp add: unlink_loop.simps [of r f n s] u_def)
    moreover have "seg_path base r f k |\<notin>| fmdom (files s)"
      using k(1,3) 1 by (auto simp: u p_def seg_path_inject)
    moreover have "seg_path base r f j |\<in>| fmdom (files s)" if "n \<le> j" "j < k" for j
      using that k(2) True by (cases "j = n") (auto simp: u p_def)
    ultimately show ?thesis using k(1) unfolding base_def by (intro exI [of _ k]) auto
  qed
qed

lemma mdunlink_spec:
  assumes "fds_ok s" "no_alias s" "is_open r s" "f \<noteq> FN_kInvalid"
  obtains t k where "mdunlink r f s = (Inr (), t)" "fds_ok t" "same_relns s t" "fds r f t = []"
    "\<forall>q g. (q, g) \<noteq> (r, f) \<longrightarrow> fds q g t = fds q g s"
    "\<forall>j<k. seg_path (g_storage_base_dir s) r f j |\<in>| fmdom (files s)"
    "seg_path (g_storage_base_dir s) r f k |\<notin>| fmdom (files s)"
    "files t = fmdrop_set (seg_path (g_storage_base_dir s) r f ` {0..<k}) (files s)"
proof -
  define u where "u = mdclose r f s"
  have u: "fds_ok u" "no_alias u" "is_open r u" "same_relns s u" "files u = files s" "fds r f u = []"
      "\<forall>q g. (q, g) \<noteq> (r, f) \<longrightarrow> fds q g u = fds q g s"
    using assms fds_ok_set_fds [of s f "[]" r] no_alias_same_relns [of s u]
    by (auto simp: u_def mdclose_def same_relns_def)
  obtain k where k: "\<forall>j. j < k \<longrightarrow> seg_path (g_storage_base_dir s) r f j |\<in>| fmdom (files s)"
      "seg_path (g_storage_base_dir s) r f k |\<notin>| fmdom (files s)"
      "unlink_loop r f 0 u = (Inr (), u\<lparr>files := fmdrop_set (seg_path (g_storage_base_dir s) r f ` {0..<k}) (files u)\<rparr>)"
    using unlink_loop_spec [OF assms(4), of 0 u r] u by (auto simp: same_relns_def)
  define w where "w = u\<lparr>files := fmdrop_set (seg_path (g_storage_base_dir s) r f ` {0..<k}) (files u)\<rparr>"
  have w: "fds_ok w" unfolding w_def using u assms by (intro fds_ok_drop [where f = f and r = r]) (auto simp: same_relns_def)
  show thesis
  proof (rule that [of "set_fds r f [] w" k])
    show "fds_ok (set_fds r f [] w)" using w by (intro fds_ok_set_fds) auto
  qed (use u k in \<open>auto simp: mdunlink_def u_def [symmetric] w_def same_relns_def\<close>)
qed

text \<open>The files of the segments before the first missing one.\<close>

definition leading_segs :: "SmgrState \<Rightarrow> RelFileNodeBackend \<Rightarrow> ForkNumber \<Rightarrow> string set" where
  "leading_segs s r f = {p. \<exists>j. p = seg_path (g_storage_base_dir s) r f j \<and>
    (\<forall>i\<le>j. seg_path (g_storage_base_dir s) r f i |\<in>| fmdom (files s))}"

lemma leading_segs_upto:
  assumes "\<forall>j<k. seg_path (g_storage_base_dir s) r f j |\<in>| fmdom (files s)"
    and "seg_path (g_storage_base_dir s) r f k |\<notin>| fmdom (files s)"
  shows "seg_path (g_storage_base_dir s) r f ` {0..<k} = leading_segs s r f"
proof -
  have "(\<forall>i\<le>j. seg_path (g_storage_base_dir s) r f i |\<in>| fmdom (files s)) \<longleftrightarrow> j < k" for j
    using assms by (meson le_trans linorder_not_le order.strict_trans1)
  then show ?thesis by (auto simp: leading_segs_def)
qed

lemma leading_segs_fork:
  assumes "p \<in> leading_segs s r f" "p \<in> leading_segs s r g" "f \<noteq> FN_kInvalid" "g \<noteq> FN_kInvalid"
  shows "f = g"
  using assms by (auto simp: leading_segs_def seg_path_inject)

lemma leading_segs_other:
  assumes "same_relns s t" "files t = fmdrop_set (leading_segs s r f) (files s)" "f \<noteq> g" "f \<noteq> FN_kInvalid" "g \<noteq> FN_kInvalid"
  shows "leading_segs t r g = leading_segs s r g"
proof -
  have "seg_path b r g i \<notin> leading_segs s r f" if "b = g_storage_base_dir s" for i b
    using that assms(3-5) by (auto simp: leading_segs_def seg_path_inject)
  then show ?thesis using assms(1,2) by (simp add: leading_segs_def [of _ r g] same_relns_def)
qed

lemma fork_step:
  assumes "fds_ok s" "no_alias s" "is_open r s" "f \<noteq> FN_kInvalid"
  obtains t where "unlink_forks r (f # fs) s = unlink_forks r fs t" "fds_ok t" "same_relns s t"
    "files t = fmdrop_set (leading_segs s r f) (files s)"
proof (cases "seg_path (g_storage_base_dir s) r f 0 |\<in>| fmdom (files s)")
  case True
  obtain t k where t: "mdunlink r f s = (Inr (), t)" "fds_ok t" "same_relns s t"
      "\<forall>j<k. seg_path (g_storage_base_dir s) r f j |\<in>| fmdom (files s)"
      "seg_path (g_storage_base_dir s) r f k |\<notin>| fmdom (files s)"
      "files t = fmdrop_set (seg_path (g_storage_base_dir s) r f ` {0..<k}) (files s)"
    using mdunlink_spec [OF assms] by metis
  show thesis
    by (rule that [of t]) (use t True assms leading_segs_upto [OF t(4,5)] in \<open>simp_all add: mdexists_def mdFilePath_eq\<close>)
next
  case False
  then have "leading_segs s r f = {}" by (auto simp: leading_segs_def)
  moreover have "fds_ok (mdclose r f s)" unfolding mdclose_def using assms(1) by (intro fds_ok_set_fds) auto
  ultimately show thesis using that [of "mdclose r f s"] False assms
    by (simp add: mdexists_def mdFilePath_eq mdclose_def same_relns_def)
qed

lemma unlink_forks_spec:
  assumes "fds_ok s" "no_alias s" "is_open r s" "FN_kInvalid \<notin> set fs" "distinct fs"
  shows "\<exists>t. unlink_forks r fs s = (Inr (), t) \<and> fds_ok t \<and> same_relns s t \<and>
    files t = fmdrop_set (\<Union>f\<in>set fs. leading_segs s r f) (files s)"
  using assms
proof (induction fs arbitrary: s)
  case Nil
  then show ?case by (simp add: same_relns_def)
next
  case (Cons f fs)
  obtain u where u: "unlink_forks r (f # fs) s = unlink_forks r fs u" "fds_ok u" "same_relns s u"
      "files u = fmdrop_set (leading_segs s r f) (files s)"
    using fork_step [OF Cons.prems(1-3), of f fs] Cons.prems(4) by auto
  have same: "leading_segs u r g = leading_segs s r g" if "g \<in> set fs" for g
    using that Cons.prems by (intro leading_segs_other [OF u(3,4)]) auto
  have "no_alias u" "is_open r u"
    using Cons.prems u(3) by (simp_all add: no_alias_same_relns same_relns_open)
  from Cons.IH [OF u(2) this] Cons.prems(4,5)
  obtain t where t: "unlink_forks r fs u = (Inr (), t)" "fds_ok t" "same_relns u t"
      "files t = fmdrop_set (\<Union>f\<in>set fs. leading_segs u r f) (files u)" by auto
  have "files t = fmdrop_set (\<Union>f\<in>set (f # fs). leading_segs s r f) (files s)"
    unfolding t(4) u(4) using same by (intro fmap_ext) auto
  then show ?case using t u by (auto simp: same_relns_def)
qed

lemma mdrelease_simps [simp]:
  "files (mdrelease r s) = files s" "g_storage_base_dir (mdrelease r s) = g_storage_base_dir s"
  "map smgr_rnode (smgr_list (mdrelease r s)) = map smgr_rnode (smgr_list s)"
  "q \<noteq> r \<Longrightarrow> fds q g (mdrelease r s) = fds q g s"
  by (simp_all add: mdrelease_def mdclose_def)

lemma find_filter_reln: "find (\<lambda>d. smgr_rnode d = q) (filter (\<lambda>d. smgr_rnode d \<noteq> r) ds) =
    (if q = r then None else find (\<lambda>d. smgr_rnode d = q) ds)"
  by (induction ds) auto

lemma smgrclose_spec:
  "files (smgrclose r s) = files s" "g_storage_base_dir (smgrclose r s) = g_storage_base_dir s"
  "fds q g (smgrclose r s) = (if q = r then [] else fds q g s)"
  "is_open q (smgrclose r s) \<longleftrightarrow> is_open q s \<and> q \<noteq> r"
proof -
  show "fds q g (smgrclose r s) = (if q = r then [] else fds q g s)"
  proof (cases "q = r")
    case False
    then have "fds q g (smgrclose r s) = fds q g (mdrelease r s)"
      by (simp add: fds_def smgrclose_def find_reln_def find_filter_reln Let_def)
    with False show ?thesis by simp
  qed (simp add: fds_def smgrclose_def find_reln_def find_filter_reln Let_def)
  have "is_open q (mdrelease r s) = is_open q s" by (rule same_rnodes_open) simp
  then show "is_open q (smgrclose r s) \<longleftrightarrow> is_open q s \<and> q \<noteq> r"
    by (auto simp: smgrclose_def Let_def is_open_def)
qed (simp_all add: smgrclose_def Let_def)

lemma fds_ok_smgrclose: "fds_ok s \<Longrightarrow> fds_ok (smgrclose r s)"
  unfolding fds_ok_def by (auto simp: smgrclose_spec split: if_splits)

subsection \<open>Counting blocks\<close>

definition seg_blocks :: "SmgrState \<Rightarrow> RelFileNodeBackend \<Rightarrow> ForkNumber \<Rightarrow> nat \<Rightarrow> nat" where
  "seg_blocks s r f j = (case fmlookup (files s) (seg_path (g_storage_base_dir s) r f j) of None \<Rightarrow> 0 | Some c \<Rightarrow> length c div kBlckSz)"

lemma count_segments_spec:
  assumes "f \<noteq> FN_kInvalid"
    and "\<And>i p. i < length ds \<Longrightarrow> ds ! i = Some p \<Longrightarrow> p = seg_path (g_storage_base_dir s) r f (n + i) \<and> p |\<in>| fmdom (files s)"
  shows "\<exists>m\<le>length ds. (m < length ds \<longrightarrow> seg_path (g_storage_base_dir s) r f (n + m) |\<notin>| fmdom (files s)) \<and>
    count_segments s r f ds n tot = Inr (tot + of_nat (\<Sum>j = n..<n + m. seg_blocks s r f j))"
  using assms(2)
proof (induction ds arbitrary: n tot)
  case (Cons d ds)
  define p where "p = seg_path (g_storage_base_dir s) r f n"
  have d: "d = Some q \<Longrightarrow> q = p \<and> p |\<in>| fmdom (files s)" for q
    using Cons.prems [of 0] by (auto simp: p_def)
  show ?case
  proof (cases "fmlookup (files s) p")
    case None
    then have "d = None" using d fmdom_notI [OF None] by (cases d) auto
    then show ?thesis using None assms(1)
      by (intro exI [of _ 0]) (simp add: mdFilePath_eq p_def fmdom_notI)
  next
    case (Some c)
    have step: "count_segments s r f (d # ds) n tot = count_segments s r f ds (n + 1) (tot + of_nat (length c div kBlckSz))"
      using Some d assms(1) by (cases d) (auto simp: mdFilePath_eq p_def)
    have IH: "\<And>i q. i < length ds \<Longrightarrow> ds ! i = Some q \<Longrightarrow> q = seg_path (g_storage_base_dir s) r f (n + 1 + i) \<and> q |\<in>| fmdom (files s)"
      using Cons.prems [of "Suc i" for i] by auto
    obtain m where m: "m \<le> length ds" "m < length ds \<longrightarrow> seg_path (g_storage_base_dir s) r f (n + 1 + m) |\<notin>| fmdom (files s)"
        "count_segments s r f ds (n + 1) (tot + of_nat (length c div kBlckSz)) =
          Inr (tot + of_nat (length c div kBlckSz) + of_nat (\<Sum>j = n + 1..<n + 1 + m. seg_blocks s r f j))"
      using Cons.IH [of "n + 1" "tot + of_nat (length c div kBlckSz)", OF IH] by blast
    have "(\<Sum>j = n..<n + Suc m. seg_blocks s r f j) = length c div kBlckSz + (\<Sum>j = n + 1..<n + 1 + m. seg_blocks s r f j)"
      using Some by (simp add: sum.atLeast_Suc_lessThan seg_blocks_def p_def)
    then show ?thesis using m step by (intro exI [of _ "Suc m"]) (simp add: add.assoc)
  qed
qed simp

lemma sum_segments: "(\<Sum>j<m. min R (N - j * R)) = min N (m * R)" for N R m :: nat
  by (induction m) auto

text \<open>The fork holds the blocks below \<open>N\<close> and no segment is longer than \<open>kRelSegSize\<close>.\<close>

definition has_blocks :: "SmgrState \<Rightarrow> RelFileNodeBackend \<Rightarrow> ForkNumber \<Rightarrow> nat \<Rightarrow> bool" where
  "has_blocks s r f N \<longleftrightarrow> (\<forall>b. disk_block s r f b \<noteq> None \<longleftrightarrow> unat b < N) \<and> (\<forall>j. seg_blocks s r f j \<le> kRelSegSize)"

lemma block_of_segment:
  assumes "j < 32768" "i < kRelSegSize"
  shows "unat (of_nat (j * kRelSegSize + i) :: BlockNumber) = j * kRelSegSize + i"
    "segno_of (of_nat (j * kRelSegSize + i)) = j" "offset_of (of_nat (j * kRelSegSize + i)) = i * kBlckSz"
proof -
  have "j * kRelSegSize + i < 2 ^ 32" using assms by (simp add: kRelSegSize_def)
  then show u: "unat (of_nat (j * kRelSegSize + i) :: BlockNumber) = j * kRelSegSize + i"
    unfolding unat_of_nat by simp
  show "segno_of (of_nat (j * kRelSegSize + i)) = j" "offset_of (of_nat (j * kRelSegSize + i)) = i * kBlckSz"
    using assms(2) unfolding segno_of_def offset_of_def u by simp_all
qed

lemma seg_blocks_layout:
  assumes "has_blocks s r f N" "j < 32768"
  shows "seg_blocks s r f j = min kRelSegSize (N - j * kRelSegSize)"
proof -
  have iff: "i < seg_blocks s r f j \<longleftrightarrow> j * kRelSegSize + i < N" if i: "i < kRelSegSize" for i
  proof -
    have "disk_block s r f (of_nat (j * kRelSegSize + i)) \<noteq> None \<longleftrightarrow> j * kRelSegSize + i < N"
      using assms(1) block_of_segment(1) [OF assms(2) i] unfolding has_blocks_def by metis
    moreover have "i * kBlckSz + kBlckSz \<le> n \<longleftrightarrow> i < n div kBlckSz" for n
      using less_eq_div_iff_mult_less_eq [of kBlckSz "Suc i" n] by (auto simp: kBlckSz_def)
    then have "disk_block s r f (of_nat (j * kRelSegSize + i)) \<noteq> None \<longleftrightarrow> i < seg_blocks s r f j"
      unfolding disk_block_def block_of_segment [OF assms(2) i] by (simp add: seg_blocks_def split: option.split)
    ultimately show ?thesis by simp
  qed
  have le: "seg_blocks s r f j \<le> kRelSegSize" using assms(1) by (simp add: has_blocks_def)
  show ?thesis
  proof (cases "seg_blocks s r f j")
    case 0
    then show ?thesis using iff [of 0] by (simp add: kRelSegSize_def)
  next
    case (Suc m)
    then show ?thesis using iff [of m] iff [of "Suc m"] le by (cases "Suc m = kRelSegSize") auto
  qed
qed

lemma mdnblocks_spec:
  assumes "fds_ok s" "f \<noteq> FN_kInvalid" "has_blocks s r f N" "length (fds r f s) \<le> 32768"
  shows "mdnblocks r f s = Inr (of_nat (min N (max 1 (length (fds r f s)) * kRelSegSize)))"
proof -
  define K where "K = max 1 (length (fds r f s))"
  have K: "K \<le> 32768" using assms(4) by (simp add: K_def)
  obtain m where m: "m \<le> K" "m < K \<longrightarrow> seg_path (g_storage_base_dir s) r f m |\<notin>| fmdom (files s)"
      "mdnblocks r f s = Inr (of_nat (\<Sum>j<m. seg_blocks s r f j))"
  proof (cases "fds r f s = []")
    case True
    then show thesis
      using that [of 1] that [of 0] assms(2)
      by (cases "fmlookup (files s) (seg_path (g_storage_base_dir s) r f 0)")
        (auto simp: mdnblocks_def K_def mdFilePath_eq seg_blocks_def fmdom_notI)
  next
    case False
    then have "K = length (fds r f s)" by (cases "fds r f s") (auto simp: K_def)
    then show thesis
      using that count_segments_spec [OF assms(2), of "fds r f s" s r 0 0] fds_okD [OF assms(1,2)] False
      by (auto simp: mdnblocks_def lessThan_atLeast0)
  qed
  have "(\<Sum>j<m. seg_blocks s r f j) = (\<Sum>j<m. min kRelSegSize (N - j * kRelSegSize))"
    using m(1) K seg_blocks_layout [OF assms(3)] by (intro sum.cong) auto
  also have "\<dots> = min N (m * kRelSegSize)" by (rule sum_segments)
  also have "\<dots> = min N (K * kRelSegSize)"
  proof (cases "m < K")
    case True
    then have "seg_blocks s r f m = 0" using m(2) by (simp add: seg_blocks_def fmdom_notD)
    then have "N \<le> m * kRelSegSize" using seg_blocks_layout [OF assms(3), of m] True K by (auto simp: kRelSegSize_def)
    moreover have "m * kRelSegSize \<le> K * kRelSegSize" using m(1) by (rule mult_le_mono1)
    ultimately show ?thesis by linarith
  qed (use m(1) in simp)
  finally show ?thesis using m(3) by (simp add: K_def)
qed

subsection \<open>Truncation\<close>

lemma fds_ok_close_drop:
  assumes "fds_ok s" "no_alias s" "is_open r s" "f \<noteq> FN_kInvalid"
  shows "fds_ok ((set_fds r f ((fds r f s)[n := None]) s)\<lparr>files := fmdrop (seg_path (g_storage_base_dir s) r f n) (files s)\<rparr>)"
proof -
  define u where "u = set_fds r f ((fds r f s)[n := None]) s"
  have "(fds r f s)[n := None] ! k = (if k = n \<and> n < length (fds r f s) then None else fds r f s ! k)" for k
    by (cases "n < length (fds r f s)") (auto simp: nth_list_update list_update_beyond)
  then have u: "fds_ok u" unfolding u_def using assms(1) fds_okD [OF assms(1)]
    by (intro fds_ok_set_fds) (auto split: if_splits)
  have "no_alias u" using assms(2) no_alias_same_relns [of s u] by (simp add: u_def same_relns_def)
  then have "fds_ok (u\<lparr>files := fmdrop_set {seg_path (g_storage_base_dir s) r f n} (files u)\<rparr>)"
    using u assms by (intro fds_ok_drop [where r = r and f = f]) (auto simp: u_def)
  then show ?thesis by (simp add: u_def)
qed

lemma remove_segments_spec:
  assumes "fds_ok s" "no_alias s" "is_open r s" "f \<noteq> FN_kInvalid"
  shows "\<exists>t. remove_segments r f l n s = (Inr (), t) \<and> fds_ok t \<and> same_relns s t \<and>
    files t = fmdrop_set (seg_path (g_storage_base_dir s) r f ` {l<..<n}) (files s)"
  using assms
proof (induction n arbitrary: s)
  case 0
  then show ?case by (simp add: same_relns_def)
next
  case (Suc n)
  show ?case
  proof (cases "l < n")
    case False
    then have "{l<..<Suc n} = {}" by auto
    with False show ?thesis using Suc.prems by (simp add: same_relns_def)
  next
    case True
    define p where "p = seg_path (g_storage_base_dir s) r f n"
    define u where "u = (set_fds r f ((fds r f s)[n := None]) s)\<lparr>files := fmdrop p (files s)\<rparr>"
    have u: "fds_ok u" "same_relns s u" "files u = fmdrop p (files s)"
      using fds_ok_close_drop [OF Suc.prems, of n] by (simp_all add: u_def p_def same_relns_def)
    have "remove_segments r f l (Suc n) s = remove_segments r f l n u"
      using True Suc.prems(4) by (simp add: mdFilePath_eq u_def p_def)
    moreover obtain t where t: "remove_segments r f l n u = (Inr (), t)" "fds_ok t" "same_relns u t"
        "files t = fmdrop_set (seg_path (g_storage_base_dir u) r f ` {l<..<n}) (files u)"
      using Suc.IH [OF u(1)] Suc.prems u(2) by (auto simp: no_alias_same_relns same_relns_open)
    moreover have "{l<..<Suc n} = insert n {l<..<n}" using True by auto
    then have "files t = fmdrop_set (seg_path (g_storage_base_dir s) r f ` {l<..<Suc n}) (files s)"
      unfolding t(4) u(3) p_def using u(2) by (intro fmap_ext) (auto simp: same_relns_def)
    ultimately show ?thesis using u(2) by (auto simp: same_relns_def)
  qed
qed

text \<open>The files that remain: those of other forks, and of the segments up to the last one.\<close>

lemma mdtruncate_spec:
  assumes ok: "fds_ok s" "no_alias s" "is_open r s" "f \<noteq> FN_kInvalid"
    and last: "unat n mod kRelSegSize > 0 \<Longrightarrow> seg_path (g_storage_base_dir s) r f (segno_of n) |\<in>| fmdom (files s)"
    and known: "\<forall>j. seg_path (g_storage_base_dir s) r f j |\<in>| fmdom (files s) \<longrightarrow> j < length (fds r f s)"
  obtains t where "mdtruncate r f n s = (Inr (), t)" "fds_ok t" "same_relns s t"
    "\<And>q g j. g \<noteq> FN_kInvalid \<Longrightarrow> fmlookup (files t) (seg_path (g_storage_base_dir s) q g j) =
      (if g = f \<and> db_node (rnb_node q) = db_node (rnb_node r) \<and> rel_node (rnb_node q) = rel_node (rnb_node r)
       then if segno_of n < j \<or> n = 0 then None
            else if j = segno_of n \<and> unat n mod kRelSegSize > 0
            then map_option (vec_resize (offset_of n) 0) (fmlookup (files s) (seg_path (g_storage_base_dir s) q g j))
            else fmlookup (files s) (seg_path (g_storage_base_dir s) q g j)
       else fmlookup (files s) (seg_path (g_storage_base_dir s) q g j))"
proof -
  define base where "base = g_storage_base_dir s"
  define l where "l = segno_of n"
  define m where "m = unat n mod kRelSegSize"
  define fs where "fs = (if m > 0 then (case fmlookup (files s) (seg_path base r f l) of
      None \<Rightarrow> files s | Some c \<Rightarrow> fmupd (seg_path base r f l) (vec_resize (offset_of n) 0 c) (files s)) else files s)"
  have n0: "n = 0 \<longleftrightarrow> m = 0 \<and> l = 0"
    unfolding l_def m_def segno_of_def by (metis div_mult_mod_eq add.right_neutral div_0 mod_0 mult_0 unat_0 unat_eq_zero)
  obtain u where u: "(if m > 0 then (case mdGetFd r f l False s of
              (Inl e, s1) \<Rightarrow> (Inl e, s1)
            | (Inr fd, s1) \<Rightarrow> (Inr (), s1\<lparr>files := (case fmlookup (files s1) fd of
                  None \<Rightarrow> files s1 | Some f \<Rightarrow> fmupd fd (vec_resize (offset_of n) 0 f) (files s1))\<rparr>))
           else (Inr (), s)) = (Inr () :: unit result, u)"
      "fds_ok u" "same_relns s u" "files u = fs" "length (fds r f s) \<le> length (fds r f u)"
  proof (cases "m > 0")
    case False
    then show thesis using that [of s] ok(1) by (simp add: same_relns_def fs_def)
  next
    case True
    obtain v where v: "mdGetFd r f l False s = (Inr (seg_path base r f l), v)" "fds_ok v" "same_relns s v"
        "files v = files s" "length (fds r f s) \<le> length (fds r f v)"
      using mdGetFd_spec [OF ok(1,3,4) refl, of l False] last True unfolding base_def l_def m_def by auto
    obtain c where c: "fmlookup (files s) (seg_path base r f l) = Some c"
      using last True by (auto simp: base_def l_def m_def fmlookup_dom_iff)
    have "fds_ok (v\<lparr>files := fs\<rparr>)" using v True by (intro fds_ok_files) (auto simp: fs_def split: option.splits)
    then show thesis using that [of "v\<lparr>files := fs\<rparr>"] v True c by (simp add: same_relns_def fs_def)
  qed
  have prems: "fds_ok u" "no_alias u" "is_open r u" "f \<noteq> FN_kInvalid"
    using ok u by (simp_all add: no_alias_same_relns same_relns_open)
  obtain w where w: "remove_segments r f l (length (fds r f u)) u = (Inr (), w)" "fds_ok w" "same_relns u w"
      "files w = fmdrop_set (seg_path base r f ` {l<..<length (fds r f u)}) fs"
    using remove_segments_spec [OF prems, of l "length (fds r f u)"] u by (auto simp: same_relns_def base_def)
  define t where "t = (if n = 0 then (set_fds r f ((fds r f w)[0 := None]) w)\<lparr>files := fmdrop (seg_path base r f 0) (files w)\<rparr> else w)"
  have rel: "same_relns s w" using u(3) w(3) by (auto simp: same_relns_def)
  have "mdtruncate r f n s = (Inr (), t)"
    using u(1) w(1) rel ok(4)
    by (simp add: mdtruncate_def Let_def l_def [symmetric] m_def [symmetric] n0 t_def mdFilePath_eq same_relns_def base_def)
  moreover have "fds_ok t"
    using w(2) fds_ok_close_drop [OF w(2) _ _ ok(4), of r 0] ok rel
    by (auto simp: t_def base_def same_relns_def no_alias_same_relns [OF rel] same_relns_open [OF rel])
  moreover have "same_relns s t" using rel by (simp add: t_def same_relns_def)
  moreover have "fmlookup (files t) (seg_path base q g j) =
      (if g = f \<and> db_node (rnb_node q) = db_node (rnb_node r) \<and> rel_node (rnb_node q) = rel_node (rnb_node r)
       then if l < j \<or> n = 0 then None
            else if j = l \<and> m > 0 then map_option (vec_resize (offset_of n) 0) (fmlookup (files s) (seg_path base q g j))
            else fmlookup (files s) (seg_path base q g j)
       else fmlookup (files s) (seg_path base q g j))" if g: "g \<noteq> FN_kInvalid" for q g j
  proof (cases "g = f \<and> db_node (rnb_node q) = db_node (rnb_node r) \<and> rel_node (rnb_node q) = rel_node (rnb_node r)")
    case False
    then have "seg_path base q g j \<noteq> seg_path base r f i" "seg_path base r f i \<noteq> seg_path base q g j" for i
      using g ok(4) by (auto simp: seg_path_inject)
    then have "fmlookup (files t) (seg_path base q g j) = fmlookup (files s) (seg_path base q g j)"
      by (auto simp: t_def w(4) fs_def split: option.splits)
    with False show ?thesis by auto
  next
    case True
    then have q: "seg_path base q g j = seg_path base r f j" for j by (simp add: seg_path_def)
    have inj: "seg_path base r f j = seg_path base r f i \<longleftrightarrow> j = i" for i j using ok(4) by (simp add: seg_path_inject)
    have out: "fmlookup (files s) (seg_path base r f j) = None" if "length (fds r f u) \<le> j"
      using that known u(5) unfolding base_def by (meson fmdom_notD leD order.trans)
    have fs: "fmlookup fs (seg_path base r f j) = (if j = l \<and> m > 0
        then map_option (vec_resize (offset_of n) 0) (fmlookup (files s) (seg_path base r f j)) else fmlookup (files s) (seg_path base r f j))"
      by (auto simp: fs_def inj split: option.splits)
    have "fmlookup (files w) (seg_path base r f j) = (if l < j then None else fmlookup fs (seg_path base r f j))"
      using out fs by (cases "j < length (fds r f u)") (auto simp: w(4) inj image_iff)
    then show ?thesis using True fs n0 unfolding q by (auto simp: t_def inj)
  qed
  ultimately show thesis using that [of t] unfolding base_def l_def m_def by blast
qed

lemma block_before:
  assumes "b < n"
  shows "segno_of b < segno_of n \<or> segno_of b = segno_of n \<and> offset_of b + kBlckSz \<le> offset_of n"
proof -
  have u: "unat b < unat n" using assms by (simp add: word_less_nat_alt)
  have le: "unat b div kRelSegSize \<le> unat n div kRelSegSize" using u by (intro div_le_mono) simp
  show ?thesis
  proof (cases "unat b div kRelSegSize = unat n div kRelSegSize")
    case True
    then have "unat n div kRelSegSize * kRelSegSize + unat b mod kRelSegSize = unat b"
      using div_mult_mod_eq [of "unat b" kRelSegSize] by simp
    then have "unat b mod kRelSegSize + 1 \<le> unat n mod kRelSegSize"
      using u div_mult_mod_eq [of "unat n" kRelSegSize] by linarith
    from mult_le_mono1 [OF this, of kBlckSz] True show ?thesis by (simp add: segno_of_def offset_of_def)
  qed (use le in \<open>simp add: segno_of_def\<close>)
qed

lemma block_not_before:
  assumes "n \<le> b"
  shows "segno_of n < segno_of b \<or> segno_of b = segno_of n \<and> offset_of n \<le> offset_of b"
  using assms block_before [of n b] by (cases "n = b") (auto simp: order.order_iff_strict)

subsection \<open>The interface of a block store\<close>

text \<open>
  What a client of the storage manager relies on: a read returns the content of a block and changes
  no content, and a write of an existing block replaces the content of this block only.
\<close>

locale block_store =
  fixes rd :: "'k \<Rightarrow> 's \<Rightarrow> 'b result \<times> 's"
    and wr :: "'k \<Rightarrow> 'b \<Rightarrow> 's \<Rightarrow> unit result \<times> 's"
    and content :: "'s \<Rightarrow> 'k \<Rightarrow> 'b option"
    and inv :: "'s \<Rightarrow> bool"
    and key_ok :: "'k \<Rightarrow> bool"
    and blk_ok :: "'b \<Rightarrow> bool"
  assumes rd_present: "inv s \<Longrightarrow> key_ok k \<Longrightarrow> content s k = Some b \<Longrightarrow>
      \<exists>t. rd k s = (Inr b, t) \<and> inv t \<and> content t = content s"
    and rd_absent: "inv s \<Longrightarrow> key_ok k \<Longrightarrow> content s k = None \<Longrightarrow>
      \<exists>e t. rd k s = (Inl e, t) \<and> inv t \<and> content t = content s"
    and wr_present: "inv s \<Longrightarrow> key_ok k \<Longrightarrow> blk_ok b \<Longrightarrow> content s k \<noteq> None \<Longrightarrow>
      \<exists>t. wr k b s = (Inr (), t) \<and> inv t \<and> content t k = Some b \<and>
        (\<forall>j x. key_ok j \<longrightarrow> j \<noteq> k \<longrightarrow> content s j = Some x \<longrightarrow> content t j = Some x)"
begin

definition store_all :: "('k \<times> 'b) list \<Rightarrow> 's \<Rightarrow> 's" where
  "store_all ws s = fold (\<lambda>(k, b) s. snd (wr k b s)) ws s"

lemma store_all_content:
  assumes "inv s" "\<forall>(k, b)\<in>set ws. key_ok k \<and> blk_ok b \<and> content s k \<noteq> None"
  shows "inv (store_all ws s) \<and> (\<forall>j x. key_ok j \<longrightarrow> content s j = Some x \<longrightarrow>
    content (store_all ws s) j = Some (case map_of (rev ws) j of Some b \<Rightarrow> b | None \<Rightarrow> x))"
  using assms
proof (induction ws arbitrary: s)
  case Nil
  then show ?case by (simp add: store_all_def)
next
  case (Cons w ws)
  obtain k b where w: "w = (k, b)" by (cases w)
  obtain t where t: "wr k b s = (Inr (), t)" "inv t" "content t k = Some b"
      "\<forall>j x. key_ok j \<longrightarrow> j \<noteq> k \<longrightarrow> content s j = Some x \<longrightarrow> content t j = Some x"
    using wr_present [of s k b] Cons.prems w by auto
  have keep: "content t j \<noteq> None" if "key_ok j" "content s j \<noteq> None" for j
    using that t(3,4) by (cases "j = k") auto
  have ws: "\<forall>(k, b)\<in>set ws. key_ok k \<and> blk_ok b \<and> content t k \<noteq> None"
    using Cons.prems(2) keep by (auto simp: split_beta)
  have run: "store_all (w # ws) s = store_all ws t" using t(1) w by (simp add: store_all_def)
  show ?case
  proof (intro conjI allI impI)
    show "inv (store_all (w # ws) s)" using Cons.IH [OF t(2) ws] run by simp
    fix j x
    assume j: "key_ok j" "content s j = Some x"
    obtain y where y: "content t j = Some y" "y = (if j = k then b else x)" using t(3,4) j by (cases "j = k") auto
    have "content (store_all ws t) j = Some (case map_of (rev ws) j of Some b \<Rightarrow> b | None \<Rightarrow> y)"
      using Cons.IH [OF t(2) ws] j y by blast
    then show "content (store_all (w # ws) s) j = Some (case map_of (rev (w # ws)) j of Some b \<Rightarrow> b | None \<Rightarrow> x)"
      using run w y by (auto simp: map_add_def split: option.splits)
  qed
qed

lemma read_after_writes:
  assumes "inv s" "\<forall>(k, b)\<in>set ws. key_ok k \<and> blk_ok b \<and> content s k \<noteq> None" "key_ok j" "content s j = Some x"
  shows "fst (rd j (store_all ws s)) = Inr (case map_of (rev ws) j of Some b \<Rightarrow> b | None \<Rightarrow> x)"
  using store_all_content [OF assms(1,2)] rd_present [of "store_all ws s" j] assms(3,4) by fastforce

end

text \<open>A block is addressed by its relation, which is opened if it has no entry, its fork and its number.\<close>

definition dev_read :: "RelFileNode \<times> ForkNumber \<times> BlockNumber \<Rightarrow> SmgrState \<Rightarrow> u8 list result \<times> SmgrState" where
  "dev_read k s = (case k of (n, f, b) \<Rightarrow>
    let r = \<lparr>rnb_node = n, rnb_backend = 0\<rparr> in smgrread r f b (smgropen r s))"

definition dev_write :: "RelFileNode \<times> ForkNumber \<times> BlockNumber \<Rightarrow> u8 list \<Rightarrow> SmgrState \<Rightarrow> unit result \<times> SmgrState" where
  "dev_write k d s = (case k of (n, f, b) \<Rightarrow>
    let r = \<lparr>rnb_node = n, rnb_backend = 0\<rparr> in smgrwrite r f b d (smgropen r s))"

definition dev_block :: "SmgrState \<Rightarrow> RelFileNode \<times> ForkNumber \<times> BlockNumber \<Rightarrow> u8 list option" where
  "dev_block s k = (case k of (n, f, b) \<Rightarrow> disk_block s \<lparr>rnb_node = n, rnb_backend = 0\<rparr> f b)"

definition dev_key :: "Oid \<Rightarrow> RelFileNode \<times> ForkNumber \<times> BlockNumber \<Rightarrow> bool" where
  "dev_key spc k = (case k of (n, f, b) \<Rightarrow> spc_node n = spc \<and> f \<noteq> FN_kInvalid)"

lemma smgropen_spec:
  "files (smgropen r s) = files s" "g_storage_base_dir (smgropen r s) = g_storage_base_dir s"
  "is_open q (smgropen r s) \<longleftrightarrow> is_open q s \<or> q = r" "fds q g (smgropen r s) = fds q g s"
  "disk_block (smgropen r s) q g b = disk_block s q g b"
proof -
  show "is_open q (smgropen r s) \<longleftrightarrow> is_open q s \<or> q = r"
    using find_reln_None [of r s] by (auto simp: smgropen_def is_open_def split: option.splits)
  show "fds q g (smgropen r s) = fds q g s"
    by (auto simp: smgropen_def fds_def find_reln_def split: option.splits)
  show "disk_block (smgropen r s) q g b = disk_block s q g b"
    by (cases "find_reln r s") (simp_all add: disk_block_def smgropen_def)
qed (simp_all add: smgropen_def split: option.splits)

lemma smgropen_open: "is_open r s \<Longrightarrow> smgropen r s = s"
  using find_reln_None [of r s] by (auto simp: smgropen_def split: option.splits)

lemma dev_block_length: "dev_block s k = Some x \<Longrightarrow> length x = kBlckSz"
  by (auto simp: dev_block_def disk_block_def arr_read_def split: prod.splits option.splits if_splits)

lemma fds_ok_smgropen: "fds_ok s \<Longrightarrow> fds_ok (smgropen r s)"
  unfolding fds_ok_def by (simp add: smgropen_spec)

lemma disk_block_exists: "disk_block s r f b \<noteq> None \<Longrightarrow> seg_path (g_storage_base_dir s) r f (segno_of b) |\<in>| fmdom (files s)"
  by (auto simp: disk_block_def fmdomI split: option.splits)

lemma dev_key_page:
  assumes "dev_key spc (n, f, b)" "dev_key spc (m, g, c)" "(n, f, b) \<noteq> (m, g, c)"
  shows "\<not> same_page \<lparr>rnb_node = n, rnb_backend = x\<rparr> f b \<lparr>rnb_node = m, rnb_backend = y\<rparr> g c"
  using assms by (cases n; cases m) (auto simp: dev_key_def same_page_def)

lemma dev_read_spec:
  assumes "fds_ok s" "dev_key spc k"
  obtains e t where "dev_read k s = (case dev_block s k of Some x \<Rightarrow> Inr x | None \<Rightarrow> Inl e, t)" "fds_ok t" "dev_block t = dev_block s"
    "\<And>q. is_open q s \<Longrightarrow> is_open q t"
proof -
  obtain n f b where k: "k = (n, f, b)" by (cases k)
  define r where "r = \<lparr>rnb_node = n, rnb_backend = 0 :: int\<rparr>"
  have u: "fds_ok (smgropen r s)" "is_open r (smgropen r s)" "f \<noteq> FN_kInvalid"
    using assms k by (simp_all add: fds_ok_smgropen smgropen_spec dev_key_def)
  obtain t e where t: "mdread r f b (smgropen r s) = (case disk_block (smgropen r s) r f b of Some x \<Rightarrow> Inr x | None \<Rightarrow> Inl e, t)"
      "fds_ok t" "same_relns (smgropen r s) t" "files t = files (smgropen r s)"
    using mdread_spec [OF u] by metis
  have "dev_block t = dev_block s"
    using disk_block_cong [OF t(4,3)] by (intro ext) (simp add: dev_block_def smgropen_spec split: prod.splits)
  moreover have "is_open q t" if "is_open q s" for q
    using that same_relns_open [OF t(3)] by (simp add: smgropen_spec)
  ultimately show thesis using that t
    by (simp add: dev_read_def dev_block_def k r_def [symmetric] smgrread_def Let_def smgropen_spec)
qed

lemma dev_write_spec:
  assumes "fds_ok s" "dev_key spc k" "length d = kBlckSz" "dev_block s k \<noteq> None"
  obtains t where "dev_write k d s = (Inr (), t)" "fds_ok t" "dev_block t k = Some d" "\<And>q. is_open q s \<Longrightarrow> is_open q t"
    "\<forall>j x. dev_key spc j \<longrightarrow> j \<noteq> k \<longrightarrow> dev_block s j = Some x \<longrightarrow> dev_block t j = Some x"
proof -
  obtain n f b where k: "k = (n, f, b)" by (cases k)
  define r where "r = \<lparr>rnb_node = n, rnb_backend = 0 :: int\<rparr>"
  have u: "fds_ok (smgropen r s)" "is_open r (smgropen r s)" "f \<noteq> FN_kInvalid"
    using assms k by (simp_all add: fds_ok_smgropen smgropen_spec dev_key_def)
  have "disk_block (smgropen r s) r f b \<noteq> None" using assms(4) by (simp add: dev_block_def k r_def smgropen_spec)
  then obtain t where t: "mdwrite r f b d (smgropen r s) = (Inr (), t)" "written r f b d (smgropen r s) t"
    using mdwrite_spec [OF u assms(3) refl disk_block_exists] by metis
  have "dev_block t j = Some x" if j: "dev_key spc j" "j \<noteq> k" "dev_block s j = Some x" for j x
  proof -
    obtain m g c where jj: "j = (m, g, c)" by (cases j)
    have "\<not> same_page r f b \<lparr>rnb_node = m, rnb_backend = 0\<rparr> g c"
      unfolding r_def using assms(2) j(1,2) unfolding k jj by (metis dev_key_page)
    moreover have "g \<noteq> FN_kInvalid" using j(1) by (simp add: jj dev_key_def)
    moreover have "disk_block (smgropen r s) \<lparr>rnb_node = m, rnb_backend = 0\<rparr> g c = Some x"
      using j(3) by (simp add: jj dev_block_def smgropen_spec)
    ultimately show ?thesis using t(2) unfolding written_def by (simp add: jj dev_block_def)
  qed
  moreover have "is_open q t" if "is_open q s" for q
    using that t(2) same_relns_open [of "smgropen r s" t q] by (simp add: written_def smgropen_spec)
  moreover have "dev_write k d s = (Inr (), t)" "fds_ok t" "dev_block t k = Some d"
    using t by (simp_all add: dev_write_def dev_block_def k r_def [symmetric] smgrwrite_def Let_def written_def)
  ultimately show thesis using that by blast
qed

interpretation md: block_store dev_read dev_write dev_block fds_ok "dev_key spc" "\<lambda>d. length d = kBlckSz" for spc
proof
  fix s k b assume a: "fds_ok s" "dev_key spc k" "dev_block s k = Some b"
  show "\<exists>t. dev_read k s = (Inr b, t) \<and> fds_ok t \<and> dev_block t = dev_block s"
    by (rule dev_read_spec [OF a(1,2)]) (use a(3) in auto)
next
  fix s k assume a: "fds_ok s" "dev_key spc k" "dev_block s k = None"
  show "\<exists>e t. dev_read k s = (Inl e, t) \<and> fds_ok t \<and> dev_block t = dev_block s"
    by (rule dev_read_spec [OF a(1,2)]) (use a(3) in auto)
next
  fix s k and b :: "u8 list" assume "fds_ok s" "dev_key spc k" "length b = kBlckSz" "dev_block s k \<noteq> None"
  from dev_write_spec [OF this] show "\<exists>t. dev_write k b s = (Inr (), t) \<and> fds_ok t \<and> dev_block t k = Some b \<and>
      (\<forall>j x. dev_key spc j \<longrightarrow> j \<noteq> k \<longrightarrow> dev_block s j = Some x \<longrightarrow> dev_block t j = Some x)" by metis
qed

subsection \<open>Properties\<close>


definition smgr_ex_rel :: RelFileNodeBackend where
  "smgr_ex_rel = \<lparr>rnb_node = RelFileNode 0 1 7, rnb_backend = 0\<rparr>"

definition smgr_ex :: SmgrState where
  "smgr_ex = \<lparr>smgr_list = [\<lparr>smgr_rnode = smgr_ex_rel, md_fd = (\<lambda>f. if f = FN_kMain then [None] else [])\<rparr>],
    g_storage_base_dir = ''data'',
    files = fmap_of_list [(seg_path ''data'' smgr_ex_rel FN_kMain 0, replicate 16384 0)]\<rparr>"

lemma smgr_ex_ok:
  "fds_ok smgr_ex" "is_open smgr_ex_rel smgr_ex" "no_alias smgr_ex" "fds smgr_ex_rel FN_kMain smgr_ex = [None]"
  "g_storage_base_dir smgr_ex = ''data''"
  "fmlookup (files smgr_ex) p = (if p = seg_path ''data'' smgr_ex_rel FN_kMain 0 then Some (replicate 16384 0) else None)"
  by (auto simp: fds_ok_def smgr_ex_def is_open_def no_alias_def fds_def find_reln_def fmlookup_of_list)

lemma smgr_ex_blocks:
  "seg_blocks smgr_ex smgr_ex_rel FN_kMain j = (if j = 0 then 2 else 0)"
  "disk_block smgr_ex smgr_ex_rel FN_kMain b = (if unat b < 2 then Some (replicate 8192 0) else None)"
proof -
  show "seg_blocks smgr_ex smgr_ex_rel FN_kMain j = (if j = 0 then 2 else 0)"
    by (simp add: seg_blocks_def smgr_ex_ok seg_path_inject kBlckSz_def)
  have "unat b < kRelSegSize \<longleftrightarrow> segno_of b = 0" by (simp add: segno_of_def kRelSegSize_def div_eq_0_iff)
  then show "disk_block smgr_ex smgr_ex_rel FN_kMain b = (if unat b < 2 then Some (replicate 8192 0) else None)"
    by (auto simp: disk_block_def smgr_ex_ok seg_path_inject offset_of_def kBlckSz_def kRelSegSize_def arr_read_def)
qed


text \<open>
  C17: A sequence of block writes. After any sequence of writes to existing blocks, of any relations and forks of one
  tablespace, reading a block returns the data of the last write to it, and its original content if there
  was none.
\<close>

theorem smgr_last_write_wins:
  assumes "fds_ok s" "\<forall>(k, d)\<in>set ws. dev_key spc k \<and> length d = kBlckSz \<and> dev_block s k \<noteq> None"
    and "dev_key spc k" "dev_block s k = Some x"
  shows "fst (dev_read k (fold (\<lambda>(k, d) s. snd (dev_write k d s)) ws s)) =
    Inr (case map_of (rev ws) k of Some d \<Rightarrow> d | None \<Rightarrow> x)"
  using md.read_after_writes [OF assms] unfolding md.store_all_def .

theorem smgr_last_write_wins_witness:
  "fst (dev_read (rnb_node smgr_ex_rel, FN_kMain, 1)
      (fold (\<lambda>(k, d) s. snd (dev_write k d s))
        [((rnb_node smgr_ex_rel, FN_kMain, 1), replicate 8192 1), ((rnb_node smgr_ex_rel, FN_kMain, 0), replicate 8192 2)] smgr_ex)) =
    Inr (replicate 8192 1)"
proof -
  have r: "\<lparr>rnb_node = rnb_node smgr_ex_rel, rnb_backend = 0\<rparr> = smgr_ex_rel" by (simp add: smgr_ex_rel_def)
  have k: "dev_key 0 (rnb_node smgr_ex_rel, FN_kMain, b)" for b by (simp add: dev_key_def smgr_ex_rel_def)
  show ?thesis
    by (subst smgr_last_write_wins [OF smgr_ex_ok(1) _ k])
      (simp_all add: k kBlckSz_def dev_block_def r smgr_ex_blocks)
qed

text \<open>
  C37: Removing a relation. \<open>smgrdounlinkall\<close> ends: the loop of \<open>mdunlink\<close> removes the segment files of each of
  the four forks up to the first one that does not exist and nothing else, no fork exists afterwards, the entry of
  the relation is closed, and the other entries and all blocks of the other relations are as before.
\<close>

theorem smgr_unlink_all:
  assumes "fds_ok s" "no_alias s" "is_open r s"
  shows "\<exists>t. smgrdounlinkall r s = (Inr (), t) \<and> fds_ok t \<and>
    (\<forall>q. is_open q t \<longleftrightarrow> is_open q s \<and> q \<noteq> r) \<and>
    files t = fmdrop_set (\<Union>f\<in>{FN_kMain, FN_kFsm, FN_kVisibilityMap, FN_kInit}. leading_segs s r f) (files s) \<and>
    (\<forall>f. f \<noteq> FN_kInvalid \<longrightarrow> mdexists r f t = Inr False) \<and>
    (\<forall>q g c. g \<noteq> FN_kInvalid \<and> (db_node (rnb_node q), rel_node (rnb_node q)) \<noteq> (db_node (rnb_node r), rel_node (rnb_node r)) \<longrightarrow>
      disk_block t q g c = disk_block s q g c)"
proof -
  obtain u where u: "unlink_forks r [FN_kMain, FN_kFsm, FN_kVisibilityMap, FN_kInit] s = (Inr (), u)" "fds_ok u" "same_relns s u"
      "files u = fmdrop_set (\<Union>f\<in>{FN_kMain, FN_kFsm, FN_kVisibilityMap, FN_kInit}. leading_segs s r f) (files s)"
    using unlink_forks_spec [OF assms, of "[FN_kMain, FN_kFsm, FN_kVisibilityMap, FN_kInit]"] by auto
  define t where "t = smgrclose r u"
  have t: "smgrdounlinkall r s = (Inr (), t)" "fds_ok t" "files t = files u" "g_storage_base_dir t = g_storage_base_dir s"
      "\<forall>q. is_open q t \<longleftrightarrow> is_open q s \<and> q \<noteq> r"
    using u fds_ok_smgrclose [OF u(2)] same_relns_open [OF u(3)]
    by (simp_all add: smgrdounlinkall_def t_def smgrclose_spec same_relns_def)
  have gone: "mdexists r f t = Inr False" if "f \<noteq> FN_kInvalid" for f
    using that by (cases f) (auto simp: mdexists_def mdFilePath_eq t u(4) leading_segs_def)
  have kept: "disk_block t q g c = disk_block s q g c"
    if "g \<noteq> FN_kInvalid" "(db_node (rnb_node q), rel_node (rnb_node q)) \<noteq> (db_node (rnb_node r), rel_node (rnb_node r))" for q g c
  proof -
    have "seg_path (g_storage_base_dir s) q g (segno_of c) \<notin> (\<Union>f\<in>{FN_kMain, FN_kFsm, FN_kVisibilityMap, FN_kInit}. leading_segs s r f)"
      using that by (auto simp: leading_segs_def seg_path_inject)
    then show ?thesis by (simp add: disk_block_def t u(4))
  qed
  show ?thesis
    by (intro exI [of _ t] conjI allI impI t(1,2) t(5) [rule_format] gone kept) (simp_all add: t u(4))
qed

theorem smgr_unlink_all_witness:
  "\<exists>t. smgrdounlinkall smgr_ex_rel smgr_ex = (Inr (), t) \<and> mdexists smgr_ex_rel FN_kMain t = Inr False"
  using smgr_unlink_all [OF smgr_ex_ok(1,3,2)] by blast

text \<open>
  C38: Counting the blocks of a fork. For a fork of \<open>N\<close> blocks \<open>mdnblocks\<close> returns \<open>N\<close> if the entry knows all of its
  segments. It never looks beyond the known segments, and a freshly opened entry knows none: then the
  result is at most the size of the first segment.
\<close>

theorem smgr_nblocks:
  assumes "fds_ok s" "f \<noteq> FN_kInvalid" "has_blocks s r f N" "length (fds r f s) \<le> 32768"
  shows "mdnblocks r f s = Inr (of_nat (min N (max 1 (length (fds r f s)) * kRelSegSize))) \<and>
    (N \<le> length (fds r f s) * kRelSegSize \<longrightarrow> mdnblocks r f s = Inr (of_nat N)) \<and>
    (fds r f s = [] \<and> kRelSegSize < N \<longrightarrow> mdnblocks r f s = Inr 131072)"
proof (intro conjI impI)
  show *: "mdnblocks r f s = Inr (of_nat (min N (max 1 (length (fds r f s)) * kRelSegSize)))"
    by (rule mdnblocks_spec [OF assms])
  show "mdnblocks r f s = Inr (of_nat N)" if "N \<le> length (fds r f s) * kRelSegSize"
  proof -
    have "length (fds r f s) * kRelSegSize \<le> max 1 (length (fds r f s)) * kRelSegSize" by (intro mult_le_mono1) simp
    with that have "min N (max 1 (length (fds r f s)) * kRelSegSize) = N" by linarith
    then show ?thesis using * by simp
  qed
  show "mdnblocks r f s = Inr 131072" if "fds r f s = [] \<and> kRelSegSize < N"
    using that unfolding * by (simp add: kRelSegSize_def)
qed

theorem smgr_nblocks_witness: "mdnblocks smgr_ex_rel FN_kMain smgr_ex = Inr 2"
proof -
  have "has_blocks smgr_ex smgr_ex_rel FN_kMain 2"
    by (simp add: has_blocks_def smgr_ex_blocks kRelSegSize_def)
  from smgr_nblocks [OF smgr_ex_ok(1) _ this] show ?thesis by (simp add: smgr_ex_ok kRelSegSize_def)
qed



end
