(* ===== verification/BufMgr.thy ===== *)
theory BufMgr
  imports Smgr
begin

text \<open>
  The buffer manager (\<open>src/storage/buffer/bufmgr.cpp\<close>, \<open>src/storage/buffer/freelist.cpp\<close>,
  \<open>include/storage/buf_internals.hpp\<close>): a pool of page buffers over the storage manager, found by an open
  addressing hash table and replaced by a clock sweep. An operation runs under the mapping or freelist lock
  that it takes, so it is one transition of the state; the locks are not part of the state here.
  \<open>std::hash\<close> of an integer is the integer, as in \<open>libstdc++\<close>.
\<close>

subsection \<open>Descriptors\<close>

record BufferTag =
  tag_rnode :: RelFileNode
  tag_fork :: ForkNumber
  tag_block :: BlockNumber

definition no_tag :: BufferTag where
  "no_tag = \<lparr>tag_rnode = RelFileNode 0 0 0, tag_fork = FN_kInvalid, tag_block = kInvalidBlockNumber\<rparr>"

definition fork_num :: "ForkNumber \<Rightarrow> int" where
  "fork_num f = (case f of FN_kInvalid \<Rightarrow> -1 | FN_kMain \<Rightarrow> 0 | FN_kFsm \<Rightarrow> 1 | FN_kVisibilityMap \<Rightarrow> 2 | FN_kInit \<Rightarrow> 3)"

definition BufferTagHash :: "BufferTag \<Rightarrow> u64" where
  "BufferTagHash t = ((((ucast (spc_node (tag_rnode t)) XOR push_bit 1 (ucast (db_node (tag_rnode t))))
    XOR push_bit 2 (ucast (rel_node (tag_rnode t)))) XOR push_bit 3 (of_int (fork_num (tag_fork t))))
    XOR push_bit 4 (ucast (tag_block t)))"

record BufferHashEntry =
  he_tag :: BufferTag
  he_buf_id :: int

definition empty_entry :: BufferHashEntry where "empty_entry = \<lparr>he_tag = no_tag, he_buf_id = -1\<rparr>"

definition entry_IsEmpty :: "BufferHashEntry \<Rightarrow> bool" where
  "entry_IsEmpty e \<longleftrightarrow> tag_block (he_tag e) = kInvalidBlockNumber"

definition kBMDirty :: u32 where "kBMDirty = 1"
definition kBMValid :: u32 where "kBMValid = 2"
definition kBMTagged :: u32 where "kBMTagged = 4"

record BufferDesc =
  btag :: BufferTag
  buf_id :: int
  bstate :: u32
  refcount :: int
  usage_count :: int
  free_next :: int

definition IsDirty :: "BufferDesc \<Rightarrow> bool" where "IsDirty d \<longleftrightarrow> bstate d AND kBMDirty \<noteq> 0"
definition IsValid :: "BufferDesc \<Rightarrow> bool" where "IsValid d \<longleftrightarrow> bstate d AND kBMValid \<noteq> 0"
definition IsTagged :: "BufferDesc \<Rightarrow> bool" where "IsTagged d \<longleftrightarrow> bstate d AND kBMTagged \<noteq> 0"
definition SetDirty :: "BufferDesc \<Rightarrow> BufferDesc" where "SetDirty d = d\<lparr>bstate := bstate d OR kBMDirty\<rparr>"
definition ClearDirty :: "BufferDesc \<Rightarrow> BufferDesc" where "ClearDirty d = d\<lparr>bstate := bstate d AND NOT kBMDirty\<rparr>"
definition SetValid :: "BufferDesc \<Rightarrow> BufferDesc" where "SetValid d = d\<lparr>bstate := bstate d OR kBMValid\<rparr>"
definition ClearValid :: "BufferDesc \<Rightarrow> BufferDesc" where "ClearValid d = d\<lparr>bstate := bstate d AND NOT kBMValid\<rparr>"
definition SetTagged :: "BufferDesc \<Rightarrow> BufferDesc" where "SetTagged d = d\<lparr>bstate := bstate d OR kBMTagged\<rparr>"
definition ClearTagged :: "BufferDesc \<Rightarrow> BufferDesc" where "ClearTagged d = d\<lparr>bstate := bstate d AND NOT kBMTagged\<rparr>"

text \<open>\<open>n_buffers_\<close> and \<open>hash_table_size_\<close> are the lengths of the arrays.\<close>

record BufferPool =
  descs :: "BufferDesc list"
  blocks :: "u8 list list"
  clock_hand :: nat
  first_free :: int
  hash_table :: "BufferHashEntry list"

record BufState =
  g_buffer_pool :: "BufferPool option"
  smgr :: SmgrState

definition n_buffers :: "BufferPool \<Rightarrow> nat" where "n_buffers p = length (descs p)"

definition upd_desc :: "nat \<Rightarrow> (BufferDesc \<Rightarrow> BufferDesc) \<Rightarrow> BufferPool \<Rightarrow> BufferPool" where
  "upd_desc i f p = p\<lparr>descs := (descs p)[i := f (descs p ! i)]\<rparr>"

definition in_range :: "int \<Rightarrow> BufferPool \<Rightarrow> bool" where
  "in_range i p \<longleftrightarrow> \<not> (i < 0 \<or> i \<ge> int (n_buffers p))"

definition GetBufferPage :: "BufferPool \<Rightarrow> int \<Rightarrow> u8 list result" where
  "GetBufferPage p buffer = (if in_range (buffer - 1) p then Inr (blocks p ! nat (buffer - 1))
    else Inl (Ereport ''invalid buffer handle''))"

definition GetBufferDesc :: "BufferPool \<Rightarrow> int \<Rightarrow> BufferDesc option" where
  "GetBufferDesc p buffer = (if in_range (buffer - 1) p then Some (descs p ! nat (buffer - 1)) else None)"

subsection \<open>The hash table\<close>

definition HashTableSlot :: "BufferHashEntry list \<Rightarrow> BufferTag \<Rightarrow> nat" where
  "HashTableSlot h tag = unat (BufferTagHash tag) mod length h"

text \<open>The probe loop of the three operations: the first slot that is empty or holds the tag.\<close>

fun probe :: "BufferHashEntry list \<Rightarrow> BufferTag \<Rightarrow> nat list \<Rightarrow> nat option" where
  "probe h tag [] = None"
| "probe h tag (i # is) = (let idx = (HashTableSlot h tag + i) mod length h in
    if entry_IsEmpty (h ! idx) then Some idx
    else if he_tag (h ! idx) = tag then Some idx
    else probe h tag is)"

definition HashTableInsert :: "BufferTag \<Rightarrow> nat \<Rightarrow> BufferHashEntry list \<Rightarrow> BufferHashEntry list result" where
  "HashTableInsert tag i h = (case probe h tag [0..<length h] of
      Some idx \<Rightarrow> if entry_IsEmpty (h ! idx) then Inr (h[idx := \<lparr>he_tag = tag, he_buf_id = int i\<rparr>])
        else Inr (h[idx := (h ! idx)\<lparr>he_buf_id := int i\<rparr>])
    | None \<Rightarrow> Inl (Ereport ''buffer hash table full''))"

definition HashTableDelete :: "BufferTag \<Rightarrow> BufferHashEntry list \<Rightarrow> BufferHashEntry list" where
  "HashTableDelete tag h = (case probe h tag [0..<length h] of
      Some idx \<Rightarrow> if entry_IsEmpty (h ! idx) then h else h[idx := empty_entry]
    | None \<Rightarrow> h)"

definition LookupBuffer :: "BufferHashEntry list \<Rightarrow> BufferTag \<Rightarrow> int" where
  "LookupBuffer h tag = (case probe h tag [0..<length h] of
      Some idx \<Rightarrow> if entry_IsEmpty (h ! idx) then 0 else he_buf_id (h ! idx) + 1
    | None \<Rightarrow> 0)"

subsection \<open>Pins and victims\<close>

definition kMaxUsageCount :: int where "kMaxUsageCount = 5"

definition pin :: "BufferDesc \<Rightarrow> BufferDesc" where
  "pin d = d\<lparr>refcount := refcount d + 1,
    usage_count := (if usage_count d < kMaxUsageCount then usage_count d + 1 else usage_count d)\<rparr>"

definition PinBuffer :: "int \<Rightarrow> BufferPool \<Rightarrow> BufferPool" where
  "PinBuffer buffer p = (if in_range (buffer - 1) p then upd_desc (nat (buffer - 1)) pin p else p)"

definition unpin :: "BufferDesc \<Rightarrow> BufferDesc" where
  "unpin d = (if refcount d > 0 then d\<lparr>refcount := refcount d - 1\<rparr> else d)"

definition UnpinBuffer :: "int \<Rightarrow> BufferPool \<Rightarrow> BufferPool" where
  "UnpinBuffer buffer p = (if in_range (buffer - 1) p then upd_desc (nat (buffer - 1)) unpin p else p)"

fun clock_sweep :: "nat \<Rightarrow> nat list \<Rightarrow> BufferPool \<Rightarrow> int \<times> BufferPool" where
  "clock_sweep start [] p = (-1, p)"
| "clock_sweep start (i # is) p = (let b = (start + i) mod n_buffers p; d = descs p ! b in
    if refcount d = 0 then
      if usage_count d > 0 then clock_sweep start is (upd_desc b (\<lambda>d. d\<lparr>usage_count := usage_count d - 1\<rparr>) p)
      else (int b, p\<lparr>clock_hand := (b + 1) mod n_buffers p\<rparr>)
    else clock_sweep start is p)"

definition FindVictimBuffer :: "BufferPool \<Rightarrow> int \<times> BufferPool" where
  "FindVictimBuffer p =
    (if first_free p \<ge> 0 then
       let v = nat (first_free p) in
       (int v, upd_desc v (\<lambda>d. d\<lparr>free_next := -1\<rparr>) (p\<lparr>first_free := free_next (descs p ! v)\<rparr>))
     else clock_sweep (clock_hand p) [0..<n_buffers p * 2] p)"

definition InitFreeList :: "BufferPool \<Rightarrow> BufferPool" where
  "InitFreeList p = fold (\<lambda>i p. (upd_desc i (\<lambda>d. d\<lparr>free_next := first_free p\<rparr>) p)\<lparr>first_free := int i\<rparr>)
    (rev [0..<n_buffers p]) (p\<lparr>first_free := -1\<rparr>)"

function hash_size_loop :: "nat \<Rightarrow> nat \<Rightarrow> nat" where
  "hash_size_loop sz target = (if 0 < sz \<and> sz < target then hash_size_loop (sz * 2) target else sz)"
  by pat_completeness auto
termination by (relation "measure (\<lambda>(sz, target). target - sz)") auto

declare hash_size_loop.simps [simp del]

definition BufferHashTableSize :: "nat \<Rightarrow> nat" where
  "BufferHashTableSize n = hash_size_loop 1 (n * 2)"

text \<open>The constructor with \<open>init\<close> set.\<close>

definition BufferPool_init :: "nat \<Rightarrow> BufferPool" where
  "BufferPool_init n = InitFreeList
    \<lparr>descs = map (\<lambda>i. \<lparr>btag = no_tag, buf_id = int i, bstate = 0, refcount = 0, usage_count = 0, free_next = -1\<rparr>) [0..<n],
     blocks = replicate n (replicate kBlckSz 0), clock_hand = 0, first_free = -1,
     hash_table = replicate (BufferHashTableSize n) empty_entry\<rparr>"

definition InsertBuffer :: "BufferTag \<Rightarrow> nat \<Rightarrow> BufferPool \<Rightarrow> int result \<times> BufferPool" where
  "InsertBuffer tag v p =
    (let d = descs p ! v;
         p1 = (if IsTagged d then p\<lparr>hash_table := HashTableDelete (btag d) (hash_table p)\<rparr> else p);
         p2 = upd_desc v (\<lambda>d. (ClearValid (SetTagged (d\<lparr>btag := tag\<rparr>)))\<lparr>refcount := 1, usage_count := 1, free_next := -1\<rparr>) p1
     in case HashTableInsert tag v (hash_table p2) of
          Inl e \<Rightarrow> (Inl e, p2)
        | Inr h \<Rightarrow> (Inr (int v + 1), p2\<lparr>hash_table := h\<rparr>))"

subsection \<open>Writing back\<close>

type_synonym PoolState = "BufferPool \<times> SmgrState"

definition pool_MarkBufferDirty :: "int \<Rightarrow> BufferPool \<Rightarrow> BufferPool" where
  "pool_MarkBufferDirty buffer p = (if in_range (buffer - 1) p then upd_desc (nat (buffer - 1)) SetDirty p else p)"

definition pool_FlushBuffer :: "int \<Rightarrow> bool \<Rightarrow> PoolState \<Rightarrow> unit result \<times> PoolState" where
  "pool_FlushBuffer b release ps = (case ps of (p, s) \<Rightarrow>
    if \<not> in_range b p then (Inr (), (p, s))
    else let i = nat b; d = descs p ! i; rel = (\<lambda>d. if release \<and> refcount d > 0 then d\<lparr>refcount := refcount d - 1\<rparr> else d) in
      if \<not> IsValid d \<or> \<not> IsDirty d then (Inr (), (upd_desc i rel p, s))
      else let r = \<lparr>rnb_node = tag_rnode (btag d), rnb_backend = 0\<rparr> in
        case smgrwrite r (tag_fork (btag d)) (tag_block (btag d)) (blocks p ! i) (smgropen r s) of
          (Inl e, s1) \<Rightarrow> (Inl e, (p, s1))
        | (Inr _, s1) \<Rightarrow> (Inr (), (upd_desc i (rel \<circ> ClearDirty) p, s1)))"

text \<open>The loops over the descriptors: an operation on every buffer that satisfies a condition.\<close>

fun for_buffers :: "(BufferDesc \<Rightarrow> bool) \<Rightarrow> (nat \<Rightarrow> PoolState \<Rightarrow> unit result \<times> PoolState) \<Rightarrow> nat list \<Rightarrow> PoolState \<Rightarrow> unit result \<times> PoolState" where
  "for_buffers cond f [] ps = (Inr (), ps)"
| "for_buffers cond f (i # is) ps = (if cond (descs (fst ps) ! i) then
      (case f i ps of (Inl e, ps1) \<Rightarrow> (Inl e, ps1) | (Inr _, ps1) \<Rightarrow> for_buffers cond f is ps1)
    else for_buffers cond f is ps)"

definition flush_buffers :: "(BufferDesc \<Rightarrow> bool) \<Rightarrow> PoolState \<Rightarrow> unit result \<times> PoolState" where
  "flush_buffers cond ps = for_buffers cond (\<lambda>i. pool_FlushBuffer (int i) False) [0..<n_buffers (fst ps)] ps"

definition FlushAllDirtyBuffers :: "PoolState \<Rightarrow> unit result \<times> PoolState" where
  "FlushAllDirtyBuffers ps = flush_buffers (\<lambda>d. IsDirty d \<and> IsValid d) ps"

definition pool_FlushRelationBuffers :: "RelFileNode \<Rightarrow> PoolState \<Rightarrow> unit result \<times> PoolState" where
  "pool_FlushRelationBuffers rnode ps =
    flush_buffers (\<lambda>d. (IsTagged d \<and> tag_rnode (btag d) = rnode) \<and> IsDirty d \<and> IsValid d) ps"

fun flush_dirty_loop :: "nat \<Rightarrow> nat list \<Rightarrow> nat \<Rightarrow> PoolState \<Rightarrow> nat result \<times> PoolState" where
  "flush_dirty_loop max_buffers [] flushed ps = (Inr flushed, ps)"
| "flush_dirty_loop max_buffers (i # is) flushed ps =
    (if flushed \<ge> max_buffers then (Inr flushed, ps)
     else let d = descs (fst ps) ! i in
       if refcount d > 0 then flush_dirty_loop max_buffers is flushed ps
       else if \<not> IsDirty d \<or> \<not> IsValid d then flush_dirty_loop max_buffers is flushed ps
       else case pool_FlushBuffer (int i) False ps of
          (Inl e, ps1) \<Rightarrow> (Inl e, ps1)
        | (Inr _, ps1) \<Rightarrow> flush_dirty_loop max_buffers is (flushed + 1) ps1)"

definition FlushDirtyBuffers :: "int \<Rightarrow> PoolState \<Rightarrow> nat result \<times> PoolState" where
  "FlushDirtyBuffers max_buffers ps =
    (if max_buffers \<le> 0 then (Inr 0, ps) else flush_dirty_loop (nat max_buffers) [0..<n_buffers (fst ps)] 0 ps)"

definition InvalidateBuffer :: "int \<Rightarrow> PoolState \<Rightarrow> unit result \<times> PoolState" where
  "InvalidateBuffer b ps =
    (if \<not> in_range b (fst ps) then (Inr (), ps)
     else let d = descs (fst ps) ! nat b in
       case (if IsDirty d \<and> IsValid d then pool_FlushBuffer b False ps else (Inr (), ps)) of
         (Inl e, ps1) \<Rightarrow> (Inl e, ps1)
       | (Inr _, (p, s)) \<Rightarrow>
           let d = descs p ! nat b;
               p1 = (if IsTagged d then p\<lparr>hash_table := HashTableDelete (btag d) (hash_table p)\<rparr> else p);
               p2 = upd_desc (nat b) (\<lambda>d. (ClearDirty (ClearValid (ClearTagged d)))\<lparr>btag := no_tag, usage_count := 0, free_next := first_free p1\<rparr>) p1
           in (Inr (), (p2\<lparr>first_free := b\<rparr>, s)))"

definition NumPinned :: "BufferPool \<Rightarrow> nat" where
  "NumPinned p = length (filter (\<lambda>d. refcount d > 0) (descs p))"

definition NumDirty :: "BufferPool \<Rightarrow> nat" where
  "NumDirty p = length (filter IsDirty (descs p))"

subsection \<open>The public interface\<close>

datatype ReadBufferMode = RBM_kNormal | RBM_kZero | RBM_kNoLock

text \<open>The bytes that a failed read of the block has already stored into the page.\<close>

definition read_prefix :: "SmgrState \<Rightarrow> RelFileNodeBackend \<Rightarrow> ForkNumber \<Rightarrow> BlockNumber \<Rightarrow> u8 list" where
  "read_prefix s r f b = (case mdFilePath s r f (segno_of b) of
      Inl e \<Rightarrow> []
    | Inr path \<Rightarrow> (case fmlookup (files s) path of None \<Rightarrow> [] | Some c \<Rightarrow> arr_read c (offset_of b) kBlckSz))"

definition set_block :: "nat \<Rightarrow> u8 list \<Rightarrow> BufferPool \<Rightarrow> BufferPool" where
  "set_block i d p = p\<lparr>blocks := (blocks p)[i := d]\<rparr>"

definition pool_ReadBuffer :: "RelFileNodeBackend \<Rightarrow> ForkNumber \<Rightarrow> BlockNumber \<Rightarrow> ReadBufferMode \<Rightarrow> PoolState \<Rightarrow> int result \<times> PoolState" where
  "pool_ReadBuffer r f b mode ps = (case ps of (p, s) \<Rightarrow>
    let tag = \<lparr>tag_rnode = rnb_node r, tag_fork = f, tag_block = b\<rparr>;
        buffer = LookupBuffer (hash_table p) tag
    in if buffer \<noteq> 0 then (Inr buffer, (PinBuffer buffer p, s))
    else case FindVictimBuffer p of (victim, p1) \<Rightarrow>
      if victim < 0 then (Inl (Ereport ''no buffer available in buffer pool (all pinned)''), (p1, s))
      else let v = nat victim; d = descs p1 ! v in
        case (if IsTagged d \<and> IsDirty d \<and> IsValid d then pool_FlushBuffer victim False (p1, s) else (Inr (), (p1, s))) of
          (Inl e, ps2) \<Rightarrow> (Inl e, ps2)
        | (Inr _, (p2, s2)) \<Rightarrow> (case InsertBuffer tag v p2 of
            (Inl e, p3) \<Rightarrow> (Inl e, (p3, s2))
          | (Inr buf, p3) \<Rightarrow>
              if mode = RBM_kZero then (Inr buf, (upd_desc v SetValid (set_block v (replicate kBlckSz 0) p3), s2))
              else (case smgrread r f b s2 of
                  (Inl e, s3) \<Rightarrow> let pre = read_prefix s3 r f b in
                    (Inl e, (set_block v (pre @ drop (length pre) (blocks p3 ! v)) p3, s3))
                | (Inr page, s3) \<Rightarrow> (Inr buf, (upd_desc v SetValid (set_block v page p3), s3)))))"

definition with_pool :: "(PoolState \<Rightarrow> 'a result \<times> PoolState) \<Rightarrow> 'a result \<Rightarrow> BufState \<Rightarrow> 'a result \<times> BufState" where
  "with_pool f none st = (case g_buffer_pool st of
      None \<Rightarrow> (none, st)
    | Some p \<Rightarrow> (case f (p, smgr st) of (x, (p1, s1)) \<Rightarrow> (x, \<lparr>g_buffer_pool = Some p1, smgr = s1\<rparr>)))"

definition ReadBuffer :: "RelFileNodeBackend \<Rightarrow> ForkNumber \<Rightarrow> BlockNumber \<Rightarrow> ReadBufferMode \<Rightarrow> BufState \<Rightarrow> int result \<times> BufState" where
  "ReadBuffer r f b mode = with_pool (pool_ReadBuffer r f b mode) (Inl (Ereport ''buffer pool not initialized''))"

definition ReadBufferWithoutRelcache :: "RelFileNodeBackend \<Rightarrow> ForkNumber \<Rightarrow> BlockNumber \<Rightarrow> ReadBufferMode \<Rightarrow> BufState \<Rightarrow> int result \<times> BufState" where
  "ReadBufferWithoutRelcache r f b mode st = ReadBuffer r f b mode (st\<lparr>smgr := smgropen r (smgr st)\<rparr>)"

definition on_buffer :: "(BufferPool \<Rightarrow> BufferPool) \<Rightarrow> int \<Rightarrow> BufState \<Rightarrow> BufState" where
  "on_buffer f buffer st = snd (with_pool (\<lambda>(p, s). (Inr (),
    (case GetBufferDesc p buffer of None \<Rightarrow> p | Some d \<Rightarrow> f p), s)) (Inr ()) st)"

definition ReleaseBuffer :: "int \<Rightarrow> BufState \<Rightarrow> BufState" where
  "ReleaseBuffer buffer = on_buffer (UnpinBuffer buffer) buffer"

definition MarkBufferDirty :: "int \<Rightarrow> BufState \<Rightarrow> BufState" where
  "MarkBufferDirty buffer = on_buffer (pool_MarkBufferDirty buffer) buffer"

definition MarkBufferDirtyHint :: "int \<Rightarrow> bool \<Rightarrow> BufState \<Rightarrow> BufState" where
  "MarkBufferDirtyHint buffer release = on_buffer (\<lambda>p.
    let p1 = (if \<not> IsDirty (descs p ! nat (buffer - 1)) then pool_MarkBufferDirty buffer p else p)
    in if release then UnpinBuffer buffer p1 else p1) buffer"

definition IncrBufferRefCount :: "int \<Rightarrow> BufState \<Rightarrow> BufState" where
  "IncrBufferRefCount buffer = on_buffer (PinBuffer buffer) buffer"

definition FlushBuffer :: "int \<Rightarrow> BufState \<Rightarrow> unit result \<times> BufState" where
  "FlushBuffer buffer = with_pool (\<lambda>ps. case GetBufferDesc (fst ps) buffer of
      None \<Rightarrow> (Inr (), ps) | Some d \<Rightarrow> pool_FlushBuffer (buffer - 1) False ps) (Inr ())"

definition FlushRelationBuffers :: "RelFileNodeBackend \<Rightarrow> BufState \<Rightarrow> unit result \<times> BufState" where
  "FlushRelationBuffers r = with_pool (pool_FlushRelationBuffers (rnb_node r)) (Inr ())"

definition FlushDatabaseBuffers :: "Oid \<Rightarrow> BufState \<Rightarrow> unit result \<times> BufState" where
  "FlushDatabaseBuffers dbid = with_pool
    (flush_buffers (\<lambda>d. (IsTagged d \<and> db_node (tag_rnode (btag d)) = dbid) \<and> IsDirty d \<and> IsValid d)) (Inr ())"

definition drop_buffers :: "(BufferDesc \<Rightarrow> bool) \<Rightarrow> PoolState \<Rightarrow> unit result \<times> PoolState" where
  "drop_buffers cond ps = for_buffers cond (\<lambda>i. InvalidateBuffer (int i)) [0..<n_buffers (fst ps)] ps"

definition DropRelationBuffers :: "RelFileNode \<Rightarrow> BufState \<Rightarrow> unit result \<times> BufState" where
  "DropRelationBuffers rnode = with_pool (drop_buffers (\<lambda>d. IsTagged d \<and> tag_rnode (btag d) = rnode)) (Inr ())"

definition DropRelFileNodeBuffers :: "RelFileNodeBackend \<Rightarrow> ForkNumber \<Rightarrow> BufState \<Rightarrow> unit result \<times> BufState" where
  "DropRelFileNodeBuffers r f = with_pool (drop_buffers (\<lambda>d. IsTagged d \<and> tag_rnode (btag d) = rnb_node r \<and>
    tag_fork (btag d) = f \<and> \<not> refcount d > 0)) (Inr ())"

definition DropDatabaseBuffers :: "Oid \<Rightarrow> BufState \<Rightarrow> unit result \<times> BufState" where
  "DropDatabaseBuffers dbid = with_pool (drop_buffers (\<lambda>d. IsTagged d \<and> db_node (tag_rnode (btag d)) = dbid \<and>
    \<not> refcount d > 0)) (Inr ())"

definition BufferIsPinned :: "int \<Rightarrow> BufState \<Rightarrow> bool" where
  "BufferIsPinned buffer st = (case g_buffer_pool st of
      None \<Rightarrow> False
    | Some p \<Rightarrow> (case GetBufferDesc p buffer of None \<Rightarrow> False | Some d \<Rightarrow> refcount d > 0))"

definition BufferGetTag :: "int \<Rightarrow> BufState \<Rightarrow> BufferTag option" where
  "BufferGetTag buffer st = (case g_buffer_pool st of
      None \<Rightarrow> None
    | Some p \<Rightarrow> map_option btag (GetBufferDesc p buffer))"

definition BufferGetBlockNumber :: "int \<Rightarrow> BufState \<Rightarrow> BlockNumber" where
  "BufferGetBlockNumber buffer st = (case BufferGetTag buffer st of None \<Rightarrow> kInvalidBlockNumber | Some t \<Rightarrow> tag_block t)"

definition ReleaseAndReadBuffer :: "int \<Rightarrow> RelFileNodeBackend \<Rightarrow> ForkNumber \<Rightarrow> BlockNumber \<Rightarrow> ReadBufferMode \<Rightarrow> BufState \<Rightarrow> int result \<times> BufState" where
  "ReleaseAndReadBuffer buffer r f b mode st = (case g_buffer_pool st of
      None \<Rightarrow> (Inl (Ereport ''buffer pool not initialized''), st)
    | Some p \<Rightarrow> (case GetBufferDesc p buffer of
        Some d \<Rightarrow> if IsTagged d \<and> tag_rnode (btag d) = rnb_node r \<and> tag_fork (btag d) = f \<and> tag_block (btag d) = b
          then (Inr buffer, st) else ReadBuffer r f b mode (ReleaseBuffer buffer st)
      | None \<Rightarrow> ReadBuffer r f b mode (ReleaseBuffer buffer st)))"

subsection \<open>Flags\<close>

lemma flag_bit:
  "IsDirty d \<longleftrightarrow> bit (bstate d) 0" "IsValid d \<longleftrightarrow> bit (bstate d) 1" "IsTagged d \<longleftrightarrow> bit (bstate d) 2"
  using and_exp_eq_0_iff_not_bit [of "bstate d" 0] and_exp_eq_0_iff_not_bit [of "bstate d" 1] and_exp_eq_0_iff_not_bit [of "bstate d" 2]
  by (simp_all add: IsDirty_def IsValid_def IsTagged_def kBMDirty_def kBMValid_def kBMTagged_def)

lemma flag_consts: "kBMDirty = 2 ^ 0" "kBMValid = 2 ^ 1" "kBMTagged = 2 ^ 2"
  by (simp_all add: kBMDirty_def kBMValid_def kBMTagged_def)

lemma flag_ops [simp]:
  "IsDirty (SetDirty d)" "\<not> IsDirty (ClearDirty d)" "IsValid (SetValid d)" "\<not> IsValid (ClearValid d)" "IsTagged (SetTagged d)" "\<not> IsTagged (ClearTagged d)"
  "IsDirty (SetValid d) = IsDirty d" "IsDirty (ClearValid d) = IsDirty d" "IsDirty (SetTagged d) = IsDirty d" "IsDirty (ClearTagged d) = IsDirty d"
  "IsValid (SetDirty d) = IsValid d" "IsValid (ClearDirty d) = IsValid d" "IsValid (SetTagged d) = IsValid d" "IsValid (ClearTagged d) = IsValid d"
  "IsTagged (SetDirty d) = IsTagged d" "IsTagged (ClearDirty d) = IsTagged d" "IsTagged (SetValid d) = IsTagged d" "IsTagged (ClearValid d) = IsTagged d"
  unfolding flag_bit SetDirty_def ClearDirty_def SetValid_def ClearValid_def SetTagged_def ClearTagged_def flag_consts
  by (simp_all add: bit_or_iff bit_and_iff bit_not_iff bit_exp_iff)

lemma flag_fields [simp]:
  "btag (SetDirty d) = btag d" "btag (ClearDirty d) = btag d" "btag (SetValid d) = btag d" "btag (ClearValid d) = btag d"
  "btag (SetTagged d) = btag d" "btag (ClearTagged d) = btag d"
  "refcount (SetDirty d) = refcount d" "refcount (ClearDirty d) = refcount d" "refcount (SetValid d) = refcount d" "refcount (ClearValid d) = refcount d"
  "refcount (SetTagged d) = refcount d" "refcount (ClearTagged d) = refcount d"
  "free_next (SetDirty d) = free_next d" "free_next (ClearDirty d) = free_next d" "free_next (SetValid d) = free_next d"
  by (simp_all add: SetDirty_def ClearDirty_def SetValid_def ClearValid_def SetTagged_def ClearTagged_def)

lemma flag_irrelevant [simp]:
  "IsDirty (d\<lparr>btag := t\<rparr>) = IsDirty d" "IsDirty (d\<lparr>refcount := c\<rparr>) = IsDirty d" "IsDirty (d\<lparr>usage_count := c\<rparr>) = IsDirty d" "IsDirty (d\<lparr>free_next := c\<rparr>) = IsDirty d"
  "IsValid (d\<lparr>btag := t\<rparr>) = IsValid d" "IsValid (d\<lparr>refcount := c\<rparr>) = IsValid d" "IsValid (d\<lparr>usage_count := c\<rparr>) = IsValid d" "IsValid (d\<lparr>free_next := c\<rparr>) = IsValid d"
  "IsTagged (d\<lparr>btag := t\<rparr>) = IsTagged d" "IsTagged (d\<lparr>refcount := c\<rparr>) = IsTagged d" "IsTagged (d\<lparr>usage_count := c\<rparr>) = IsTagged d" "IsTagged (d\<lparr>free_next := c\<rparr>) = IsTagged d"
  by (simp_all add: IsDirty_def IsValid_def IsTagged_def)

lemma upd_desc_simps [simp]:
  "blocks (upd_desc i f p) = blocks p" "hash_table (upd_desc i f p) = hash_table p" "first_free (upd_desc i f p) = first_free p"
  "clock_hand (upd_desc i f p) = clock_hand p" "n_buffers (upd_desc i f p) = n_buffers p"
  "j < n_buffers p \<Longrightarrow> descs (upd_desc i f p) ! j = (if j = i then f (descs p ! j) else descs p ! j)"
  by (simp_all add: upd_desc_def n_buffers_def)

lemma pool_field_simps [simp]:
  "n_buffers (p\<lparr>hash_table := h\<rparr>) = n_buffers p" "n_buffers (p\<lparr>blocks := bs\<rparr>) = n_buffers p"
  "n_buffers (p\<lparr>first_free := x\<rparr>) = n_buffers p" "n_buffers (p\<lparr>clock_hand := c\<rparr>) = n_buffers p"
  "n_buffers (set_block i b p) = n_buffers p" "descs (set_block i b p) = descs p" "hash_table (set_block i b p) = hash_table p"
  "first_free (set_block i b p) = first_free p" "blocks (set_block i b p) = (blocks p)[i := b]"
  by (simp_all add: n_buffers_def set_block_def)

subsection \<open>The table of tags\<close>

lemma not_in_update:
  assumes "x \<notin> set (xs[i := y])" "xs ! i \<noteq> x"
  shows "x \<notin> set xs"
proof
  assume "x \<in> set xs"
  then obtain n where n: "n < length xs" "xs ! n = x" by (auto simp: in_set_conv_nth)
  with assms(2) have "xs[i := y] ! n = x" by (metis nth_list_update_neq)
  with n(1) assms(1) show False by (metis length_list_update nth_mem)
qed

text \<open>
  What the pool relies on: a table that maps tags to buffers. \<open>tracks\<close> says that it holds the tags of the
  buffers \<open>0, 1, \<dots>\<close>, given as a list.
\<close>

locale tag_map =
  fixes lookup :: "'h \<Rightarrow> 't \<Rightarrow> int"
    and insert :: "'t \<Rightarrow> nat \<Rightarrow> 'h \<Rightarrow> 'h result"
    and delete :: "'t \<Rightarrow> 'h \<Rightarrow> 'h"
    and ok :: "'h \<Rightarrow> bool"
    and U :: "'t set"
  assumes insert_law: "ok h \<Longrightarrow> k \<in> U \<Longrightarrow> \<exists>h'. insert k i h = Inr h' \<and> ok h' \<and>
      (\<forall>j\<in>U. lookup h' j = (if j = k then int i + 1 else lookup h j))"
    and delete_law: "ok h \<Longrightarrow> k \<in> U \<Longrightarrow> ok (delete k h) \<and> (\<forall>j\<in>U. lookup (delete k h) j = (if j = k then 0 else lookup h j))"
begin

definition tracks :: "'h \<Rightarrow> 't option list \<Rightarrow> bool" where
  "tracks h xs \<longleftrightarrow> ok h \<and> (\<forall>i<length xs. \<forall>k. xs ! i = Some k \<longrightarrow> k \<in> U \<and> lookup h k = int i + 1) \<and>
    (\<forall>k\<in>U. Some k \<notin> set xs \<longrightarrow> lookup h k = 0)"

lemma tracks_lookup: "tracks h xs \<Longrightarrow> i < length xs \<Longrightarrow> xs ! i = Some k \<Longrightarrow> k \<in> U \<and> lookup h k = int i + 1"
  by (auto simp: tracks_def)

lemma tracks_distinct: "tracks h xs \<Longrightarrow> i < length xs \<Longrightarrow> j < length xs \<Longrightarrow> xs ! i = Some k \<Longrightarrow> xs ! j = Some k \<Longrightarrow> i = j"
  using tracks_lookup [of h xs i k] tracks_lookup [of h xs j k] by simp

lemma tracks_found:
  assumes "tracks h xs" "k \<in> U" "lookup h k \<noteq> 0"
  obtains i where "i < length xs" "xs ! i = Some k" "lookup h k = int i + 1"
proof -
  have "Some k \<in> set xs" using assms by (auto simp: tracks_def)
  then obtain i where "i < length xs" "xs ! i = Some k" by (auto simp: in_set_conv_nth)
  with tracks_lookup [OF assms(1) this] that show thesis by blast
qed

lemma tracks_free: "tracks h xs \<Longrightarrow> i < length xs \<Longrightarrow> lookup h k = 0 \<Longrightarrow> xs ! i \<noteq> Some k"
  using tracks_lookup [of h xs i k] by auto

lemma tracks_drop:
  assumes "tracks h xs" "i < length xs" "xs ! i = Some k"
  shows "tracks (delete k h) (xs[i := None])"
proof -
  have k: "k \<in> U" "ok h" using tracks_lookup [OF assms] assms(1) by (auto simp: tracks_def)
  note d = delete_law [OF k(2,1)]
  have "lookup (delete k h) j = int n + 1" "j \<in> U" if "n < length xs" "xs[i := None] ! n = Some j" for n j
  proof -
    have n: "n \<noteq> i" "xs ! n = Some j" using that assms(2) by (auto simp: nth_list_update split: if_splits)
    then have "j \<noteq> k" using tracks_distinct [OF assms(1) that(1) assms(2)] assms(3) by auto
    with n tracks_lookup [OF assms(1) that(1)] d show "lookup (delete k h) j = int n + 1" "j \<in> U" by auto
  qed
  moreover have "lookup (delete k h) j = 0" if "j \<in> U" "Some j \<notin> set (xs[i := None])" for j
  proof (cases "j = k")
    case False
    then have "Some j \<notin> set xs" using that(2) assms(3) by (intro not_in_update [of _ xs i None]) auto
    with assms(1) that(1) d False show ?thesis by (auto simp: tracks_def)
  qed (use d that in simp)
  ultimately show ?thesis using d by (auto simp: tracks_def)
qed

lemma tracks_add:
  assumes "tracks h xs" "i < length xs" "xs ! i = None" "k \<in> U" "lookup h k = 0"
  shows "\<exists>h'. insert k i h = Inr h' \<and> tracks h' (xs[i := Some k])"
proof -
  have "ok h" using assms(1) by (simp add: tracks_def)
  from insert_law [OF this assms(4), of i] obtain h' where h: "insert k i h = Inr h'" "ok h'"
      "\<forall>j\<in>U. lookup h' j = (if j = k then int i + 1 else lookup h j)" by blast
  have "j \<in> U \<and> lookup h' j = int n + 1" if "n < length xs" "xs[i := Some k] ! n = Some j" for n j
  proof (cases "n = i")
    case True
    then show ?thesis using that assms(2,4) h(3) by auto
  next
    case False
    then have "xs ! n = Some j" using that by simp
    with tracks_lookup [OF assms(1) that(1)] h(3) assms(5) show ?thesis by auto
  qed
  moreover have "lookup h' j = 0" if "j \<in> U" "Some j \<notin> set (xs[i := Some k])" for j
  proof -
    have "j \<noteq> k" using that(2) assms(2) set_update_memI by fastforce
    moreover have "Some j \<notin> set xs" using that(2) assms(3) by (intro not_in_update [of _ xs i "Some k"]) auto
    ultimately show ?thesis using h(3) that(1) assms(1) by (auto simp: tracks_def)
  qed
  ultimately show ?thesis using h by (auto simp: tracks_def)
qed

text \<open>A buffer gets a new tag.\<close>

lemma tracks_replace:
  assumes "tracks h xs" "i < length xs" "k \<in> U" "lookup h k = 0"
  shows "\<exists>h'. insert k i (case xs ! i of None \<Rightarrow> h | Some t \<Rightarrow> delete t h) = Inr h' \<and> tracks h' (xs[i := Some k])"
proof (cases "xs ! i")
  case None
  then show ?thesis using tracks_add [OF assms(1,2) None assms(3,4)] by simp
next
  case (Some t)
  have "t \<in> U" "t \<noteq> k" "ok h" using tracks_lookup [OF assms(1,2) Some] assms(1,4) by (auto simp: tracks_def)
  then have "lookup (delete t h) k = 0" using delete_law [of h t] assms(3,4) by auto
  from tracks_add [OF tracks_drop [OF assms(1,2) Some] _ _ assms(3) this, of i] assms(2) Some
  show ?thesis by simp
qed

end

text \<open>
  The hash table of the pool is such a table for a set of tags whose slots differ: then no probe
  goes beyond the first slot.
\<close>

definition table_ok :: "BufferTag set \<Rightarrow> nat \<Rightarrow> BufferHashEntry list \<Rightarrow> bool" where
  "table_ok U n h \<longleftrightarrow> length h = n \<and> 0 < n \<and> inj_on (\<lambda>t. unat (BufferTagHash t) mod n) U \<and>
    (\<forall>t\<in>U. tag_block t \<noteq> kInvalidBlockNumber) \<and>
    (\<forall>i<n. entry_IsEmpty (h ! i) \<or> he_tag (h ! i) \<in> U \<and> unat (BufferTagHash (he_tag (h ! i))) mod n = i)"

lemma table_slot: "table_ok U n h \<Longrightarrow> HashTableSlot h k = unat (BufferTagHash k) mod n"
  by (simp add: table_ok_def HashTableSlot_def)

lemma slot_owner:
  assumes "table_ok U n h" "k \<in> U" "\<not> entry_IsEmpty (h ! HashTableSlot h k)"
  shows "he_tag (h ! HashTableSlot h k) = k"
proof -
  define i where "i = unat (BufferTagHash k) mod n"
  have i: "HashTableSlot h k = i" "i < n" using assms(1) by (simp_all add: HashTableSlot_def i_def table_ok_def)
  then have "he_tag (h ! i) \<in> U" "unat (BufferTagHash (he_tag (h ! i))) mod n = i"
    using assms by (auto simp: table_ok_def)
  moreover have "inj_on (\<lambda>t. unat (BufferTagHash t) mod n) U" using assms(1) by (simp add: table_ok_def)
  ultimately show ?thesis using assms(2) i(1) by (auto simp: i_def dest: inj_onD)
qed

lemma probe_first:
  assumes "table_ok U n h" "k \<in> U"
  shows "probe h k [0..<length h] = Some (HashTableSlot h k)"
proof -
  have n: "length h = n" "0 < n" using assms(1) by (auto simp: table_ok_def)
  then have "[0..<length h] = 0 # [1..<length h]" "HashTableSlot h k < length h"
    by (simp_all add: upt_conv_Cons HashTableSlot_def)
  then show ?thesis using slot_owner [OF assms] by (auto simp: Let_def)
qed

lemma LookupBuffer_slot:
  assumes "table_ok U n h" "k \<in> U"
  shows "LookupBuffer h k = (if entry_IsEmpty (h ! HashTableSlot h k) then 0 else he_buf_id (h ! HashTableSlot h k) + 1)"
  using probe_first [OF assms] by (simp add: LookupBuffer_def)

lemma table_ok_update:
  assumes "table_ok U n h" "k \<in> U" "i = unat (BufferTagHash k) mod n" "entry_IsEmpty e \<or> he_tag e = k"
  shows "table_ok U n (h[i := e])"
  using assms by (auto simp: table_ok_def nth_list_update)

lemma slot_inj: "table_ok U n h \<Longrightarrow> j \<in> U \<Longrightarrow> k \<in> U \<Longrightarrow> HashTableSlot h j = HashTableSlot h k \<Longrightarrow> j = k"
  by (auto simp: table_ok_def HashTableSlot_def dest: inj_onD)

lemma lookup_update:
  assumes "table_ok U n h" "k \<in> U" "entry_IsEmpty e \<or> he_tag e = k" "j \<in> U"
  shows "LookupBuffer (h[HashTableSlot h k := e]) j =
    (if j = k then if entry_IsEmpty e then 0 else he_buf_id e + 1 else LookupBuffer h j)"
proof -
  have t: "table_ok U n (h[HashTableSlot h k := e])"
    using assms(1-3) by (intro table_ok_update [where k = k]) (auto simp: table_slot)
  have s: "HashTableSlot (h[HashTableSlot h k := e]) j = HashTableSlot h j" by (simp add: HashTableSlot_def)
  have len: "HashTableSlot h j < length h" using assms(1) by (simp add: HashTableSlot_def table_ok_def)
  have nth: "h[HashTableSlot h k := e] ! HashTableSlot h j = (if j = k then e else h ! HashTableSlot h j)"
  proof (cases "j = k")
    case False
    then have "HashTableSlot h k \<noteq> HashTableSlot h j" using slot_inj [OF assms(1,4,2)] by auto
    with False show ?thesis by simp
  qed (use len in simp)
  show ?thesis unfolding LookupBuffer_slot [OF t assms(4)] LookupBuffer_slot [OF assms(1,4)] s nth by simp
qed

lemma entry_nonempty: "table_ok U n h \<Longrightarrow> k \<in> U \<Longrightarrow> he_tag e = k \<Longrightarrow> \<not> entry_IsEmpty e"
  by (auto simp: table_ok_def entry_IsEmpty_def)

lemma empty_entry_IsEmpty [simp]: "entry_IsEmpty empty_entry"
  by (simp add: entry_IsEmpty_def empty_entry_def no_tag_def)

interpretation ht: tag_map LookupBuffer HashTableInsert HashTableDelete "table_ok U n" U for U n
proof
  fix h k i assume h: "table_ok U n h" "k \<in> U"
  define s where "s = HashTableSlot h k"
  have s: "s < length h" using h(1) by (simp add: s_def HashTableSlot_def table_ok_def)
  have own: "\<not> entry_IsEmpty (h ! s) \<Longrightarrow> he_tag (h ! s) = k"
    using slot_owner [OF h] by (simp add: s_def)
  define e where "e = (if entry_IsEmpty (h ! s) then \<lparr>he_tag = k, he_buf_id = int i\<rparr> else (h ! s)\<lparr>he_buf_id := int i\<rparr>)"
  have e: "he_tag e = k" "he_buf_id e = int i" using own by (auto simp: e_def)
  have "HashTableInsert k i h = Inr (h[s := e])"
    using probe_first [OF h] by (simp add: HashTableInsert_def s_def e_def)
  moreover have "table_ok U n (h[s := e])"
    using h e unfolding s_def by (intro table_ok_update [where k = k]) (auto simp: table_slot)
  ultimately show "\<exists>h'. HashTableInsert k i h = Inr h' \<and> table_ok U n h' \<and>
      (\<forall>j\<in>U. LookupBuffer h' j = (if j = k then int i + 1 else LookupBuffer h j))"
    using lookup_update [OF h, of e] entry_nonempty [OF h e(1)] e by (simp add: s_def)
next
  fix h k assume h: "table_ok U n h" "k \<in> U"
  define s where "s = HashTableSlot h k"
  have del: "HashTableDelete k h = (if entry_IsEmpty (h ! s) then h else h[s := empty_entry])"
    using probe_first [OF h] by (simp add: HashTableDelete_def s_def)
  have "table_ok U n (h[s := empty_entry])"
    using h unfolding s_def by (intro table_ok_update [where k = k]) (auto simp: table_slot)
  then show "table_ok U n (HashTableDelete k h) \<and>
      (\<forall>j\<in>U. LookupBuffer (HashTableDelete k h) j = (if j = k then 0 else LookupBuffer h j))"
    using lookup_update [OF h, of empty_entry] h LookupBuffer_slot [OF h] unfolding del by (auto simp: s_def)
qed

subsection \<open>The invariant of the pool\<close>

definition key :: "BufferTag \<Rightarrow> RelFileNode \<times> ForkNumber \<times> BlockNumber" where
  "key t = (tag_rnode t, tag_fork t, tag_block t)"

lemma key_inject [simp]: "key t = key u \<longleftrightarrow> t = u"
  by (auto simp: key_def)

definition tag_of :: "BufferDesc \<Rightarrow> BufferTag option" where
  "tag_of d = (if IsTagged d then Some (btag d) else None)"

definition buf_ok :: "SmgrState \<Rightarrow> BufferDesc \<Rightarrow> u8 list \<Rightarrow> bool" where
  "buf_ok s d b \<longleftrightarrow> length b = kBlckSz \<and> 0 \<le> refcount d \<and>
    (IsTagged d \<longrightarrow> IsValid d \<and> (\<not> IsDirty d \<longrightarrow> dev_block s (key (btag d)) = Some b)) \<and>
    (\<not> IsTagged d \<longrightarrow> \<not> IsDirty d \<and> refcount d = 0)"

fun free_chain :: "BufferDesc list \<Rightarrow> int \<Rightarrow> nat list \<Rightarrow> bool" where
  "free_chain ds j [] \<longleftrightarrow> j = -1"
| "free_chain ds j (x # xs) \<longleftrightarrow> j = int x \<and> x < length ds \<and> \<not> IsTagged (ds ! x) \<and> free_chain ds (free_next (ds ! x)) xs"

definition free_ok :: "BufferPool \<Rightarrow> bool" where
  "free_ok p \<longleftrightarrow> (\<exists>xs. free_chain (descs p) (first_free p) xs \<and> distinct xs)"

text \<open>
  \<open>U\<close> is the set of the pages in use; they exist on disk. A tagged buffer holds the page of its tag, and
  the same content as the disk unless it is dirty.
\<close>

definition pool_inv :: "Oid \<Rightarrow> BufferTag set \<Rightarrow> nat \<Rightarrow> PoolState \<Rightarrow> bool" where
  "pool_inv spc U n ps \<longleftrightarrow> (case ps of (p, s) \<Rightarrow>
    fds_ok s \<and> 0 < n_buffers p \<and> length (blocks p) = n_buffers p \<and>
    ht.tracks U n (hash_table p) (map tag_of (descs p)) \<and>
    (\<forall>t\<in>U. dev_key spc (key t) \<and> dev_block s (key t) \<noteq> None) \<and>
    (\<forall>i<n_buffers p. buf_ok s (descs p ! i) (blocks p ! i)) \<and> free_ok p)"

text \<open>The content of a page as the clients of the pool see it.\<close>

definition page_view :: "PoolState \<Rightarrow> BufferTag \<Rightarrow> u8 list option" where
  "page_view ps t = (case ps of (p, s) \<Rightarrow>
    let b = LookupBuffer (hash_table p) t in if b \<noteq> 0 then Some (blocks p ! nat (b - 1)) else dev_block s (key t))"

lemma pool_invD:
  assumes "pool_inv spc U n (p, s)"
  shows "fds_ok s" "0 < n_buffers p" "length (blocks p) = n_buffers p"
    "ht.tracks U n (hash_table p) (map tag_of (descs p))"
    "t \<in> U \<Longrightarrow> dev_key spc (key t)" "t \<in> U \<Longrightarrow> dev_block s (key t) \<noteq> None"
    "i < n_buffers p \<Longrightarrow> buf_ok s (descs p ! i) (blocks p ! i)" "free_ok p"
  using assms by (auto simp: pool_inv_def)

lemma tag_lookup:
  assumes "pool_inv spc U n (p, s)" "i < n_buffers p" "IsTagged (descs p ! i)"
  shows "btag (descs p ! i) \<in> U" "LookupBuffer (hash_table p) (btag (descs p ! i)) = int i + 1"
  using ht.tracks_lookup [OF pool_invD(4) [OF assms(1)], of i "btag (descs p ! i)"] assms(2,3)
  by (simp_all add: tag_of_def n_buffers_def)

lemma tag_distinct:
  assumes "pool_inv spc U n (p, s)" "i < n_buffers p" "j < n_buffers p" "IsTagged (descs p ! i)" "IsTagged (descs p ! j)" "i \<noteq> j"
  shows "btag (descs p ! i) \<noteq> btag (descs p ! j)"
  using tag_lookup(2) [OF assms(1,2,4)] tag_lookup(2) [OF assms(1,3,5)] assms(6) by auto

lemma lookup_found:
  assumes "pool_inv spc U n (p, s)" "t \<in> U" "LookupBuffer (hash_table p) t \<noteq> 0"
  obtains i where "i < n_buffers p" "IsTagged (descs p ! i)" "btag (descs p ! i) = t" "LookupBuffer (hash_table p) t = int i + 1"
proof -
  obtain i where "i < length (map tag_of (descs p))" "map tag_of (descs p) ! i = Some t" "LookupBuffer (hash_table p) t = int i + 1"
    using ht.tracks_found [OF pool_invD(4) [OF assms(1)] assms(2,3)] by blast
  then show thesis using that by (auto simp: tag_of_def n_buffers_def split: if_splits)
qed

lemma free_chain_cong:
  assumes "length es = length ds" "\<And>x. x \<in> set xs \<Longrightarrow> IsTagged (es ! x) = IsTagged (ds ! x) \<and> free_next (es ! x) = free_next (ds ! x)"
  shows "free_chain es j xs = free_chain ds j xs"
  using assms by (induction xs arbitrary: j) auto

text \<open>A change of descriptors that keeps the tags.\<close>

lemma pool_inv_descs:
  assumes inv: "pool_inv spc U n (p, s)"
    and q: "length (blocks q) = n_buffers p" "hash_table q = hash_table p" "n_buffers q = n_buffers p"
    and tags: "\<And>i. i < n_buffers p \<Longrightarrow> tag_of (descs q ! i) = tag_of (descs p ! i)"
    and t: "fds_ok t" "\<And>k. k \<in> U \<Longrightarrow> dev_block t (key k) \<noteq> None"
    and ok: "\<And>i. i < n_buffers p \<Longrightarrow> buf_ok t (descs q ! i) (blocks q ! i)" and "free_ok q"
  shows "pool_inv spc U n (q, t)"
proof -
  have "map tag_of (descs q) = map tag_of (descs p)"
    using q(3) tags by (intro nth_equalityI) (auto simp: n_buffers_def)
  then show ?thesis using assms pool_invD [OF inv] by (simp add: pool_inv_def)
qed

lemma page_view_cong:
  assumes "hash_table q = hash_table p" "blocks q = blocks p"
    and "LookupBuffer (hash_table p) k = 0 \<Longrightarrow> dev_block t (key k) = dev_block s (key k)"
  shows "page_view (q, t) k = page_view (p, s) k"
  using assms by (simp add: page_view_def Let_def)

lemma free_chain_tags: "free_chain ds j xs \<Longrightarrow> x \<in> set xs \<Longrightarrow> x < length ds \<and> \<not> IsTagged (ds ! x)"
  by (induction xs arbitrary: j) auto

lemma free_ok_cong:
  assumes "free_ok p" "n_buffers q = n_buffers p" "first_free q = first_free p"
    and "\<And>i. i < n_buffers p \<Longrightarrow> IsTagged (descs q ! i) = IsTagged (descs p ! i) \<and> free_next (descs q ! i) = free_next (descs p ! i)"
  shows "free_ok q"
proof -
  obtain xs where xs: "free_chain (descs p) (first_free p) xs" "distinct xs" using assms(1) by (auto simp: free_ok_def)
  have "free_chain (descs q) (first_free p) xs = free_chain (descs p) (first_free p) xs"
    using assms(2,4) free_chain_tags [OF xs(1)] by (intro free_chain_cong) (auto simp: n_buffers_def)
  then show ?thesis using xs unfolding free_ok_def assms(3) by blast
qed

lemma free_ok_upd:
  assumes "free_ok p" "IsTagged (f (descs p ! i)) = IsTagged (descs p ! i)" "free_next (f (descs p ! i)) = free_next (descs p ! i)"
  shows "free_ok (upd_desc i f p)"
  by (rule free_ok_cong [OF assms(1)]) (use assms(2,3) in auto)

lemma free_ok_block: "free_ok p \<Longrightarrow> free_ok (set_block i d p)"
  by (rule free_ok_cong [of p]) auto

subsection \<open>Pins, updates and flushes\<close>

lemma tag_of_eq: "IsTagged d = IsTagged e \<Longrightarrow> btag d = btag e \<Longrightarrow> tag_of d = tag_of e"
  by (simp add: tag_of_def)

text \<open>A change of one descriptor that keeps its tag and its place in the free list.\<close>

lemma pool_inv_upd_desc:
  assumes inv: "pool_inv spc U n (p, s)" and i: "i < n_buffers p"
    and f: "IsTagged (f (descs p ! i)) = IsTagged (descs p ! i)" "btag (f (descs p ! i)) = btag (descs p ! i)"
      "free_next (f (descs p ! i)) = free_next (descs p ! i)" "buf_ok s (f (descs p ! i)) (blocks p ! i)"
  shows "pool_inv spc U n (upd_desc i f p, s)" "page_view (upd_desc i f p, s) k = page_view (p, s) k"
proof -
  show "pool_inv spc U n (upd_desc i f p, s)"
    using pool_invD [OF inv] f free_ok_upd [of p f i]
    by (intro pool_inv_descs [OF inv]) (auto intro: tag_of_eq)
  show "page_view (upd_desc i f p, s) k = page_view (p, s) k" by (rule page_view_cong) auto
qed

lemma in_range_int [simp]: "in_range (int i) p \<longleftrightarrow> i < n_buffers p"
  by (auto simp: in_range_def)

lemma in_rangeD: "in_range b p \<Longrightarrow> nat b < n_buffers p \<and> int (nat b) = b"
  by (auto simp: in_range_def)

lemma unpin_fields [simp]:
  "IsTagged (unpin d) = IsTagged d" "IsValid (unpin d) = IsValid d" "IsDirty (unpin d) = IsDirty d" "btag (unpin d) = btag d" "free_next (unpin d) = free_next d"
  "refcount (unpin d) = (if refcount d > 0 then refcount d - 1 else refcount d)"
  by (auto simp: unpin_def)

lemma pin_fields [simp]:
  "IsTagged (pin d) = IsTagged d" "IsValid (pin d) = IsValid d" "IsDirty (pin d) = IsDirty d" "btag (pin d) = btag d" "free_next (pin d) = free_next d"
  "refcount (pin d) = refcount d + 1"
  by (auto simp: pin_def IsTagged_def IsValid_def IsDirty_def)

lemma unpin_spec:
  assumes "pool_inv spc U n (p, s)"
  shows "pool_inv spc U n (UnpinBuffer b p, s)" "page_view (UnpinBuffer b p, s) k = page_view (p, s) k"
proof -
  have "buf_ok s (unpin (descs p ! i)) (blocks p ! i)" if "i < n_buffers p" for i
    using pool_invD(7) [OF assms that] by (auto simp: buf_ok_def)
  then show "pool_inv spc U n (UnpinBuffer b p, s)" "page_view (UnpinBuffer b p, s) k = page_view (p, s) k"
    using pool_inv_upd_desc [OF assms, of "nat (b - 1)" unpin] assms in_rangeD [of "b - 1" p] by (auto simp: UnpinBuffer_def)
qed

lemma pin_spec:
  assumes "pool_inv spc U n (p, s)" "i < n_buffers p" "IsTagged (descs p ! i)"
  shows "pool_inv spc U n (PinBuffer (int i + 1) p, s)" "page_view (PinBuffer (int i + 1) p, s) k = page_view (p, s) k"
    "refcount (descs (PinBuffer (int i + 1) p) ! i) > 0" "btag (descs (PinBuffer (int i + 1) p) ! i) = btag (descs p ! i)"
    "blocks (PinBuffer (int i + 1) p) = blocks p" "n_buffers (PinBuffer (int i + 1) p) = n_buffers p"
proof -
  have ok: "buf_ok s (pin (descs p ! i)) (blocks p ! i)" "refcount (descs p ! i) \<ge> 0"
    using pool_invD(7) [OF assms(1,2)] assms(3) by (auto simp: buf_ok_def)
  have eq: "PinBuffer (int i + 1) p = upd_desc i pin p" using assms(2) by (simp add: PinBuffer_def)
  show "pool_inv spc U n (PinBuffer (int i + 1) p, s)" "page_view (PinBuffer (int i + 1) p, s) k = page_view (p, s) k"
    using pool_inv_upd_desc [OF assms(1,2), of pin] ok by (simp_all add: eq)
  show "refcount (descs (PinBuffer (int i + 1) p) ! i) > 0" "btag (descs (PinBuffer (int i + 1) p) ! i) = btag (descs p ! i)"
    "blocks (PinBuffer (int i + 1) p) = blocks p" "n_buffers (PinBuffer (int i + 1) p) = n_buffers p"
    using assms(2) ok(2) by (simp_all add: eq)
qed

text \<open>A client that holds a pin changes the page and marks the buffer dirty.\<close>

definition update_page :: "int \<Rightarrow> u8 list \<Rightarrow> BufferPool \<Rightarrow> BufferPool" where
  "update_page buffer d p = pool_MarkBufferDirty buffer (set_block (nat (buffer - 1)) d p)"

lemma update_spec:
  assumes inv: "pool_inv spc U n (p, s)" and i: "i < n_buffers p" "refcount (descs p ! i) > 0" "length d = kBlckSz"
  shows "pool_inv spc U n (update_page (int i + 1) d p, s)" "btag (descs p ! i) \<in> U"
    "k \<in> U \<Longrightarrow> page_view (update_page (int i + 1) d p, s) k = (if k = btag (descs p ! i) then Some d else page_view (p, s) k)"
proof -
  have bi: "buf_ok s (descs p ! i) (blocks p ! i)" by (rule pool_invD(7) [OF inv i(1)])
  then have tagged: "IsTagged (descs p ! i)" using i(2) by (auto simp: buf_ok_def)
  show "btag (descs p ! i) \<in> U" by (rule tag_lookup [OF inv i(1) tagged])
  have eq: "update_page (int i + 1) d p = upd_desc i SetDirty (set_block i d p)"
    using i(1) by (simp add: update_page_def pool_MarkBufferDirty_def in_range_def)
  have "buf_ok s (SetDirty (descs p ! i)) d" using bi tagged i(3) by (auto simp: buf_ok_def)
  then show "pool_inv spc U n (update_page (int i + 1) d p, s)" unfolding eq
    using pool_invD [OF inv] i(1) free_ok_upd [of "set_block i d p" SetDirty i] free_ok_block [of p i d]
    by (intro pool_inv_descs [OF inv]) (auto intro: tag_of_eq simp: nth_list_update)
  show "page_view (update_page (int i + 1) d p, s) k = (if k = btag (descs p ! i) then Some d else page_view (p, s) k)" if k: "k \<in> U"
  proof (cases "LookupBuffer (hash_table p) k = 0")
    case True
    then have "k \<noteq> btag (descs p ! i)" using tag_lookup(2) [OF inv i(1) tagged] by auto
    with True show ?thesis by (simp add: page_view_def eq)
  next
    case False
    obtain j where j: "j < n_buffers p" "IsTagged (descs p ! j)" "btag (descs p ! j) = k" "LookupBuffer (hash_table p) k = int j + 1"
      using lookup_found [OF inv k False] .
    have "k = btag (descs p ! i) \<longleftrightarrow> j = i" using tag_distinct [OF inv j(1) i(1) j(2) tagged] j(3) by auto
    then show ?thesis using j i pool_invD(3) [OF inv] by (auto simp: page_view_def eq Let_def nth_list_update)
  qed
qed

lemma upd_desc_same: "upd_desc i (\<lambda>d. d) p = p"
  by (simp add: upd_desc_def)

lemma flush_spec:
  assumes inv: "pool_inv spc U n (p, s)" and i: "i < n_buffers p"
  obtains q t where "pool_FlushBuffer (int i) False (p, s) = (Inr (), (q, t))" "pool_inv spc U n (q, t)"
    "\<And>k. k \<in> U \<Longrightarrow> page_view (q, t) k = page_view (p, s) k"
    "q = (if IsDirty (descs p ! i) then upd_desc i ClearDirty p else p)" "\<And>r. is_open r s \<Longrightarrow> is_open r t"
proof (cases "IsDirty (descs p ! i)")
  case False
  then show thesis using that [of p s] inv i by (simp add: pool_FlushBuffer_def Let_def upd_desc_same)
next
  case True
  define d where "d = descs p ! i"
  have ok: "buf_ok s d (blocks p ! i)" unfolding d_def by (rule pool_invD(7) [OF inv i])
  then have d: "IsTagged d" "IsValid d" "length (blocks p ! i) = kBlckSz" using True by (auto simp: buf_ok_def d_def)
  have U: "btag d \<in> U" unfolding d_def by (rule tag_lookup(1) [OF inv i]) (use d in \<open>simp add: d_def\<close>)
  obtain t where t: "dev_write (key (btag d)) (blocks p ! i) s = (Inr (), t)" "fds_ok t" "dev_block t (key (btag d)) = Some (blocks p ! i)"
      "\<forall>j x. dev_key spc j \<longrightarrow> j \<noteq> key (btag d) \<longrightarrow> dev_block s j = Some x \<longrightarrow> dev_block t j = Some x"
      "\<And>r. is_open r s \<Longrightarrow> is_open r t"
    using dev_write_spec [OF pool_invD(1) [OF inv] pool_invD(5) [OF inv U] d(3) pool_invD(6) [OF inv U]] by metis
  have keep: "dev_block t (key k) = dev_block s (key k)" if "k \<in> U" "k \<noteq> btag d" for k
    using t(4) pool_invD(5,6) [OF inv that(1)] that(2) key_inject [of k "btag d"] by (metis not_None_eq)
  have flush: "pool_FlushBuffer (int i) False (p, s) = (Inr (), (upd_desc i ClearDirty p, t))"
    using True d(2) i t(1) by (simp add: pool_FlushBuffer_def Let_def d_def [symmetric] dev_write_def key_def comp_def)
  have other: "dev_block t (key (btag (descs p ! j))) = dev_block s (key (btag (descs p ! j)))"
    if "j < n_buffers p" "j \<noteq> i" "IsTagged (descs p ! j)" for j
    using tag_lookup(1) [OF inv that(1,3)] tag_distinct [OF inv that(1) i that(3)] d(1) that(2) keep by (simp add: d_def)
  show thesis
  proof (rule that [OF flush])
    show "pool_inv spc U n (upd_desc i ClearDirty p, t)"
    proof (rule pool_inv_descs [OF inv])
      show "dev_block t (key k) \<noteq> None" if "k \<in> U" for k
        using keep [OF that] t(3) pool_invD(6) [OF inv that] by (cases "k = btag d") auto
      show "buf_ok t (descs (upd_desc i ClearDirty p) ! j) (blocks (upd_desc i ClearDirty p) ! j)" if "j < n_buffers p" for j
        using pool_invD(7) [OF inv that] ok other [OF that] that t(3) d by (auto simp: buf_ok_def d_def)
    qed (use t pool_invD [OF inv] free_ok_upd [OF pool_invD(8) [OF inv], of ClearDirty i] in \<open>auto intro: tag_of_eq\<close>)
    show "page_view (upd_desc i ClearDirty p, t) k = page_view (p, s) k" if "k \<in> U" for k
    proof (rule page_view_cong)
      assume "LookupBuffer (hash_table p) k = 0"
      then have "k \<noteq> btag d" using tag_lookup(2) [OF inv i] d(1) by (auto simp: d_def)
      then show "dev_block t (key k) = dev_block s (key k)" by (rule keep [OF that])
    qed auto
  qed (use True t(5) in simp_all)
qed

subsection \<open>Victims\<close>

text \<open>The sweep changes usage counts and the clock hand only.\<close>

definition swept :: "BufferPool \<Rightarrow> BufferPool \<Rightarrow> bool" where
  "swept p q \<longleftrightarrow> n_buffers q = n_buffers p \<and> blocks q = blocks p \<and> hash_table q = hash_table p \<and> first_free q = first_free p \<and>
    (\<forall>i<n_buffers p. \<exists>c. descs q ! i = (descs p ! i)\<lparr>usage_count := c\<rparr>)"

lemma usage_same: "\<exists>c. d = d\<lparr>usage_count := c\<rparr>" for d :: BufferDesc
  by (rule exI [of _ "usage_count d"]) simp

lemma swept_refl: "swept p p"
  by (simp add: swept_def usage_same)

lemma sweptE:
  assumes "swept p q" "i < n_buffers p"
  obtains c where "descs q ! i = (descs p ! i)\<lparr>usage_count := c\<rparr>"
  using assms unfolding swept_def by metis

lemma swept_trans: "swept p q \<Longrightarrow> swept q r \<Longrightarrow> swept p r"
proof -
  assume a: "swept p q" "swept q r"
  have "\<exists>c. descs r ! i = (descs p ! i)\<lparr>usage_count := c\<rparr>" if i: "i < n_buffers p" for i
  proof -
    obtain c d where "descs q ! i = (descs p ! i)\<lparr>usage_count := c\<rparr>" "descs r ! i = (descs q ! i)\<lparr>usage_count := d\<rparr>"
      using a i unfolding swept_def by metis
    then show ?thesis by auto
  qed
  then show "swept p r" using a by (simp add: swept_def)
qed

lemma swept_upd: "swept p (upd_desc i (\<lambda>d. d\<lparr>usage_count := f d\<rparr>) p)"
  by (auto simp: swept_def usage_same)

lemma clock_sweep_swept:
  assumes "0 < n_buffers p"
  shows "swept p (snd (clock_sweep start is p)) \<and> (fst (clock_sweep start is p) = -1 \<or>
    (\<exists>b<n_buffers p. fst (clock_sweep start is p) = int b \<and> refcount (descs p ! b) = 0))"
  using assms
proof (induction "is" arbitrary: p)
  case Nil
  then show ?case by (simp add: swept_refl)
next
  case (Cons i "is")
  define b where "b = (start + i) mod n_buffers p"
  define q where "q = upd_desc b (\<lambda>d. d\<lparr>usage_count := usage_count d - 1\<rparr>) p"
  have b: "b < n_buffers p" using Cons.prems by (simp add: b_def)
  have q: "swept p q" "n_buffers q = n_buffers p" unfolding q_def by (simp_all add: swept_upd)
  have ref: "refcount (descs q ! j) = refcount (descs p ! j)" if "j < n_buffers p" for j
    using that by (simp add: q_def)
  have hand: "swept p (p\<lparr>clock_hand := c\<rparr>)" for c using swept_refl [of p] by (simp add: swept_def)
  consider "refcount (descs p ! b) \<noteq> 0" | "refcount (descs p ! b) = 0" "usage_count (descs p ! b) > 0"
    | "refcount (descs p ! b) = 0" "\<not> usage_count (descs p ! b) > 0" by blast
  then show ?case
  proof cases
    case 1
    then show ?thesis using Cons by (simp add: Let_def b_def [symmetric])
  next
    case 2
    then have "clock_sweep start (i # is) p = clock_sweep start is q" by (simp add: Let_def b_def [symmetric] q_def)
    then show ?thesis using Cons.IH [of q] Cons.prems q ref swept_trans [OF q(1)] by auto
  next
    case 3
    then show ?thesis using b hand by (simp add: Let_def b_def [symmetric])
  qed
qed

text \<open>The number of visits of a buffer in a part of the sweep.\<close>

definition visits :: "nat \<Rightarrow> nat \<Rightarrow> nat list \<Rightarrow> nat \<Rightarrow> nat" where
  "visits n start is b = length (filter (\<lambda>i. (start + i) mod n = b) is)"

lemma clock_sweep_none:
  assumes "0 < n_buffers p" "\<And>b. b < n_buffers p \<Longrightarrow> usage_count (descs p ! b) \<ge> 0"
  shows "fst (clock_sweep start is p) = -1 \<longleftrightarrow>
    (\<forall>b<n_buffers p. refcount (descs p ! b) = 0 \<longrightarrow> int (visits (n_buffers p) start is b) \<le> usage_count (descs p ! b))"
  using assms
proof (induction "is" arbitrary: p)
  case Nil
  then show ?case by (simp add: visits_def)
next
  case (Cons i "is")
  define b where "b = (start + i) mod n_buffers p"
  define q where "q = upd_desc b (\<lambda>d. d\<lparr>usage_count := usage_count d - 1\<rparr>) p"
  have b: "b < n_buffers p" using Cons.prems(1) by (simp add: b_def)
  have vis: "visits (n_buffers p) start (i # is) j = visits (n_buffers p) start is j + (if j = b then 1 else 0)" for j
    by (simp add: visits_def b_def)
  show ?case
  proof (cases "refcount (descs p ! b) = 0")
    case False
    then show ?thesis using Cons.IH [OF Cons.prems] by (auto simp: Let_def b_def [symmetric] vis)
  next
    case ref: True
    show ?thesis
    proof (cases "usage_count (descs p ! b) > 0")
      case True
      have "clock_sweep start (i # is) p = clock_sweep start is q" using True ref by (simp add: Let_def b_def [symmetric] q_def)
      moreover have "fst (clock_sweep start is q) = -1 \<longleftrightarrow>
          (\<forall>j<n_buffers p. refcount (descs p ! j) = 0 \<longrightarrow>
            int (visits (n_buffers p) start is j) \<le> usage_count (descs p ! j) - (if j = b then 1 else 0))"
        using Cons.IH [of q] Cons.prems True by (auto simp: q_def)
      ultimately show ?thesis unfolding vis by auto
    next
      case False
      then have "fst (clock_sweep start (i # is) p) = int b" using ref by (simp add: Let_def b_def [symmetric])
      moreover have "\<not> int (visits (n_buffers p) start (i # is) b) \<le> usage_count (descs p ! b)" using False by (simp add: vis)
      ultimately show ?thesis using b ref by auto
    qed
  qed
qed

lemma mod_shift_inject:
  assumes "(a + i) mod n = (a + j) mod n" "i < n" "j < n"
  shows "i = (j :: nat)"
proof -
  have le: "x = y" if "(a + x) mod n = (a + y) mod n" "x < n" "y \<le> x" for x y
  proof -
    have "n dvd x - y" using that(1,3) mod_eq_dvd_iff_nat [of "a + y" "a + x" n] by simp
    then have "x - y = 0" using that(2) by (meson dvd_imp_le less_imp_diff_less linorder_not_le not_gr_zero)
    with that(3) show ?thesis by simp
  qed
  show ?thesis using le [of i j] le [of j i] assms by (metis linear)
qed

lemma visits_round:
  assumes "b < n"
  shows "visits n start [0..<n] b = 1"
proof -
  define i where "i = (b + (n - start mod n)) mod n"
  have n: "0 < n" using assms by simp
  have "(start + i) mod n = (start mod n + (b + (n - start mod n))) mod n"
    unfolding i_def by (simp add: mod_add_left_eq mod_add_right_eq)
  also have "start mod n + (b + (n - start mod n)) = b + n" using mod_less_divisor [OF n, of start] by linarith
  finally have i: "(start + i) mod n = b" "i < n" using assms n by (simp_all add: i_def)
  have "j < n \<and> (start + [0..<n] ! j) mod n = b \<longleftrightarrow> j = i" for j
  proof (cases "j < n")
    case True
    then have "[0..<n] ! j = j" by simp
    then show ?thesis using i True mod_shift_inject [OF _ True i(2), of start] by metis
  qed (use i in auto)
  then have "{j. j < n \<and> (start + [0..<n] ! j) mod n = b} = {i}" by simp
  then show ?thesis by (simp add: visits_def length_filter_conv_card)
qed

lemma visits_shift: "visits n start [n..<n * 2] b = visits n start [0..<n] b"
proof -
  have "[n..<n * 2] = map (\<lambda>i. i + n) [0..<n]" by (simp add: map_add_upt mult_2_right)
  moreover have "(start + (i + n)) mod n = (start + i) mod n" for i by (metis add.assoc mod_add_self2)
  ultimately show ?thesis by (simp add: visits_def filter_map comp_def)
qed

lemma visits_sweep: "b < n \<Longrightarrow> visits n start [0..<n * 2] b = 2"
  using upt_add_eq_append [of 0 n n] visits_round [of b n start] visits_shift [of n start b]
  by (simp add: visits_def mult_2_right)

lemma swept_inv:
  assumes inv: "pool_inv spc U n (p, s)" and q: "swept p q"
  shows "pool_inv spc U n (q, s)" "page_view (q, s) k = page_view (p, s) k"
proof -
  have f: "tag_of (descs q ! i) = tag_of (descs p ! i)" "IsTagged (descs q ! i) = IsTagged (descs p ! i)"
      "free_next (descs q ! i) = free_next (descs p ! i)" "buf_ok s (descs q ! i) (blocks p ! i)" if i: "i < n_buffers p" for i
  proof -
    obtain c where c: "descs q ! i = (descs p ! i)\<lparr>usage_count := c\<rparr>" by (rule sweptE [OF q i])
    show "tag_of (descs q ! i) = tag_of (descs p ! i)" "IsTagged (descs q ! i) = IsTagged (descs p ! i)"
      "free_next (descs q ! i) = free_next (descs p ! i)" "buf_ok s (descs q ! i) (blocks p ! i)"
      using pool_invD(7) [OF inv i] unfolding c by (simp_all add: tag_of_def buf_ok_def)
  qed
  have sw: "n_buffers q = n_buffers p" "blocks q = blocks p" "hash_table q = hash_table p" "first_free q = first_free p"
    using q by (simp_all add: swept_def)
  have "free_ok q" by (rule free_ok_cong [OF pool_invD(8) [OF inv] sw(1,4)]) (simp add: f)
  then show "pool_inv spc U n (q, s)"
    by (rule pool_inv_descs [OF inv, rotated -1]) (simp_all add: f sw pool_invD [OF inv] del: not_None_eq)
  show "page_view (q, s) k = page_view (p, s) k" using sw by (intro page_view_cong) auto
qed

lemma FindVictim_spec:
  assumes inv: "pool_inv spc U n (p, s)"
  obtains v q xs where "FindVictimBuffer p = (v, q)" "pool_inv spc U n (q, s)" "\<And>k. page_view (q, s) k = page_view (p, s) k"
    "hash_table q = hash_table p" "n_buffers q = n_buffers p" "free_chain (descs q) (first_free q) xs" "distinct xs"
    "v < 0 \<or> (\<exists>i<n_buffers p. v = int i \<and> refcount (descs q ! i) = 0 \<and> i \<notin> set xs)"
proof -
  obtain xs where xs: "free_chain (descs p) (first_free p) xs" "distinct xs" using pool_invD(8) [OF inv] by (auto simp: free_ok_def)
  show thesis
  proof (cases xs)
    case Nil
    then have ff: "first_free p = -1" using xs(1) by simp
    define q where "q = snd (clock_sweep (clock_hand p) [0..<n_buffers p * 2] p)"
    define v where "v = fst (clock_sweep (clock_hand p) [0..<n_buffers p * 2] p)"
    have sw: "swept p q" "v = -1 \<or> (\<exists>b<n_buffers p. v = int b \<and> refcount (descs p ! b) = 0)"
      using clock_sweep_swept [OF pool_invD(2) [OF inv], of "clock_hand p" "[0..<n_buffers p * 2]"] by (simp_all add: q_def v_def)
    have ref: "refcount (descs q ! b) = refcount (descs p ! b)" if "b < n_buffers p" for b
      by (rule sweptE [OF sw(1) that]) simp
    show thesis
    proof (rule that [of v q "[]"])
      show "FindVictimBuffer p = (v, q)" using ff by (simp add: FindVictimBuffer_def v_def q_def)
      show "v < 0 \<or> (\<exists>i<n_buffers p. v = int i \<and> refcount (descs q ! i) = 0 \<and> i \<notin> set [])"
        using sw(2) ref by auto
    qed (use swept_inv [OF inv sw(1)] sw(1) ff in \<open>auto simp: swept_def\<close>)
  next
    case (Cons x ys)
    then have x: "first_free p = int x" "x < n_buffers p" "\<not> IsTagged (descs p ! x)" "free_chain (descs p) (free_next (descs p ! x)) ys"
        "distinct ys" "x \<notin> set ys"
      using xs by (auto simp: n_buffers_def)
    define q where "q = upd_desc x (\<lambda>d. d\<lparr>free_next := -1\<rparr>) (p\<lparr>first_free := free_next (descs p ! x)\<rparr>)"
    have q: "n_buffers q = n_buffers p" "blocks q = blocks p" "hash_table q = hash_table p" "first_free q = free_next (descs p ! x)"
        "\<And>i. i < n_buffers p \<Longrightarrow> descs q ! i = (if i = x then (descs p ! x)\<lparr>free_next := -1\<rparr> else descs p ! i)"
      by (simp_all add: q_def n_buffers_def upd_desc_def)
    have ys: "set ys \<subseteq> {..<n_buffers p}" using free_chain_tags [OF x(4)] by (auto simp: n_buffers_def)
    have other: "descs q ! y = descs p ! y" if "y \<in> set ys" for y
    proof -
      have "y < n_buffers p" "y \<noteq> x" using that ys x(6) by auto
      then show ?thesis by (simp add: q(5))
    qed
    have chain: "free_chain (descs q) (first_free q) ys"
      unfolding q(4) using x(4) q(1) other by (subst free_chain_cong [where ds = "descs p"]) (auto simp: n_buffers_def)
    have inv_q: "pool_inv spc U n (q, s)"
    proof (rule pool_inv_descs [OF inv])
      show "free_ok q" using chain x(5) by (auto simp: free_ok_def)
    qed (use pool_invD [OF inv] q in \<open>auto simp: tag_of_def buf_ok_def\<close>)
    have "refcount (descs q ! x) = 0" using pool_invD(7) [OF inv_q, of x] x(2,3) q by (simp add: buf_ok_def)
    then show thesis
      by (intro that [of "int x" q ys]) (use inv_q chain x q page_view_cong [of q p] in \<open>auto simp: FindVictimBuffer_def Let_def q_def [symmetric]\<close>)
  qed
qed

subsection \<open>Reading a page\<close>

text \<open>The state after a clean, unpinned buffer has been given the tag \<open>k\<close> and the page \<open>x\<close>.\<close>

lemma retag_spec:
  assumes inv: "pool_inv spc U n (q, t)" and i: "i < n_buffers q" "\<not> IsDirty (descs q ! i)"
    and k: "k \<in> U" "LookupBuffer (hash_table q) k = 0"
    and chain: "free_chain (descs q) (first_free q) xs" "distinct xs" "i \<notin> set xs"
    and u: "fds_ok u" "dev_block u = dev_block t" and x: "dev_block t (key k) = Some x"
  obtains p where "InsertBuffer k i q = (Inr (int i + 1), p)" "blocks p = blocks q"
    "pool_inv spc U n (upd_desc i SetValid (set_block i x p), u)"
    "\<And>j. j \<in> U \<Longrightarrow> page_view (upd_desc i SetValid (set_block i x p), u) j = page_view (q, t) j"
    "refcount (descs (upd_desc i SetValid (set_block i x p)) ! i) = 1" "btag (descs (upd_desc i SetValid (set_block i x p)) ! i) = k"
    "n_buffers p = n_buffers q"
proof -
  define d where "d = descs q ! i"
  define h where "h = (if IsTagged d then HashTableDelete (btag d) (hash_table q) else hash_table q)"
  define f where "f = (\<lambda>d :: BufferDesc. (ClearValid (SetTagged (d\<lparr>btag := k\<rparr>)))\<lparr>refcount := 1, usage_count := 1, free_next := -1\<rparr>)"
  have tr: "ht.tracks U n (hash_table q) (map tag_of (descs q))" by (rule pool_invD(4) [OF inv])
  have len: "i < length (map tag_of (descs q))" using i(1) by (simp add: n_buffers_def)
  have "(case map tag_of (descs q) ! i of None \<Rightarrow> hash_table q | Some t \<Rightarrow> HashTableDelete t (hash_table q)) = h"
    using len by (simp add: h_def tag_of_def d_def)
  with ht.tracks_replace [OF tr len k] obtain h' where h': "HashTableInsert k i h = Inr h'" "ht.tracks U n h' ((map tag_of (descs q))[i := Some k])"
    by auto
  define p where "p = (upd_desc i f (q\<lparr>hash_table := h\<rparr>))\<lparr>hash_table := h'\<rparr>"
  define r where "r = upd_desc i SetValid (set_block i x p)"
  have ins: "InsertBuffer k i q = (Inr (int i + 1), p)"
    by (cases "IsTagged d") (use h'(1) in \<open>simp_all add: InsertBuffer_def Let_def d_def h_def p_def f_def upd_desc_def\<close>)
  have p: "blocks p = blocks q" "n_buffers p = n_buffers q" by (simp_all add: p_def)
  have r: "blocks r = (blocks q)[i := x]" "n_buffers r = n_buffers q" "hash_table r = h'" "first_free r = first_free q"
    by (simp_all add: r_def p_def)
  have desc: "descs r ! j = (if j = i then SetValid (f (descs q ! i)) else descs q ! j)" if "j < n_buffers q" for j
    using that i(1) by (simp add: r_def p_def upd_desc_def set_block_def n_buffers_def)
  have fi: "IsTagged (SetValid (f (descs q ! i)))" "IsValid (SetValid (f (descs q ! i)))" "\<not> IsDirty (SetValid (f (descs q ! i)))"
      "refcount (SetValid (f (descs q ! i))) = 1" "btag (SetValid (f (descs q ! i))) = k"
    using i(2) by (simp_all add: f_def)
  have tags: "map tag_of (descs r) = (map tag_of (descs q))[i := Some k]"
    using r(2) desc fi by (intro nth_equalityI) (auto simp: n_buffers_def nth_list_update tag_of_def)
  have other: "descs r ! y = descs q ! y" if "y \<in> set xs" for y
  proof -
    have "y < n_buffers q" "y \<noteq> i" using free_chain_tags [OF chain(1) that] chain(3) that by (auto simp: n_buffers_def)
    then show ?thesis by (simp add: desc)
  qed
  have free: "free_ok r"
    using chain(1,2) other r(2,4) free_chain_cong [of "descs r" "descs q" xs "first_free q"] by (auto simp: free_ok_def n_buffers_def)
  have xl: "length x = kBlckSz" by (rule dev_block_length [OF x])
  have ok: "buf_ok u (descs r ! j) (blocks r ! j)" if j: "j < n_buffers q" for j
  proof (cases "j = i")
    case True
    then show ?thesis using j i(1) fi xl x u(2) pool_invD(3) [OF inv] by (simp add: buf_ok_def desc r(1))
  next
    case False
    then show ?thesis using pool_invD(7) [OF inv j] j u(2) by (simp add: buf_ok_def desc r(1))
  qed
  have inv_r: "pool_inv spc U n (r, u)"
    using h'(2) tags r ok free pool_invD [OF inv] u by (auto simp: pool_inv_def)
  have view: "page_view (r, u) j = page_view (q, t) j" if j: "j \<in> U" for j
  proof -
    have "LookupBuffer h' k = int i + 1" using tag_lookup(2) [OF inv_r, of i] i(1) desc fi r by simp
    consider "j = k" | m where "m < n_buffers q" "m \<noteq> i" "IsTagged (descs q ! m)" "btag (descs q ! m) = j"
      | "j \<noteq> k" "\<And>m. m < n_buffers q \<Longrightarrow> m \<noteq> i \<Longrightarrow> IsTagged (descs q ! m) \<Longrightarrow> btag (descs q ! m) \<noteq> j" by blast
    then show ?thesis
    proof cases
      case 1
      then show ?thesis using \<open>LookupBuffer h' k = int i + 1\<close> k(2) x i(1) pool_invD(3) [OF inv] by (simp add: page_view_def r)
    next
      case 2
      then have "LookupBuffer h' j = int m + 1" using tag_lookup(2) [OF inv_r, of m] desc r by auto
      moreover have "LookupBuffer (hash_table q) j = int m + 1" using 2 tag_lookup(2) [OF inv, of m] by auto
      ultimately show ?thesis using 2 by (simp add: page_view_def r)
    next
      case 3
      have "LookupBuffer h' j = 0"
      proof (rule ccontr)
        assume "LookupBuffer h' j \<noteq> 0"
        then have "LookupBuffer (hash_table r) j \<noteq> 0" by (simp add: r)
        from lookup_found [OF inv_r j this] obtain m where "m < n_buffers q" "IsTagged (descs r ! m)" "btag (descs r ! m) = j" using r by auto
        then show False using 3 desc fi by (cases "m = i") auto
      qed
      then have l: "page_view (r, u) j = dev_block t (key j)" by (simp add: page_view_def r u)
      show ?thesis
      proof (cases "LookupBuffer (hash_table q) j = 0")
        case True
        then show ?thesis using l by (simp add: page_view_def)
      next
        case False
        obtain m where m: "m < n_buffers q" "IsTagged (descs q ! m)" "btag (descs q ! m) = j" "LookupBuffer (hash_table q) j = int m + 1"
          using lookup_found [OF inv j False] .
        with 3 have "m = i" by auto
        then have "dev_block t (key j) = Some (blocks q ! i)" using pool_invD(7) [OF inv i(1)] m i(2) by (auto simp: buf_ok_def)
        then show ?thesis using l m \<open>m = i\<close> by (simp add: page_view_def)
      qed
    qed
  qed
  show thesis
    by (rule that [OF ins p(1) inv_r [unfolded r_def] view [unfolded r_def] _ _ p(2)])
      (use desc [OF i(1)] fi in \<open>simp_all add: r_def\<close>)
qed

lemma ReadBuffer_spec:
  assumes inv: "pool_inv spc U n (p, s)" and k: "k \<in> U" "k = \<lparr>tag_rnode = rnb_node r, tag_fork = f, tag_block = b\<rparr>"
    and r: "is_open r s" "rnb_backend r = 0"
  obtains y q t where "pool_ReadBuffer r f b RBM_kNormal (p, s) = (y, (q, t))" "pool_inv spc U n (q, t)"
    "\<And>j. j \<in> U \<Longrightarrow> page_view (q, t) j = page_view (p, s) j"
    "(y = Inl (Ereport ''no buffer available in buffer pool (all pinned)'') \<and> LookupBuffer (hash_table p) k = 0 \<and> fst (FindVictimBuffer p) < 0) \<or>
      (\<exists>i<n_buffers q. y = Inr (int i + 1) \<and> refcount (descs q ! i) > 0 \<and> btag (descs q ! i) = k \<and> Some (blocks q ! i) = page_view (p, s) k)"
proof (cases "LookupBuffer (hash_table p) k = 0")
  case False
  obtain i where i: "i < n_buffers p" "IsTagged (descs p ! i)" "btag (descs p ! i) = k" "LookupBuffer (hash_table p) k = int i + 1"
    using lookup_found [OF inv k(1) False] .
  show thesis
    by (rule that [of "Inr (int i + 1)" "PinBuffer (int i + 1) p" s])
      (use i pin_spec [OF inv i(1,2)] in \<open>auto simp: pool_ReadBuffer_def k(2) [symmetric] page_view_def Let_def\<close>)
next
  case True
  obtain v q xs where v: "FindVictimBuffer p = (v, q)" "pool_inv spc U n (q, s)" "\<And>j. page_view (q, s) j = page_view (p, s) j"
      "hash_table q = hash_table p" "n_buffers q = n_buffers p" "free_chain (descs q) (first_free q) xs" "distinct xs"
      "v < 0 \<or> (\<exists>i<n_buffers p. v = int i \<and> refcount (descs q ! i) = 0 \<and> i \<notin> set xs)"
    using FindVictim_spec [OF inv] by metis
  show thesis
  proof (cases "v < 0")
    case neg: True
    then show thesis
      by (intro that [of "Inl (Ereport ''no buffer available in buffer pool (all pinned)'')" q s])
        (use v True in \<open>auto simp: pool_ReadBuffer_def k(2) [symmetric] Let_def\<close>)
  next
    case False
    then obtain i where i: "i < n_buffers q" "v = int i" "i \<notin> set xs" using v(5,8) by auto
    obtain q2 t where q2: "pool_FlushBuffer (int i) False (q, s) = (Inr (), (q2, t))" "pool_inv spc U n (q2, t)"
        "\<And>j. j \<in> U \<Longrightarrow> page_view (q2, t) j = page_view (q, s) j"
        "q2 = (if IsDirty (descs q ! i) then upd_desc i ClearDirty q else q)" "\<And>r. is_open r s \<Longrightarrow> is_open r t"
      using flush_spec [OF v(2) i(1)] by metis
    have q2f: "hash_table q2 = hash_table q" "n_buffers q2 = n_buffers q" "first_free q2 = first_free q" "\<not> IsDirty (descs q2 ! i)"
        "blocks q2 = blocks q"
      unfolding q2(4) using i(1) by auto
    have cond: "(if IsTagged (descs q ! i) \<and> IsDirty (descs q ! i) \<and> IsValid (descs q ! i)
        then pool_FlushBuffer (int i) False (q, s) else (Inr (), (q, s))) = (Inr (), (q2, t))"
    proof (cases "IsDirty (descs q ! i)")
      case True
      then show ?thesis using pool_invD(7) [OF v(2) i(1)] q2(1) by (auto simp: buf_ok_def)
    next
      case False
      then have "pool_FlushBuffer (int i) False (q, s) = (Inr (), (q, s))"
        using i(1) by (simp add: pool_FlushBuffer_def Let_def upd_desc_same)
      with False q2(1) show ?thesis by simp
    qed
    have "descs q2 ! y = descs q ! y" if "y \<in> set xs" for y
    proof -
      have "y \<noteq> i" using that i(3) by auto
      then show ?thesis by (simp add: q2(4) upd_desc_def)
    qed
    then have "free_chain (descs q2) (first_free q2) xs"
      unfolding q2f(3) using v(6) q2f(2) by (subst free_chain_cong [where ds = "descs q"]) (auto simp: n_buffers_def)
    moreover have look: "LookupBuffer (hash_table q2) k = 0" using True v(4) q2f(1) by simp
    obtain x where x: "dev_block t (key k) = Some x" using pool_invD(6) [OF q2(2) k(1)] by auto
    obtain u where u: "dev_read (key k) t = (Inr x, u)" "fds_ok u" "dev_block u = dev_block t"
      using dev_read_spec [OF pool_invD(1) [OF q2(2)] pool_invD(5) [OF q2(2) k(1)]] x by (metis option.simps(5))
    have ropen: "is_open r t" using q2(5) r(1) by blast
    have rr: "\<lparr>rnb_node = rnb_node r, rnb_backend = 0\<rparr> = r" using r(2) by simp
    have rd: "smgrread r f b t = (Inr x, u)"
      using u(1) ropen by (simp add: dev_read_def key_def k(2) rr smgropen_open Let_def)
    ultimately obtain p3 where p3: "InsertBuffer k i q2 = (Inr (int i + 1), p3)" "blocks p3 = blocks q2"
        "pool_inv spc U n (upd_desc i SetValid (set_block i x p3), u)"
        "\<And>j. j \<in> U \<Longrightarrow> page_view (upd_desc i SetValid (set_block i x p3), u) j = page_view (q2, t) j"
        "refcount (descs (upd_desc i SetValid (set_block i x p3)) ! i) = 1" "btag (descs (upd_desc i SetValid (set_block i x p3)) ! i) = k"
        "n_buffers p3 = n_buffers q2"
      using retag_spec [OF q2(2) _ q2f(4) k(1) look _ v(7) i(3) u(2,3) x] i(1) q2f(2) by metis
    have "pool_ReadBuffer r f b RBM_kNormal (p, s) = (Inr (int i + 1), (upd_desc i SetValid (set_block i x p3), u))"
      using True v(1) i(2) cond p3(1) rd by (simp add: pool_ReadBuffer_def k(2) [symmetric] Let_def)
    moreover have "page_view (q2, t) k = Some x" using look x by (simp add: page_view_def)
    then have "Some x = page_view (p, s) k" using v(3) q2(3) [OF k(1)] by simp
    moreover have "blocks (upd_desc i SetValid (set_block i x p3)) ! i = x" using p3(2) q2f i(1) pool_invD(3) [OF v(2)] by simp
    ultimately show thesis
      by (intro that [of "Inr (int i + 1)" "upd_desc i SetValid (set_block i x p3)" u])
        (use p3 v(3) q2(3) i(1) q2f(2) in auto)
  qed
qed

subsection \<open>Dropping and flushing\<close>

lemma Invalidate_spec:
  assumes inv: "pool_inv spc U n (p, s)" and i: "i < n_buffers p" "IsTagged (descs p ! i)" "refcount (descs p ! i) = 0"
  obtains q t where "InvalidateBuffer (int i) (p, s) = (Inr (), (q, t))" "pool_inv spc U n (q, t)" "n_buffers q = n_buffers p"
    "\<And>k. k \<in> U \<Longrightarrow> page_view (q, t) k = page_view (p, s) k"
proof -
  obtain w t where w: "pool_FlushBuffer (int i) False (p, s) = (Inr (), (w, t))" "pool_inv spc U n (w, t)"
      "\<And>j. j \<in> U \<Longrightarrow> page_view (w, t) j = page_view (p, s) j"
      "w = (if IsDirty (descs p ! i) then upd_desc i ClearDirty p else p)"
    using flush_spec [OF inv i(1)] by metis
  have wf: "n_buffers w = n_buffers p" "IsTagged (descs w ! i)" "\<not> IsDirty (descs w ! i)" "refcount (descs w ! i) = 0"
      "btag (descs w ! i) = btag (descs p ! i)"
    unfolding w(4) using i by auto
  have fl: "(if IsDirty (descs p ! i) \<and> IsValid (descs p ! i) then pool_FlushBuffer (int i) False (p, s) else (Inr (), (p, s))) = (Inr (), (w, t))"
  proof (cases "IsDirty (descs p ! i)")
    case True
    then show ?thesis using pool_invD(7) [OF inv i(1)] w(1) i(2) by (auto simp: buf_ok_def)
  next
    case False
    then show ?thesis using w(1) i(1) by (simp add: pool_FlushBuffer_def Let_def upd_desc_same)
  qed
  define a where "a = btag (descs w ! i)"
  define h where "h = HashTableDelete a (hash_table w)"
  define f where "f = (\<lambda>d :: BufferDesc. (ClearDirty (ClearValid (ClearTagged d)))\<lparr>btag := no_tag, usage_count := 0, free_next := first_free w\<rparr>)"
  define q where "q = (upd_desc i f (w\<lparr>hash_table := h\<rparr>))\<lparr>first_free := int i\<rparr>"
  have iw: "i < n_buffers w" using i(1) wf(1) by simp
  have res: "InvalidateBuffer (int i) (p, s) = (Inr (), (q, t))"
    using fl i(1) wf(2) by (simp add: InvalidateBuffer_def Let_def q_def h_def a_def f_def)
  have q: "blocks q = blocks w" "n_buffers q = n_buffers w" "hash_table q = h" "first_free q = int i"
      "\<And>j. j < n_buffers w \<Longrightarrow> descs q ! j = (if j = i then f (descs w ! i) else descs w ! j)"
    by (simp_all add: q_def upd_desc_def n_buffers_def)
  have f: "\<not> IsTagged (f (descs w ! i))" "\<not> IsDirty (f (descs w ! i))" "refcount (f (descs w ! i)) = 0" "free_next (f (descs w ! i)) = first_free w"
    using wf by (simp_all add: f_def)
  have "map tag_of (descs q) = (map tag_of (descs w))[i := None]"
    using q(2,5) f by (intro nth_equalityI) (auto simp: n_buffers_def nth_list_update tag_of_def)
  then have tr: "ht.tracks U n h (map tag_of (descs q))"
    using ht.tracks_drop [OF pool_invD(4) [OF w(2)], of i a] iw wf(2) by (simp add: h_def a_def tag_of_def n_buffers_def)
  obtain xs where xs: "free_chain (descs w) (first_free w) xs" "distinct xs" using pool_invD(8) [OF w(2)] by (auto simp: free_ok_def)
  have ixs: "y \<noteq> i \<and> y < n_buffers w" if "y \<in> set xs" for y using free_chain_tags [OF xs(1) that] wf(2) by (auto simp: n_buffers_def)
  then have "free_chain (descs q) (first_free w) xs"
    using xs(1) q(2,5) by (subst free_chain_cong [where ds = "descs w"]) (auto simp: n_buffers_def)
  then have free: "free_ok q" unfolding free_ok_def
    using xs(2) ixs q iw f by (intro exI [of _ "i # xs"]) (auto simp: n_buffers_def)
  have ok: "buf_ok t (descs q ! j) (blocks q ! j)" if "j < n_buffers w" for j
    using pool_invD(7) [OF w(2) that] f that by (auto simp: q buf_ok_def)
  have inv_q: "pool_inv spc U n (q, t)"
    using tr free ok pool_invD [OF w(2)] by (auto simp: pool_inv_def q)
  have view: "page_view (q, t) k = page_view (w, t) k" if k: "k \<in> U" for k
  proof -
    have law: "LookupBuffer h k = (if k = a then 0 else LookupBuffer (hash_table w) k)"
    proof -
      have "table_ok U n (hash_table w)" using pool_invD(4) [OF w(2)] by (simp add: ht.tracks_def)
      from ht.delete_law [OF this, of a] tag_lookup(1) [OF w(2) iw wf(2)] k show ?thesis by (simp add: h_def a_def)
    qed
    have "page_view (w, t) a = dev_block t (key a)"
      using tag_lookup(2) [OF w(2) iw wf(2)] pool_invD(7) [OF w(2) iw] wf by (simp add: page_view_def a_def [symmetric] buf_ok_def)
    then show ?thesis using law by (auto simp: page_view_def q Let_def)
  qed
  show thesis by (rule that [OF res inv_q]) (use q(2) wf(1) view w(3) in simp_all)
qed

lemma for_buffers_rule:
  assumes "\<And>i ps. I ps \<Longrightarrow> i \<in> set is \<Longrightarrow> cond (descs (fst ps) ! i) \<Longrightarrow> \<exists>ps'. f i ps = (Inr (), ps') \<and> I ps'"
    and "I ps"
  shows "\<exists>ps'. for_buffers cond f is ps = (Inr (), ps') \<and> I ps'"
  using assms
proof (induction "is" arbitrary: ps)
  case (Cons i "is")
  show ?case
  proof (cases "cond (descs (fst ps) ! i)")
    case True
    with Cons.prems(1) [OF Cons.prems(2), of i] obtain qs where qs: "f i ps = (Inr (), qs)" "I qs" by auto
    have "\<exists>ps'. for_buffers cond f is qs = (Inr (), ps') \<and> I ps'"
      by (rule Cons.IH [OF _ qs(2)], rule Cons.prems(1)) simp_all
    with True qs(1) show ?thesis by simp
  qed (use Cons in auto)
qed simp

text \<open>What the operations that write back or drop pages keep.\<close>

definition keeps :: "Oid \<Rightarrow> BufferTag set \<Rightarrow> nat \<Rightarrow> PoolState \<Rightarrow> PoolState \<Rightarrow> bool" where
  "keeps spc U n ps ps' \<longleftrightarrow> pool_inv spc U n ps' \<and> n_buffers (fst ps') = n_buffers (fst ps) \<and> (\<forall>k\<in>U. page_view ps' k = page_view ps k)"

lemma keeps_refl: "pool_inv spc U n ps \<Longrightarrow> keeps spc U n ps ps"
  by (simp add: keeps_def)

lemma flush_keeps:
  assumes "keeps spc U n ps (p, s)" "i < n_buffers p"
  obtains q t where "pool_FlushBuffer (int i) False (p, s) = (Inr (), (q, t))" "keeps spc U n ps (q, t)"
    "q = (if IsDirty (descs p ! i) then upd_desc i ClearDirty p else p)"
proof -
  have inv: "pool_inv spc U n (p, s)" using assms(1) by (simp add: keeps_def)
  obtain q t where q: "pool_FlushBuffer (int i) False (p, s) = (Inr (), (q, t))" "pool_inv spc U n (q, t)"
      "\<And>k. k \<in> U \<Longrightarrow> page_view (q, t) k = page_view (p, s) k" "q = (if IsDirty (descs p ! i) then upd_desc i ClearDirty p else p)"
    using flush_spec [OF inv assms(2)] by metis
  moreover have "n_buffers q = n_buffers p" using q(4) by auto
  ultimately have "keeps spc U n ps (q, t)" using assms(1) by (simp add: keeps_def)
  with q that show thesis by blast
qed

lemma flush_buffers_keeps:
  assumes "pool_inv spc U n ps"
  shows "\<exists>ps'. flush_buffers cond ps = (Inr (), ps') \<and> keeps spc U n ps ps'"
  unfolding flush_buffers_def
proof (rule for_buffers_rule)
  fix i and qs :: PoolState
  assume a: "keeps spc U n ps qs" "i \<in> set [0..<n_buffers (fst ps)]" "cond (descs (fst qs) ! i)"
  obtain q t where qs: "qs = (q, t)" by (cases qs)
  have "i < n_buffers q" using a(1,2) by (simp add: keeps_def qs)
  with a(1) show "\<exists>ps'. pool_FlushBuffer (int i) False qs = (Inr (), ps') \<and> keeps spc U n ps ps'"
    unfolding qs using flush_keeps by metis
qed (rule keeps_refl [OF assms])

lemma drop_buffers_keeps:
  assumes "pool_inv spc U n ps" "\<And>d. cond d \<Longrightarrow> IsTagged d \<and> \<not> refcount d > 0"
  shows "\<exists>ps'. drop_buffers cond ps = (Inr (), ps') \<and> keeps spc U n ps ps'"
  unfolding drop_buffers_def
proof (rule for_buffers_rule)
  fix i and qs :: PoolState
  assume a: "keeps spc U n ps qs" "i \<in> set [0..<n_buffers (fst ps)]" "cond (descs (fst qs) ! i)"
  obtain q t where qs: "qs = (q, t)" by (cases qs)
  have inv: "pool_inv spc U n (q, t)" and i: "i < n_buffers q" using a(1,2) by (simp_all add: keeps_def qs)
  have "IsTagged (descs q ! i)" "refcount (descs q ! i) = 0"
    using assms(2) [OF a(3)] pool_invD(7) [OF inv i] by (auto simp: qs buf_ok_def)
  from Invalidate_spec [OF inv i this] a(1)
  show "\<exists>ps'. InvalidateBuffer (int i) qs = (Inr (), ps') \<and> keeps spc U n ps ps'"
    unfolding qs keeps_def by (metis fst_conv)
qed (rule keeps_refl [OF assms(1)])

lemma flush_dirty_loop_keeps:
  assumes "keeps spc U n ps qs" "set is \<subseteq> {..<n_buffers (fst ps)}"
  shows "\<exists>c ps'. flush_dirty_loop m is flushed qs = (Inr c, ps') \<and> keeps spc U n ps ps'"
  using assms
proof (induction "is" arbitrary: flushed qs)
  case (Cons i "is")
  obtain p s where qs: "qs = (p, s)" by (cases qs)
  have "i < n_buffers p" using Cons.prems by (simp add: keeps_def qs)
  then obtain q t where "pool_FlushBuffer (int i) False (p, s) = (Inr (), (q, t))" "keeps spc U n ps (q, t)"
    using flush_keeps [of spc U n ps p s i] Cons.prems(1) unfolding qs by metis
  then show ?case using Cons by (auto simp: Let_def qs)
qed auto

lemma flush_all_clean:
  assumes "pool_inv spc U n (p, s)"
  obtains q t where "FlushAllDirtyBuffers (p, s) = (Inr (), (q, t))" "keeps spc U n (p, s) (q, t)" "\<And>i. i < n_buffers q \<Longrightarrow> \<not> IsDirty (descs q ! i)"
proof -
  define C where "C = (\<lambda>d. IsDirty d \<and> IsValid d)"
  have step: "\<exists>qs'. for_buffers C (\<lambda>i. pool_FlushBuffer (int i) False) is qs = (Inr (), qs') \<and> keeps spc U n (p, s) qs' \<and>
      (\<forall>i<n_buffers p. IsDirty (descs (fst qs') ! i) \<longrightarrow> IsDirty (descs (fst qs) ! i) \<and> i \<notin> set is)"
    if "keeps spc U n (p, s) qs" "set is \<subseteq> {..<n_buffers p}" for "is" qs
    using that
  proof (induction "is" arbitrary: qs)
    case (Cons i "is")
    obtain q t where qs: "qs = (q, t)" by (cases qs)
    have inv: "pool_inv spc U n (q, t)" and i: "i < n_buffers q" "n_buffers q = n_buffers p" using Cons.prems by (simp_all add: keeps_def qs)
    obtain w u where w: "pool_FlushBuffer (int i) False (q, t) = (Inr (), (w, u))" "keeps spc U n (p, s) (w, u)"
        "w = (if IsDirty (descs q ! i) then upd_desc i ClearDirty q else q)"
      using flush_keeps [OF _ i(1)] Cons.prems(1) unfolding qs by metis
    show ?case
    proof (cases "IsDirty (descs q ! i)")
      case True
      then have C: "C (descs q ! i)" using pool_invD(7) [OF inv i(1)] by (auto simp: C_def buf_ok_def)
      have "IsDirty (descs w ! j) \<longleftrightarrow> IsDirty (descs q ! j) \<and> j \<noteq> i" if "j < n_buffers p" for j
        using that i True by (auto simp: w(3))
      with Cons.IH [OF w(2)] Cons.prems(2) C w(1) show ?thesis by (auto simp: qs)
    next
      case False
      then have "\<not> C (descs q ! i)" by (simp add: C_def)
      with Cons.IH [OF Cons.prems(1)] Cons.prems(2) False show ?thesis by (auto simp: qs)
    qed
  qed auto
  from step [OF keeps_refl [OF assms], of "[0..<n_buffers p]"]
  obtain qs where q: "for_buffers C (\<lambda>i. pool_FlushBuffer (int i) False) [0..<n_buffers p] (p, s) = (Inr (), qs)" "keeps spc U n (p, s) qs"
      "\<forall>i<n_buffers p. \<not> IsDirty (descs (fst qs) ! i)" by fastforce
  obtain w t where qs: "qs = (w, t)" by (cases qs)
  show thesis
    by (rule that [of w t]) (use q in \<open>auto simp: FlushAllDirtyBuffers_def flush_buffers_def C_def qs keeps_def\<close>)
qed

lemma clean_view:
  assumes "pool_inv spc U n (q, t)" "\<And>i. i < n_buffers q \<Longrightarrow> \<not> IsDirty (descs q ! i)" "k \<in> U"
  shows "dev_block t (key k) = page_view (q, t) k"
proof (cases "LookupBuffer (hash_table q) k = 0")
  case False
  obtain i where i: "i < n_buffers q" "IsTagged (descs q ! i)" "btag (descs q ! i) = k" "LookupBuffer (hash_table q) k = int i + 1"
    using lookup_found [OF assms(1,3) False] .
  then show ?thesis using pool_invD(7) [OF assms(1) i(1)] assms(2) [OF i(1)] by (simp add: page_view_def buf_ok_def)
qed (simp add: page_view_def)

subsection \<open>A new pool\<close>

lemma hash_size_loop_spec: "0 < sz \<Longrightarrow> \<exists>m. hash_size_loop sz target = sz * 2 ^ m \<and> target \<le> sz * 2 ^ m"
proof (induction sz target rule: hash_size_loop.induct)
  case (1 sz target)
  show ?case
  proof (cases "sz < target")
    case True
    with 1 obtain m where "hash_size_loop (sz * 2) target = sz * 2 * 2 ^ m" "target \<le> sz * 2 * 2 ^ m" by auto
    then show ?thesis using True 1 by (intro exI [of _ "Suc m"]) (simp add: hash_size_loop.simps [of sz] algebra_simps)
  next
    case False
    then show ?thesis by (intro exI [of _ 0]) (simp add: hash_size_loop.simps [of sz])
  qed
qed

lemma hash_size_pos: "0 < BufferHashTableSize n"
  using hash_size_loop_spec [of 1 "n * 2"] by (auto simp: BufferHashTableSize_def)

lemma InitFreeList_loop:
  fixes p :: BufferPool
  assumes "first_free p = -1" "\<And>i. i < n_buffers p \<Longrightarrow> \<not> IsTagged (descs p ! i)" "k \<le> n_buffers p"
  defines "q \<equiv> fold (\<lambda>i p. (upd_desc i (\<lambda>d. d\<lparr>free_next := first_free p\<rparr>) p)\<lparr>first_free := int i\<rparr>) (rev [k..<n_buffers p]) p"
  shows "n_buffers q = n_buffers p \<and> blocks q = blocks p \<and> hash_table q = hash_table p \<and>
    (\<forall>i<n_buffers p. \<exists>c. descs q ! i = (descs p ! i)\<lparr>free_next := c\<rparr>) \<and> free_chain (descs q) (first_free q) [k..<n_buffers p]"
  using assms(3) unfolding q_def
proof (induction k rule: inc_induct)
  case base
  have "\<exists>c. d = d\<lparr>free_next := c\<rparr>" for d :: BufferDesc by (rule exI [of _ "free_next d"]) simp
  then show ?case using assms(1) by simp
next
  case (step k)
  define w where "w = fold (\<lambda>i p. (upd_desc i (\<lambda>d. d\<lparr>free_next := first_free p\<rparr>) p)\<lparr>first_free := int i\<rparr>) (rev [Suc k..<n_buffers p]) p"
  define v where "v = (upd_desc k (\<lambda>d. d\<lparr>free_next := first_free w\<rparr>) w)\<lparr>first_free := int k\<rparr>"
  have v: "fold (\<lambda>i p. (upd_desc i (\<lambda>d. d\<lparr>free_next := first_free p\<rparr>) p)\<lparr>first_free := int i\<rparr>) (rev [k..<n_buffers p]) p = v"
    using step.hyps by (simp add: upt_conv_Cons v_def w_def)
  have w: "n_buffers w = n_buffers p" "blocks w = blocks p" "hash_table w = hash_table p"
      "\<forall>i<n_buffers p. \<exists>c. descs w ! i = (descs p ! i)\<lparr>free_next := c\<rparr>" "free_chain (descs w) (first_free w) [Suc k..<n_buffers p]"
    using step.IH unfolding w_def [symmetric] by blast+
  have dv: "descs v ! i = (if i = k then (descs w ! k)\<lparr>free_next := first_free w\<rparr> else descs w ! i)" if "i < n_buffers p" for i
    using that w(1) by (simp add: v_def upd_desc_def n_buffers_def)
  have "\<exists>c. descs v ! i = (descs p ! i)\<lparr>free_next := c\<rparr>" if i: "i < n_buffers p" for i
  proof -
    obtain c where "descs w ! i = (descs p ! i)\<lparr>free_next := c\<rparr>" using w(4) i by blast
    then show ?thesis using dv [OF i] by (cases "i = k") auto
  qed
  moreover have "free_chain (descs v) (first_free w) [Suc k..<n_buffers p]"
    using w(1,5) dv by (subst free_chain_cong [where ds = "descs w"]) (auto simp: v_def upd_desc_def n_buffers_def)
  moreover have "\<not> IsTagged (descs w ! k)"
  proof -
    obtain c where "descs w ! k = (descs p ! k)\<lparr>free_next := c\<rparr>" using w(4) step.hyps by blast
    then show ?thesis using assms(2) [of k] step.hyps by simp
  qed
  ultimately show ?case unfolding v
    using w step.hyps dv [of k] by (simp add: upt_conv_Cons) (simp add: v_def n_buffers_def upd_desc_def)
qed

lemma BufferPool_init_spec:
  "n_buffers (BufferPool_init n) = n" "blocks (BufferPool_init n) = replicate n (replicate kBlckSz 0)"
  "hash_table (BufferPool_init n) = replicate (BufferHashTableSize n) empty_entry"
  "i < n \<Longrightarrow> btag (descs (BufferPool_init n) ! i) = no_tag \<and> bstate (descs (BufferPool_init n) ! i) = 0 \<and> refcount (descs (BufferPool_init n) ! i) = 0"
  "free_chain (descs (BufferPool_init n)) (first_free (BufferPool_init n)) [0..<n]"
proof -
  define p where "p = \<lparr>descs = map (\<lambda>i. \<lparr>btag = no_tag, buf_id = int i, bstate = 0, refcount = 0, usage_count = 0, free_next = -1\<rparr>) [0..<n],
     blocks = replicate n (replicate kBlckSz 0), clock_hand = 0, first_free = -1,
     hash_table = replicate (BufferHashTableSize n) empty_entry\<rparr>"
  have p: "n_buffers p = n" "first_free p = -1" "p\<lparr>first_free := -1\<rparr> = p" by (simp_all add: p_def n_buffers_def)
  have "\<not> IsTagged (descs p ! i)" if "i < n_buffers p" for i using that by (simp add: p_def n_buffers_def IsTagged_def)
  note loop = InitFreeList_loop [OF p(2) this le0]
  have init: "BufferPool_init n = fold (\<lambda>i p. (upd_desc i (\<lambda>d. d\<lparr>free_next := first_free p\<rparr>) p)\<lparr>first_free := int i\<rparr>) (rev [0..<n_buffers p]) p"
    unfolding BufferPool_init_def p_def [symmetric] InitFreeList_def p(3) ..
  have L: "n_buffers (BufferPool_init n) = n_buffers p" "blocks (BufferPool_init n) = blocks p" "hash_table (BufferPool_init n) = hash_table p"
      "\<forall>i<n_buffers p. \<exists>c. descs (BufferPool_init n) ! i = (descs p ! i)\<lparr>free_next := c\<rparr>"
      "free_chain (descs (BufferPool_init n)) (first_free (BufferPool_init n)) [0..<n_buffers p]"
    using loop unfolding init [symmetric] by blast+
  show "n_buffers (BufferPool_init n) = n" "blocks (BufferPool_init n) = replicate n (replicate kBlckSz 0)"
    "hash_table (BufferPool_init n) = replicate (BufferHashTableSize n) empty_entry"
    "free_chain (descs (BufferPool_init n)) (first_free (BufferPool_init n)) [0..<n]"
    using L(1-3,5) by (simp_all only: p(1)) (simp_all add: p_def)
  assume i: "i < n"
  then obtain c where "descs (BufferPool_init n) ! i = (descs p ! i)\<lparr>free_next := c\<rparr>" using L(4) p(1) by blast
  then show "btag (descs (BufferPool_init n) ! i) = no_tag \<and> bstate (descs (BufferPool_init n) ! i) = 0 \<and> refcount (descs (BufferPool_init n) ! i) = 0"
    using i by (simp add: p_def)
qed

text \<open>A set of pages that the pool can hold: they exist, and their slots in the table of a pool of \<open>n\<close> buffers differ.\<close>

definition pages_ok :: "Oid \<Rightarrow> BufferTag set \<Rightarrow> nat \<Rightarrow> SmgrState \<Rightarrow> bool" where
  "pages_ok spc U n s \<longleftrightarrow> inj_on (\<lambda>t. unat (BufferTagHash t) mod BufferHashTableSize n) U \<and>
    (\<forall>t\<in>U. tag_block t \<noteq> kInvalidBlockNumber \<and> dev_key spc (key t) \<and> dev_block s (key t) \<noteq> None)"

lemma pool_inv_init:
  assumes "0 < n" "fds_ok s" "pages_ok spc U n s"
  shows "pool_inv spc U (BufferHashTableSize n) (BufferPool_init n, s)" "k \<in> U \<Longrightarrow> page_view (BufferPool_init n, s) k = dev_block s (key k)"
proof -
  define N where "N = BufferHashTableSize n"
  have tab: "table_ok U N (replicate N empty_entry)"
    using assms(3) hash_size_pos [of n] by (auto simp: table_ok_def pages_ok_def N_def)
  have N: "0 < N" using hash_size_pos by (simp add: N_def)
  have look: "LookupBuffer (replicate N empty_entry) k = 0" if "k \<in> U" for k
    using LookupBuffer_slot [OF tab that] N by (simp add: HashTableSlot_def)
  have untagged: "\<not> IsTagged (descs (BufferPool_init n) ! i)" "\<not> IsDirty (descs (BufferPool_init n) ! i)" if "i < n" for i
    using BufferPool_init_spec(4) [OF that] by (simp_all add: IsTagged_def IsDirty_def)
  have "map tag_of (descs (BufferPool_init n)) = replicate n None"
    using untagged BufferPool_init_spec(1) [of n] by (intro nth_equalityI) (auto simp: tag_of_def n_buffers_def)
  then have "ht.tracks U N (replicate N empty_entry) (map tag_of (descs (BufferPool_init n)))"
    using tab look by (simp add: ht.tracks_def)
  then show "pool_inv spc U (BufferHashTableSize n) (BufferPool_init n, s)"
    using assms untagged BufferPool_init_spec [of n] BufferPool_init_spec(4) [of _ n]
    by (auto simp: pool_inv_def N_def [symmetric] pages_ok_def buf_ok_def free_ok_def)
  show "page_view (BufferPool_init n, s) k = dev_block s (key k)" if "k \<in> U"
    using look [OF that] by (simp add: page_view_def BufferPool_init_spec N_def)
qed

subsection \<open>Runs\<close>

text \<open>
  The steps of the clients of a pool, with the pages as the clients see them as the second component: only an
  update of a pinned page changes it.
\<close>

definition reln_of :: "BufferTag \<Rightarrow> RelFileNodeBackend" where
  "reln_of k = \<lparr>rnb_node = tag_rnode k, rnb_backend = 0\<rparr>"

inductive buf_step :: "BufferTag set \<Rightarrow> PoolState \<times> (BufferTag \<Rightarrow> u8 list option) \<Rightarrow> PoolState \<times> (BufferTag \<Rightarrow> u8 list option) \<Rightarrow> bool" for U where
  read: "k \<in> U \<Longrightarrow> pool_ReadBuffer (reln_of k) (tag_fork k) (tag_block k) RBM_kNormal (p, smgropen (reln_of k) s) = (y, ps') \<Longrightarrow>
    buf_step U ((p, s), m) (ps', m)"
| release: "buf_step U ((p, s), m) ((UnpinBuffer b p, s), m)"
| update: "i < n_buffers p \<Longrightarrow> refcount (descs p ! i) > 0 \<Longrightarrow> length d = kBlckSz \<Longrightarrow>
    buf_step U ((p, s), m) ((update_page (int i + 1) d p, s), m(btag (descs p ! i) := Some d))"
| flush: "pool_FlushBuffer b False (p, s) = (y, ps') \<Longrightarrow> buf_step U ((p, s), m) (ps', m)"
| flush_some: "flush_buffers cond (p, s) = (y, ps') \<Longrightarrow> buf_step U ((p, s), m) (ps', m)"
| bgwriter: "FlushDirtyBuffers c (p, s) = (z, ps') \<Longrightarrow> buf_step U ((p, s), m) (ps', m)"
| drop: "drop_buffers (\<lambda>d. IsTagged d \<and> cond d \<and> \<not> refcount d > 0) (p, s) = (y, ps') \<Longrightarrow> buf_step U ((p, s), m) (ps', m)"

definition run_ok :: "Oid \<Rightarrow> BufferTag set \<Rightarrow> nat \<Rightarrow> PoolState \<times> (BufferTag \<Rightarrow> u8 list option) \<Rightarrow> bool" where
  "run_ok spc U n x \<longleftrightarrow> pool_inv spc U n (fst x) \<and> (\<forall>k\<in>U. page_view (fst x) k = snd x k)"

lemma run_ok_keeps: "run_ok spc U n (ps, m) \<Longrightarrow> keeps spc U n ps ps' \<Longrightarrow> run_ok spc U n (ps', m)"
  by (simp add: run_ok_def keeps_def)

lemma run_ok_open:
  assumes "pool_inv spc U n (p, s)"
  shows "pool_inv spc U n (p, smgropen r s)" "page_view (p, smgropen r s) k = page_view (p, s) k"
proof -
  have "dev_block (smgropen r s) = dev_block s" by (intro ext) (simp add: dev_block_def smgropen_spec split: prod.split)
  then show "pool_inv spc U n (p, smgropen r s)" "page_view (p, smgropen r s) k = page_view (p, s) k"
    using assms fds_ok_smgropen [of s r] by (simp_all add: pool_inv_def buf_ok_def page_view_def Let_def)
qed

lemma read_step:
  assumes "pool_inv spc U n (p, s)" "k \<in> U"
  obtains y q t where "pool_ReadBuffer (reln_of k) (tag_fork k) (tag_block k) RBM_kNormal (p, smgropen (reln_of k) s) = (y, (q, t))"
    "pool_inv spc U n (q, t)" "\<And>j. j \<in> U \<Longrightarrow> page_view (q, t) j = page_view (p, s) j"
    "(y = Inl (Ereport ''no buffer available in buffer pool (all pinned)'') \<and> LookupBuffer (hash_table p) k = 0 \<and> fst (FindVictimBuffer p) < 0) \<or>
      (\<exists>i<n_buffers q. y = Inr (int i + 1) \<and> refcount (descs q ! i) > 0 \<and> btag (descs q ! i) = k \<and> Some (blocks q ! i) = page_view (p, s) k)"
proof -
  have k: "k = \<lparr>tag_rnode = rnb_node (reln_of k), tag_fork = tag_fork k, tag_block = tag_block k\<rparr>" by (simp add: reln_of_def)
  have r: "is_open (reln_of k) (smgropen (reln_of k) s)" "rnb_backend (reln_of k) = 0" by (simp_all add: smgropen_spec reln_of_def)
  show thesis
    by (rule ReadBuffer_spec [OF run_ok_open(1) [OF assms(1)] assms(2) k r], rule that)
      (simp_all only: run_ok_open(2) [OF assms(1)])
qed

lemma buf_step_ok:
  assumes "buf_step U x x'" "run_ok spc U n x"
  shows "run_ok spc U n x'"
  using assms
proof (cases rule: buf_step.cases)
  case (read k p s y ps' m)
  have inv: "pool_inv spc U n (p, s)" using assms(2) read by (simp add: run_ok_def)
  obtain z q t where "pool_ReadBuffer (reln_of k) (tag_fork k) (tag_block k) RBM_kNormal (p, smgropen (reln_of k) s) = (z, (q, t))"
    "pool_inv spc U n (q, t)" "\<And>j. j \<in> U \<Longrightarrow> page_view (q, t) j = page_view (p, s) j"
    using read_step [OF inv read(3)] by metis
  then show ?thesis using read assms(2) by (simp add: run_ok_def)
next
  case (release p s m b)
  then show ?thesis using assms(2) unpin_spec [of spc U n p s b] by (simp add: run_ok_def)
next
  case (update i p d s m)
  then have inv: "pool_inv spc U n (p, s)" using assms(2) by (simp add: run_ok_def)
  then show ?thesis using update assms(2) update_spec [OF inv update(3-5)] by (simp add: run_ok_def)
next
  case (flush b p s y ps' m)
  then have inv: "pool_inv spc U n (p, s)" using assms(2) by (simp add: run_ok_def)
  show ?thesis
  proof (cases "in_range b p")
    case True
    then have b: "nat b < n_buffers p" "int (nat b) = b" using in_rangeD by auto
    obtain q t where "pool_FlushBuffer (int (nat b)) False (p, s) = (Inr (), (q, t))" "keeps spc U n (p, s) (q, t)"
      using flush_keeps [OF keeps_refl [OF inv] b(1)] by metis
    then show ?thesis using flush(1-3) assms(2) run_ok_keeps [of spc U n "(p, s)" m "(q, t)"] b(2) by simp
  next
    case False
    then show ?thesis using flush assms(2) by (simp add: pool_FlushBuffer_def)
  qed
next
  case (flush_some cond p s y ps' m)
  then have inv: "pool_inv spc U n (p, s)" using assms(2) by (simp add: run_ok_def)
  obtain qs where "flush_buffers cond (p, s) = (Inr (), qs)" "keeps spc U n (p, s) qs" using flush_buffers_keeps [OF inv] by blast
  then show ?thesis using flush_some(1,2,3) assms(2) run_ok_keeps [of spc U n "(p, s)" m qs] by simp
next
  case (bgwriter c p s z ps' m)
  then have inv: "pool_inv spc U n (p, s)" using assms(2) by (simp add: run_ok_def)
  have "set [0..<n_buffers p] \<subseteq> {..<n_buffers (fst (p, s))}" by auto
  from flush_dirty_loop_keeps [OF keeps_refl [OF inv] this]
  obtain d qs where "flush_dirty_loop (nat c) [0..<n_buffers p] 0 (p, s) = (Inr d, qs)" "keeps spc U n (p, s) qs" by blast
  then have "keeps spc U n (p, s) ps'" using bgwriter(3) keeps_refl [OF inv] by (cases "c \<le> 0") (simp_all add: FlushDirtyBuffers_def)
  then show ?thesis using bgwriter(1,2) assms(2) run_ok_keeps [of spc U n "(p, s)" m ps'] by simp
next
  case (drop cond p s y ps' m)
  then have inv: "pool_inv spc U n (p, s)" using assms(2) by (simp add: run_ok_def)
  obtain qs where "drop_buffers (\<lambda>d. IsTagged d \<and> cond d \<and> \<not> refcount d > 0) (p, s) = (Inr (), qs)" "keeps spc U n (p, s) qs"
    using drop_buffers_keeps [OF inv, of "\<lambda>d. IsTagged d \<and> cond d \<and> \<not> refcount d > 0"] by blast
  then show ?thesis using drop(1,2,3) assms(2) run_ok_keeps [of spc U n "(p, s)" m qs] by simp
qed

lemma buf_run_ok: "(buf_step U)\<^sup>*\<^sup>* x x' \<Longrightarrow> run_ok spc U n x \<Longrightarrow> run_ok spc U n x'"
  by (induction rule: rtranclp_induct) (auto intro: buf_step_ok)

subsection \<open>Properties\<close>

text \<open>
  C2: The pool is transparent. Start with an empty pool over any files, and let the clients read, pin, release,
  update, flush and drop pages of a set \<open>U\<close> in any order; pages are evicted and written back as the
  pool needs. Then a read of a page of \<open>U\<close> returns a pinned buffer with the tag and the last content of the page, or
  fails because there is no victim, and flushing all buffers makes the disk hold the last content of every page. The
  slots of the pages of \<open>U\<close> in the hash table have to differ.
\<close>

theorem buffer_pool_transparent:
  assumes "0 < n" "fds_ok s0" "pages_ok spc U n s0"
    and run: "(buf_step U)\<^sup>*\<^sup>* ((BufferPool_init n, s0), \<lambda>k. dev_block s0 (key k)) ((p, s), m)" and "k \<in> U"
  shows "(\<exists>y q t. pool_ReadBuffer (reln_of k) (tag_fork k) (tag_block k) RBM_kNormal (p, smgropen (reln_of k) s) = (y, (q, t)) \<and>
      (case y of
        Inl e \<Rightarrow> e = Ereport ''no buffer available in buffer pool (all pinned)'' \<and> fst (FindVictimBuffer p) < 0
      | Inr b \<Rightarrow> \<exists>x. GetBufferPage q b = Inr x \<and> m k = Some x \<and>
          BufferIsPinned b \<lparr>g_buffer_pool = Some q, smgr = t\<rparr> \<and> BufferGetTag b \<lparr>g_buffer_pool = Some q, smgr = t\<rparr> = Some k)) \<and>
    (\<exists>q t. FlushAllDirtyBuffers (p, s) = (Inr (), (q, t)) \<and> (\<forall>j\<in>U. dev_block t (key j) = m j))"
proof
  define N where "N = BufferHashTableSize n"
  have "run_ok spc U N ((BufferPool_init n, s0), \<lambda>k. dev_block s0 (key k))"
    using pool_inv_init [OF assms(1-3)] by (simp add: run_ok_def N_def)
  from buf_run_ok [OF run this] have ok: "pool_inv spc U N (p, s)" "\<And>j. j \<in> U \<Longrightarrow> page_view (p, s) j = m j"
    by (simp_all add: run_ok_def)
  obtain y q t where r: "pool_ReadBuffer (reln_of k) (tag_fork k) (tag_block k) RBM_kNormal (p, smgropen (reln_of k) s) = (y, (q, t))"
      "(y = Inl (Ereport ''no buffer available in buffer pool (all pinned)'') \<and> LookupBuffer (hash_table p) k = 0 \<and> fst (FindVictimBuffer p) < 0) \<or>
        (\<exists>i<n_buffers q. y = Inr (int i + 1) \<and> refcount (descs q ! i) > 0 \<and> btag (descs q ! i) = k \<and> Some (blocks q ! i) = page_view (p, s) k)"
    by (rule read_step [OF ok(1) assms(5)])
  have "case y of
        Inl e \<Rightarrow> e = Ereport ''no buffer available in buffer pool (all pinned)'' \<and> fst (FindVictimBuffer p) < 0
      | Inr b \<Rightarrow> \<exists>x. GetBufferPage q b = Inr x \<and> m k = Some x \<and>
          BufferIsPinned b \<lparr>g_buffer_pool = Some q, smgr = t\<rparr> \<and> BufferGetTag b \<lparr>g_buffer_pool = Some q, smgr = t\<rparr> = Some k"
    using r(2)
  proof
    assume "\<exists>i<n_buffers q. y = Inr (int i + 1) \<and> refcount (descs q ! i) > 0 \<and> btag (descs q ! i) = k \<and> Some (blocks q ! i) = page_view (p, s) k"
    then obtain i where i: "i < n_buffers q" "y = Inr (int i + 1)" "refcount (descs q ! i) > 0" "btag (descs q ! i) = k"
        "Some (blocks q ! i) = m k" using ok(2) [OF assms(5)] by auto
    then show ?thesis
      by (auto simp: GetBufferPage_def GetBufferDesc_def BufferIsPinned_def BufferGetTag_def)
  qed simp
  with r(1) show "\<exists>y q t. pool_ReadBuffer (reln_of k) (tag_fork k) (tag_block k) RBM_kNormal (p, smgropen (reln_of k) s) = (y, (q, t)) \<and>
      (case y of
        Inl e \<Rightarrow> e = Ereport ''no buffer available in buffer pool (all pinned)'' \<and> fst (FindVictimBuffer p) < 0
      | Inr b \<Rightarrow> \<exists>x. GetBufferPage q b = Inr x \<and> m k = Some x \<and>
          BufferIsPinned b \<lparr>g_buffer_pool = Some q, smgr = t\<rparr> \<and> BufferGetTag b \<lparr>g_buffer_pool = Some q, smgr = t\<rparr> = Some k)" by blast
  obtain w u where w: "FlushAllDirtyBuffers (p, s) = (Inr (), (w, u))" "keeps spc U N (p, s) (w, u)" "\<And>i. i < n_buffers w \<Longrightarrow> \<not> IsDirty (descs w ! i)"
    using flush_all_clean [OF ok(1)] by metis
  have "dev_block u (key j) = m j" if "j \<in> U" for j
    using clean_view [of spc U N w u j] w(2,3) ok(2) that by (simp add: keeps_def)
  with w(1) show "\<exists>q t. FlushAllDirtyBuffers (p, s) = (Inr (), (q, t)) \<and> (\<forall>j\<in>U. dev_block t (key j) = m j)" by blast
qed

definition buf_ex_tag :: "BlockNumber \<Rightarrow> BufferTag" where
  "buf_ex_tag b = \<lparr>tag_rnode = rnb_node smgr_ex_rel, tag_fork = FN_kMain, tag_block = b\<rparr>"

lemma buf_ex_block: "unat b < 2 \<Longrightarrow> dev_block smgr_ex (key (buf_ex_tag b)) = Some (replicate 8192 0)"
  using smgr_ex_blocks(2) [of b] by (simp add: dev_block_def key_def buf_ex_tag_def smgr_ex_rel_def)

lemma buf_ex_key: "dev_key 0 (key (buf_ex_tag b))"
  by (simp add: dev_key_def key_def buf_ex_tag_def smgr_ex_rel_def)

lemma buf_ex_read:
  obtains e t where "smgrread smgr_ex_rel FN_kMain b smgr_ex = (if unat b < 2 then Inr (replicate 8192 0) else Inl e, t)"
proof -
  have n: "FN_kMain \<noteq> FN_kInvalid" by simp
  obtain e t where t: "mdread smgr_ex_rel FN_kMain b smgr_ex = (case disk_block smgr_ex smgr_ex_rel FN_kMain b of Some x \<Rightarrow> Inr x | None \<Rightarrow> Inl e, t)"
    using mdread_spec [OF smgr_ex_ok(1,2) n, of b] by metis
  show thesis by (rule that [of e t]) (simp add: smgrread_def t smgr_ex_blocks(2))
qed

theorem buffer_pool_transparent_witness:
  "\<exists>q t. FlushAllDirtyBuffers (BufferPool_init 2, smgr_ex) = (Inr (), (q, t)) \<and> dev_block t (key (buf_ex_tag 1)) = Some (replicate 8192 0)"
proof -
  have "pages_ok 0 {buf_ex_tag 1} 2 smgr_ex"
    using buf_ex_key by (simp add: pages_ok_def buf_ex_block) (simp add: buf_ex_tag_def kInvalidBlockNumber_def)
  from conjunct2 [OF buffer_pool_transparent [OF _ smgr_ex_ok(1) this rtranclp.rtrancl_refl, of "buf_ex_tag 1"]]
  show ?thesis by (simp add: buf_ex_block)
qed

text \<open>
  C18: The clock sweep. With an empty free list \<open>FindVictimBuffer\<close> returns an unpinned buffer, or \<open>-1\<close> exactly if the
  usage count of every unpinned buffer is at least two: the sweep passes each buffer twice, while the usage count goes up
  to five.
\<close>

theorem clock_sweep_exact:
  assumes "0 < n_buffers p" "first_free p < 0" "\<And>b. b < n_buffers p \<Longrightarrow> 0 \<le> usage_count (descs p ! b)"
  shows "(fst (FindVictimBuffer p) = -1 \<longleftrightarrow> (\<forall>b<n_buffers p. refcount (descs p ! b) = 0 \<longrightarrow> 2 \<le> usage_count (descs p ! b))) \<and>
    (fst (FindVictimBuffer p) = -1 \<or> (\<exists>b<n_buffers p. fst (FindVictimBuffer p) = int b \<and> refcount (descs p ! b) = 0))"
proof
  have eq: "FindVictimBuffer p = clock_sweep (clock_hand p) [0..<n_buffers p * 2] p" using assms(2) by (simp add: FindVictimBuffer_def)
  show "fst (FindVictimBuffer p) = -1 \<longleftrightarrow> (\<forall>b<n_buffers p. refcount (descs p ! b) = 0 \<longrightarrow> 2 \<le> usage_count (descs p ! b))"
    unfolding eq using clock_sweep_none [OF assms(1,3), of "clock_hand p" "[0..<n_buffers p * 2]"] by (simp add: visits_sweep)
  show "fst (FindVictimBuffer p) = -1 \<or> (\<exists>b<n_buffers p. fst (FindVictimBuffer p) = int b \<and> refcount (descs p ! b) = 0)"
    unfolding eq using clock_sweep_swept [OF assms(1)] by blast
qed

definition sweep_ex :: BufferPool where
  "sweep_ex = \<lparr>descs = [\<lparr>btag = no_tag, buf_id = 0, bstate = 7, refcount = 0, usage_count = 2, free_next = -1\<rparr>],
    blocks = [[]], clock_hand = 0, first_free = -1, hash_table = []\<rparr>"

theorem clock_sweep_exact_witness: "fst (FindVictimBuffer sweep_ex) = -1 \<and> refcount (descs sweep_ex ! 0) = 0"
  using clock_sweep_exact [of sweep_ex] by (simp add: sweep_ex_def n_buffers_def)

text \<open>
  C40: Colliding pages. If the tags \<open>a\<close> and \<open>b\<close> have the same slot, \<open>b\<close> is stored in the next one. Removing \<open>a\<close> empties the
  slot, and a lookup of \<open>b\<close> stops there: the page of \<open>b\<close>, which is pinned and dirty in the second buffer, is read again from disk
  into the first buffer, and the caller gets the old content.
\<close>

theorem collision_loses_update:
  assumes "a \<noteq> b" "tag_block a \<noteq> kInvalidBlockNumber" "tag_block b \<noteq> kInvalidBlockNumber" "2 \<le> N"
    and slot: "unat (BufferTagHash a) mod N = unat (BufferTagHash b) mod N"
    and h: "HashTableInsert a 0 (replicate N empty_entry) = Inr h1" "HashTableInsert b 1 h1 = Inr h"
    and p: "p = \<lparr>descs = [\<lparr>btag = a, buf_id = 0, bstate = 6, refcount = 0, usage_count = 1, free_next = -1\<rparr>,
        \<lparr>btag = b, buf_id = 1, bstate = 7, refcount = 1, usage_count = 1, free_next = -1\<rparr>],
      blocks = [x, d], clock_hand = 0, first_free = -1, hash_table = h\<rparr>"
    and rd: "smgrread (reln_of b) (tag_fork b) (tag_block b) s = (Inr old, t)"
  shows "LookupBuffer (hash_table p) b = 2 \<and>
    (\<exists>p1 p2. InvalidateBuffer 0 (p, s) = (Inr (), (p1, s)) \<and>
      pool_ReadBuffer (reln_of b) (tag_fork b) (tag_block b) RBM_kNormal (p1, s) = (Inr 1, (p2, t)) \<and>
      GetBufferPage p2 1 = Inr old \<and> GetBufferPage p2 2 = Inr d)"
proof
  define i where "i = unat (BufferTagHash b) mod N"
  define j where "j = (i + 1) mod N"
  have ij: "i < N" "j < N" "i \<noteq> j" using assms(4) mod_shift_inject [of i 1 N 0] by (auto simp: i_def j_def)
  have j: "Suc i mod N = j" by (simp add: j_def)
  have sl: "HashTableSlot g a = i" "HashTableSlot g b = i" if "length g = N" for g
    using that slot by (simp_all add: HashTableSlot_def i_def)
  have up: "[0..<N] = 0 # 1 # [2..<N]" using assms(4) by (simp add: upt_conv_Cons numeral_2_eq_2)
  have ne: "\<not> entry_IsEmpty \<lparr>he_tag = a, he_buf_id = c\<rparr>" "\<not> entry_IsEmpty \<lparr>he_tag = b, he_buf_id = c\<rparr>" for c
    using assms(2,3) by (simp_all add: entry_IsEmpty_def)
  have h1: "h1 = (replicate N empty_entry)[i := \<lparr>he_tag = a, he_buf_id = 0\<rparr>]"
    using h(1) ij by (simp add: HashTableInsert_def up sl Let_def)
  have hh: "h = h1[j := \<lparr>he_tag = b, he_buf_id = 1\<rparr>]"
    using h(2) ij ne assms(1) unfolding h1 by (simp add: HashTableInsert_def up sl Let_def j)
  have at: "length h = N" "h ! i = \<lparr>he_tag = a, he_buf_id = 0\<rparr>" "h ! j = \<lparr>he_tag = b, he_buf_id = 1\<rparr>" using ij by (simp_all add: hh h1)
  show "LookupBuffer (hash_table p) b = 2"
    using at ij ne assms(1) by (simp add: p LookupBuffer_def up sl Let_def j)
  have del: "HashTableDelete a h = h[i := empty_entry]" using at ij ne by (simp add: HashTableDelete_def up sl Let_def)
  have look: "LookupBuffer (h[i := empty_entry]) b = 0" using at ij by (simp add: LookupBuffer_def up sl Let_def)
  have ins: "HashTableInsert b 0 (h[i := empty_entry]) = Inr (h[i := \<lparr>he_tag = b, he_buf_id = 0\<rparr>])"
    using at ij by (simp add: HashTableInsert_def up sl Let_def)
  define p1 where "p1 = p\<lparr>descs := [\<lparr>btag = no_tag, buf_id = 0, bstate = 0, refcount = 0, usage_count = 0, free_next = -1\<rparr>, descs p ! 1],
    first_free := 0, hash_table := h[i := empty_entry]\<rparr>"
  have inv: "InvalidateBuffer 0 (p, s) = (Inr (), (p1, s))"
    by (simp add: InvalidateBuffer_def p p1_def in_range_def n_buffers_def Let_def IsDirty_def IsValid_def IsTagged_def
        ClearDirty_def ClearValid_def ClearTagged_def kBMDirty_def kBMValid_def kBMTagged_def upd_desc_def del)
  have tag: "\<lparr>tag_rnode = rnb_node (reln_of b), tag_fork = tag_fork b, tag_block = tag_block b\<rparr> = b" by (simp add: reln_of_def)
  obtain p2 where p2: "pool_ReadBuffer (reln_of b) (tag_fork b) (tag_block b) RBM_kNormal (p1, s) = (Inr 1, (p2, t))" "blocks p2 = [old, d]" "n_buffers p2 = 2"
    using rd look ins
    by (simp add: pool_ReadBuffer_def tag p1_def p FindVictimBuffer_def Let_def upd_desc_def InsertBuffer_def IsDirty_def IsTagged_def set_block_def n_buffers_def)
  show "\<exists>p1 p2. InvalidateBuffer 0 (p, s) = (Inr (), (p1, s)) \<and>
      pool_ReadBuffer (reln_of b) (tag_fork b) (tag_block b) RBM_kNormal (p1, s) = (Inr 1, (p2, t)) \<and>
      GetBufferPage p2 1 = Inr old \<and> GetBufferPage p2 2 = Inr d"
    by (intro exI [of _ p1] exI [of _ p2]) (use inv p2 in \<open>simp add: GetBufferPage_def in_range_def\<close>)
qed

theorem collision_loses_update_witness:
  "\<exists>p p1 p2 t. LookupBuffer (hash_table p) (buf_ex_tag 1) = 2 \<and>
    InvalidateBuffer 0 (p, smgr_ex) = (Inr (), (p1, smgr_ex)) \<and>
    pool_ReadBuffer (reln_of (buf_ex_tag 1)) (tag_fork (buf_ex_tag 1)) (tag_block (buf_ex_tag 1)) RBM_kNormal (p1, smgr_ex) = (Inr 1, (p2, t)) \<and>
    GetBufferPage p2 1 = Inr (replicate 8192 0) \<and> GetBufferPage p2 2 = Inr (replicate 8192 1)"
proof -
  have rel: "reln_of (buf_ex_tag b) = smgr_ex_rel" for b by (simp add: reln_of_def buf_ex_tag_def smgr_ex_rel_def)
  obtain t where rd: "smgrread (reln_of (buf_ex_tag 1)) (tag_fork (buf_ex_tag 1)) (tag_block (buf_ex_tag 1)) smgr_ex = (Inr (replicate 8192 0), t)"
    by (rule buf_ex_read [of 1]) (simp add: rel, simp add: buf_ex_tag_def)
  have slot: "2 \<le> (4 :: nat)" "unat (BufferTagHash (buf_ex_tag 0)) mod 4 = unat (BufferTagHash (buf_ex_tag 1)) mod 4" by code_simp+
  have e: "HashTableInsert (buf_ex_tag 0) 0 (replicate 4 empty_entry) = Inr
      [empty_entry, empty_entry, \<lparr>he_tag = buf_ex_tag 0, he_buf_id = 0\<rparr>, empty_entry]"
    "HashTableInsert (buf_ex_tag 1) 1 [empty_entry, empty_entry, \<lparr>he_tag = buf_ex_tag 0, he_buf_id = 0\<rparr>, empty_entry] = Inr
      [empty_entry, empty_entry, \<lparr>he_tag = buf_ex_tag 0, he_buf_id = 0\<rparr>, \<lparr>he_tag = buf_ex_tag 1, he_buf_id = 1\<rparr>]"
    by code_simp+
  have ne: "buf_ex_tag 0 \<noteq> buf_ex_tag 1" "tag_block (buf_ex_tag 0) \<noteq> kInvalidBlockNumber" "tag_block (buf_ex_tag 1) \<noteq> kInvalidBlockNumber"
    by (simp_all add: buf_ex_tag_def kInvalidBlockNumber_def)
  from collision_loses_update [OF ne slot e refl rd, of "replicate 8192 0" "replicate 8192 1"] show ?thesis by blast
qed

text \<open>
  A failed read: if the page cannot be read, \<open>ReadBuffer\<close> reports the error but leaves the buffer pinned under the tag of the page;
  the next read of the page returns this buffer as a hit, although it holds no valid page.
\<close>

theorem failed_read_becomes_hit:
  assumes "0 < n" "b \<noteq> kInvalidBlockNumber" "smgrread r f b s = (Inl e, t)"
  shows "\<exists>p1 p2. pool_ReadBuffer r f b RBM_kNormal (BufferPool_init n, s) = (Inl e, (p1, t)) \<and>
    pool_ReadBuffer r f b RBM_kNormal (p1, t) = (Inr 1, (p2, t)) \<and> \<not> IsValid (descs p2 ! 0)"
proof -
  define p where "p = BufferPool_init n"
  define N where "N = BufferHashTableSize n"
  define tag where "tag = \<lparr>tag_rnode = rnb_node r, tag_fork = f, tag_block = b\<rparr>"
  define i where "i = HashTableSlot (replicate N empty_entry) tag"
  have N: "0 < N" using hash_size_pos by (simp add: N_def)
  then have i: "i < N" "[0..<N] = 0 # [1..<N]" by (simp_all add: i_def HashTableSlot_def upt_conv_Cons)
  have sl: "HashTableSlot g tag = i" if "length g = N" for g using that by (simp add: HashTableSlot_def i_def)
  have p: "hash_table p = replicate N empty_entry" "n_buffers p = n" "first_free p = 0" "bstate (descs p ! 0) = 0" "length (descs p) = n"
    using BufferPool_init_spec [of n] BufferPool_init_spec(4) [OF assms(1)] assms(1)
    by (simp_all add: p_def N_def n_buffers_def upt_conv_Cons)
  have ne: "\<not> entry_IsEmpty \<lparr>he_tag = tag, he_buf_id = c\<rparr>" for c using assms(2) by (simp add: entry_IsEmpty_def tag_def)
  have look: "LookupBuffer (replicate N empty_entry) tag = 0" using i by (simp add: LookupBuffer_def sl Let_def)
  have ins: "HashTableInsert tag 0 (replicate N empty_entry) = Inr ((replicate N empty_entry)[i := \<lparr>he_tag = tag, he_buf_id = 0\<rparr>])"
    using i by (simp add: HashTableInsert_def sl Let_def)
  have hit: "LookupBuffer ((replicate N empty_entry)[i := \<lparr>he_tag = tag, he_buf_id = 0\<rparr>]) tag = 1"
    using i ne by (simp add: LookupBuffer_def sl Let_def)
  have untagged: "\<not> IsTagged (descs p ! 0)" using p(4) by (simp add: IsTagged_def)
  define q where "q = snd (FindVictimBuffer p)"
  have q: "FindVictimBuffer p = (0, q)" "hash_table q = hash_table p" "length (descs q) = n" "bstate (descs q ! 0) = 0"
    using p assms(1) by (simp_all add: q_def FindVictimBuffer_def Let_def upd_desc_def)
  obtain p1 where p1: "pool_ReadBuffer r f b RBM_kNormal (p, s) = (Inl e, (p1, t))" "length (descs p1) = n"
      "hash_table p1 = (replicate N empty_entry)[i := \<lparr>he_tag = tag, he_buf_id = 0\<rparr>]" "\<not> IsValid (descs p1 ! 0)"
    using q p(1) look ins assms(1,3)
    by (simp add: pool_ReadBuffer_def tag_def [symmetric] Let_def InsertBuffer_def IsTagged_def upd_desc_def set_block_def)
  moreover have "pool_ReadBuffer r f b RBM_kNormal (p1, t) = (Inr 1, (PinBuffer 1 p1, t))"
    using p1(3) hit by (simp add: pool_ReadBuffer_def tag_def [symmetric] Let_def)
  moreover have "\<not> IsValid (descs (PinBuffer 1 p1) ! 0)"
    using p1(2,4) assms(1) by (simp add: PinBuffer_def in_range_def n_buffers_def)
  ultimately show ?thesis unfolding p_def by blast
qed

theorem failed_read_becomes_hit_witness:
  "\<exists>p1 p2 t. pool_ReadBuffer smgr_ex_rel FN_kMain 9 RBM_kNormal (p1, t) = (Inr 1, (p2, t)) \<and> \<not> IsValid (descs p2 ! 0)"
proof -
  obtain e t where rd: "smgrread smgr_ex_rel FN_kMain 9 smgr_ex = (Inl e, t)"
    by (rule buf_ex_read [of 9]) simp
  from failed_read_becomes_hit [of 1, OF _ _ rd] show ?thesis by (auto simp: kInvalidBlockNumber_def)
qed

end
