(* ===== verification/Spec2Isabelle.thy ===== *)
theory Spec2Isabelle
  imports BitmapSets LockManager DeadlockDetector FreeSpaceMap MultiXact LWLocks Visibility BufPage NumericSpec BufMgr
begin

text \<open>
  This development verifies the storage and transaction core of pgcpp, a reimplementation of
  PostgreSQL in C++, together with two self-contained data types, the bitmapset and the numeric type.
  Paths below are relative to the repository: \<open>src/...\<close> for the implementation and
  \<open>include/...\<close> for its headers.

  \<^bold>\<open>The parts and how they interact.\<close>
  A backend runs statements inside transactions (\<open>xact.cpp\<close>). A transaction receives an
  identifier when it first needs one and publishes it in its slot of the shared array of backends
  (\<open>proc.cpp\<close>, \<open>procarray.cpp\<close>); its outcome is recorded in the commit log
  (\<open>transam.cpp\<close>), or the transaction is handed over to the list of prepared transactions
  (\<open>twophase.cpp\<close>). A snapshot (\<open>snapshot.cpp\<close>) is a copy of the running identifiers; the
  visibility checks (\<open>visibility.cpp\<close>) decide from a snapshot and the commit log which row
  versions a statement sees. Row locks that several transactions share are multixacts
  (\<open>multixact.cpp\<close>), stored through the page cache \<open>slru.cpp\<close>. Rows are items on pages
  (\<open>bufpage.cpp\<close>), pages live in the buffer pool (\<open>bufmgr.cpp\<close>, \<open>freelist.cpp\<close>), which
  reads and writes the segment files of the storage manager (\<open>smgr.cpp\<close>, \<open>md.cpp\<close>); the free
  space map (\<open>freespace.cpp\<close>, \<open>fsmpage.cpp\<close>) finds pages with room. Shared memory is
  protected by light-weight locks (\<open>lwlock.cpp\<close>), relations by heavyweight locks
  (\<open>lock.cpp\<close>), whose waits are searched for cycles (two files called \<open>deadlock.cpp\<close>).

  \<^bold>\<open>Conventions.\<close>
  A C++ integer of fixed width is a word of that width where wrap-around matters, else an
  \<^typ>\<open>int\<close> or a \<^typ>\<open>nat\<close>. A function that can leave through \<open>ereport(kError, ...)\<close>
  returns a \<open>result\<close>, with the error on the left. A nullable pointer is an option, a pointer into an
  array is an index, a hash map an association list in iteration order. The static variables and the
  shared memory of a component form a record that its operations take and return. An operation that
  the code runs under one lock is one transition; only the light-weight locks themselves are modelled
  below that granularity. What the operating system makes of a file is a parameter in the commit log,
  the SLRU and the two-phase theory (the functions \<open>wr\<close> and \<open>rd\<close>); properties that rely on files
  keeping their contents are stated for the instance that stores and returns the bytes. The storage
  manager has an explicit file system, a finite map from paths to contents.

  \<^bold>\<open>Theories.\<close>

  \<^item> \<open>PgPrelude\<close>: integer types, results, byte vectors, decimal digits, the identity of a relation
    file, and the shared lemma collections \<open>pg_simps\<close> and \<open>pg_len\<close>.
  \<^item> \<open>BitmapSets\<close> (\<open>src/common/containers/bitmapset.cpp\<close>): word vectors with trimmed tails. Every
    operation is the set operation on the members and keeps the invariant. The locale
    \<open>int_set_adt\<close> is the contract of a set of integers; the class and the pointer functions
    are its two interpretations.
  \<^item> \<open>TransactionIds\<close>, \<open>CommitLog\<close> (\<open>include/transaction/transam.hpp\<close>,
    \<open>src/transaction/transam.cpp\<close>): comparison of identifiers modulo \<open>2 ^ 32\<close>, a linear order
    on each half circle (locale \<open>window_order\<close>); the status array with its cache (locale
    \<open>status_log\<close>), allocation of identifiers, and the two-bit page files, whose flush and reload
    restores every status after any run (\<open>clog_run\<close>).
  \<^item> \<open>Slru\<close> (\<open>src/transaction/slru.cpp\<close>): the least-recently-used page cache is a transparent
    store of pages (locale \<open>paged_store\<close>) as long as it has a directory.
  \<^item> \<open>MultiXact\<close> (\<open>src/transaction/multixact.cpp\<close>): two such caches and a control file implement an
    append-only list of member lists, which survives a flush and a restart.
  \<^item> \<open>LockManager\<close> (\<open>src/transaction/lock.cpp\<close>): conflict matrix and the vector of held locks, a
    refinement of a finite map (locale \<open>lock_table\<close>).
  \<^item> \<open>DeadlockDetector\<close> (\<open>src/transaction/deadlock.cpp\<close>, \<open>src/storage/ipc/deadlock.cpp\<close>): the
    depth-first search reports a deadlock exactly for transactions on a cycle of the wait-for graph
    (locale \<open>wait_for_graph\<close>); the second detector follows single blockers.
  \<^item> \<open>LWLocks\<close> (\<open>src/storage/ipc/lwlock.cpp\<close>): the step relation \<open>lw_step\<close> has one step per atomic
    access of the lock word; mutual exclusion and the meaning of the word hold in every reachable
    state, and a failed round has a cause.
  \<^item> \<open>ProcArray\<close> (\<open>src/storage/ipc/proc.cpp\<close>, \<open>src/transaction/procarray.cpp\<close>): several processes
    take and return slots (\<open>proc_step\<close>); the array holds exactly the slots in use.
  \<^item> \<open>TwoPhase\<close> (\<open>src/transaction/twophase.cpp\<close>): the list of prepared transactions and its
    directory of text files agree after any run (\<open>tp_run\<close>).
  \<^item> \<open>Snapshots\<close>, \<open>Xact\<close> (\<open>src/transaction/snapshot.cpp\<close>, \<open>src/transaction/xact.cpp\<close>): the stack of
    (sub)transactions with all commands as the step relation \<open>xact_step\<close>; outcomes, savepoints and
    the well-formedness of the stack.
  \<^item> \<open>Visibility\<close> (\<open>include/transaction/heap_tuple.hpp\<close>, \<open>src/transaction/visibility.cpp\<close>): the
    checks with their hint bits agree with a declarative definition of visibility.
  \<^item> \<open>FreeSpaceMap\<close> (\<open>src/storage/freespace/\<close>): the array tree of a page and the map of a relation
    both find a slot with enough room (locale \<open>space_finder\<close>, interpreted on both).
  \<^item> \<open>BufPage\<close> (\<open>include/storage/bufpage.hpp\<close>, \<open>src/storage/buffer/bufpage.cpp\<close>): page header, line
    pointers and items under the invariant \<open>page_ok\<close>; insertion, deletion, defragmentation and
    overwriting on the abstract map from offset numbers to items.
  \<^item> \<open>Smgr\<close> (\<open>src/storage/smgr/smgr.cpp\<close>, \<open>src/storage/smgr/md.cpp\<close>): segment files and cached
    descriptors. A block that has been written is read back (locale \<open>block_store\<close>); extension,
    counting, truncation and removal of forks.
  \<^item> \<open>BufMgr\<close> (\<open>src/storage/buffer/bufmgr.cpp\<close>, \<open>src/storage/buffer/freelist.cpp\<close>): descriptors, the
    hash table with linear probing (locale \<open>tag_map\<close>), the clock sweep and the pool. Through any run
    of \<open>buf_step\<close> a reader finds the last content of its page, whatever has been evicted.
  \<^item> \<open>Numeric\<close>, \<open>NumericArith\<close>, \<open>NumericRound\<close>, \<open>NumericDiv\<close>, \<open>NumericText\<close>, \<open>NumericSpec\<close>
    (\<open>src/types/numeric.cpp\<close>): digit groups in base 10000 with the rational value \<open>nval\<close>;
    arithmetic, rounding, division and text form against that value.

  Each theory states the properties of its component after a text block that describes them. Besides
  correctness some of them say exactly where the code departs from what it means to do: a delete that
  is checked while it runs and is lost, an overwrite of a page item by a shorter one that moves its
  neighbour over it, quotients of numerics with stripped zero groups, the conversion of numerics to
  doubles, the number of blocks seen by a fresh relation entry, the truncation to a segment boundary,
  a hash table deletion that hides a dirty page, and the exact condition under which the clock sweep
  finds no victim.

  \<^bold>\<open>Bounds and fuel.\<close>
  Loops are structural recursion or functions with a termination proof, with two exceptions. The
  depth-first search of the deadlock detector is bounded by \<open>dfs_fuel\<close>, the number of nodes and edges
  of the graph, and is proved never to run out of it. The loop that collects the members of a multixact
  adds 8 to a 32-bit offset and would not end after a wrap-around; its fuel covers all runs without
  one, and the properties of the component show that it then returns. A waiting light-weight lock may
  wait forever by design; it is a step relation and has a progress property. The multiplication of
  numerics is exact while one operand has at most 21 groups, because its accumulators are 32-bit
  integers; the division is exact to a stated unit when two attempts at each digit are enough, which is
  a hypothesis of the property and is shown to fail for a concrete quotient. Transparency of the
  buffer pool is proved for pages whose hash slots differ, and shown to
  fail for two colliding pages when one of them is dropped.

  \<^bold>\<open>Not modelled.\<close>
  Within the modelled files: attaching to shared memory and its layout, reset functions that only tests
  call, \<open>fsync\<close>, directories and operating system errors other than a missing, existing or short
  file in the storage manager, the access strategy of the buffer manager, which nobody reads, the
  rounding of doubles in \<open>numeric_to_float8\<close>, and \<open>Float8ToNumeric\<close>, which prints a double with
  \<open>printf\<close>. Calls from transactions into the catalog and its caches are recorded in order and have
  no effect. Outside them: the write-ahead log and recovery, which replay through callbacks of the
  access methods; the access methods, the catalog and the commands, which are built on the modelled
  core but depend on comparison functions of the catalog; the parser, rewriter, optimizer, executor
  and PL/pgSQL, which work on trees of query nodes; the other data types, text search and regular
  expressions; the wire protocol, the server processes, replication, the client library and the tools,
  which are mostly input and output; the containers of \<open>src/lib\<close>, which no modelled component uses;
  and commit timestamps, invalidation messages and serializable conflict tracking.
\<close>

end
